(* ===== verification/YthtPrelude.thy ===== *)
theory YthtPrelude
  imports Main "HOL-Library.Word"
begin

text \<open>
  Shared vocabulary of the development.

  \<^item> Bytes and C strings: a byte is an \<open>8 word\<close>, a C string is the list of its bytes without
    the terminating NUL, and a block of memory or a file is the list of its bytes.
  \<^item> Little-endian integers as the x86 build of the code stores them (\<open>short\<close> is 16 bits,
    \<open>int\<close> is 32 bits, \<open>char\<close> is signed).
  \<^item> The C library functions on characters and strings the code calls, for the C locale.
  \<^item> Lemmas on descending lists that the article and read-mark components share.
\<close>

unbundle bit_operations_syntax

named_theorems brc_simps \<open>unfolding rules for the read-mark component\<close>
named_theorems hash_simps \<open>rules for the user hash table and its chains\<close>
named_theorems dir_simps \<open>rules for index files of fixed-size records\<close>

type_synonym byte = "8 word"
type_synonym cstr = "byte list"

section \<open>Characters and strings\<close>

definition lit :: "string \<Rightarrow> cstr" where
  "lit s = map of_char s"

lemma lit_Nil [simp]: "lit [] = []"
  by (simp add: lit_def)

lemma lit_Cons [simp]: "lit (c # s) = of_char c # lit s"
  by (simp add: lit_def)

lemma length_lit [simp]: "length (lit s) = length s"
  by (simp add: lit_def)

text \<open>\<open>isalpha\<close>, \<open>isdigit\<close>, \<open>toupper\<close> and \<open>tolower\<close> of the C locale.\<close>

definition isupper :: "byte \<Rightarrow> bool" where
  "isupper c \<longleftrightarrow> 65 \<le> c \<and> c \<le> 90"

definition islower :: "byte \<Rightarrow> bool" where
  "islower c \<longleftrightarrow> 97 \<le> c \<and> c \<le> 122"

definition isalpha :: "byte \<Rightarrow> bool" where
  "isalpha c \<longleftrightarrow> isupper c \<or> islower c"

definition isdigit :: "byte \<Rightarrow> bool" where
  "isdigit c \<longleftrightarrow> 48 \<le> c \<and> c \<le> 57"

definition isalnum :: "byte \<Rightarrow> bool" where
  "isalnum c \<longleftrightarrow> isalpha c \<or> isdigit c"

definition toupper :: "byte \<Rightarrow> byte" where
  "toupper c = (if islower c then c - 32 else c)"

definition tolower :: "byte \<Rightarrow> byte" where
  "tolower c = (if isupper c then c + 32 else c)"

text \<open>\<open>strcasecmp(a, b) == 0\<close> and \<open>strncasecmp(a, b, n) == 0\<close>.\<close>

definition strcaseeq :: "cstr \<Rightarrow> cstr \<Rightarrow> bool" where
  "strcaseeq a b \<longleftrightarrow> map tolower a = map tolower b"

definition strncaseeq :: "nat \<Rightarrow> cstr \<Rightarrow> cstr \<Rightarrow> bool" where
  "strncaseeq n a b \<longleftrightarrow> map tolower (take n a) = map tolower (take n b)"

definition strneq :: "nat \<Rightarrow> cstr \<Rightarrow> cstr \<Rightarrow> bool" where
  "strneq n a b \<longleftrightarrow> take n a = take n b"

lemma strcaseeq_refl [simp]: "strcaseeq a a"
  by (simp add: strcaseeq_def)

lemma strcaseeq_sym: "strcaseeq a b \<longleftrightarrow> strcaseeq b a"
  by (auto simp: strcaseeq_def)

lemma strcaseeq_trans: "strcaseeq a b \<Longrightarrow> strcaseeq b c \<Longrightarrow> strcaseeq a c"
  by (simp add: strcaseeq_def)

lemma strcaseeq_Nil [simp]: "strcaseeq a [] \<longleftrightarrow> a = []" "strcaseeq [] a \<longleftrightarrow> a = []"
  by (auto simp: strcaseeq_def)

text \<open>
  \<open>strncmp(mem, s, n) == 0\<close> where the first argument points into a block of memory that may end:
  \<open>None\<close> when the comparison would read past its end.
\<close>

fun strncmp_mem :: "nat \<Rightarrow> byte list \<Rightarrow> cstr \<Rightarrow> bool option" where
  "strncmp_mem 0 m s = Some True"
| "strncmp_mem (Suc n) [] s = None"
| "strncmp_mem (Suc n) (x # m) s =
     (let c = (case s of [] \<Rightarrow> 0 | d # _ \<Rightarrow> d) in
      if x \<noteq> c then Some False
      else if x = 0 then Some True
      else strncmp_mem n m (tl s))"

lemma strncmp_mem_cstr:
  "0 \<notin> set a \<Longrightarrow> 0 \<notin> set s \<Longrightarrow>
     strncmp_mem n (a @ 0 # rest) s = Some (take n a = take n s)"
proof (induction n arbitrary: a s)
  case (Suc n)
  show ?case
  proof (cases a)
    case Nil
    then show ?thesis using Suc.prems by (cases s) auto
  next
    case (Cons x a')
    then show ?thesis using Suc by (cases s) auto
  qed
qed simp

text \<open>The C string at the start of a block of memory, \<open>None\<close> when it has no terminator there.\<close>

definition cstr_at :: "byte list \<Rightarrow> cstr option" where
  "cstr_at m = (if 0 \<in> set m then Some (takeWhile (\<lambda>c. c \<noteq> 0) m) else None)"

lemma takeWhile_cstr:
  "0 \<notin> set s \<Longrightarrow> takeWhile (\<lambda>c. c \<noteq> (0::byte)) (s @ 0 # rest) = s"
  by (induction s) auto

lemma cstr_at_append: "0 \<notin> set s \<Longrightarrow> cstr_at (s @ 0 # rest) = Some s"
  by (simp add: cstr_at_def takeWhile_cstr)

section \<open>Little-endian integers\<close>

text \<open>The low \<open>n\<close> bytes of an integer, lowest first: what a store of \<open>n\<close> bytes writes.\<close>

primrec le_bytes :: "nat \<Rightarrow> int \<Rightarrow> byte list" where
  "le_bytes 0 x = []"
| "le_bytes (Suc n) x = word_of_int x # le_bytes n (x div 256)"

abbreviation le16 :: "int \<Rightarrow> byte list" where "le16 \<equiv> le_bytes 2"
abbreviation le24 :: "int \<Rightarrow> byte list" where "le24 \<equiv> le_bytes 3"
abbreviation le32 :: "int \<Rightarrow> byte list" where "le32 \<equiv> le_bytes 4"

text \<open>Unsigned value of a little-endian byte list.\<close>

fun le_val :: "byte list \<Rightarrow> int" where
  "le_val [] = 0"
| "le_val (b # bs) = uint b + 256 * le_val bs"

text \<open>The \<open>n\<close>-bit two's complement reading of an unsigned value.\<close>

definition to_signed :: "nat \<Rightarrow> int \<Rightarrow> int" where
  "to_signed n v = (if v < 2 ^ (n - 1) then v else v - 2 ^ n)"

definition rd_s16 :: "byte list \<Rightarrow> int" where
  "rd_s16 bs = to_signed 16 (le_val (take 2 bs))"

definition rd_s32 :: "byte list \<Rightarrow> int" where
  "rd_s32 bs = to_signed 32 (le_val (take 4 bs))"

lemma length_le_bytes [simp]: "length (le_bytes n x) = n"
  by (induction n arbitrary: x) auto

lemma uint_byte: "uint (word_of_int x :: byte) = x mod 256"
  by (simp add: uint_word_of_int)

lemma le_val_bounds: "0 \<le> le_val bs \<and> le_val bs < 256 ^ length bs"
proof (induction bs)
  case (Cons b bs)
  have "0 \<le> uint b" "uint b < 256"
    using uint_lt2p [of b] by simp_all
  with Cons show ?case by simp
qed simp

lemma le_val_le_bytes: "le_val (le_bytes n x) = x mod 256 ^ n"
proof (induction n arbitrary: x)
  case (Suc n)
  have "x mod (256 * 256 ^ n) = 256 * (x div 256 mod 256 ^ n) + x mod 256"
    by (rule zmod_zmult2_eq) simp
  with Suc show ?case by (simp add: uint_byte)
qed simp

lemma to_signed_mod:
  assumes "0 < n" "- (2 ^ (n - 1)) \<le> x" "x < 2 ^ (n - 1)"
  shows "to_signed n (x mod 2 ^ n) = x"
proof -
  have two: "(2::int) ^ n = 2 * 2 ^ (n - 1)"
    using assms(1) by (cases n) auto
  show ?thesis
  proof (cases "0 \<le> x")
    case True
    with assms two have "x mod 2 ^ n = x" by simp
    with assms show ?thesis by (simp add: to_signed_def)
  next
    case False
    have "x mod 2 ^ n = (x + 2 ^ n) mod 2 ^ n" by simp
    also have "\<dots> = x + 2 ^ n"
      by (rule mod_pos_pos_trivial) (use False assms two in linarith)+
    finally have "x mod 2 ^ n = x + 2 ^ n" .
    with assms two show ?thesis by (simp add: to_signed_def)
  qed
qed

lemma rd_s32_le32:
  "- 2147483648 \<le> x \<Longrightarrow> x < 2147483648 \<Longrightarrow> rd_s32 (le32 x @ rest) = x"
  using to_signed_mod [of 32 x] by (simp add: rd_s32_def le_val_le_bytes)

lemma rd_s16_le16:
  "- 32768 \<le> x \<Longrightarrow> x < 32768 \<Longrightarrow> rd_s16 (le16 x @ rest) = x"
  using to_signed_mod [of 16 x] by (simp add: rd_s16_def le_val_le_bytes)

section \<open>Strictly descending lists\<close>

abbreviation descending :: "int list \<Rightarrow> bool" where
  "descending xs \<equiv> sorted_wrt (\<lambda>x y. x > y) xs"

lemma descending_nth: "descending xs \<Longrightarrow> i < j \<Longrightarrow> j < length xs \<Longrightarrow> xs ! j < xs ! i"
  by (simp add: sorted_wrt_iff_nth_less)

lemma descending_last_le:
  "descending xs \<Longrightarrow> x \<in> set xs \<Longrightarrow> last xs \<le> x"
proof (induction xs)
  case (Cons y xs)
  show ?case
  proof (cases "xs = []")
    case False
    with Cons show ?thesis
      by (metis last_ConsR last_in_set list.set_cases order.refl order_less_imp_le
          set_ConsD sorted_wrt.simps(2))
  qed (use Cons in simp)
qed simp

lemma descending_butlast: "descending xs \<Longrightarrow> descending (butlast xs)"
  by (cases xs rule: rev_cases) (auto simp: sorted_wrt_append)

lemma descending_take: "descending xs \<Longrightarrow> descending (take n xs)"
  by (rule sorted_wrt_take)

end
