(* ===== verification/BrcList.thy ===== *)
theory BrcList
  imports YthtPrelude
begin

text \<open>
  The in-memory read marks of one board: \<open>struct onebrc\<close> and the operations on its cursor and
  list in \<open>libythtbbs/boardrc.c\<close>.  The list holds the times of the newest articles the user has
  read, in strictly descending order; everything older than its last entry counts as read.
  \<open>unread_spec\<close> is that meaning; the lemmas show that the cursor search computes it from any
  cursor position and that every operation keeps the order.
\<close>

definition BRC_MAXNUM :: nat where
  "BRC_MAXNUM = 60"

definition BRC_STRLEN :: nat where
  "BRC_STRLEN = 15"

text \<open>
  \<open>num\<close> and \<open>cur\<close> are \<open>short\<close> fields that no operation makes negative; \<open>blist\<close> is the whole array
  of \<open>BRC_MAXNUM\<close> entries, of which the first \<open>num\<close> are in use.
\<close>

record onebrc =
  num :: nat
  cur :: nat
  changed :: bool
  board :: cstr
  blist :: "int list"
  notetime :: int

definition ents :: "onebrc \<Rightarrow> int list" where
  "ents b = take (num b) (blist b)"

text \<open>The loop of \<open>shorter_brc\<close> that drops the trailing run of consecutive times.\<close>

fun shorter_loop :: "int list \<Rightarrow> nat \<Rightarrow> nat \<Rightarrow> nat" where
  "shorter_loop l n 0 = n"
| "shorter_loop l n (Suc i) =
     (if l ! i - l ! Suc i = 1 then shorter_loop l (n - 1) i else n)"

definition shorter_brc :: "onebrc \<Rightarrow> onebrc" where
  "shorter_brc b =
     (if num b < 2 then b
      else let l = blist b;
               n = (if l ! 0 \<ge> 2 \<and> l ! (num b - 1) = 1 \<and> l ! (num b - 2) = 2
                    then num b - 1 else num b)
           in b\<lparr>num := shorter_loop l n (n - 1)\<rparr>)"

text \<open>The two search loops of \<open>brc_locate\<close>: the new cursor and whether the time was found.\<close>

function locate_fwd :: "int list \<Rightarrow> nat \<Rightarrow> nat \<Rightarrow> int \<Rightarrow> nat \<times> bool" where
  "locate_fwd l n c t =
     (if c < n
      then if t = l ! c then (c, True)
           else if t > l ! c then (c, False)
           else locate_fwd l n (Suc c) t
      else (c, False))"
  by pat_completeness auto
termination
  by (relation "measure (\<lambda>(l, n, c, t). n - c)") auto

declare locate_fwd.simps [simp del]

fun locate_back :: "int list \<Rightarrow> nat \<Rightarrow> int \<Rightarrow> nat \<times> bool" where
  "locate_back l 0 t = (0, False)"
| "locate_back l (Suc c) t =
     (if t < l ! c then (Suc c, False)
      else if t = l ! c then (c, True)
      else locate_back l c t)"

definition brc_locate :: "onebrc \<Rightarrow> int \<Rightarrow> onebrc \<times> bool" where
  "brc_locate b t =
     (if num b = 0 then (b\<lparr>cur := 0\<rparr>, False)
      else let c = (if cur b \<ge> num b then num b - 1 else cur b);
               (c', found) = (if t \<le> blist b ! c then locate_fwd (blist b) (num b) c t
                              else locate_back (blist b) c t)
           in (b\<lparr>cur := c'\<rparr>, found))"

definition brc_insert :: "onebrc \<Rightarrow> int \<Rightarrow> onebrc" where
  "brc_insert b t =
     (let n = (if num b < BRC_MAXNUM then Suc (num b) else num b);
          c = cur b; l = blist b
      in if c \<ge> n then b\<lparr>num := n\<rparr>
         else b\<lparr>num := n, changed := True,
                blist := take c l @ t # take (n - c - 1) (drop c l) @ drop n l\<rparr>)"

definition brc_set :: "onebrc \<Rightarrow> int \<Rightarrow> onebrc" where
  "brc_set b t =
     (if num b \<noteq> 0 \<and> cur b \<ge> num b then b
      else b\<lparr>changed := True, blist := (blist b)[cur b := t], num := cur b + 1\<rparr>)"

definition brc_unreadt :: "onebrc \<Rightarrow> int \<Rightarrow> onebrc \<times> bool" where
  "brc_unreadt b t =
     (let (b', found) = brc_locate b t
      in if found then (b', False)
         else if num b' = 0 then (b', True)
         else (b', cur b' < num b'))"

definition brc_addlistt :: "onebrc \<Rightarrow> int \<Rightarrow> onebrc" where
  "brc_addlistt b t =
     (let (b', u) = brc_unreadt b t in if u then brc_insert b' t else b')"

definition brc_clearto :: "onebrc \<Rightarrow> int \<Rightarrow> onebrc" where
  "brc_clearto b t = brc_set (fst (brc_locate b t)) t"

section \<open>Meaning and invariant\<close>

definition unread_spec :: "int list \<Rightarrow> int \<Rightarrow> bool" where
  "unread_spec es t \<longleftrightarrow> es = [] \<or> (t \<notin> set es \<and> last es < t)"

definition wf_brc :: "onebrc \<Rightarrow> bool" where
  "wf_brc b \<longleftrightarrow> length (blist b) = BRC_MAXNUM \<and> num b \<le> BRC_MAXNUM \<and> descending (ents b)"

text \<open>The position at which a time belongs in a descending list.\<close>

definition slot :: "int list \<Rightarrow> int \<Rightarrow> nat" where
  "slot es t = length (takeWhile (\<lambda>x. t < x) es)"

lemma length_ents: "wf_brc b \<Longrightarrow> length (ents b) = num b"
  by (simp add: wf_brc_def ents_def)

lemma ents_nth: "c < num b \<Longrightarrow> ents b ! c = blist b ! c"
  by (simp add: ents_def)

lemma slot_le: "slot es t \<le> length es"
  by (simp add: slot_def length_takeWhile_le)

lemma slot_unique:
  assumes "c \<le> length es" "\<And>i. i < c \<Longrightarrow> t < es ! i" "c < length es \<Longrightarrow> es ! c \<le> t"
  shows "slot es t = c"
proof -
  have "takeWhile (\<lambda>x. t < x) es = take c es"
  proof (rule takeWhile_eq_take_P_nth)
    show "t < es ! i" if "i < c" "i < length es" for i
      using assms(2) that by blast
    show "\<not> t < es ! c" if "c < length es"
      using assms(3) that by force
  qed
  with assms(1) show ?thesis by (simp add: slot_def)
qed

lemma slot_nth_less: "i < slot es t \<Longrightarrow> t < es ! i"
  unfolding slot_def by (metis nth_mem set_takeWhileD takeWhile_nth)

lemma slot_nth_ge: "slot es t < length es \<Longrightarrow> es ! slot es t \<le> t"
  unfolding slot_def using nth_length_takeWhile [of "\<lambda>x. t < x" es] by auto

lemma slot_mem:
  assumes "descending es" "t \<in> set es"
  shows "slot es t < length es" "es ! slot es t = t"
proof -
  from assms(2) obtain i where i: "i < length es" "es ! i = t"
    by (auto simp: in_set_conv_nth)
  have "slot es t = i"
    by (rule slot_unique) (use i descending_nth [OF assms(1)] in auto)
  with i show "slot es t < length es" "es ! slot es t = t" by simp_all
qed

lemma slot_notmem: "t \<notin> set es \<Longrightarrow> slot es t < length es \<Longrightarrow> es ! slot es t < t"
  using slot_nth_ge [of es t] nth_mem [of "slot es t" es] by (metis le_less)

lemma slot_less_iff:
  assumes "descending es" "es \<noteq> []"
  shows "slot es t < length es \<longleftrightarrow> last es \<le> t"
proof
  assume "slot es t < length es"
  then have "es ! slot es t \<in> set es" "es ! slot es t \<le> t"
    by (auto simp: slot_nth_ge)
  with assms(1) show "last es \<le> t"
    using descending_last_le by force
next
  assume le: "last es \<le> t"
  show "slot es t < length es"
  proof (rule ccontr)
    assume "\<not> slot es t < length es"
    then have "length es - 1 < slot es t" using assms(2) slot_le [of es t] by simp
    then have "t < es ! (length es - 1)" by (rule slot_nth_less)
    with le assms(2) show False by (simp add: last_conv_nth)
  qed
qed

section \<open>The cursor search finds the slot from any position\<close>

lemma locate_fwd_slot:
  assumes "descending (take n l)" "n \<le> length l" "c \<le> slot (take n l) t"
  shows "locate_fwd l n c t = (slot (take n l) t, t \<in> set (take n l))"
  using assms
proof (induction l n c t rule: locate_fwd.induct)
  case (1 l n c t)
  let ?es = "take n l"
  consider "c = slot ?es t" "c < n" | "c = slot ?es t" "\<not> c < n" | "c < slot ?es t"
    using 1 by linarith
  then show ?case
  proof cases
    case a: 1
    have "?es ! c \<le> t" using a 1 slot_nth_ge [of ?es t] by simp
    moreover have "t \<in> set ?es \<longleftrightarrow> t = l ! c"
      using slot_mem(2) [OF "1.prems"(1), of t] a "1.prems" nth_mem [of c ?es] by fastforce
    ultimately show ?thesis using a "1.prems" by (subst locate_fwd.simps) auto
  next
    case a: 2
    then have "t \<notin> set ?es" using slot_mem(1) [OF "1.prems"(1), of t] 1 by auto
    with a show ?thesis by (subst locate_fwd.simps) simp
  next
    case a: 3
    then have "t < ?es ! c" by (rule slot_nth_less)
    moreover have "c < n" using a slot_le [of ?es t] 1 by simp
    ultimately show ?thesis using a 1 by (simp add: locate_fwd.simps [of l n c t])
  qed
qed

lemma locate_back_slot:
  assumes "descending (take n l)" "n \<le> length l" "c \<le> n" "slot (take n l) t \<le> c"
    "\<And>i. c \<le> i \<Longrightarrow> i < n \<Longrightarrow> l ! i < t"
  shows "locate_back l c t = (slot (take n l) t, t \<in> set (take n l))"
  using assms
proof (induction l c t rule: locate_back.induct)
  case (1 l t)
  then show ?case by (force simp: in_set_conv_nth)
next
  case (2 l c t)
  let ?es = "take n l"
  show ?case
  proof (cases "t < l ! c")
    case True
    have "slot ?es t = Suc c"
      using slot_nth_ge [of ?es t] descending_nth [OF "2.prems"(1), of "slot ?es t" c] True 2
      by (cases "slot ?es t = Suc c") (auto simp: le_Suc_eq, fastforce)
    moreover have "t \<notin> set ?es"
      using slot_mem [OF "2.prems"(1), of t] calculation "2.prems"(5) by force
    ultimately show ?thesis using True by simp
  next
    case False
    have s: "slot ?es t \<le> c"
      using False 2 slot_nth_less [of c ?es t] by (cases "slot ?es t = Suc c") auto
    show ?thesis
    proof (cases "t = l ! c")
      case True
      then have "t \<in> set ?es" using 2 by (metis in_set_conv_nth length_take less_eq_Suc_le
            min.absorb2 nth_take)
      moreover from this have "slot ?es t = c"
        using slot_mem [OF "2.prems"(1)] True s 2
        by (metis descending_nth less_irrefl less_eq_Suc_le linorder_neqE_nat nth_take
            length_take min.absorb2)
      ultimately show ?thesis using True by simp
    next
      case neq: False
      have "l ! i < t" if "c \<le> i" "i < n" for i
        using that neq False 2 by (cases "c = i") auto
      then show ?thesis using neq False 2 s by simp
    qed
  qed
qed

lemma brc_locate_slot:
  assumes "wf_brc b"
  shows "brc_locate b t = (b\<lparr>cur := slot (ents b) t\<rparr>, t \<in> set (ents b))"
proof (cases "num b = 0")
  case True
  then show ?thesis by (simp add: brc_locate_def ents_def slot_def)
next
  case False
  let ?c = "if cur b \<ge> num b then num b - 1 else cur b" and ?l = "blist b" and ?n = "num b"
  have wf: "descending (take ?n ?l)" "?n \<le> length ?l"
    using assms by (auto simp: wf_brc_def ents_def)
  have c: "?c < ?n" using False by auto
  show ?thesis
  proof (cases "t \<le> ?l ! ?c")
    case True
    have "?c \<le> slot (take ?n ?l) t"
    proof (rule ccontr)
      assume n: "\<not> ?c \<le> slot (take ?n ?l) t"
      then have "take ?n ?l ! ?c < take ?n ?l ! slot (take ?n ?l) t"
        using descending_nth [OF wf(1), of _ ?c] c wf(2) by auto
      moreover have "take ?n ?l ! slot (take ?n ?l) t \<le> t"
        using n c wf(2) by (intro slot_nth_ge) auto
      ultimately show False using True c by auto
    qed
    from locate_fwd_slot [OF wf this] True False show ?thesis
      by (simp add: brc_locate_def ents_def)
  next
    case f: False
    have lt: "?l ! i < t" if "?c \<le> i" "i < ?n" for i
      using f that descending_nth [OF wf(1), of ?c i] wf(2) by (cases "?c = i") auto
    have "slot (take ?n ?l) t \<le> ?c"
      using slot_nth_less [of ?c "take ?n ?l" t] lt [of ?c] c by force
    from locate_back_slot [OF wf _ this lt] c f False show ?thesis
      by (simp add: brc_locate_def ents_def)
  qed
qed


lemmas brc_defs = brc_locate_def brc_insert_def brc_set_def brc_unreadt_def brc_addlistt_def
  brc_clearto_def shorter_brc_def

lemma found_or_last: "descending es \<Longrightarrow> es \<noteq> [] \<Longrightarrow>
    unread_spec es t \<longleftrightarrow> t \<notin> set es \<and> slot es t < length es"
  using slot_less_iff [of es t] last_in_set [of es]
  by (cases "last es = t") (auto simp: unread_spec_def)

lemma brc_unreadt_slot:
  assumes "wf_brc b"
  shows "brc_unreadt b t = (b\<lparr>cur := slot (ents b) t\<rparr>, unread_spec (ents b) t)"
proof (cases "num b = 0")
  case True
  then show ?thesis
    using brc_locate_slot [OF assms, of t] by (simp add: brc_unreadt_def ents_def unread_spec_def)
next
  case False
  have d: "descending (ents b)" using assms by (simp add: wf_brc_def)
  have ne: "ents b \<noteq> []" using False length_ents [OF assms] by auto
  show ?thesis
    using False brc_locate_slot [OF assms, of t] found_or_last [OF d ne, of t] length_ents [OF assms]
    by (auto simp: brc_unreadt_def)
qed

section \<open>Marking an article read\<close>

text \<open>The list after a time is put at its slot, cut at \<open>BRC_MAXNUM\<close> entries.\<close>

lemma take_ins:
  "length xs = c \<Longrightarrow> length ys = k \<Longrightarrow> take (c + Suc k) (xs @ t # ys @ zs) = xs @ t # ys"
  by simp

definition mark :: "int list \<Rightarrow> int \<Rightarrow> int list" where
  "mark es t = take BRC_MAXNUM (take (slot es t) es @ t # drop (slot es t) es)"

lemma ents_addlistt:
  assumes "wf_brc b"
  shows "ents (brc_addlistt b t) =
     (if unread_spec (ents b) t then mark (ents b) t else ents b)"
proof (cases "unread_spec (ents b) t")
  case True
  let ?c = "slot (ents b) t" and ?l = "blist b"
  let ?n = "if num b < BRC_MAXNUM then Suc (num b) else num b"
  have len: "length ?l = BRC_MAXNUM" "num b \<le> BRC_MAXNUM" "length (ents b) = num b"
    using assms by (auto simp: wf_brc_def ents_def)
  have c: "?c < ?n" "?c \<le> num b"
  proof -
    show le: "?c \<le> num b" using slot_le [of "ents b" t] len by simp
    show "?c < ?n"
    proof (cases "ents b = []")
      case True
      with le len show ?thesis by (simp add: BRC_MAXNUM_def)
    next
      case False
      then show ?thesis
        using True assms found_or_last [of "ents b" t] len by (simp add: wf_brc_def)
    qed
  qed
  let ?k = "?n - ?c - 1"
  have k: "?n = ?c + Suc ?k" "?k \<le> num b - ?c" using c by auto
  have lens: "length (take ?c ?l) = ?c" "length (take ?k (drop ?c ?l)) = ?k"
    using c len by auto
  have "take ?n (take ?c ?l @ t # take ?k (drop ?c ?l) @ drop ?n ?l)
        = take ?c ?l @ t # take ?k (drop ?c ?l)"
    by (rule take_ins [OF lens, of t "drop ?n ?l", folded k(1)])
  also have "\<dots> = take ?c (ents b) @ t # take ?k (drop ?c (ents b))"
    using c k(2) by (simp add: ents_def drop_take)
  also have "take ?c (ents b) @ t # take ?k (drop ?c (ents b))
        = take ?n (take ?c (ents b) @ t # drop ?c (ents b))"
  proof -
    have "length (take ?c (ents b)) = ?c" "length (take ?k (drop ?c (ents b))) = ?k"
      using c len k by auto
    from take_ins [OF this, of t "drop ?k (drop ?c (ents b))", folded k(1)] show ?thesis
      by (simp only: append_take_drop_id)
  qed
  also have "\<dots> = mark (ents b) t"
    using c len by (auto simp: mark_def)
  finally have "take ?n (take ?c ?l @ t # take ?k (drop ?c ?l) @ drop ?n ?l) = mark (ents b) t" .
  then show ?thesis
    using True c brc_unreadt_slot [OF assms, of t]
    by (auto simp: brc_addlistt_def brc_insert_def ents_def Let_def)
next
  case False
  then show ?thesis
    using brc_unreadt_slot [OF assms, of t] by (simp add: brc_addlistt_def ents_def)
qed


lemma slot_split_less: "x \<in> set (take (slot es t) es) \<Longrightarrow> t < x"
  by (auto simp: in_set_conv_nth slot_nth_less)

lemma slot_split_greater:
  assumes "descending es" "t \<notin> set es" "x \<in> set (drop (slot es t) es)"
  shows "x < t"
proof -
  from assms(3) obtain j where j: "j < length es - slot es t" "x = es ! (slot es t + j)"
    by (auto simp: in_set_conv_nth)
  then have "es ! slot es t < t" using slot_notmem [OF assms(2)] by simp
  moreover have "slot es t + j < length es" using j(1) by simp
  then have "x \<le> es ! slot es t"
    using descending_nth [OF assms(1), of "slot es t" "slot es t + j"] j(2) by (cases "j = 0") auto
  ultimately show ?thesis by simp
qed

lemma descending_insert:
  assumes "descending es" "t \<notin> set es"
  shows "descending (take (slot es t) es @ t # drop (slot es t) es)"
proof -
  have "descending (take (slot es t) es @ drop (slot es t) es)" using assms(1) by simp
  then show ?thesis
    using slot_split_less [of _ es t] slot_split_greater [OF assms]
    by (auto simp: sorted_wrt_append simp del: append_take_drop_id)
qed

lemma descending_mark: "descending es \<Longrightarrow> t \<notin> set es \<Longrightarrow> descending (mark es t)"
  unfolding mark_def by (intro descending_take descending_insert)

lemma mark_unread_iff:
  assumes "descending es" "es \<noteq> []" "unread_spec es t" "length es \<le> BRC_MAXNUM"
  shows "unread_spec (mark es t) t' \<longleftrightarrow>
      t' \<noteq> t \<and> unread_spec es t' \<and> last (mark es t) < t'"
proof -
  let ?full = "take (slot es t) es @ t # drop (slot es t) es"
  have nt: "t \<notin> set es" and lt: "last es < t" using assms(2,3) by (auto simp: unread_spec_def)
  have set_full: "set ?full = insert t (set es)"
    by (metis (no_types) Un_insert_right append_take_drop_id list.simps(15) set_append)
  have d: "descending ?full" using assms(1) nt by (rule descending_insert)
  have ne: "mark es t \<noteq> []" by (simp add: mark_def BRC_MAXNUM_def del: take_append)
  have lower: "t' \<in> set (mark es t)" if "t' \<in> set ?full" "last (mark es t) < t'"
  proof (rule ccontr)
    assume n: "t' \<notin> set (mark es t)"
    have "t' \<in> set (take BRC_MAXNUM ?full) \<union> set (drop BRC_MAXNUM ?full)"
      using that(1) by (metis append_take_drop_id set_append)
    with n have "t' \<in> set (drop BRC_MAXNUM ?full)" by (auto simp: mark_def)
    moreover have "last (mark es t) \<in> set (take BRC_MAXNUM ?full)"
      using ne last_in_set [of "mark es t"] by (simp add: mark_def)
    moreover have "descending (take BRC_MAXNUM ?full @ drop BRC_MAXNUM ?full)"
      using d by (simp only: append_take_drop_id)
    ultimately have "t' < last (mark es t)" unfolding sorted_wrt_append by blast
    with that(2) show False by simp
  qed
  have sub: "set (mark es t) \<subseteq> set ?full" unfolding mark_def by (rule set_take_subset)
  have "last es \<le> last (mark es t)"
    using descending_last_le [OF assms(1)] last_in_set [OF ne] sub set_full lt by force
  then show ?thesis
    using ne assms(2) lower sub set_full by (auto simp: unread_spec_def)
qed

lemma mark_last_small:
  assumes "descending es" "es \<noteq> []" "unread_spec es t" "length es < BRC_MAXNUM"
  shows "last (mark es t) = last es"
proof -
  have d: "slot es t < length es"
    using assms found_or_last [of es t] by simp
  have "mark es t = take (slot es t) es @ t # drop (slot es t) es"
    using assms(4) d by (simp add: mark_def)
  with d show ?thesis by (simp add: last_drop)
qed

section \<open>Shortening the list\<close>

lemma unread_spec_drop_last:
  assumes "descending (es @ [x, y])" "x - y = 1"
  shows "unread_spec (es @ [x]) t \<longleftrightarrow> unread_spec (es @ [x, y]) t"
  using assms by (auto simp: unread_spec_def sorted_wrt_append)

lemma shorter_step:
  assumes "descending (take n l)" "n \<le> length l" "n \<ge> 2" "l ! (n - 2) - l ! (n - 1) = 1"
  shows "unread_spec (take (n - 1) l) t \<longleftrightarrow> unread_spec (take n l) t"
proof -
  obtain m where n: "n = Suc (Suc m)" using assms(3) by (metis add_2_eq_Suc le_Suc_ex)
  have t1: "take (Suc m) l = take m l @ [l ! m]" using assms(2) n by (simp add: take_Suc_conv_app_nth)
  moreover have t2: "take n l = take m l @ [l ! m, l ! Suc m]"
    using assms(2) n by (simp add: take_Suc_conv_app_nth)
  ultimately show ?thesis
    using unread_spec_drop_last [of "take m l" "l ! m" "l ! Suc m" t] assms(1,4) n by simp
qed

lemma shorter_loop_spec:
  assumes "descending (take (Suc i) l)" "Suc i \<le> length l"
  shows "shorter_loop l (Suc i) i \<le> Suc i \<and> 0 < shorter_loop l (Suc i) i
     \<and> unread_spec (take (shorter_loop l (Suc i) i) l) t = unread_spec (take (Suc i) l) t"
  using assms
proof (induction i)
  case (Suc i)
  have d: "descending (take (Suc i) l)"
    using descending_take [OF Suc.prems(1), of "Suc i"] by (simp add: min_def)
  show ?case
  proof (cases "l ! i - l ! Suc i = 1")
    case True
    have "unread_spec (take (Suc i) l) t = unread_spec (take (Suc (Suc i)) l) t"
      using shorter_step [OF Suc.prems, of t] True by simp
    with Suc.IH [OF d] Suc.prems True show ?thesis by force
  qed simp
qed simp

lemma shorter_brc_num:
  assumes "wf_brc b"
  shows "num (shorter_brc b) \<le> num b" "num b \<noteq> 0 \<Longrightarrow> num (shorter_brc b) \<noteq> 0"
    "unread_spec (ents (shorter_brc b)) t = unread_spec (ents b) t"
proof -
  have "num (shorter_brc b) \<le> num b \<and> (num b \<noteq> 0 \<longrightarrow> num (shorter_brc b) \<noteq> 0) \<and>
     unread_spec (ents (shorter_brc b)) t = unread_spec (ents b) t"
  proof (cases "num b < 2")
    case True
    then show ?thesis by (simp add: shorter_brc_def)
  next
    case False
    let ?l = "blist b" and ?n = "num b"
    let ?special = "?l ! 0 \<ge> 2 \<and> ?l ! (?n - 1) = 1 \<and> ?l ! (?n - 2) = 2"
    let ?m = "if ?special then ?n - 1 else ?n"
    have wf: "descending (take ?n ?l)" "?n \<le> length ?l"
      using assms by (auto simp: wf_brc_def ents_def)
    obtain i where i: "?m = Suc i" using False by (cases ?m) (auto split: if_splits)
    have d: "descending (take (Suc i) ?l)"
      using descending_take [OF wf(1), of "Suc i"] i by (simp add: min_def split: if_splits)
    have "unread_spec (take ?m ?l) t = unread_spec (take ?n ?l) t"
      using shorter_step [OF wf, of t] False by auto
    moreover have "Suc i \<le> ?n" using i by (auto split: if_splits)
    moreover have "shorter_brc b = b\<lparr>num := shorter_loop ?l (Suc i) i\<rparr>"
      using False i by (simp add: shorter_brc_def Let_def)
    ultimately show ?thesis
      using shorter_loop_spec [OF d, of t] wf i False by (auto simp: ents_def)
  qed
  then show "num (shorter_brc b) \<le> num b" "num b \<noteq> 0 \<Longrightarrow> num (shorter_brc b) \<noteq> 0"
    "unread_spec (ents (shorter_brc b)) t = unread_spec (ents b) t" by auto
qed

lemma shorter_brc_frame:
  "blist (shorter_brc b) = blist b" "board (shorter_brc b) = board b"
  "notetime (shorter_brc b) = notetime b" "cur (shorter_brc b) = cur b"
  "changed (shorter_brc b) = changed b"
  by (simp_all add: shorter_brc_def Let_def)

section \<open>The invariant is kept\<close>

lemma wf_brc_shorter: "wf_brc b \<Longrightarrow> wf_brc (shorter_brc b)"
  using shorter_brc_num(1) [of b] descending_take [of "ents b" "num (shorter_brc b)"]
  by (auto simp: wf_brc_def ents_def shorter_brc_frame min_def)

lemma wf_brc_addlistt:
  assumes "wf_brc b"
  shows "wf_brc (brc_addlistt b t)"
proof -
  have "length (blist (brc_addlistt b t)) = BRC_MAXNUM \<and> num (brc_addlistt b t) \<le> BRC_MAXNUM"
    using assms brc_unreadt_slot [OF assms, of t] slot_le [of "ents b" t] length_ents [OF assms]
    by (auto simp: wf_brc_def brc_addlistt_def brc_insert_def Let_def)
  moreover have "descending (ents (brc_addlistt b t))"
    using assms by (auto simp: ents_addlistt wf_brc_def unread_spec_def
        intro!: descending_mark split: if_splits)
  ultimately show ?thesis by (simp add: wf_brc_def)
qed

lemma ents_clearto:
  assumes "wf_brc b"
  shows "ents (brc_clearto b t) =
    (if num b \<noteq> 0 \<and> slot (ents b) t = num b then ents b else take (slot (ents b) t) (ents b) @ [t])"
proof -
  have "slot (ents b) t \<le> num b" using slot_le [of "ents b" t] length_ents [OF assms] by simp
  moreover have "length (blist b) = BRC_MAXNUM" "num b \<le> BRC_MAXNUM"
    using assms by (auto simp: wf_brc_def)
  ultimately show ?thesis
    using brc_locate_slot [OF assms, of t]
    by (auto simp: brc_clearto_def brc_set_def ents_def take_Suc_conv_app_nth BRC_MAXNUM_def min_def)
qed

lemma wf_brc_clearto:
  assumes "wf_brc b"
  shows "wf_brc (brc_clearto b t)"
proof -
  have "slot (ents b) t \<le> num b" using slot_le [of "ents b" t] length_ents [OF assms] by simp
  then have "length (blist (brc_clearto b t)) = BRC_MAXNUM \<and> num (brc_clearto b t) \<le> BRC_MAXNUM"
    using assms brc_locate_slot [OF assms, of t]
    by (auto simp: wf_brc_def brc_clearto_def brc_set_def BRC_MAXNUM_def)
  moreover have "descending (ents (brc_clearto b t))"
    using assms descending_take [of "ents b"] slot_split_less [of _ "ents b" t]
    by (auto simp: ents_clearto wf_brc_def sorted_wrt_append)
  ultimately show ?thesis by (simp add: wf_brc_def)
qed

lemma wf_brc_unreadt: "wf_brc b \<Longrightarrow> wf_brc (fst (brc_unreadt b t))"
  by (simp add: brc_unreadt_slot wf_brc_def ents_def)

section \<open>Properties of the read marks\<close>

text \<open>A list of three times as an example.\<close>

definition three_brc :: onebrc where
  "three_brc = \<lparr>num = 3, cur = 2, changed = False, board = lit ''test'',
                 blist = [30, 20, 10] @ replicate 57 0, notetime = 0\<rparr>"

lemma three_brc_wf: "wf_brc three_brc"
  by (simp add: three_brc_def wf_brc_def ents_def BRC_MAXNUM_def)

text \<open>
  C2: \<open>brc_unreadt\<close> answers the meaning of the list (the time is newer than the oldest time kept and
  not in the list) from any cursor position, and changes nothing but the cursor.
\<close>

theorem brc_unreadt_correct:
  assumes "wf_brc b"
  shows "snd (brc_unreadt (b\<lparr>cur := c\<rparr>) t) = unread_spec (ents b) t
     \<and> (\<exists>c'. fst (brc_unreadt (b\<lparr>cur := c\<rparr>) t) = b\<lparr>cur := c'\<rparr> \<and> c' \<le> num b)"
proof -
  have w: "wf_brc (b\<lparr>cur := c\<rparr>)" "ents (b\<lparr>cur := c\<rparr>) = ents b"
    using assms by (simp_all add: wf_brc_def ents_def)
  show ?thesis
    using brc_unreadt_slot [OF w(1), of t] slot_le [of "ents b" t] length_ents [OF assms]
    by (auto simp: w(2))
qed

lemma brc_unreadt_correct_witness:
  "snd (brc_unreadt (three_brc\<lparr>cur := 1\<rparr>) 25) \<and> \<not> snd (brc_unreadt (three_brc\<lparr>cur := 0\<rparr>) 20)"
  using brc_unreadt_correct [OF three_brc_wf, of 1 25] brc_unreadt_correct [OF three_brc_wf, of 0 20]
  by (simp add: unread_spec_def ents_def three_brc_def)

text \<open>
  C3: \<open>brc_addlistt\<close> keeps the list well formed and marks exactly the given time read; other
  articles keep their state, except that a full list forgets its oldest time, which counts
  everything down to the new oldest one as read.
\<close>

theorem brc_addlistt_marks:
  assumes "wf_brc b" "num b \<noteq> 0"
  shows "wf_brc (brc_addlistt b t)
     \<and> (unread_spec (ents (brc_addlistt b t)) t' \<longleftrightarrow>
          t' \<noteq> t \<and> unread_spec (ents b) t' \<and> last (ents (brc_addlistt b t)) < t')
     \<and> (num b < BRC_MAXNUM \<longrightarrow> last (ents (brc_addlistt b t)) = last (ents b))"
proof -
  have e: "ents b \<noteq> []" "length (ents b) = num b" "descending (ents b)" "num b \<le> BRC_MAXNUM"
    using assms length_ents [OF assms(1)] by (auto simp: wf_brc_def)
  show ?thesis
  proof (cases "unread_spec (ents b) t")
    case True
    then show ?thesis
      using mark_unread_iff [OF e(3,1) True, of t'] mark_last_small [OF e(3,1) True] e
        wf_brc_addlistt [OF assms(1)] by (simp add: ents_addlistt [OF assms(1)])
  next
    case False
    then show ?thesis
      using wf_brc_addlistt [OF assms(1)] e(1)
      by (auto simp: ents_addlistt [OF assms(1)] unread_spec_def)
  qed
qed

lemma brc_addlistt_marks_witness:
  "\<not> unread_spec (ents (brc_addlistt three_brc 25)) 25 \<and> wf_brc (brc_addlistt three_brc 25)"
  using brc_addlistt_marks [OF three_brc_wf, of 25 25] by (simp add: three_brc_def)

text \<open>
  \<open>brc_clearto\<close> marks everything up to the given time read and leaves everything newer as it
  was.
\<close>

theorem brc_clearto_marks:
  assumes "wf_brc b"
  shows "wf_brc (brc_clearto b t)
     \<and> (unread_spec (ents (brc_clearto b t)) t' \<longleftrightarrow> unread_spec (ents b) t' \<and> t < t')"
proof -
  have len: "length (ents b) = num b" and d: "descending (ents b)"
    using assms length_ents [OF assms] by (auto simp: wf_brc_def)
  show ?thesis
  proof (cases "num b \<noteq> 0 \<and> slot (ents b) t = num b")
    case True
    then have "ents b \<noteq> []" using len by auto
    then have "t < last (ents b)" using slot_less_iff [OF d, of t] True len by auto
    then show ?thesis
      using True \<open>ents b \<noteq> []\<close> wf_brc_clearto [OF assms]
      by (auto simp: ents_clearto [OF assms] unread_spec_def)
  next
    case False
    have "unread_spec (take (slot (ents b) t) (ents b) @ [t]) t' \<longleftrightarrow> unread_spec (ents b) t' \<and> t < t'"
    proof (cases "num b = 0")
      case True
      then show ?thesis using len by (auto simp: unread_spec_def)
    next
      case nz: False
      then have "ents b \<noteq> []" using len by auto
      then have lt: "last (ents b) \<le> t" "slot (ents b) t < length (ents b)"
        using nz False slot_less_iff [OF d, of t] slot_le [of "ents b" t] len by auto
      have "t' \<in> set (ents b) \<longleftrightarrow> t' \<in> set (take (slot (ents b) t) (ents b))" if "t < t'"
      proof
        assume "t' \<in> set (ents b)"
        then obtain i where i: "i < length (ents b)" "ents b ! i = t'" by (auto simp: in_set_conv_nth)
        have "i < slot (ents b) t"
          using descending_nth [OF d, of "slot (ents b) t" i] slot_nth_ge [OF lt(2)] i that lt(2)
          by (cases "i = slot (ents b) t") force+
        with i lt(2) show "t' \<in> set (take (slot (ents b) t) (ents b))"
          by (auto simp: in_set_conv_nth)
      qed (auto dest: in_set_takeD)
      then show ?thesis using lt nz len by (auto simp: unread_spec_def)
    qed
    then show ?thesis
      using False wf_brc_clearto [OF assms] by (simp only: ents_clearto [OF assms] if_False)
  qed
qed

lemma brc_clearto_marks_witness:
  "\<not> unread_spec (ents (brc_clearto three_brc 25)) 22 \<and> unread_spec (ents (brc_clearto three_brc 25)) 26"
  using brc_clearto_marks [OF three_brc_wf, of 25 22] brc_clearto_marks [OF three_brc_wf, of 25 26]
  by (simp add: unread_spec_def ents_def three_brc_def)

end
