(* ===== verification/BrcPack.thy ===== *)
theory BrcPack
  imports BrcList
begin

text \<open>
  The packed form of the read marks: \<open>struct onebrc_c\<close>, \<open>compress_brc\<close>, \<open>uncompress_brc\<close> and the
  query on the packed form \<open>brc_c_unreadt\<close> of \<open>libythtbbs/boardrc.c\<close> (the \<open>NEEDALIGN = 0\<close> build).
  A packed block is the byte string of the struct: two length bytes, then the used part of
  \<open>data\<close>.  A reader gets the memory from the start of the block on; it answers \<open>None\<close> when it
  would read past the end of that memory or overflow the caller's \<open>struct onebrc\<close>.
\<close>

section \<open>Packing\<close>

text \<open>
  One difference between neighbouring times: the bytes stored and the two selector bits.  The
  three-byte case copies the low bytes of the \<open>int\<close>; the first test \<open>diff < 256\<close> also takes
  negative differences.
\<close>

definition enc_diff :: "int \<Rightarrow> byte list" where
  "enc_diff d = (if d < 256 then le_bytes 1 d
                 else if d < 256 * 256 then le16 d
                 else if d < 256 * 256 * 256 then le24 d
                 else le32 d)"

definition enc_bits :: "int \<Rightarrow> nat \<Rightarrow> byte \<Rightarrow> byte" where
  "enc_bits d i b = (if d < 256 then b
                     else if d < 256 * 256 then b OR push_bit (i mod 4) 1
                     else if d < 256 * 256 * 256 then b OR push_bit (i mod 4 + 4) 1
                     else (b OR push_bit (i mod 4) 1) OR push_bit (i mod 4 + 4) 1)"

text \<open>The loop over the differences: the bit area and the difference bytes written so far.\<close>

fun pack_loop :: "int list \<Rightarrow> nat \<Rightarrow> nat \<Rightarrow> byte list \<Rightarrow> byte list \<Rightarrow> byte list \<times> byte list" where
  "pack_loop l i 0 bits out = (bits, out)"
| "pack_loop l i (Suc k) bits out =
     (let d = l ! i - l ! Suc i in
      pack_loop l (Suc i) k (bits[i div 4 := enc_bits d i (bits ! (i div 4))]) (out @ enc_diff d))"

definition bits_len :: "nat \<Rightarrow> nat" where
  "bits_len n = ((n - 1) * 2 + 7) div 8"

definition pack_data :: "onebrc \<Rightarrow> byte list" where
  "pack_data b =
     (let (bits, out) = pack_loop (blist b) 0 (num b - 1) (replicate (bits_len (num b)) 0) []
      in board b @ [0] @ [word_of_nat (num b)] @ le32 (blist b ! 0) @ bits @ out
         @ (if notetime b \<noteq> 0 then le32 (notetime b) else []))"

text \<open>The block: \<open>len\<close> is the distance from the start of the struct to the end of the data.\<close>

definition compress_brc :: "onebrc \<Rightarrow> byte list" where
  "compress_brc b = (let d = pack_data b in le16 (int (2 + length d)) @ d)"

section \<open>Unpacking\<close>

text \<open>Take \<open>n\<close> bytes from the front, \<open>None\<close> when the memory ends first.\<close>

definition grab :: "nat \<Rightarrow> byte list \<Rightarrow> (byte list \<times> byte list) option" where
  "grab n m = (if n \<le> length m then Some (take n m, drop n m) else None)"

definition sel_lo :: "byte list \<Rightarrow> nat \<Rightarrow> bool" where
  "sel_lo bits i = bit (bits ! (i div 4)) (i mod 4)"

definition sel_hi :: "byte list \<Rightarrow> nat \<Rightarrow> bool" where
  "sel_hi bits i = bit (bits ! (i div 4)) (i mod 4 + 4)"

definition dec_diff :: "byte list \<Rightarrow> nat \<Rightarrow> byte list \<Rightarrow> (int \<times> byte list) option" where
  "dec_diff bits i m =
     (let n = (if \<not> sel_hi bits i then if \<not> sel_lo bits i then 1 else 2
               else if \<not> sel_lo bits i then 3 else 4)
      in case grab n m of
           None \<Rightarrow> None
         | Some (v, m') \<Rightarrow> Some (if n = 4 then rd_s32 v else le_val v, m'))"

text \<open>The loop of \<open>uncompress_brc\<close> writes \<open>list[i + 1]\<close>, an array of \<open>BRC_MAXNUM\<close> entries.\<close>

fun unpack_loop :: "byte list \<Rightarrow> nat \<Rightarrow> nat \<Rightarrow> int list \<Rightarrow> byte list \<Rightarrow> (int list \<times> byte list) option"
where
  "unpack_loop bits i 0 l m = Some (l, m)"
| "unpack_loop bits i (Suc k) l m =
     (case dec_diff bits i m of
        None \<Rightarrow> None
      | Some (d, m') \<Rightarrow>
          if Suc i < length l then unpack_loop bits (Suc i) k (l[Suc i := l ! i - d]) m' else None)"

text \<open>
  Both readers start alike: the name, the count and the first time.  \<open>m\<close> is the memory from the
  start of the struct.
\<close>

definition read_head :: "byte list \<Rightarrow> (cstr \<times> nat \<times> int \<times> byte list) option" where
  "read_head m =
     (case cstr_at (drop 2 m) of
        None \<Rightarrow> None
      | Some name \<Rightarrow>
         (case grab 1 (drop (2 + length name + 1) m) of
            None \<Rightarrow> None
          | Some (c, m1) \<Rightarrow>
              (case grab 4 m1 of
                 None \<Rightarrow> None
               | Some (t0, m2) \<Rightarrow> Some (name, unat (hd c AND 127), rd_s32 t0, m2))))"

text \<open>
  \<open>uncompress_brc\<close> leaves \<open>cur\<close> as it was.  The trailing time is there when the data read so far
  ends before the block does (\<open>ptr - brc_c < len\<close>).
\<close>

definition uncompress_brc :: "onebrc \<Rightarrow> byte list \<Rightarrow> onebrc option" where
  "uncompress_brc b m =
     (case read_head m of
        None \<Rightarrow> None
      | Some (name, n, t0, m2) \<Rightarrow>
         if BRC_STRLEN \<le> length name then None
         else (case grab (bits_len n) m2 of
                 None \<Rightarrow> None
               | Some (bits, m3) \<Rightarrow>
                  (case unpack_loop bits 0 (n - 1) ((blist b)[0 := t0]) m3 of
                     None \<Rightarrow> None
                   | Some (l, m4) \<Rightarrow>
                       let b' = b\<lparr>changed := False, board := name, num := n, blist := l\<rparr> in
                       if int (length m - length m4) < rd_s16 m
                       then (case grab 4 m4 of
                               None \<Rightarrow> None
                             | Some (v, _) \<Rightarrow> Some (b'\<lparr>notetime := rd_s32 v\<rparr>))
                       else Some (b'\<lparr>notetime := 0\<rparr>))))"

fun quick_loop :: "byte list \<Rightarrow> nat \<Rightarrow> nat \<Rightarrow> int \<Rightarrow> int \<Rightarrow> byte list \<Rightarrow> bool option" where
  "quick_loop bits i 0 h t m = Some False"
| "quick_loop bits i (Suc k) h t m =
     (case dec_diff bits i m of
        None \<Rightarrow> None
      | Some (d, m') \<Rightarrow>
          let h' = h - d in
          if t > h' then Some True
          else if t = h' then Some False
          else quick_loop bits (Suc i) k h' t m')"

definition brc_c_unreadt :: "byte list \<Rightarrow> int \<Rightarrow> bool option" where
  "brc_c_unreadt m t =
     (case read_head m of
        None \<Rightarrow> None
      | Some (name, n, t0, m2) \<Rightarrow>
          if t > t0 then Some True
          else if t = t0 then Some False
          else (case grab (bits_len n) m2 of
                  None \<Rightarrow> None
                | Some (bits, m3) \<Rightarrow> quick_loop bits 0 (n - 1) t0 t m3))"

section \<open>The selector bits\<close>

definition need_lo :: "int \<Rightarrow> bool" where
  "need_lo d \<longleftrightarrow> 256 \<le> d \<and> d < 65536 \<or> 16777216 \<le> d"

definition need_hi :: "int \<Rightarrow> bool" where
  "need_hi d \<longleftrightarrow> 65536 \<le> d"

lemma bit_or_push: "p < 8 \<Longrightarrow> bit (b OR 2 ^ p :: byte) q \<longleftrightarrow> bit b q \<or> q = p"
  by (auto simp: bit_or_iff bit_exp_iff)

lemma bit_enc_bits_lo:
  "bit (enc_bits d i b) (q mod 4) \<longleftrightarrow> bit b (q mod 4) \<or> (need_lo d \<and> q mod 4 = i mod 4)"
proof -
  have "i mod 4 < 4" "q mod 4 < 4" by simp_all
  then show ?thesis
    by (auto simp: enc_bits_def need_lo_def bit_or_push)
qed

lemma bit_enc_bits_hi:
  "bit (enc_bits d i b) (q mod 4 + 4) \<longleftrightarrow> bit b (q mod 4 + 4) \<or> (need_hi d \<and> q mod 4 = i mod 4)"
proof -
  have "i mod 4 < 4" "q mod 4 < 4" by simp_all
  then show ?thesis
    by (auto simp: enc_bits_def need_hi_def bit_or_push)
qed

lemma same_cell: "i div 4 = j div 4 \<Longrightarrow> i mod 4 = j mod 4 \<Longrightarrow> i = (j::nat)"
  by (metis div_mult_mod_eq)

lemma sel_update:
  assumes "i div 4 < length bits"
  shows "sel_lo (bits[i div 4 := enc_bits d i (bits ! (i div 4))]) j
           \<longleftrightarrow> sel_lo bits j \<or> (j = i \<and> need_lo d)"
    and "sel_hi (bits[i div 4 := enc_bits d i (bits ! (i div 4))]) j
           \<longleftrightarrow> sel_hi bits j \<or> (j = i \<and> need_hi d)"
  using assms same_cell [of i j]
  by (cases "i div 4 = j div 4"; auto simp: sel_lo_def sel_hi_def bit_enc_bits_lo bit_enc_bits_hi)+

abbreviation diff_at :: "int list \<Rightarrow> nat \<Rightarrow> int" where
  "diff_at l j \<equiv> l ! j - l ! Suc j"

definition diff_bytes :: "int list \<Rightarrow> nat \<Rightarrow> nat \<Rightarrow> byte list" where
  "diff_bytes l i k = concat (map (\<lambda>j. enc_diff (diff_at l j)) [i..<i + k])"

lemma diff_bytes_0 [simp]: "diff_bytes l i 0 = []"
  by (simp add: diff_bytes_def)

lemma diff_bytes_Suc:
  "diff_bytes l i (Suc k) = enc_diff (diff_at l i) @ diff_bytes l (Suc i) k"
proof -
  have "[i..<i + Suc k] = i # [Suc i..<Suc i + k]" by (simp add: upt_conv_Cons)
  then show ?thesis by (simp only: diff_bytes_def list.map concat.simps)
qed

lemma pack_loop_out:
  "snd (pack_loop l i k bits out) = out @ diff_bytes l i k"
  by (induction l i k bits out rule: pack_loop.induct) (auto simp: diff_bytes_Suc Let_def)

lemma pack_loop_length: "length (fst (pack_loop l i k bits out)) = length bits"
  by (induction l i k bits out rule: pack_loop.induct) (auto simp: Let_def)

lemma pack_loop_sel:
  assumes "i + k \<le> 4 * length bits"
  shows "sel_lo (fst (pack_loop l i k bits out)) j
           \<longleftrightarrow> sel_lo bits j \<or> (i \<le> j \<and> j < i + k \<and> need_lo (diff_at l j))"
    and "sel_hi (fst (pack_loop l i k bits out)) j
           \<longleftrightarrow> sel_hi bits j \<or> (i \<le> j \<and> j < i + k \<and> need_hi (diff_at l j))"
proof -
  have "(sel_lo (fst (pack_loop l i k bits out)) j
           \<longleftrightarrow> sel_lo bits j \<or> (i \<le> j \<and> j < i + k \<and> need_lo (diff_at l j)))
      \<and> (sel_hi (fst (pack_loop l i k bits out)) j
           \<longleftrightarrow> sel_hi bits j \<or> (i \<le> j \<and> j < i + k \<and> need_hi (diff_at l j)))"
    using assms
  proof (induction l i k bits out rule: pack_loop.induct)
    case (2 l i k bits out)
    have "i div 4 < length bits" using "2.prems" by simp
    note up = sel_update [OF this, of "diff_at l i" j]
    have "Suc i + k \<le> 4 * length (bits[i div 4 := enc_bits (diff_at l i) i (bits ! (i div 4))])"
      using "2.prems" by simp
    note IH = "2.IH" [OF refl this]
    have "i \<le> j \<and> j < i + Suc k \<longleftrightarrow> j = i \<or> (Suc i \<le> j \<and> j < Suc i + k)" by auto
    with IH up show ?case by (auto simp: Let_def)
  qed auto
  then show "sel_lo (fst (pack_loop l i k bits out)) j
           \<longleftrightarrow> sel_lo bits j \<or> (i \<le> j \<and> j < i + k \<and> need_lo (diff_at l j))"
    and "sel_hi (fst (pack_loop l i k bits out)) j
           \<longleftrightarrow> sel_hi bits j \<or> (i \<le> j \<and> j < i + k \<and> need_hi (diff_at l j))" by auto
qed

section \<open>Unpacking what was packed\<close>

lemma grab_append: "length a = n \<Longrightarrow> grab n (a @ m) = Some (a, m)"
  by (simp add: grab_def)

text \<open>The times an \<open>int\<close> can hold whose differences do not overflow.\<close>

definition small_times :: "int list \<Rightarrow> bool" where
  "small_times l \<longleftrightarrow> (\<forall>x \<in> set l. 0 \<le> x \<and> x < 2147483648)"

lemma small_times_take: "small_times l \<Longrightarrow> small_times (take n l)"
  by (auto simp: small_times_def dest: in_set_takeD)

definition fits :: "int list \<Rightarrow> nat \<Rightarrow> nat \<Rightarrow> bool" where
  "fits l i k \<longleftrightarrow> (\<forall>j. i \<le> j \<and> j < i + k \<longrightarrow> 0 \<le> diff_at l j \<and> diff_at l j < 2147483648)"

definition selects :: "byte list \<Rightarrow> int list \<Rightarrow> nat \<Rightarrow> nat \<Rightarrow> bool" where
  "selects bits l i k \<longleftrightarrow> (\<forall>j. i \<le> j \<and> j < i + k \<longrightarrow>
     sel_lo bits j = need_lo (diff_at l j) \<and> sel_hi bits j = need_hi (diff_at l j))"

lemma range_Suc: "i \<le> j \<and> j < i + Suc k \<longleftrightarrow> j = i \<or> (Suc i \<le> j \<and> j < Suc i + k)"
  for i j k :: nat
  by auto

lemma fits_Suc: "fits l i (Suc k) \<longleftrightarrow> 0 \<le> diff_at l i \<and> diff_at l i < 2147483648 \<and> fits l (Suc i) k"
  unfolding fits_def range_Suc by blast

lemma selects_Suc: "selects bits l i (Suc k) \<longleftrightarrow>
    sel_lo bits i = need_lo (diff_at l i) \<and> sel_hi bits i = need_hi (diff_at l i)
    \<and> selects bits l (Suc i) k"
  unfolding selects_def range_Suc by blast

lemma dec_enc_diff:
  assumes "sel_lo bits i = need_lo d" "sel_hi bits i = need_hi d" "0 \<le> d" "d < 2147483648"
  shows "dec_diff bits i (enc_diff d @ m) = Some (d, m)"
proof -
  have four: "rd_s32 (le32 d) = d" using rd_s32_le32 [of d "[]"] assms by simp
  consider "d < 256" | "256 \<le> d" "d < 65536" | "65536 \<le> d" "d < 16777216" | "16777216 \<le> d"
    by linarith
  then show ?thesis
  proof cases
    case 1
    then show ?thesis using assms
      by (simp add: dec_diff_def enc_diff_def need_lo_def need_hi_def grab_append le_val_le_bytes
          del: le_bytes.simps)
  next
    case 2
    then show ?thesis using assms
      by (simp add: dec_diff_def enc_diff_def need_lo_def need_hi_def grab_append le_val_le_bytes)
  next
    case 3
    then show ?thesis using assms
      by (simp add: dec_diff_def enc_diff_def need_lo_def need_hi_def grab_append le_val_le_bytes)
  next
    case 4
    then show ?thesis using assms four
      by (simp add: dec_diff_def enc_diff_def need_lo_def need_hi_def grab_append)
  qed
qed

lemma unpack_loop_diff_bytes:
  assumes "fits l i k" "selects bits l i k" "i + k < length l'" "length l = length l'"
    "take (Suc i) l' = take (Suc i) l"
  shows "unpack_loop bits i k l' (diff_bytes l i k @ m)
           = Some (take (Suc (i + k)) l @ drop (Suc (i + k)) l', m)"
  using assms
proof (induction k arbitrary: i l')
  case 0
  then show ?case by (metis add_0_right append_Nil append_take_drop_id diff_bytes_0 unpack_loop.simps(1))
next
  case (Suc k)
  let ?d = "diff_at l i" and ?l = "l'[Suc i := l' ! i - diff_at l i]"
  have li: "l' ! i = l ! i" using Suc.prems(5) by (metis lessI nth_take)
  have dec: "dec_diff bits i (enc_diff ?d @ diff_bytes l (Suc i) k @ m) = Some (?d, diff_bytes l (Suc i) k @ m)"
    using Suc.prems by (intro dec_enc_diff) (auto simp: fits_Suc selects_Suc)
  have "take (Suc (Suc i)) ?l = take (Suc (Suc i)) l"
    using Suc.prems li by (simp add: take_Suc_conv_app_nth)
  then have "unpack_loop bits (Suc i) k ?l (diff_bytes l (Suc i) k @ m)
      = Some (take (Suc (Suc i + k)) l @ drop (Suc (Suc i + k)) ?l, m)"
    using Suc.prems by (intro Suc.IH) (auto simp: fits_Suc selects_Suc)
  then show ?case
    using dec Suc.prems by (simp add: diff_bytes_Suc)
qed

lemma unread_spec_Cons:
  "es \<noteq> [] \<Longrightarrow> t < x \<Longrightarrow> unread_spec (x # es) t = unread_spec es t"
  by (auto simp: unread_spec_def)

lemma unread_spec_first:
  assumes "descending (h # es)"
  shows "h < t \<Longrightarrow> unread_spec (h # es) t" "t = h \<Longrightarrow> \<not> unread_spec (h # es) t"
  using assms descending_last_le [OF assms, of h] by (auto simp: unread_spec_def)

lemma quick_loop_diff_bytes:
  assumes "fits l i k" "selects bits l i k" "i + k < length l"
    "descending (take (Suc (i + k)) l)" "t < l ! i"
  shows "quick_loop bits i k (l ! i) t (diff_bytes l i k @ m)
           = Some (unread_spec (take (Suc k) (drop i l)) t)"
  using assms
proof (induction k arbitrary: i)
  case 0
  then have "take (Suc 0) (drop i l) = [l ! i]" by (simp add: take_Suc hd_drop_conv_nth)
  with 0 show ?case by (simp add: unread_spec_def)
next
  case (Suc k)
  let ?d = "diff_at l i" and ?es = "take (Suc k) (drop (Suc i) l)"
  have dec: "dec_diff bits i (enc_diff ?d @ diff_bytes l (Suc i) k @ m) = Some (?d, diff_bytes l (Suc i) k @ m)"
    using Suc.prems by (intro dec_enc_diff) (auto simp: fits_Suc selects_Suc)
  have es: "take (Suc (Suc k)) (drop i l) = l ! i # ?es"
    using Suc.prems(3) by (metis Cons_nth_drop_Suc add_lessD1 take_Suc_Cons)
  have ne: "?es \<noteq> []" using Suc.prems(3) by simp
  obtain es' where es': "?es = l ! Suc i # es'"
    using Suc.prems(3) by (metis Cons_nth_drop_Suc add_Suc_right add_lessD1 add_Suc take_Suc_Cons)
  have "drop (Suc i) (take (Suc (i + Suc k)) l) = ?es"
    by (simp add: drop_take)
  then have "descending ?es" using Suc.prems(4) by (metis sorted_wrt_drop)
  note first = unread_spec_first [of "l ! Suc i" es' t, folded es', OF this]
  have IH: "quick_loop bits (Suc i) k (l ! Suc i) t (diff_bytes l (Suc i) k @ m) = Some (unread_spec ?es t)"
    if "t < l ! Suc i"
    using Suc.prems that by (intro Suc.IH) (auto simp: fits_Suc selects_Suc)
  show ?case
    using dec first IH unread_spec_Cons [OF ne Suc.prems(5)]
    by (auto simp: diff_bytes_Suc es Let_def)
qed

section \<open>Whole blocks\<close>

definition wf_pack :: "onebrc \<Rightarrow> bool" where
  "wf_pack b \<longleftrightarrow> wf_brc b \<and> num b \<noteq> 0 \<and> 0 \<notin> set (board b) \<and> length (board b) < BRC_STRLEN
     \<and> small_times (ents b) \<and> - 2147483648 \<le> notetime b \<and> notetime b < 2147483648"

definition pack_bits :: "onebrc \<Rightarrow> byte list" where
  "pack_bits b = fst (pack_loop (blist b) 0 (num b - 1) (replicate (bits_len (num b)) 0) [])"

definition pack_note :: "onebrc \<Rightarrow> byte list" where
  "pack_note b = (if notetime b \<noteq> 0 then le32 (notetime b) else [])"

lemma pack_data_layout:
  "pack_data b = board b @ 0 # word_of_nat (num b) # le32 (blist b ! 0) @ pack_bits b
      @ diff_bytes (blist b) 0 (num b - 1) @ pack_note b"
  using pack_loop_out [of "blist b" 0 "num b - 1" "replicate (bits_len (num b)) 0" "[]"]
  by (simp add: pack_data_def pack_bits_def pack_note_def case_prod_unfold)

lemma bits_len_enough: "n - 1 \<le> 4 * bits_len n"
  by (simp add: bits_len_def)

lemma length_pack_bits [simp]: "length (pack_bits b) = bits_len (num b)"
  by (simp add: pack_bits_def pack_loop_length)

lemma selects_pack_bits: "selects (pack_bits b) (blist b) 0 (num b - 1)"
proof -
  let ?z = "replicate (bits_len (num b)) (0 :: byte)"
  have z: "\<not> sel_lo ?z j \<and> \<not> sel_hi ?z j" if "j < num b - 1" for j
    using that bits_len_enough [of "num b"] by (simp add: sel_lo_def sel_hi_def)
  show ?thesis
    using pack_loop_sel [of 0 "num b - 1" ?z "blist b" "[]"] bits_len_enough [of "num b"] z
    by (auto simp: selects_def pack_bits_def)
qed

lemma length_enc_diff: "length (enc_diff d) \<le> 4"
  by (simp add: enc_diff_def)

lemma length_diff_bytes: "length (diff_bytes l i k) \<le> 4 * k"
proof (induction k arbitrary: i)
  case (Suc k)
  from Suc.IH [of "Suc i"] show ?case
    using length_enc_diff [of "diff_at l i"] by (simp add: diff_bytes_Suc)
qed simp

lemma length_pack_data:
  assumes "num b \<le> BRC_MAXNUM" "length (board b) < BRC_STRLEN"
  shows "length (pack_data b) \<le> 275"
proof -
  have "bits_len (num b) \<le> 15"
    using assms(1) by (simp add: bits_len_def BRC_MAXNUM_def)
  moreover have "length (diff_bytes (blist b) 0 (num b - 1)) \<le> 236"
    using length_diff_bytes [of "blist b" 0 "num b - 1"] assms(1) by (simp add: BRC_MAXNUM_def)
  moreover have "length (pack_note b) \<le> 4" by (simp add: pack_note_def)
  ultimately show ?thesis
    using assms(2) by (simp add: pack_data_layout BRC_STRLEN_def)
qed

lemma length_compress: "length (compress_brc b) = 2 + length (pack_data b)"
  by (simp add: compress_brc_def Let_def)

lemma rd_len_compress:
  assumes "num b \<le> BRC_MAXNUM" "length (board b) < BRC_STRLEN"
  shows "rd_s16 (compress_brc b @ m) = int (length (compress_brc b))"
  using length_pack_data [OF assms]
  by (simp add: compress_brc_def Let_def rd_s16_le16 del: le_bytes.simps of_nat_add)

lemma count_byte:
  assumes "n \<le> BRC_MAXNUM"
  shows "unat (word_of_nat n AND (127 :: byte)) = n"
proof -
  have "(word_of_nat n :: byte) AND 127 = take_bit 7 (word_of_nat n)"
    by (simp only: take_bit_eq_mask) (simp add: mask_eq_exp_minus_1)
  then have "unat (word_of_nat n AND (127 :: byte)) = take_bit 7 (unat (word_of_nat n :: byte))"
    by (simp only: unsigned_take_bit_eq)
  then show ?thesis
    using assms by (simp add: unsigned_of_nat take_bit_eq_mod BRC_MAXNUM_def)
qed

lemma wf_pack_facts:
  assumes "wf_pack b"
  shows "fits (blist b) 0 (num b - 1)" "num b \<le> length (blist b)"
    "0 \<le> blist b ! 0" "blist b ! 0 < 2147483648"
    "ents b = blist b ! 0 # drop 1 (ents b)"
proof -
  have len: "num b \<le> length (blist b)" "num b \<noteq> 0" "descending (ents b)" "length (ents b) = num b"
    using assms by (auto simp: wf_pack_def wf_brc_def ents_def)
  have small: "0 \<le> blist b ! j \<and> blist b ! j < 2147483648" if "j < num b" for j
    using assms that len nth_mem [of j "ents b"] by (auto simp: wf_pack_def small_times_def ents_def)
  show "fits (blist b) 0 (num b - 1)"
    unfolding fits_def
  proof (intro allI impI)
    fix j assume "0 \<le> j \<and> j < 0 + (num b - 1)"
    then have j: "Suc j < num b" by simp
    then have "ents b ! Suc j < ents b ! j"
      using descending_nth [OF len(3), of j "Suc j"] len by simp
    then show "0 \<le> diff_at (blist b) j \<and> diff_at (blist b) j < 2147483648"
      using small [of j] small [of "Suc j"] j by (simp add: ents_def)
  qed
  show "num b \<le> length (blist b)" by (rule len)
  show "0 \<le> blist b ! 0" "blist b ! 0 < 2147483648" using small [of 0] len by auto
  show "ents b = blist b ! 0 # drop 1 (ents b)"
    using len by (cases "blist b"; cases "num b") (auto simp: ents_def)
qed

lemma read_head_compress:
  assumes "wf_pack b"
  shows "read_head (compress_brc b @ m) =
    Some (board b, num b, blist b ! 0, pack_bits b @ diff_bytes (blist b) 0 (num b - 1) @ pack_note b @ m)"
proof -
  have nz: "0 \<notin> set (board b)" and n: "num b \<le> BRC_MAXNUM"
    using assms by (auto simp: wf_pack_def wf_brc_def)
  have c: "compress_brc b @ m = le16 (int (2 + length (pack_data b))) @ board b @ 0 #
      word_of_nat (num b) # le32 (blist b ! 0) @ pack_bits b
      @ diff_bytes (blist b) 0 (num b - 1) @ pack_note b @ m"
    by (simp add: compress_brc_def Let_def pack_data_layout del: le_bytes.simps)
  have t0: "rd_s32 (le32 (blist b ! 0)) = blist b ! 0"
    using rd_s32_le32 [of "blist b ! 0" "[]"] wf_pack_facts [OF assms] by simp
  show ?thesis
    unfolding c read_head_def
    using nz count_byte [OF n] t0
    by (simp add: cstr_at_append grab_append grab_def del: le_bytes.simps of_nat_add)
qed

lemma uncompress_compress:
  assumes "wf_pack b" "length (blist b0) = BRC_MAXNUM"
  shows "uncompress_brc b0 (compress_brc b @ m) =
    Some (b0\<lparr>changed := False, board := board b, num := num b,
             blist := ents b @ drop (num b) (blist b0), notetime := notetime b\<rparr>)"
proof -
  note f = wf_pack_facts [OF assms(1)]
  have p: "num b \<noteq> 0" "length (board b) < BRC_STRLEN" "num b \<le> BRC_MAXNUM"
      "length (blist b) = BRC_MAXNUM"
    using assms(1) by (auto simp: wf_pack_def wf_brc_def)
  let ?l = "blist b" and ?k = "num b - 1"
  have "take (Suc 0) ((blist b0)[0 := ?l ! 0]) = take (Suc 0) ?l"
    using assms(2) p by (cases "blist b0"; cases ?l) (auto simp: BRC_MAXNUM_def)
  then have loop: "unpack_loop (pack_bits b) 0 ?k ((blist b0)[0 := ?l ! 0])
      (diff_bytes ?l 0 ?k @ pack_note b @ m)
      = Some (ents b @ drop (num b) (blist b0), pack_note b @ m)"
    using unpack_loop_diff_bytes [OF f(1) selects_pack_bits, of "(blist b0)[0 := ?l ! 0]" "pack_note b @ m"]
      assms(2) p by (simp add: ents_def)
  have len: "length (compress_brc b) - length (pack_note b) + length (pack_note b) = length (compress_brc b)"
    by (simp add: length_compress pack_data_layout)
  have note_t: "notetime b \<noteq> 0 \<Longrightarrow> rd_s32 (le32 (notetime b)) = notetime b"
    using rd_s32_le32 [of "notetime b" "[]"] assms(1) by (simp add: wf_pack_def)
  show ?thesis
    using read_head_compress [OF assms(1), of m] p loop rd_len_compress [OF p(3,2), of m] note_t len
    by (auto simp: uncompress_brc_def grab_append pack_note_def Let_def simp del: le_bytes.simps)
qed

lemma brc_c_unreadt_compress:
  assumes "wf_pack b"
  shows "brc_c_unreadt (compress_brc b @ m) t = Some (unread_spec (ents b) t)"
proof -
  note f = wf_pack_facts [OF assms]
  have p: "num b \<noteq> 0" "descending (ents b)"
    using assms by (auto simp: wf_pack_def wf_brc_def)
  have q: "quick_loop (pack_bits b) 0 (num b - 1) (blist b ! 0) t
      (diff_bytes (blist b) 0 (num b - 1) @ pack_note b @ m) = Some (unread_spec (ents b) t)"
    if "t < blist b ! 0"
    using quick_loop_diff_bytes [OF f(1) selects_pack_bits _ _ that] f(2) p by (simp add: ents_def)
  have first: "blist b ! 0 < t \<Longrightarrow> unread_spec (ents b) t" "t = blist b ! 0 \<Longrightarrow> \<not> unread_spec (ents b) t"
    using unread_spec_first [of "blist b ! 0" "drop 1 (ents b)" t, folded f(5), OF p(2)] by auto
  show ?thesis
    using read_head_compress [OF assms, of m] q first
    by (auto simp: brc_c_unreadt_def grab_append)
qed

section \<open>Properties of the packed form\<close>

definition packable_brc :: onebrc where
  "packable_brc = \<lparr>num = 3, cur = 0, changed = False, board = lit ''test'',
                 blist = [1200000000, 1100000500, 1100000200] @ replicate 57 0, notetime = 7\<rparr>"

lemma packable_brc_wf: "wf_pack packable_brc"
  by (simp add: wf_pack_def wf_brc_def packable_brc_def ents_def BRC_MAXNUM_def BRC_STRLEN_def
      small_times_def)

text \<open>
  C4: Packing loses nothing: \<open>uncompress_brc\<close> of what \<open>compress_brc\<close> wrote, whatever follows it in
  memory, gives back the board, the times in use and the note time; the packed block fits the 282
  bytes of \<open>struct onebrc_c\<close>.
\<close>

theorem pack_roundtrip:
  assumes "wf_pack b" "length (blist b0) = BRC_MAXNUM"
  shows "length (compress_brc b) \<le> 277
     \<and> (\<exists>b'. uncompress_brc b0 (compress_brc b @ m) = Some b' \<and> ents b' = ents b
          \<and> num b' = num b \<and> board b' = board b \<and> notetime b' = notetime b \<and> \<not> changed b')"
proof -
  have "wf_brc b" "length (board b) < BRC_STRLEN" using assms(1) by (auto simp: wf_pack_def)
  then show ?thesis
    using uncompress_compress [OF assms, of m] length_pack_data [of b] length_ents [of b]
    by (simp add: length_compress wf_brc_def ents_def)
qed

lemma pack_roundtrip_witness:
  "\<exists>b'. uncompress_brc packable_brc (compress_brc packable_brc @ [1, 2, 3]) = Some b'
     \<and> ents b' = [1200000000, 1100000500, 1100000200] \<and> notetime b' = 7"
  using pack_roundtrip [OF packable_brc_wf, of packable_brc "[1, 2, 3]"]
  by (auto simp: packable_brc_def ents_def BRC_MAXNUM_def)

text \<open>
  The query on the packed form (\<open>brc_c_unreadt\<close>) gives the same answer as unpacking the block
  and asking \<open>brc_unreadt\<close>.
\<close>

theorem quick_query_agrees:
  assumes "wf_pack b" "length (blist b0) = BRC_MAXNUM"
  shows "\<exists>b'. uncompress_brc b0 (compress_brc b @ m) = Some b'
     \<and> brc_c_unreadt (compress_brc b @ m) t = Some (snd (brc_unreadt b' t))"
proof -
  let ?b = "b0\<lparr>changed := False, board := board b, num := num b,
             blist := ents b @ drop (num b) (blist b0), notetime := notetime b\<rparr>"
  have w: "wf_brc b" using assms(1) by (simp add: wf_pack_def)
  then have "ents ?b = ents b" "wf_brc ?b"
    using length_ents [OF w] assms(2) by (auto simp: ents_def wf_brc_def)
  then show ?thesis
    using uncompress_compress [OF assms, of m] brc_c_unreadt_compress [OF assms(1), of m t]
      brc_unreadt_slot [of ?b t] by simp
qed

lemma quick_query_agrees_witness:
  "\<exists>b'. uncompress_brc packable_brc (compress_brc packable_brc @ []) = Some b'
     \<and> brc_c_unreadt (compress_brc packable_brc @ []) 1100000501 = Some (snd (brc_unreadt b' 1100000501))"
  using quick_query_agrees [OF packable_brc_wf, of packable_brc "[]" 1100000501]
  by (simp add: packable_brc_def BRC_MAXNUM_def)

end
