(* ===== verification/BrcStore.thy ===== *)
theory BrcStore
  imports BrcPack
begin

text \<open>
  The file of all read marks of one user: \<open>struct allbrc\<close> and its operations in
  \<open>libythtbbs/boardrc.c\<close>.  The array \<open>brc_c\<close> holds the packed blocks one after the other, \<open>size\<close>
  bytes of it are in use and the bytes behind them are what earlier operations left there.  Every
  operation answers \<open>None\<close> where the code would leave the array or never return.
  \<open>blk\<close>/\<open>store_rep\<close> relate the array to the list of named blocks it stands for, and the locale
  \<open>block_store\<close> states what the board operations need of it.
\<close>

definition BRC_MAXSIZE :: nat where
  "BRC_MAXSIZE = 28672"

definition BRC_MAXSIZE_GUEST :: nat where
  "BRC_MAXSIZE_GUEST = 10240"

text \<open>\<open>brc_c\<close> is renamed \<open>abuf\<close>; \<open>asize\<close>, \<open>achanged\<close> and \<open>maxsize\<close> are the \<open>short\<close> fields.\<close>

record allbrc =
  asize :: int
  achanged :: bool
  maxsize :: int
  abuf :: "byte list"

definition info_name :: cstr where
  "info_name = lit ''#INFO''"

section \<open>Finding and replacing a block\<close>

text \<open>
  The loop of \<open>brc_getblock\<close> from offset \<open>pos\<close>: \<open>Some None\<close> is the \<open>NULL\<close> result.  The code stops
  on a zero length only, so a negative one makes it walk backwards: a walk that leaves the array,
  or that never ends, is \<open>None\<close>.
\<close>

partial_function (option) getblock_at ::
  "byte list \<Rightarrow> int \<Rightarrow> int \<Rightarrow> cstr \<Rightarrow> int option option" where
  "getblock_at buf sz pos name =
     (if pos \<ge> sz then Some None
      else if pos < 0 then None
      else case grab 2 (drop (nat pos) buf) of
        None \<Rightarrow> None
      | Some (lb, m) \<Rightarrow>
          (let len = rd_s16 lb in
           if len = 0 then Some None
           else if pos + len > sz then Some None
           else case strncmp_mem (BRC_STRLEN - 1) m name of
             None \<Rightarrow> None
           | Some hit \<Rightarrow>
               if hit then Some (Some pos) else getblock_at buf sz (pos + len) name))"

definition brc_getblock :: "allbrc \<Rightarrow> cstr \<Rightarrow> int option option" where
  "brc_getblock a name = getblock_at (abuf a) (asize a) 0 name"

text \<open>
  The copying loop of \<open>brc_putblock\<close>: \<open>m\<close> is the array from \<open>ptr\<close> on, \<open>left\<close> is \<open>ptr0 - ptr\<close> and
  \<open>out\<close> the bytes written to the new array so far.
\<close>

function putblock_loop ::
  "int \<Rightarrow> cstr \<Rightarrow> byte list \<Rightarrow> int \<Rightarrow> byte list \<Rightarrow> byte list option" where
  "putblock_loop maxs name m left out =
     (if left \<le> 0 then Some out
      else case grab 2 m of
        None \<Rightarrow> None
      | Some (lb, d) \<Rightarrow>
          (let len = rd_s16 lb in
           if len \<le> 0 then Some out
           else if len > left then Some out
           else if int (length out) + len > maxs then Some out
           else case strncmp_mem (BRC_STRLEN - 1) d name of
             None \<Rightarrow> None
           | Some hit \<Rightarrow>
               if hit then putblock_loop maxs name (drop (nat len) m) (left - len) out
               else if nat len \<le> length m
               then putblock_loop maxs name (drop (nat len) m) (left - len) (out @ take (nat len) m)
               else None))"
  by pat_completeness auto
termination
  by (relation "measure (\<lambda>(maxs, name, m, left, out). nat left)") auto

declare putblock_loop.simps [simp del]

text \<open>
  \<open>brc_putblock\<close>: the \<open>#INFO\<close> block, when the array starts with one, is copied first and without a
  look at the room left, then the new block, then the others.  \<open>b\<close> is the used part of the new
  \<open>struct onebrc_c\<close>.
\<close>

definition brc_putblock :: "allbrc \<Rightarrow> byte list \<Rightarrow> allbrc option" where
  "brc_putblock a b =
     (case cstr_at (drop 2 b) of
        None \<Rightarrow> None
      | Some name \<Rightarrow>
          (case (if asize a > 0 \<and> name \<noteq> info_name
                 then strncmp_mem 6 (drop 2 (abuf a)) info_name else Some False) of
             None \<Rightarrow> None
           | Some keep \<Rightarrow>
               (let n = (if keep then rd_s16 (abuf a) else 0) in
                if n < 0 \<or> length (abuf a) < nat n then None
                else
                  (case putblock_loop (maxsize a) name (drop (nat n) (abuf a)) (asize a - n)
                          (take (nat n) (abuf a) @ take (nat (rd_s16 b)) b) of
                     None \<Rightarrow> None
                   | Some out \<Rightarrow>
                       if BRC_MAXSIZE < length out then None
                       else Some (a\<lparr>asize := int (length out), achanged := True,
                                    abuf := out @ drop (length out) (abuf a)\<rparr>)))))"

section \<open>The board operations\<close>

definition brc_getboard :: "allbrc \<Rightarrow> onebrc \<Rightarrow> cstr \<Rightarrow> onebrc option" where
  "brc_getboard a b name =
     (case brc_getblock a name of
        None \<Rightarrow> None
      | Some (Some p) \<Rightarrow> uncompress_brc b (drop (nat p) (abuf a))
      | Some None \<Rightarrow>
          Some (b\<lparr>board := take (BRC_STRLEN - 1) name, changed := False, num := 1, cur := 0,
                  blist := (blist b)[0 := 1], notetime := 0\<rparr>))"

definition brc_unreadt_quick :: "allbrc \<Rightarrow> cstr \<Rightarrow> int \<Rightarrow> bool option" where
  "brc_unreadt_quick a name t =
     (case brc_getblock a name of
        None \<Rightarrow> None
      | Some (Some p) \<Rightarrow> brc_c_unreadt (drop (nat p) (abuf a)) t
      | Some None \<Rightarrow> Some True)"

text \<open>The caller's \<open>struct onebrc\<close> is changed too: shortened and marked clean.\<close>

definition brc_putboard :: "allbrc \<Rightarrow> onebrc \<Rightarrow> (allbrc \<times> onebrc) option" where
  "brc_putboard a b =
     (if \<not> changed b then Some (a, b)
      else let b' = shorter_brc (b\<lparr>changed := False\<rparr>)
           in case brc_putblock a (compress_brc b') of
                None \<Rightarrow> None
              | Some a' \<Rightarrow> Some (a', b'))"

text \<open>
  \<open>struct brcinfo\<close> is kept as its 44 packed bytes: the mode bits, \<open>wwwstyle\<close>, \<open>t_lines\<close> and the
  three strings.
\<close>

definition BRCINFO_SIZE :: nat where
  "BRCINFO_SIZE = 44"

definition brc_getinfo :: "allbrc \<Rightarrow> byte list option" where
  "brc_getinfo a =
     (case brc_getblock a info_name of
        None \<Rightarrow> None
      | Some None \<Rightarrow> Some (replicate BRCINFO_SIZE 0)
      | Some (Some p) \<Rightarrow>
          (let m = drop (nat p) (abuf a);
               sz = min (rd_s16 m - 8) (int BRCINFO_SIZE)
           in if sz < 0 then None
              else (case grab (nat sz) (drop 8 m) of
                      None \<Rightarrow> None
                    | Some (v, _) \<Rightarrow> Some (v @ replicate (BRCINFO_SIZE - nat sz) 0))))"

definition brc_putinfo :: "allbrc \<Rightarrow> byte list \<Rightarrow> allbrc option" where
  "brc_putinfo a info =
     (let sz = min BRCINFO_SIZE (282 - 8)
      in brc_putblock a (le16 (int (8 + sz)) @ info_name @ 0 # take sz info))"

section \<open>Loading and saving\<close>

text \<open>
  Files are a map from paths to contents; a path that is absent cannot be opened for reading.
  \<open>PATHTMPBRC\<close> comes from the configuration.
\<close>

type_synonym files = "cstr \<Rightarrow> byte list option"

definition brc_dirchar :: "cstr \<Rightarrow> byte" where
  "brc_dirchar userid =
     (if userid = [] then 0
      else if \<not> strncaseeq 6 userid (lit ''guest.'')
      then let ch = toupper (hd userid) in if ch < 65 \<or> ch > 90 then 65 + ch mod 26 else ch
      else let ch = last userid in if ch > 57 \<or> ch < 48 then 48 + ch mod 10 else ch)"

text \<open>\<open>settmpbrc\<close>; the \<open>%c\<close> of a NUL ends the C string there.\<close>

definition settmpbrc :: "cstr \<Rightarrow> cstr \<Rightarrow> cstr" where
  "settmpbrc pathtmpbrc userid =
     (if brc_dirchar userid = 0 then pathtmpbrc @ lit ''/''
      else pathtmpbrc @ lit ''/'' @ [brc_dirchar userid] @ lit ''/'' @ userid)"

text \<open>\<open>brc_init\<close>; \<open>filename\<close> may be a null pointer and the array holds whatever it held.\<close>

definition brc_init :: "files \<Rightarrow> cstr \<Rightarrow> allbrc \<Rightarrow> cstr \<Rightarrow> cstr option \<Rightarrow> allbrc" where
  "brc_init fs pathtmpbrc a userid filename =
     (let a1 = a\<lparr>achanged := False,
                 maxsize := int (if \<not> strneq 6 userid (lit ''guest.'') then BRC_MAXSIZE
                                 else BRC_MAXSIZE_GUEST)\<rparr>;
          contents = (case fs (settmpbrc pathtmpbrc userid) of
                        Some c \<Rightarrow> Some c
                      | None \<Rightarrow> (case filename of None \<Rightarrow> None | Some f \<Rightarrow> fs f))
      in case contents of
           None \<Rightarrow> a1\<lparr>asize := 0\<rparr>
         | Some c \<Rightarrow>
             (let r = take BRC_MAXSIZE c
              in a1\<lparr>asize := int (length r), abuf := r @ drop (length r) (abuf a1)\<rparr>))"

text \<open>
  \<open>brc_fini\<close>: the temporary file is opened without \<open>O_TRUNC\<close>, so the write replaces the front of
  what it holds; then it is renamed over the real one.  \<open>ok\<close> is whether \<open>open\<close> succeeds.
\<close>

definition brc_fini :: "bool \<Rightarrow> files \<Rightarrow> cstr \<Rightarrow> allbrc \<Rightarrow> cstr \<Rightarrow> files \<times> allbrc" where
  "brc_fini ok fs pathtmpbrc a userid =
     (if \<not> achanged a then (fs, a)
      else let tmpfile = settmpbrc pathtmpbrc (userid @ lit ''.tmp'') in
           if \<not> ok then (fs, a)
           else let old = (case fs tmpfile of None \<Rightarrow> [] | Some c \<Rightarrow> c);
                    new = take (nat (asize a)) (abuf a) @ drop (nat (asize a)) old;
                    fs1 = fs(tmpfile \<mapsto> new);
                    filename1 = settmpbrc pathtmpbrc userid
                in ((if tmpfile = filename1 then fs1
                     else (fs1(filename1 \<mapsto> new))(tmpfile := None)),
                    a\<lparr>achanged := False\<rparr>))"

section \<open>Reading the old format\<close>

text \<open>
  \<open>brc_getrecord\<close>: one record of the old file, 15 bytes of name, a count and that many times, of
  which 60 are kept.  The rest of the file and the record read.  The struct was zeroed and is padded after
  \<open>board\<close>, so a name of 15 bytes is still terminated.
\<close>

fun rd_ints :: "nat \<Rightarrow> byte list \<Rightarrow> int list" where
  "rd_ints 0 m = []"
| "rd_ints (Suc n) m = rd_s32 m # rd_ints n (drop 4 m)"

definition brc_getrecord :: "byte list \<Rightarrow> onebrc \<Rightarrow> (byte list \<times> onebrc) option" where
  "brc_getrecord m b =
     (if length m < BRC_STRLEN + 1 then None
      else let n = unat (m ! BRC_STRLEN);
               k = min n BRC_MAXNUM;
               ts = drop (BRC_STRLEN + 1) m
           in if length ts < 4 * k then None
              else Some (drop (4 * n) ts,
                         b\<lparr>board := takeWhile (\<lambda>c. c \<noteq> 0) (take BRC_STRLEN m), num := k,
                           blist := rd_ints k ts @ drop k (blist b)\<rparr>))"

definition zero_onebrc :: onebrc where
  "zero_onebrc = \<lparr>num = 0, cur = 0, changed = False, board = [],
                   blist = replicate BRC_MAXNUM 0, notetime = 0\<rparr>"

text \<open>
  \<open>brc_init_old\<close>: \<open>bzero\<close> leaves \<open>maxsize\<close> zero, and nothing sets it before the blocks are put.
\<close>

function init_old_loop :: "byte list \<Rightarrow> allbrc \<Rightarrow> allbrc option" where
  "init_old_loop m a =
     (if m = [] \<or> \<not> (32 \<le> hd m \<and> hd m \<le> 122) then Some a
      else case brc_getrecord m zero_onebrc of
             None \<Rightarrow> None
           | Some (m', b) \<Rightarrow>
               if length m' < length m
               then (case brc_putboard a (b\<lparr>changed := True\<rparr>) of
                       None \<Rightarrow> None
                     | Some (a', _) \<Rightarrow> init_old_loop m' a')
               else None)"
  by pat_completeness auto
termination
  by (relation "measure (\<lambda>(m, a). length m)") auto

declare init_old_loop.simps [simp del]

definition brc_init_old :: "files \<Rightarrow> cstr \<Rightarrow> allbrc option" where
  "brc_init_old fs filename =
     (let a = \<lparr>asize = 0, achanged = False, maxsize = 0, abuf = replicate BRC_MAXSIZE 0\<rparr>
      in case fs filename of
           None \<Rightarrow> Some a
         | Some c \<Rightarrow> init_old_loop (take BRC_MAXSIZE c) a)"

section \<open>The blocks an array stands for\<close>

type_synonym named_block = "cstr \<times> byte list"

definition blk :: "named_block \<Rightarrow> byte list" where
  "blk p = le16 (int (3 + length (fst p) + length (snd p))) @ fst p @ 0 # snd p"

text \<open>A block fits \<open>struct onebrc_c\<close>, which has 282 bytes, and its name is a board name.\<close>

definition wf_blk :: "named_block \<Rightarrow> bool" where
  "wf_blk p \<longleftrightarrow> 0 \<notin> set (fst p) \<and> length (fst p) < BRC_STRLEN \<and> length (blk p) \<le> 282"

abbreviation blks :: "named_block list \<Rightarrow> byte list" where
  "blks ps \<equiv> concat (map blk ps)"

definition store_rep :: "allbrc \<Rightarrow> named_block list \<Rightarrow> bool" where
  "store_rep a ps \<longleftrightarrow>
     (\<exists>t. abuf a = blks ps @ t) \<and> asize a = int (length (blks ps)) \<and> list_all wf_blk ps
     \<and> distinct (map fst ps) \<and> length (abuf a) = BRC_MAXSIZE
     \<and> asize a \<le> maxsize a \<and> maxsize a \<le> int BRC_MAXSIZE \<and> 564 \<le> maxsize a"

lemma length_blk: "length (blk p) = 3 + length (fst p) + length (snd p)"
  by (simp add: blk_def)

lemma rd_s16_blk: "wf_blk p \<Longrightarrow> rd_s16 (blk p @ m) = int (length (blk p))"
  unfolding blk_def append_assoc
  by (subst rd_s16_le16) (auto simp: wf_blk_def length_blk)

lemma rd_s16_le16': "- 32768 \<le> x \<Longrightarrow> x < 32768 \<Longrightarrow> rd_s16 (le16 x) = x"
  using rd_s16_le16 [of x "[]"] by simp

lemma grab_blk:
  assumes "wf_blk p"
  shows "grab 2 (blk p @ m) = Some (le16 (int (length (blk p))), fst p @ 0 # snd p @ m)"
  by (simp add: grab_append blk_def add.assoc)

lemma strncmp_blk:
  assumes "wf_blk p" "0 \<notin> set name" "length name < BRC_STRLEN"
  shows "strncmp_mem (BRC_STRLEN - 1) (fst p @ 0 # snd p @ m) name = Some (fst p = name)"
  using assms by (subst strncmp_mem_cstr) (auto simp: wf_blk_def BRC_STRLEN_def)

lemma rd_le16_blk: "wf_blk p \<Longrightarrow> rd_s16 (le16 (int (length (blk p)))) = int (length (blk p))"
  by (rule rd_s16_le16') (auto simp: wf_blk_def)

lemma length_blk_pos: "0 < int (length (blk p)) + int n \<and> 0 < int (length (blk p))"
  by (simp add: length_blk)

fun blk_off :: "named_block list \<Rightarrow> cstr \<Rightarrow> nat option" where
  "blk_off [] name = None"
| "blk_off (p # ps) name =
     (if fst p = name then Some 0 else map_option ((+) (length (blk p))) (blk_off ps name))"

lemma getblock_at_blks:
  assumes "list_all wf_blk ps" "0 \<notin> set name" "length name < BRC_STRLEN"
  shows "getblock_at (pre @ blks ps @ t) (int (length pre + length (blks ps))) (int (length pre)) name
     = Some (map_option (\<lambda>k. int (length pre + k)) (blk_off ps name))"
  using assms(1)
proof (induction ps arbitrary: pre)
  case Nil
  then show ?case by (simp add: getblock_at.simps)
next
  case (Cons p ps)
  have p: "wf_blk p" using Cons.prems by simp
  have IH: "getblock_at (pre @ blks (p # ps) @ t)
      (int (length pre + length (blks (p # ps)))) (int (length pre) + int (length (blk p))) name
     = Some (map_option (\<lambda>k. int (length pre + (length (blk p) + k))) (blk_off ps name))"
    using Cons.IH [of "pre @ blk p"] Cons.prems by (simp add: add.assoc)
  show ?case
    using IH grab_blk [OF p] rd_le16_blk [OF p] strncmp_blk [OF p assms(2,3)] length_blk_pos [of p "length (blks ps)"]
    by (subst getblock_at.simps) (auto simp: option.map_comp comp_def not_le)
qed

lemma blk_off_map_of: "blk_off ps name = None \<longleftrightarrow> map_of ps name = None"
  by (induction ps) auto

lemma blk_off_Some:
  "map_of ps name = Some r \<Longrightarrow>
     \<exists>k m. blk_off ps name = Some k \<and> drop k (blks ps @ t) = blk (name, r) @ m"
proof (induction ps)
  case (Cons p ps)
  then show ?case by (cases p) (fastforce split: if_splits)
qed simp

lemma brc_getblock_rep:
  assumes "store_rep a ps" "0 \<notin> set name" "length name < BRC_STRLEN"
  shows "brc_getblock a name = Some (map_option int (blk_off ps name))"
proof -
  obtain t where "abuf a = blks ps @ t" "asize a = int (length (blks ps))" "list_all wf_blk ps"
    using assms(1) by (auto simp: store_rep_def)
  then show ?thesis
    using getblock_at_blks [of ps name "[]" t] assms(2,3) by (simp add: brc_getblock_def)
qed

lemma brc_getblock_found:
  assumes "store_rep a ps" "0 \<notin> set name" "length name < BRC_STRLEN" "map_of ps name = Some r"
  shows "\<exists>k m. brc_getblock a name = Some (Some (int k)) \<and> drop k (abuf a) = blk (name, r) @ m"
proof -
  obtain t where "abuf a = blks ps @ t" using assms(1) by (auto simp: store_rep_def)
  then show ?thesis
    using blk_off_Some [OF assms(4), of t] brc_getblock_rep [OF assms(1-3)] by auto
qed

lemma brc_getblock_absent:
  assumes "store_rep a ps" "0 \<notin> set name" "length name < BRC_STRLEN" "map_of ps name = None"
  shows "brc_getblock a name = Some None"
  using brc_getblock_rep [OF assms(1-3)] assms(4) by (simp add: blk_off_map_of [symmetric])

section \<open>What a put does to the blocks\<close>

fun keep_loop :: "int \<Rightarrow> cstr \<Rightarrow> named_block list \<Rightarrow> nat \<Rightarrow> named_block list" where
  "keep_loop maxs name [] used = []"
| "keep_loop maxs name (p # ps) used =
     (if int (used + length (blk p)) > maxs then []
      else if fst p = name then keep_loop maxs name ps used
      else p # keep_loop maxs name ps (used + length (blk p)))"

definition put_spec :: "int \<Rightarrow> named_block list \<Rightarrow> named_block \<Rightarrow> named_block list" where
  "put_spec maxs ps p =
     (if ps \<noteq> [] \<and> fst (hd ps) = info_name \<and> fst p \<noteq> info_name
      then hd ps # p # keep_loop maxs (fst p) (tl ps) (length (blk (hd ps)) + length (blk p))
      else p # keep_loop maxs (fst p) ps (length (blk p)))"

lemma putblock_loop_blks:
  assumes "list_all wf_blk ps" "0 \<notin> set name" "length name < BRC_STRLEN"
  shows "putblock_loop maxs name (blks ps @ t) (int (length (blks ps))) out
     = Some (out @ blks (keep_loop maxs name ps (length out)))"
  using assms(1)
proof (induction ps arbitrary: out)
  case Nil
  then show ?case by (simp add: putblock_loop.simps)
next
  case (Cons p ps)
  have p: "wf_blk p" using Cons.prems by simp
  have drp: "drop (length (blk p)) (blks (p # ps) @ t) = blks ps @ t"
    "take (length (blk p)) (blks (p # ps) @ t) = blk p" by simp_all
  have IH: "putblock_loop maxs name (blks ps @ t) (int (length (blks ps))) out'
     = Some (out' @ blks (keep_loop maxs name ps (length out')))" for out'
    using Cons by simp
  show ?case
    using IH grab_blk [OF p] rd_le16_blk [OF p] strncmp_blk [OF p assms(2,3)] length_blk_pos [of p "length (blks ps)"] drp
    by (subst putblock_loop.simps) (auto simp: not_le)
qed

lemma keep_loop_sub: "set (keep_loop maxs name ps used) \<subseteq> set ps"
  by (induction ps arbitrary: used) auto

lemma keep_loop_distinct:
  "distinct (map fst ps) \<Longrightarrow> distinct (map fst (keep_loop maxs name ps used))
     \<and> name \<notin> fst ` set (keep_loop maxs name ps used)"
proof (induction ps arbitrary: used)
  case (Cons p ps)
  have "fst p \<notin> fst ` set (keep_loop maxs name ps u)" for u
    using Cons.prems keep_loop_sub [of maxs name ps u] by auto
  with Cons show ?case by auto
qed simp

lemma keep_loop_room:
  "int used \<le> maxs \<Longrightarrow> int (used + length (blks (keep_loop maxs name ps used))) \<le> maxs"
proof (induction ps arbitrary: used)
  case (Cons p ps)
  then show ?case using Cons.IH [of "used + length (blk p)"] by (auto simp: add.assoc)
qed simp

lemma keep_loop_lookup:
  assumes "distinct (map fst ps)" "n \<noteq> name"
  shows "map_of (keep_loop maxs name ps used) n = None
      \<or> map_of (keep_loop maxs name ps used) n = map_of ps n"
  using assms(1)
proof (induction ps arbitrary: used)
  case (Cons p ps)
  then show ?case using assms(2) by (cases p) auto
qed simp

lemma keep_loop_all:
  assumes "int (used + length (blks ps)) \<le> maxs" "n \<noteq> name"
  shows "map_of (keep_loop maxs name ps used) n = map_of ps n"
  using assms(1)
proof (induction ps arbitrary: used)
  case (Cons p ps)
  then show ?case using assms(2) by (cases p) (auto simp: add.assoc)
qed simp

lemma info_name_facts: "0 \<notin> set info_name" "length info_name = 5" "info_name \<noteq> []"
  by (simp_all add: info_name_def)

lemma take6_info: "take 6 n = take 6 info_name \<longleftrightarrow> n = info_name"
proof
  assume eq: "take 6 n = take 6 info_name"
  have "length (take 6 n) = 5" unfolding eq by (simp add: info_name_facts)
  then have "length n = 5" by (simp split: if_splits)
  then show "n = info_name" using eq by (simp add: info_name_facts)
qed simp

lemma head_is_info:
  assumes "store_rep a ps" "ps \<noteq> []"
  shows "strncmp_mem 6 (drop 2 (abuf a)) info_name = Some (fst (hd ps) = info_name)"
proof -
  obtain p qs t where ps: "ps = p # qs" and buf: "abuf a = blks ps @ t" and p: "wf_blk p"
    using assms by (cases ps) (auto simp: store_rep_def)
  have "drop 2 (abuf a) = fst p @ 0 # snd p @ blks qs @ t"
    by (simp add: buf ps blk_def add.assoc)
  then show ?thesis
    using p strncmp_mem_cstr [of "fst p" info_name 6] info_name_facts take6_info
    by (simp add: ps wf_blk_def)
qed

lemma store_rep_empty: "store_rep a ps \<Longrightarrow> 0 < asize a \<longleftrightarrow> ps \<noteq> []"
  by (cases ps) (auto simp: store_rep_def length_blk)

lemma put_spec_wf:
  assumes "store_rep a ps" "wf_blk p"
  shows "list_all wf_blk (put_spec m ps p)" "distinct (map fst (put_spec m ps p))"
proof -
  let ?k = "keep_loop m (fst p) qs u"
  have ps: "list_all wf_blk ps" "distinct (map fst ps)" using assms(1) by (auto simp: store_rep_def)
  show "list_all wf_blk (put_spec m ps p)"
    using ps(1) assms(2) keep_loop_sub [of m "fst p"]
    by (cases ps) (auto simp: put_spec_def list_all_iff dest!: subsetD)
  show "distinct (map fst (put_spec m ps p))"
  proof (cases ps)
    case Nil
    then show ?thesis by (simp add: put_spec_def)
  next
    case (Cons q qs)
    have "fst q \<notin> fst ` set (keep_loop m (fst p) qs u)" for u
      using ps(2) Cons keep_loop_sub [of m "fst p" qs u] by auto
    then show ?thesis
      using ps(2) Cons keep_loop_distinct [of qs m "fst p"] keep_loop_distinct [of ps m "fst p"]
      by (simp add: put_spec_def del: keep_loop.simps) metis
  qed
qed

lemma put_spec_room:
  assumes "store_rep a ps" "wf_blk p"
  shows "int (length (blks (put_spec (maxsize a) ps p))) \<le> maxsize a"
proof (cases ps)
  case Nil
  then show ?thesis using assms by (simp add: put_spec_def wf_blk_def store_rep_def)
next
  case (Cons q qs)
  have "length (blk q) \<le> 282" "length (blk p) \<le> 282" "564 \<le> maxsize a"
    using assms Cons by (auto simp: store_rep_def wf_blk_def)
  then show ?thesis
    using Cons keep_loop_room [of "length (blk q) + length (blk p)" "maxsize a" "fst p" qs]
      keep_loop_room [of "length (blk p)" "maxsize a" "fst p" ps]
    by (auto simp: put_spec_def add.assoc)
qed

lemma put_loop_result:
  assumes "store_rep a ps" "wf_blk p"
  shows "\<exists>keep. (if asize a > 0 \<and> fst p \<noteq> info_name
                 then strncmp_mem 6 (drop 2 (abuf a)) info_name else Some False) = Some keep
     \<and> (let n = (if keep then rd_s16 (abuf a) else 0) in
        0 \<le> n \<and> nat n \<le> length (abuf a) \<and>
        putblock_loop (maxsize a) (fst p) (drop (nat n) (abuf a)) (asize a - n)
          (take (nat n) (abuf a) @ blk p) = Some (blks (put_spec (maxsize a) ps p)))"
proof -
  obtain t where buf: "abuf a = blks ps @ t" and sz: "asize a = int (length (blks ps))"
    and wf: "list_all wf_blk ps" using assms(1) by (auto simp: store_rep_def)
  have nm: "0 \<notin> set (fst p)" "length (fst p) < BRC_STRLEN" using assms(2) by (auto simp: wf_blk_def)
  show ?thesis
  proof (cases "ps \<noteq> [] \<and> fst (hd ps) = info_name \<and> fst p \<noteq> info_name")
    case True
    then obtain q qs where ps: "ps = q # qs" by (cases ps) auto
    have q: "wf_blk q" "list_all wf_blk qs" using wf ps by auto
    have rd: "rd_s16 (abuf a) = int (length (blk q))" using rd_s16_blk [OF q(1)] by (simp add: buf ps)
    have parts: "drop (length (blk q)) (abuf a) = blks qs @ t" "take (length (blk q)) (abuf a) = blk q"
      "asize a - int (length (blk q)) = int (length (blks qs))" "length (blk q) \<le> length (abuf a)"
      by (simp_all add: buf ps sz)
    have spec: "put_spec (maxsize a) ps p
        = q # p # keep_loop (maxsize a) (fst p) qs (length (blk q @ blk p))"
      using True by (simp add: put_spec_def ps)
    have "putblock_loop (maxsize a) (fst p) (drop (nat (rd_s16 (abuf a))) (abuf a))
        (asize a - rd_s16 (abuf a)) (take (nat (rd_s16 (abuf a))) (abuf a) @ blk p)
        = Some (blks (put_spec (maxsize a) ps p))"
      unfolding rd nat_int parts putblock_loop_blks [OF q(2) nm] spec by simp
    then show ?thesis
      using True head_is_info [OF assms(1)] store_rep_empty [OF assms(1)] rd parts(4)
      by (intro exI [of _ True]) (simp add: Let_def)
  next
    case False
    have spec: "put_spec (maxsize a) ps p = p # keep_loop (maxsize a) (fst p) ps (length (blk p))"
      using False by (auto simp: put_spec_def)
    have "putblock_loop (maxsize a) (fst p) (abuf a) (asize a) (blk p)
        = Some (blks (put_spec (maxsize a) ps p))"
      unfolding buf sz putblock_loop_blks [OF wf nm] spec by simp
    then show ?thesis
      using False head_is_info [OF assms(1)] store_rep_empty [OF assms(1)]
      by (intro exI [of _ False]) (auto simp: Let_def)
  qed
qed

lemma brc_putblock_rep:
  assumes "store_rep a ps" "wf_blk p"
  shows "\<exists>a'. brc_putblock a (blk p) = Some a' \<and> store_rep a' (put_spec (maxsize a) ps p)
     \<and> maxsize a' = maxsize a \<and> achanged a'"
proof -
  obtain keep where k: "(if asize a > 0 \<and> fst p \<noteq> info_name
        then strncmp_mem 6 (drop 2 (abuf a)) info_name else Some False) = Some keep"
    and r: "let n = (if keep then rd_s16 (abuf a) else 0) in
        0 \<le> n \<and> nat n \<le> length (abuf a) \<and>
        putblock_loop (maxsize a) (fst p) (drop (nat n) (abuf a)) (asize a - n)
          (take (nat n) (abuf a) @ blk p) = Some (blks (put_spec (maxsize a) ps p))"
    using put_loop_result [OF assms] by blast
  let ?out = "blks (put_spec (maxsize a) ps p)"
  have nm: "cstr_at (drop 2 (blk p)) = Some (fst p)"
    using assms(2) by (simp add: blk_def wf_blk_def cstr_at_append)
  have own: "take (nat (rd_s16 (blk p))) (blk p) = blk p"
    using rd_s16_blk [OF assms(2), of "[]"] by simp
  have room: "int (length ?out) \<le> maxsize a" "maxsize a \<le> int BRC_MAXSIZE"
    using put_spec_room [OF assms] assms(1) by (auto simp: store_rep_def)
  let ?a = "a\<lparr>asize := int (length ?out), achanged := True, abuf := ?out @ drop (length ?out) (abuf a)\<rparr>"
  have "brc_putblock a (blk p) = Some ?a"
    unfolding brc_putblock_def nm option.case k own
  proof -
    define n where "n = (if keep then rd_s16 (abuf a) else 0)"
    have n: "\<not> (n < 0 \<or> length (abuf a) < nat n)" "\<not> BRC_MAXSIZE < length ?out"
      "putblock_loop (maxsize a) (fst p) (drop (nat n) (abuf a)) (asize a - n)
          (take (nat n) (abuf a) @ blk p) = Some ?out"
      using r room by (simp_all add: n_def Let_def del: length_concat)
    show "(let n = if keep then rd_s16 (abuf a) else 0 in
       if n < 0 \<or> length (abuf a) < nat n then None
       else case putblock_loop (maxsize a) (fst p) (drop (nat n) (abuf a)) (asize a - n)
               (take (nat n) (abuf a) @ blk p) of
          None \<Rightarrow> None
        | Some out \<Rightarrow> if BRC_MAXSIZE < length out then None
            else Some (a\<lparr>asize := int (length out), achanged := True,
                         abuf := out @ drop (length out) (abuf a)\<rparr>)) = Some ?a"
      unfolding Let_def n_def [symmetric] using n by (simp only: if_False option.case)
  qed
  moreover have "store_rep ?a (put_spec (maxsize a) ps p)"
    using put_spec_wf [OF assms, of "maxsize a"] room assms(1)
    by (auto simp: store_rep_def simp del: length_concat)
  ultimately show ?thesis by auto
qed

lemma put_spec_same: "map_of (put_spec m ps p) (fst p) = Some (snd p)"
  by (cases p) (auto simp: put_spec_def)

lemma put_spec_other:
  assumes "distinct (map fst ps)" "n \<noteq> fst p"
  shows "map_of (put_spec m ps p) n = None \<or> map_of (put_spec m ps p) n = map_of ps n"
proof (cases ps)
  case Nil
  then show ?thesis using assms(2) by (cases p) (auto simp: put_spec_def)
next
  case (Cons q qs)
  then show ?thesis
    using assms keep_loop_lookup [of qs n "fst p" m] keep_loop_lookup [of ps n "fst p" m]
    by (cases p; cases q) (auto simp: put_spec_def)
qed

lemma put_spec_fits:
  assumes "int (length (blks ps) + length (blk p)) \<le> m" "n \<noteq> fst p"
  shows "map_of (put_spec m ps p) n = map_of ps n"
proof (cases ps)
  case Nil
  then show ?thesis using assms(2) by (cases p) (auto simp: put_spec_def)
next
  case (Cons q qs)
  have "int (length (blk q) + length (blk p) + length (blks qs)) \<le> m"
    "int (length (blk p) + length (blks ps)) \<le> m"
    using assms(1) by (auto simp: Cons)
  from keep_loop_all [OF this(1) assms(2)] keep_loop_all [OF this(2) assms(2)]
  show ?thesis using assms(2) Cons by (cases p; cases q) (auto simp: put_spec_def)
qed

lemma put_spec_info:
  assumes "ps \<noteq> []" "fst (hd ps) = info_name" "fst p \<noteq> info_name"
  shows "put_spec m ps p \<noteq> [] \<and> hd (put_spec m ps p) = hd ps"
  using assms by (simp add: put_spec_def)

section \<open>The contract of a keyed store\<close>

text \<open>
  What the board operations rely on: a store in which a put of a good value succeeds, is found
  under its own key and changes no other key except by dropping it for lack of room.
\<close>

primrec put_seq :: "('s \<Rightarrow> 'v \<Rightarrow> 's option) \<Rightarrow> 's \<Rightarrow> 'v list \<Rightarrow> 's option" where
  "put_seq put s [] = Some s"
| "put_seq put s (v # vs) = (case put s v of None \<Rightarrow> None | Some s' \<Rightarrow> put_seq put s' vs)"

locale block_store =
  fixes ok :: "'s \<Rightarrow> bool"
    and get :: "'s \<Rightarrow> 'k \<Rightarrow> 'v option"
    and put :: "'s \<Rightarrow> 'v \<Rightarrow> 's option"
    and key :: "'v \<Rightarrow> 'k"
    and good :: "'v \<Rightarrow> bool"
    and good_key :: "'k \<Rightarrow> bool"
  assumes put_total: "ok s \<Longrightarrow> good v \<Longrightarrow> \<exists>s'. put s v = Some s' \<and> ok s'"
    and get_put: "ok s \<Longrightarrow> good v \<Longrightarrow> put s v = Some s' \<Longrightarrow> get s' (key v) = Some v"
    and get_put_other: "ok s \<Longrightarrow> good v \<Longrightarrow> put s v = Some s' \<Longrightarrow> good_key k \<Longrightarrow> k \<noteq> key v \<Longrightarrow>
      get s' k = None \<or> get s' k = get s k"
begin

lemma seq_total: "ok s \<Longrightarrow> list_all good vs \<Longrightarrow> \<exists>s'. put_seq put s vs = Some s' \<and> ok s'"
proof (induction vs arbitrary: s)
  case (Cons v vs)
  then obtain s1 where "put s v = Some s1" "ok s1" using put_total [of s v] by auto
  with Cons show ?case by simp
qed simp

lemma seq_snoc:
  "put_seq put s (vs @ [v]) = (case put_seq put s vs of None \<Rightarrow> None | Some s' \<Rightarrow> put s' v)"
  by (induction vs arbitrary: s) (auto split: option.splits)

text \<open>A key answers nothing, or the last value written under it, or what it held before.\<close>

lemma seq_lookup:
  assumes "ok s" "list_all good vs" "good_key k" "put_seq put s vs = Some s'"
  shows "get s' k = None \<or> get s' k = get s k \<or> (\<exists>v \<in> set vs. key v = k \<and> get s' k = Some v)"
  using assms(2,4)
proof (induction vs arbitrary: s' rule: rev_induct)
  case (snoc v vs)
  obtain s1 where s1: "put_seq put s vs = Some s1" "ok s1"
    using seq_total [OF assms(1), of vs] snoc.prems(1) by auto
  have put: "put s1 v = Some s'" and good: "good v" using snoc.prems s1 by (auto simp: seq_snoc)
  show ?case
  proof (cases "k = key v")
    case True
    then show ?thesis using get_put [OF s1(2) good put] by auto
  next
    case False
    then show ?thesis
      using get_put_other [OF s1(2) good put assms(3) False] snoc.IH [OF _ s1(1)] snoc.prems(1)
      by auto
  qed
qed simp

lemma seq_last:
  assumes "ok s" "list_all good vs" "vs \<noteq> []" "put_seq put s vs = Some s'"
  shows "get s' (key (last vs)) = Some (last vs)"
proof -
  obtain us v where vs: "vs = us @ [v]" using assms(3) by (cases vs rule: rev_cases) auto
  obtain s1 where "put_seq put s us = Some s1" "ok s1"
    using seq_total [OF assms(1), of us] assms(2) vs by auto
  then show ?thesis using assms(2,4) vs get_put [of s1 v s'] by (simp add: seq_snoc)
qed

end

definition store_ok :: "allbrc \<Rightarrow> bool" where
  "store_ok a \<longleftrightarrow> (\<exists>ps. store_rep a ps)"

definition block_bytes :: "allbrc \<Rightarrow> cstr \<Rightarrow> byte list option" where
  "block_bytes a name =
     (case brc_getblock a name of
        Some (Some p) \<Rightarrow> (let m = drop (nat p) (abuf a) in Some (take (nat (rd_s16 m)) m))
      | _ \<Rightarrow> None)"

definition block_name :: "byte list \<Rightarrow> cstr" where
  "block_name b = takeWhile (\<lambda>c. c \<noteq> 0) (drop 2 b)"

definition good_block :: "byte list \<Rightarrow> bool" where
  "good_block b \<longleftrightarrow> (\<exists>p. wf_blk p \<and> b = blk p)"

definition good_name :: "cstr \<Rightarrow> bool" where
  "good_name n \<longleftrightarrow> 0 \<notin> set n \<and> length n < BRC_STRLEN"

lemma block_name_blk: "wf_blk p \<Longrightarrow> block_name (blk p) = fst p"
  by (simp add: block_name_def blk_def wf_blk_def takeWhile_cstr)

lemma good_block_name: "good_block b \<Longrightarrow> good_name (block_name b)"
  by (auto simp: good_block_def good_name_def block_name_blk wf_blk_def)

lemma block_bytes_rep:
  assumes "store_rep a ps" "good_name n"
  shows "block_bytes a n = map_option (\<lambda>r. blk (n, r)) (map_of ps n)"
proof (cases "map_of ps n")
  case None
  then show ?thesis
    using brc_getblock_absent [OF assms(1)] assms(2) by (simp add: block_bytes_def good_name_def)
next
  case (Some r)
  obtain k m where k: "brc_getblock a n = Some (Some (int k))" "drop k (abuf a) = blk (n, r) @ m"
    using brc_getblock_found [OF assms(1) _ _ Some] assms(2) by (auto simp: good_name_def)
  have "wf_blk (n, r)"
    using assms(1) map_of_SomeD [OF Some] by (auto simp: store_rep_def list_all_iff)
  then show ?thesis using k Some rd_s16_blk [of "(n, r)" m] by (simp add: block_bytes_def Let_def)
qed

lemma store_rep_distinct: "store_rep a ps \<Longrightarrow> distinct (map fst ps)"
  by (simp add: store_rep_def)

interpretation brc: block_store store_ok block_bytes brc_putblock block_name good_block good_name
proof
  fix a b assume "store_ok a" "good_block b"
  then obtain ps p where ps: "store_rep a ps" "wf_blk p" and b: "b = blk p"
    by (auto simp: store_ok_def good_block_def)
  then show "\<exists>a'. brc_putblock a b = Some a' \<and> store_ok a'"
    using brc_putblock_rep [OF ps] by (auto simp: store_ok_def)
next
  fix a b a' assume h: "store_ok a" "good_block b" "brc_putblock a b = Some a'"
  then obtain ps p where ps: "store_rep a ps" "wf_blk p" and b: "b = blk p"
    by (auto simp: store_ok_def good_block_def)
  with h(3) have rep: "store_rep a' (put_spec (maxsize a) ps p)" using brc_putblock_rep [OF ps] by auto
  show "block_bytes a' (block_name b) = Some b"
    using block_bytes_rep [OF rep, of "fst p"] good_block_name [OF h(2)] put_spec_same [of _ ps p]
    by (simp add: b block_name_blk [OF ps(2)])
next
  fix a b a' k assume h: "store_ok a" "good_block b" "brc_putblock a b = Some a'"
    and k: "good_name k" "k \<noteq> block_name b"
  then obtain ps p where ps: "store_rep a ps" "wf_blk p" and b: "b = blk p"
    by (auto simp: store_ok_def good_block_def)
  with h(3) have rep: "store_rep a' (put_spec (maxsize a) ps p)" using brc_putblock_rep [OF ps] by auto
  show "block_bytes a' k = None \<or> block_bytes a' k = block_bytes a k"
    using put_spec_other [OF store_rep_distinct [OF ps(1)], of k p "maxsize a"] k
      block_bytes_rep [OF rep k(1)] block_bytes_rep [OF ps(1) k(1)]
    by (auto simp: b block_name_blk [OF ps(2)])
qed

section \<open>Read marks through the store\<close>

definition pack_rest :: "onebrc \<Rightarrow> byte list" where
  "pack_rest b = word_of_nat (num b) # le32 (blist b ! 0) @ pack_bits b
      @ diff_bytes (blist b) 0 (num b - 1) @ pack_note b"

lemma compress_blk: "compress_brc b = blk (board b, pack_rest b)"
  by (simp add: compress_brc_def Let_def pack_data_layout blk_def pack_rest_def add.assoc
      del: le_bytes.simps)

lemma wf_blk_compress:
  assumes "wf_pack b"
  shows "wf_blk (board b, pack_rest b)"
  using assms length_pack_data [of b]
  by (simp add: wf_blk_def compress_blk [symmetric] length_compress wf_pack_def wf_brc_def)

lemma wf_pack_shorter: "wf_pack b \<Longrightarrow> wf_pack (shorter_brc (b\<lparr>changed := False\<rparr>))"
proof -
  assume b: "wf_pack b"
  let ?b = "b\<lparr>changed := False\<rparr>"
  have w: "wf_brc ?b" "num ?b \<noteq> 0" using b by (auto simp: wf_pack_def wf_brc_def ents_def)
  have "ents (shorter_brc ?b) = take (num (shorter_brc ?b)) (ents b)"
    using shorter_brc_num(1) [OF w(1)] by (simp add: ents_def shorter_brc_frame min_def)
  then show ?thesis
    using b shorter_brc_num(2) [OF w] wf_brc_shorter [OF w(1)] small_times_take [of "ents b"]
    by (auto simp: wf_pack_def shorter_brc_frame)
qed

lemma unread_quick_found:
  assumes "store_ok a" "wf_pack b" "block_bytes a (board b) = Some (compress_brc b)"
  shows "brc_unreadt_quick a (board b) t = Some (unread_spec (ents b) t)"
    "length (blist b0) = BRC_MAXNUM \<Longrightarrow>
     brc_getboard a b0 (board b) = Some (b0\<lparr>changed := False, board := board b, num := num b,
             blist := ents b @ drop (num b) (blist b0), notetime := notetime b\<rparr>)"
proof -
  obtain ps where ps: "store_rep a ps" using assms(1) by (auto simp: store_ok_def)
  have n: "good_name (board b)" using assms(2) by (simp add: good_name_def wf_pack_def)
  obtain r where r: "map_of ps (board b) = Some r" "blk (board b, r) = compress_brc b"
    using assms(3) block_bytes_rep [OF ps n] by auto
  obtain k m where k: "brc_getblock a (board b) = Some (Some (int k))"
    "drop k (abuf a) = compress_brc b @ m"
    using brc_getblock_found [OF ps _ _ r(1)] n r(2) by (auto simp: good_name_def)
  show "brc_unreadt_quick a (board b) t = Some (unread_spec (ents b) t)"
    using k brc_c_unreadt_compress [OF assms(2), of m t] by (simp add: brc_unreadt_quick_def)
  show "brc_getboard a b0 (board b) = Some (b0\<lparr>changed := False, board := board b, num := num b,
             blist := ents b @ drop (num b) (blist b0), notetime := notetime b\<rparr>)"
    if "length (blist b0) = BRC_MAXNUM"
    using k uncompress_compress [OF assms(2) that, of m] by (simp add: brc_getboard_def)
qed

lemma putboard_put:
  assumes "changed b" "wf_pack b" "store_ok a"
  shows "\<exists>a' b'. brc_putboard a b = Some (a', b') \<and> store_ok a' \<and> wf_pack b' \<and> board b' = board b
     \<and> notetime b' = notetime b
     \<and> (\<forall>t. unread_spec (ents b') t = unread_spec (ents b) t)
     \<and> brc_putblock a (compress_brc b') = Some a' \<and> good_block (compress_brc b')
     \<and> block_name (compress_brc b') = board b
     \<and> block_bytes a' (board b) = Some (compress_brc b')"
proof -
  let ?b = "shorter_brc (b\<lparr>changed := False\<rparr>)"
  have w: "wf_pack ?b" by (rule wf_pack_shorter [OF assms(2)])
  have g: "good_block (compress_brc ?b)" "block_name (compress_brc ?b) = board b"
    using wf_blk_compress [OF w] block_name_blk [OF wf_blk_compress [OF w]]
    by (auto simp: good_block_def compress_blk shorter_brc_frame)
  obtain a' where a': "brc_putblock a (compress_brc ?b) = Some a'" "store_ok a'"
    using brc.put_total [OF assms(3) g(1)] by auto
  have "unread_spec (ents ?b) t = unread_spec (ents b) t" for t
    using shorter_brc_num(3) [of "b\<lparr>changed := False\<rparr>" t] assms(2)
    by (simp add: wf_pack_def wf_brc_def ents_def)
  then show ?thesis
    using a' g w brc.get_put [OF assms(3) g(1) a'(1)] assms(1)
    by (auto simp: brc_putboard_def shorter_brc_frame)
qed

lemma store_rep_ok: "store_rep a ps \<Longrightarrow> store_ok a"
  by (auto simp: store_ok_def)

lemma store_ok_bounds: "store_ok a \<Longrightarrow> 0 \<le> asize a \<and> asize a \<le> maxsize a \<and> maxsize a \<le> int BRC_MAXSIZE"
  by (auto simp: store_ok_def store_rep_def)

text \<open>An empty store of an ordinary user, for the examples below.\<close>

definition empty_store :: allbrc where
  "empty_store = \<lparr>asize = 0, achanged = False, maxsize = int BRC_MAXSIZE,
                  abuf = replicate BRC_MAXSIZE 0\<rparr>"

lemma empty_store_rep: "store_rep empty_store []"
  by (simp add: store_rep_def empty_store_def BRC_MAXSIZE_def)

text \<open>A board read up to three times.\<close>

definition sample_brc :: onebrc where
  "sample_brc = \<lparr>num = 3, cur = 0, changed = True, board = lit ''test'',
                 blist = [1200000000, 1100000500, 1100000200] @ replicate 57 0, notetime = 7\<rparr>"

lemma sample_brc_wf: "wf_pack sample_brc"
  by (simp add: wf_pack_def wf_brc_def sample_brc_def ents_def BRC_MAXNUM_def BRC_STRLEN_def
      small_times_def)

section \<open>The information block\<close>

definition info_blk :: "byte list \<Rightarrow> named_block" where
  "info_blk info = (info_name, info)"

lemma putinfo_blk: "length info = BRCINFO_SIZE \<Longrightarrow> brc_putinfo a info = brc_putblock a (blk (info_blk info))"
  by (simp add: brc_putinfo_def blk_def info_blk_def info_name_facts BRCINFO_SIZE_def)

lemma wf_info_blk: "length info = BRCINFO_SIZE \<Longrightarrow> wf_blk (info_blk info)"
  by (simp add: wf_blk_def info_blk_def info_name_facts length_blk BRCINFO_SIZE_def BRC_STRLEN_def)

lemma getinfo_rep:
  assumes "store_rep a ps" "map_of ps info_name = Some info" "length info = BRCINFO_SIZE"
  shows "brc_getinfo a = Some info"
proof -
  obtain k m where k: "brc_getblock a info_name = Some (Some (int k))"
    "drop k (abuf a) = blk (info_blk info) @ m"
    using brc_getblock_found [OF assms(1) _ _ assms(2)] info_name_facts
    by (auto simp: info_blk_def BRC_STRLEN_def)
  have "drop 8 (blk (info_blk info) @ m) = info @ m"
    by (simp add: blk_def info_blk_def info_name_facts)
  moreover have "rd_s16 (blk (info_blk info) @ m) = 52"
    using rd_s16_blk [OF wf_info_blk [OF assms(3)], of m] assms(3)
    by (simp add: length_blk info_blk_def info_name_facts BRCINFO_SIZE_def)
  ultimately show ?thesis
    using k assms(3) by (simp add: brc_getinfo_def Let_def grab_append BRCINFO_SIZE_def)
qed

lemma put_keeps_info:
  assumes "store_rep a ps" "ps \<noteq> []" "hd ps = info_blk info" "good_block b" "block_name b \<noteq> info_name"
    "brc_putblock a b = Some a'"
  shows "\<exists>qs. store_rep a' qs \<and> qs \<noteq> [] \<and> hd qs = info_blk info"
proof -
  obtain p where p: "wf_blk p" "b = blk p" using assms(4) by (auto simp: good_block_def)
  have "fst (hd ps) = info_name" "fst p \<noteq> info_name"
    using assms(3,5) p block_name_blk [OF p(1)] by (auto simp: info_blk_def)
  then show ?thesis
    using brc_putblock_rep [OF assms(1) p(1)] put_spec_info [OF assms(2), of p "maxsize a"] assms(3,6) p(2)
    by auto
qed

lemma put_seq_keeps_info:
  "store_rep a ps \<Longrightarrow> ps \<noteq> [] \<Longrightarrow> hd ps = info_blk info \<Longrightarrow>
   list_all (\<lambda>b. good_block b \<and> block_name b \<noteq> info_name) bs \<Longrightarrow>
   \<exists>a' qs. put_seq brc_putblock a bs = Some a' \<and> store_rep a' qs \<and> qs \<noteq> [] \<and> hd qs = info_blk info"
proof (induction bs arbitrary: a ps)
  case (Cons b bs)
  obtain a1 where a1: "brc_putblock a b = Some a1"
    using brc.put_total [OF store_rep_ok [OF Cons.prems(1)], of b] Cons.prems(4) by auto
  obtain qs where "store_rep a1 qs" "qs \<noteq> []" "hd qs = info_blk info"
    using put_keeps_info [OF Cons.prems(1-3) _ _ a1] Cons.prems(4) by auto
  from Cons.IH [OF this] show ?case using Cons.prems(4) a1 by auto
qed auto

section \<open>Saving and loading\<close>

lemma dirchar_nonzero: "0 \<notin> set u \<Longrightarrow> u \<noteq> [] \<Longrightarrow> brc_dirchar u \<noteq> 0"
proof -
  assume "0 \<notin> set u" "u \<noteq> []"
  have "65 + c mod 26 \<noteq> (0::byte)" "48 + c mod 10 \<noteq> (0::byte)" for c :: byte
  proof -
    have "uint (65 + c mod 26) = 65 + uint c mod 26" "uint (48 + c mod 10) = 48 + uint c mod 10"
      by (simp_all add: uint_word_ariths uint_mod)
    moreover have "0 \<le> uint c mod 26" "0 \<le> uint c mod 10" by simp_all
    ultimately show "65 + c mod 26 \<noteq> (0::byte)" "48 + c mod 10 \<noteq> (0::byte)" by auto
  qed
  then show ?thesis using \<open>u \<noteq> []\<close> by (auto simp: brc_dirchar_def Let_def)
qed

lemma settmpbrc_tmp:
  assumes "0 \<notin> set u"
  shows "settmpbrc p (u @ lit ''.tmp'') \<noteq> settmpbrc p u"
proof
  assume eq: "settmpbrc p (u @ lit ''.tmp'') = settmpbrc p u"
  have "length (settmpbrc p (u @ lit ''.tmp'')) = length p + 7 + length u"
    using dirchar_nonzero [of "u @ lit ''.tmp''"] assms by (simp add: settmpbrc_def)
  moreover have "length (settmpbrc p u) \<le> length p + 3 + length u"
    by (simp add: settmpbrc_def)
  ultimately show False using eq by simp
qed

lemma fini_init_rep:
  assumes "store_rep a ps" "achanged a" "0 \<notin> set u" "fs (settmpbrc p (u @ lit ''.tmp'')) = None"
    "length (abuf a0) = BRC_MAXSIZE" "maxsize (brc_init fs' p a0 u fn) = maxsize a"
    "fs' = fst (brc_fini True fs p a u)"
  shows "store_rep (brc_init fs' p a0 u fn) ps"
proof -
  obtain t where buf: "abuf a = blks ps @ t" and sz: "asize a = int (length (blks ps))"
    using assms(1) by (auto simp: store_rep_def)
  have room: "length (blks ps) \<le> BRC_MAXSIZE" using assms(1) buf by (auto simp: store_rep_def)
  have "fs' (settmpbrc p u) = Some (blks ps)"
    using assms(2,4,7) settmpbrc_tmp [OF assms(3), of p]
    by (simp add: brc_fini_def Let_def buf sz del: length_concat)
  then have "asize (brc_init fs' p a0 u fn) = asize a"
    "abuf (brc_init fs' p a0 u fn) = blks ps @ drop (length (blks ps)) (abuf a0)"
    using room sz by (simp_all add: brc_init_def Let_def del: length_concat)
  then show ?thesis
    using assms(1,5,6) sz room by (auto simp: store_rep_def simp del: length_concat)
qed

lemma store_rep_unreadt_quick:
  assumes "store_rep a ps" "store_rep a' ps" "good_name n" "list_all (\<lambda>q. \<exists>b. wf_pack b \<and> blk q = compress_brc b) ps"
  shows "brc_unreadt_quick a' n t = brc_unreadt_quick a n t"
proof (cases "map_of ps n")
  case None
  then show ?thesis
    using brc_getblock_absent [OF assms(1)] brc_getblock_absent [OF assms(2)] assms(3)
    by (simp add: brc_unreadt_quick_def good_name_def)
next
  case (Some r)
  obtain b where b: "wf_pack b" "blk (n, r) = compress_brc b"
    using assms(4) map_of_SomeD [OF Some] by (auto simp: list_all_iff)
  have "wf_blk (n, r)"
    using assms(1) map_of_SomeD [OF Some] by (auto simp: store_rep_def list_all_iff)
  then have n: "board b = n"
    using b block_name_blk [of "(n, r)"] block_name_blk [OF wf_blk_compress [OF b(1)]]
    by (simp add: compress_blk)
  have "block_bytes a n = Some (compress_brc b)" "block_bytes a' n = Some (compress_brc b)"
    using block_bytes_rep [OF assms(1,3)] block_bytes_rep [OF assms(2,3)] Some b by auto
  then show ?thesis
    using unread_quick_found(1) [OF store_rep_ok [OF assms(1)] b(1)]
      unread_quick_found(1) [OF store_rep_ok [OF assms(2)] b(1)] n by simp
qed

section \<open>Converting the old format\<close>

definition old_rec :: "cstr \<Rightarrow> int list \<Rightarrow> byte list" where
  "old_rec name ts = name @ replicate (BRC_STRLEN - length name) 0 @ [word_of_nat (length ts)]
     @ concat (map le32 ts)"

definition wf_old :: "cstr \<Rightarrow> int list \<Rightarrow> bool" where
  "wf_old name ts \<longleftrightarrow> good_name name \<and> name \<noteq> [] \<and> 32 \<le> hd name \<and> hd name \<le> 122
     \<and> name \<noteq> info_name \<and> ts \<noteq> [] \<and> length ts \<le> BRC_MAXNUM \<and> descending ts \<and> small_times ts"

definition old_brc :: "cstr \<Rightarrow> int list \<Rightarrow> onebrc" where
  "old_brc name ts = zero_onebrc\<lparr>board := name, num := length ts, changed := True,
                       blist := ts @ replicate (BRC_MAXNUM - length ts) 0\<rparr>"

lemma rd_ints_concat: "small_times ts \<Longrightarrow> rd_ints (length ts) (concat (map le32 ts) @ m) = ts"
proof (induction ts)
  case (Cons t ts)
  then show ?case by (simp add: small_times_def rd_s32_le32 del: le_bytes.simps)
qed simp

lemma length_concat_le32: "length (concat (map le32 ts)) = 4 * length ts"
  by (induction ts) (auto simp del: length_concat)

lemma takeWhile_pad: "0 \<notin> set s \<Longrightarrow> takeWhile (\<lambda>c. c \<noteq> (0::byte)) (s @ replicate k 0) = s"
  by (induction s) (auto simp: takeWhile_eq_Nil_iff)

lemma getrecord_old:
  assumes "wf_old name ts"
  shows "brc_getrecord (old_rec name ts @ m) zero_onebrc
    = Some (m, (old_brc name ts)\<lparr>changed := False\<rparr>)"
proof -
  have l: "length name < 15" "0 \<notin> set name" "length ts \<le> 60" "small_times ts"
    using assms by (auto simp: wf_old_def good_name_def BRC_STRLEN_def BRC_MAXNUM_def)
  let ?pad = "name @ replicate (15 - length name) 0"
  have eq: "old_rec name ts @ m = ?pad @ word_of_nat (length ts) # concat (map le32 ts) @ m"
    by (simp add: old_rec_def BRC_STRLEN_def)
  have pad: "length ?pad = 15" "takeWhile (\<lambda>c. c \<noteq> 0) ?pad = name"
    using l takeWhile_pad by auto
  have n: "unat (word_of_nat (length ts) :: byte) = length ts"
    using l(3) by (simp add: unsigned_of_nat take_bit_eq_mod)
  have parts: "take 15 (old_rec name ts @ m) = ?pad"
    "drop 16 (old_rec name ts @ m) = concat (map le32 ts) @ m"
    "(old_rec name ts @ m) ! 15 = word_of_nat (length ts)"
    "16 \<le> length (old_rec name ts @ m)"
    using pad(1) by (simp_all add: eq nth_append)
  have dr: "drop (4 * length ts) (concat (map le32 ts) @ m) = m"
    "4 * length ts \<le> length (concat (map le32 ts) @ m)"
    using length_concat_le32 [of ts] by (simp_all del: length_concat)
  have mn: "min (length ts) 60 = length ts" using l(3) by simp
  have s16: "BRC_STRLEN = 15" "BRC_MAXNUM = 60" "15 + 1 = (16::nat)"
    by (simp_all add: BRC_STRLEN_def BRC_MAXNUM_def)
  have "brc_getrecord (old_rec name ts @ m) zero_onebrc = Some (m,
      zero_onebrc\<lparr>board := name, num := length ts, blist := ts @ drop (length ts) (blist zero_onebrc)\<rparr>)"
    unfolding brc_getrecord_def s16 parts n mn pad(2) Let_def dr(1) rd_ints_concat [OF l(4)]
    using parts(4) dr(2) by simp
  then show ?thesis by (simp add: old_brc_def zero_onebrc_def s16)
qed

lemma old_brc_wf: "wf_old name ts \<Longrightarrow> wf_pack (old_brc name ts)"
  by (auto simp: wf_old_def wf_pack_def wf_brc_def old_brc_def zero_onebrc_def ents_def good_name_def)

text \<open>With \<open>maxsize\<close> zero nothing but the new block is kept.\<close>

lemma putblock_no_room:
  assumes "maxsize a = 0" "abuf a = blks ps @ t" "asize a = int (length (blks ps))"
    "list_all wf_blk ps" "ps \<noteq> [] \<Longrightarrow> fst (hd ps) \<noteq> info_name" "wf_blk p"
  shows "brc_putblock a (blk p) = Some (a\<lparr>asize := int (length (blk p)), achanged := True,
            abuf := blk p @ drop (length (blk p)) (abuf a)\<rparr>)"
proof -
  have nm: "cstr_at (drop 2 (blk p)) = Some (fst p)" "0 \<notin> set (fst p)" "length (fst p) < BRC_STRLEN"
    using assms(6) by (auto simp: blk_def wf_blk_def cstr_at_append)
  have own: "take (nat (rd_s16 (blk p))) (blk p) = blk p"
    using rd_s16_blk [OF assms(6), of "[]"] by simp
  have keep: "(if asize a > 0 \<and> fst p \<noteq> info_name
        then strncmp_mem 6 (drop 2 (abuf a)) info_name else Some False) = Some False"
  proof (cases ps)
    case (Cons q qs)
    have "abuf a = blk q @ blks qs @ t" "wf_blk q" "fst q \<noteq> info_name" using assms Cons by auto
    then show ?thesis
      using take6_info [of "fst q"] strncmp_mem_cstr [of "fst q" info_name 6 "snd q @ blks qs @ t"] info_name_facts
      by (simp add: blk_def wf_blk_def)
  qed (use assms in simp)
  have len: "\<not> BRC_MAXSIZE < length (blk p)" using assms(6) by (simp add: wf_blk_def BRC_MAXSIZE_def)
  have k: "keep_loop 0 (fst p) ps (length (blk p)) = []"
    by (cases ps) (auto simp: length_blk_pos)
  have loop: "putblock_loop 0 (fst p) (abuf a) (asize a) (blk p) = Some (blk p)"
    unfolding assms(2,3) putblock_loop_blks [OF assms(4) nm(2,3)] k by simp
  show ?thesis
    unfolding brc_putblock_def nm option.case keep own assms(1) Let_def
    using loop len by simp
qed

definition no_room_rep :: "allbrc \<Rightarrow> named_block list \<Rightarrow> bool" where
  "no_room_rep a ps \<longleftrightarrow> maxsize a = 0 \<and> (\<exists>t. abuf a = blks ps @ t)
     \<and> asize a = int (length (blks ps)) \<and> list_all wf_blk ps \<and> (ps \<noteq> [] \<longrightarrow> fst (hd ps) \<noteq> info_name)"

lemma init_old_step:
  assumes "wf_old name ts" "no_room_rep a ps"
  shows "\<exists>a' q. init_old_loop (old_rec name ts @ m) a = init_old_loop m a'
     \<and> no_room_rep a' [q] \<and> fst q = name"
proof -
  let ?b = "shorter_brc ((old_brc name ts)\<lparr>changed := False\<rparr>)"
  let ?q = "(board ?b, pack_rest ?b)"
  obtain t where rep: "maxsize a = 0" "abuf a = blks ps @ t" "asize a = int (length (blks ps))"
    "list_all wf_blk ps" "ps \<noteq> [] \<Longrightarrow> fst (hd ps) \<noteq> info_name"
    using assms(2) by (auto simp: no_room_rep_def)
  have w: "wf_blk ?q" by (intro wf_blk_compress wf_pack_shorter old_brc_wf assms(1))
  have bd: "board ?b = name" by (simp add: shorter_brc_frame old_brc_def zero_onebrc_def)
  let ?a = "a\<lparr>asize := int (length (blk ?q)), achanged := True,
            abuf := blk ?q @ drop (length (blk ?q)) (abuf a)\<rparr>"
  have put: "brc_putboard a ((old_brc name ts)\<lparr>changed := False, changed := True\<rparr>) = Some (?a, ?b)"
    using putblock_no_room [OF rep w] by (simp add: brc_putboard_def compress_blk Let_def)
  have more: "length m < length (old_rec name ts @ m)" by (simp add: old_rec_def)
  have hd: "old_rec name ts @ m \<noteq> []" "hd (old_rec name ts @ m) = hd name"
    using assms(1) by (auto simp: old_rec_def wf_old_def)
  have "init_old_loop (old_rec name ts @ m) a = init_old_loop m ?a"
    using hd more assms(1) put
    by (subst init_old_loop.simps) (simp add: getrecord_old [OF assms(1)] wf_old_def)
  moreover have "no_room_rep ?a [?q]"
    using rep(1) w bd assms(1) by (auto simp: no_room_rep_def wf_old_def)
  ultimately show ?thesis using bd by (intro exI [of _ ?a] exI [of _ ?q]) simp
qed

abbreviation old_file :: "(cstr \<times> int list) list \<Rightarrow> byte list" where
  "old_file rs \<equiv> concat (map (\<lambda>r. old_rec (fst r) (snd r)) rs)"

lemma init_old_all:
  assumes "list_all (\<lambda>r. wf_old (fst r) (snd r)) rs" "no_room_rep a ps"
  shows "\<exists>a' qs. init_old_loop (old_file rs) a = Some a' \<and> no_room_rep a' qs
     \<and> (if rs = [] then qs = ps else map fst qs = [fst (last rs)])"
  using assms
proof (induction rs arbitrary: a ps)
  case Nil
  then show ?case by (auto simp: init_old_loop.simps)
next
  case (Cons r rs)
  obtain a1 q where q: "init_old_loop (old_rec (fst r) (snd r) @ old_file rs) a
      = init_old_loop (old_file rs) a1" "no_room_rep a1 [q]" "fst q = fst r"
    using init_old_step [of "fst r" "snd r" a ps "old_file rs"] Cons.prems by auto
  obtain a' qs where "init_old_loop (old_file rs) a1 = Some a'" "no_room_rep a' qs"
    "if rs = [] then qs = [q] else map fst qs = [fst (last rs)]"
    using Cons.IH [OF _ q(2)] Cons.prems(1) by auto
  then show ?case using q by (intro exI [of _ a'] exI [of _ qs]) (auto split: if_splits)
qed

lemma no_room_absent:
  assumes "no_room_rep a qs" "good_name n" "n \<notin> fst ` set qs"
  shows "brc_getblock a n = Some None"
proof -
  obtain t where rep: "abuf a = blks qs @ t" "asize a = int (length (blks qs))" "list_all wf_blk qs"
    using assms(1) by (auto simp: no_room_rep_def)
  have "blk_off qs n = None" using assms(3) by (simp add: blk_off_map_of map_of_eq_None_iff)
  then show ?thesis
    using getblock_at_blks [OF rep(3), of n "[]" t] assms(2) rep
    by (simp add: brc_getblock_def good_name_def del: length_concat)
qed

section \<open>Properties of the store\<close>



text \<open>
  What \<open>brc_putboard\<close> saved, \<open>brc_getboard\<close> loads: the name, the note time and a list that
  answers every unread query as the saved one did, whatever the caller's record held before.
\<close>

theorem putboard_then_getboard:
  assumes "changed b" "wf_pack b" "store_ok a" "length (blist b0) = BRC_MAXNUM"
  shows "\<exists>a' b' b2. brc_putboard a b = Some (a', b') \<and> brc_getboard a' b0 (board b) = Some b2
     \<and> wf_brc b2 \<and> board b2 = board b \<and> notetime b2 = notetime b
     \<and> (\<forall>t. snd (brc_unreadt b2 t) = unread_spec (ents b) t)"
proof -
  obtain a' b' where p: "brc_putboard a b = Some (a', b')" "store_ok a'" "wf_pack b'" "board b' = board b"
    "notetime b' = notetime b" "\<And>t. unread_spec (ents b') t = unread_spec (ents b) t"
    "block_bytes a' (board b) = Some (compress_brc b')"
    using putboard_put [OF assms(1-3)] by blast
  let ?b2 = "b0\<lparr>changed := False, board := board b', num := num b',
             blist := ents b' @ drop (num b') (blist b0), notetime := notetime b'\<rparr>"
  have "brc_getboard a' b0 (board b) = Some ?b2"
    using unread_quick_found(2) [OF p(2,3) _ assms(4)] p(4,7) by simp
  moreover have w: "wf_brc b'" using p(3) by (simp add: wf_pack_def)
  moreover have "ents ?b2 = ents b'" using length_ents [OF w] by (simp add: ents_def)
  moreover have "wf_brc ?b2"
    using calculation(3) w length_ents [OF w] assms(4) by (auto simp: wf_brc_def)
  ultimately show ?thesis
    using p brc_unreadt_slot [of ?b2] by (intro exI [of _ a'] exI [of _ b'] exI [of _ ?b2]) simp
qed

lemma putboard_then_getboard_witness:
  "\<exists>a' b' b2. brc_putboard empty_store sample_brc = Some (a', b')
     \<and> brc_getboard a' zero_onebrc (lit ''test'') = Some b2 \<and> notetime b2 = 7
     \<and> snd (brc_unreadt b2 1100000300)"
proof -
  have "changed sample_brc" "board sample_brc = lit ''test''" "notetime sample_brc = 7"
    "ents sample_brc = [1200000000, 1100000500, 1100000200]"
    "length (blist zero_onebrc) = BRC_MAXNUM"
    by (simp_all add: sample_brc_def ents_def zero_onebrc_def)
  with putboard_then_getboard [OF _ sample_brc_wf store_rep_ok [OF empty_store_rep], of zero_onebrc]
  show ?thesis by (fastforce simp: unread_spec_def)
qed

text \<open>
  The user's information saved with \<open>brc_putinfo\<close> is never lost to other blocks: after any
  sequence of puts of board blocks \<open>brc_getinfo\<close> still returns the saved 44 bytes.
\<close>

theorem info_survives:
  assumes "store_ok a" "length info = BRCINFO_SIZE"
    "list_all (\<lambda>b. good_block b \<and> block_name b \<noteq> info_name) bs"
  shows "\<exists>a1 a2. brc_putinfo a info = Some a1 \<and> put_seq brc_putblock a1 bs = Some a2
     \<and> brc_getinfo a2 = Some info"
proof -
  obtain ps where ps: "store_rep a ps" using assms(1) by (auto simp: store_ok_def)
  obtain a1 where a1: "brc_putinfo a info = Some a1"
    "store_rep a1 (put_spec (maxsize a) ps (info_blk info))"
    using brc_putblock_rep [OF ps wf_info_blk [OF assms(2)]] putinfo_blk [OF assms(2)] by auto
  have "put_spec (maxsize a) ps (info_blk info) \<noteq> [] \<and>
      hd (put_spec (maxsize a) ps (info_blk info)) = info_blk info"
    by (simp add: put_spec_def info_blk_def)
  then obtain a2 qs where a2: "put_seq brc_putblock a1 bs = Some a2" "store_rep a2 qs" "qs \<noteq> []"
    "hd qs = info_blk info"
    using put_seq_keeps_info [OF a1(2) _ _ assms(3), of info] by auto
  have "map_of qs info_name = Some info" using a2(3,4) by (cases qs) (auto simp: info_blk_def)
  then show ?thesis using getinfo_rep [OF a2(2) _ assms(2)] a1(1) a2(1) by auto
qed

lemma info_survives_witness:
  "\<exists>a1 a2. brc_putinfo empty_store (replicate 44 9) = Some a1
     \<and> put_seq brc_putblock a1 [compress_brc sample_brc] = Some a2
     \<and> brc_getinfo a2 = Some (replicate 44 9)"
proof -
  have "block_name (compress_brc sample_brc) \<noteq> info_name" "good_block (compress_brc sample_brc)"
    using wf_blk_compress [OF sample_brc_wf] block_name_blk [OF wf_blk_compress [OF sample_brc_wf]]
    by (auto simp: good_block_def compress_blk info_name_def sample_brc_def)
  then show ?thesis
    using info_survives [OF store_rep_ok [OF empty_store_rep], of "replicate 44 9"
        "[compress_brc sample_brc]"] by (simp add: BRCINFO_SIZE_def)
qed



text \<open>
  \<open>brc_init_old\<close> keeps one board only.  Because \<open>maxsize\<close> is still zero while the old records are
  put, every put drops what was there, and after the conversion of any file of well-formed records
  each board but the last one is entirely unread.
\<close>

theorem init_old_keeps_only_last:
  assumes "rs \<noteq> []" "list_all (\<lambda>r. wf_old (fst r) (snd r)) rs" "length (old_file rs) \<le> BRC_MAXSIZE"
    "fs f = Some (old_file rs)"
  shows "\<exists>a. brc_init_old fs f = Some a
     \<and> (\<forall>n t. good_name n \<and> n \<noteq> fst (last rs) \<longrightarrow> brc_unreadt_quick a n t = Some True)"
proof -
  let ?a0 = "\<lparr>asize = 0, achanged = False, maxsize = 0, abuf = replicate BRC_MAXSIZE 0\<rparr>"
  have "no_room_rep ?a0 []" by (simp add: no_room_rep_def)
  from init_old_all [OF assms(2) this] obtain a qs where
    a: "init_old_loop (old_file rs) ?a0 = Some a" "no_room_rep a qs" "map fst qs = [fst (last rs)]"
    using assms(1) by auto
  have "brc_init_old fs f = Some a"
    using a(1) assms(3,4) by (simp add: brc_init_old_def del: length_concat)
  moreover have "fst ` set qs = {fst (last rs)}" using a(3) by (metis list.set(1,2) set_map)
  ultimately show ?thesis
    using no_room_absent [OF a(2)] by (auto simp: brc_unreadt_quick_def)
qed

lemma init_old_keeps_only_last_witness:
  "\<exists>a. brc_init_old (\<lambda>_. Some (old_file [(lit ''Linux'', [1000000000]), (lit ''C'', [1000000000])])) [] = Some a
     \<and> brc_unreadt_quick a (lit ''Linux'') 5 = Some True"
proof -
  have "list_all (\<lambda>r. wf_old (fst r) (snd r)) [(lit ''Linux'', [1000000000]), (lit ''C'', [1000000000])]"
    by (simp add: wf_old_def good_name_def info_name_def BRC_STRLEN_def BRC_MAXNUM_def small_times_def)
  then show ?thesis
    using init_old_keeps_only_last [of "[(lit ''Linux'', [1000000000]), (lit ''C'', [1000000000])]"
        "\<lambda>_. Some (old_file [(lit ''Linux'', [1000000000]), (lit ''C'', [1000000000])])" "[]"]
    by (fastforce simp: old_rec_def BRC_STRLEN_def BRC_MAXSIZE_def good_name_def)
qed

end
