(* ===== verification/UserHash.thy ===== *)
theory UserHash
  imports YthtPrelude
begin

text \<open>
  The user-id hash in shared memory (\<open>struct UCACHEHASH\<close>) over the password file
  (\<open>struct userec\<close>): \<open>ucache_hash\<close>, \<open>insertuseridhash\<close>, \<open>finduseridhash\<close>, \<open>deluseridhash\<close>,
  \<open>load_ucache\<close> and \<open>usersum\<close> of \<open>libythtbbs/bbsinfo.c\<close>.  The buckets are singly linked chains
  through the array \<open>next\<close>; bucket 0 holds the free slots.  \<open>uh_rep\<close> relates the arrays to the
  lists of slots they stand for, and the locale \<open>user_index\<close> states what \<open>libythtbbs/user.c\<close> needs
  of the three operations.
\<close>

definition UCACHE_HASHBSIZE :: nat where
  "UCACHE_HASHBSIZE = 617"

section \<open>Data\<close>

text \<open>
  \<open>struct userec\<close>; the bit fields \<open>dieday\<close> to \<open>nouse1\<close> are kept as their byte.
\<close>

record userec =
  userid :: cstr
  uflags :: "byte list"
  firstlogin :: int
  lastlogin :: int
  lastlogout :: int
  ubits :: byte
  extralife5 :: nat
  lasthost :: int
  username :: cstr
  numdays :: nat
  mailsize :: int
  numlogins :: nat
  numposts :: nat
  stay :: int
  userlevel :: "32 word"
  userip :: int
  userdefine :: "32 word"
  passwd :: "byte list"
  salt :: int
  kickout :: int

text \<open>
  The element \<open>next[0]\<close> is no link: it counts the free slots, and is the field \<open>nfree\<close> here.
  \<open>lastspace\<close> is the static variable of \<open>insertuseridhash\<close>.
\<close>

record ucache =
  hash_head :: "nat \<Rightarrow> nat"
  next_slot :: "nat \<Rightarrow> nat"
  nfree :: int
  hashtable :: "int list list"
  lastspace :: int

definition mytoupper :: "byte \<Rightarrow> byte" where
  "mytoupper ch = (if isalpha ch then toupper ch else ch mod (90 - 65) + 65)"

definition letter :: "byte \<Rightarrow> nat" where
  "letter c = unat (mytoupper c) - 65"

section \<open>The hash function\<close>

text \<open>
  The descent through the table: a negative entry names the row for the next letter.  The value
  reached, the letters left and the number of letters looked at; \<open>None\<close> when the table leads out of
  itself or round in a circle.
\<close>

partial_function (option) hash_walk ::
  "int list list \<Rightarrow> int \<Rightarrow> cstr \<Rightarrow> nat \<Rightarrow> (nat \<times> cstr \<times> nat) option" where
  "hash_walk tab n1 s d =
     (if n1 \<ge> 0 then Some (nat n1, s, d)
      else let r = nat (- n1 - 1) in
        if length tab \<le> r then None
        else (case s of
                [] \<Rightarrow> hash_walk tab (tab ! r ! 0) [] (d + 1)
              | c # s' \<Rightarrow> hash_walk tab (tab ! r ! letter c) s' (d + 1)))"

definition ucache_hash_deep :: "int list list \<Rightarrow> cstr \<Rightarrow> nat option" where
  "ucache_hash_deep tab u =
     (case u of
        [] \<Rightarrow> Some 0
      | c # s \<Rightarrow> map_option (\<lambda>(n1, s', d). d) (hash_walk tab (tab ! 0 ! letter c) s 1))"

text \<open>The weighted sum over the letters left.\<close>

fun hash_sum :: "cstr \<Rightarrow> nat" where
  "hash_sum [] = 0"
| "hash_sum (c # s) = letter c * length (c # s) + hash_sum s"

definition ucache_hash :: "int list list \<Rightarrow> nat \<Rightarrow> cstr \<Rightarrow> nat option" where
  "ucache_hash tab maxusers u =
     (let hs = maxusers * 4 in
      case u of
        [] \<Rightarrow> Some 0
      | c # s \<Rightarrow>
          (case hash_walk tab (tab ! 0 ! letter c) s 1 of
             None \<Rightarrow> None
           | Some (n1, s', d) \<Rightarrow>
               let h = n1 * UCACHE_HASHBSIZE mod hs + 1 in
               if s' = [] then Some h
               else Some ((h + hash_sum s' mod UCACHE_HASHBSIZE) mod hs + 1)))"

section \<open>The chain operations\<close>

text \<open>The number of users is the length of the password array.\<close>

abbreviation uhash :: "ucache \<Rightarrow> userec list \<Rightarrow> cstr \<Rightarrow> nat option" where
  "uhash u pw \<equiv> ucache_hash (hashtable u) (length pw)"

definition insertuseridhash :: "ucache \<Rightarrow> userec list \<Rightarrow> cstr \<Rightarrow> nat \<Rightarrow> bool \<Rightarrow> ucache option" where
  "insertuseridhash u pw name n tohead =
     (case uhash u pw name of
        None \<Rightarrow> None
      | Some h \<Rightarrow>
          let u1 = (if h \<noteq> 0 \<or> tohead
                    then u\<lparr>next_slot := (next_slot u)(n := hash_head u h),
                           hash_head := (hash_head u)(h := n)\<rparr>
                    else let v = (if lastspace u = - 1
                                  then u\<lparr>hash_head := (hash_head u)(h := n)\<rparr>
                                  else u\<lparr>next_slot := (next_slot u)(nat (lastspace u) := n)\<rparr>)
                         in v\<lparr>next_slot := (next_slot v)(n := 0), lastspace := int n\<rparr>)
          in Some (if name = [] then u1\<lparr>nfree := nfree u1 + 1\<rparr> else u1))"

text \<open>
  The search loop from slot \<open>i\<close>: 0 ends a chain.  \<open>None\<close> when a link leads outside the password
  array or the chain is a circle without a match.
\<close>

partial_function (option) find_loop ::
  "(nat \<Rightarrow> nat) \<Rightarrow> userec list \<Rightarrow> cstr \<Rightarrow> nat \<Rightarrow> int option" where
  "find_loop nx pw name i =
     (if i = 0 then Some (- 1)
      else if length pw < i then None
      else if strcaseeq name (userid (pw ! (i - 1))) then Some (int i)
      else find_loop nx pw name (nx i))"

definition finduseridhash :: "ucache \<Rightarrow> userec list \<Rightarrow> cstr \<Rightarrow> int option" where
  "finduseridhash u pw name =
     (case uhash u pw name of
        None \<Rightarrow> None
      | Some h \<Rightarrow> find_loop (next_slot u) pw name (hash_head u h))"

partial_function (option) del_loop ::
  "ucache \<Rightarrow> userec list \<Rightarrow> cstr \<Rightarrow> nat \<Rightarrow> nat option \<Rightarrow> nat \<Rightarrow> (ucache \<times> int) option" where
  "del_loop u pw name h prev i =
     (if i = 0 then Some (u, - 1)
      else if length pw < i then None
      else if strcaseeq name (userid (pw ! (i - 1)))
      then (let u1 = (case prev of
                        Some p \<Rightarrow> u\<lparr>next_slot := (next_slot u)(p := next_slot u i)\<rparr>
                      | None \<Rightarrow> u\<lparr>hash_head := (hash_head u)(h := next_slot u i)\<rparr>)
            in Some (if name = [] then u1\<lparr>nfree := nfree u1 - 1\<rparr> else u1, int i))
      else del_loop u pw name h (Some i) (next_slot u i))"

definition deluseridhash :: "ucache \<Rightarrow> userec list \<Rightarrow> cstr \<Rightarrow> (ucache \<times> int) option" where
  "deluseridhash u pw name =
     (case uhash u pw name of
        None \<Rightarrow> None
      | Some h \<Rightarrow> del_loop u pw name h None (hash_head u h))"

text \<open>
  \<open>load_ucache\<close> from slot \<open>i\<close> on; \<open>False\<close> is the error return on a duplicate user.  \<open>tab\<close> is what
  \<open>ucache_hashinit\<close> read from \<open>uhashgen.dat\<close>, \<open>None\<close> when it failed; \<open>ls\<close> is the value the static
  variable \<open>lastspace\<close> has when the function is entered.
\<close>

fun load_loop :: "ucache \<Rightarrow> userec list \<Rightarrow> nat \<Rightarrow> nat \<Rightarrow> (ucache \<times> bool) option" where
  "load_loop u pw i 0 = Some (u, True)"
| "load_loop u pw i (Suc k) =
     (let name = userid (pw ! i) in
      case (if name \<noteq> [] then finduseridhash u pw name else Some (- 1)) of
        None \<Rightarrow> None
      | Some r \<Rightarrow>
          if r > 0 then Some (u, False)
          else case insertuseridhash u pw name (i + 1) False of
                 None \<Rightarrow> None
               | Some u' \<Rightarrow> load_loop u' pw (i + 1) k)"

definition load_ucache :: "int list list option \<Rightarrow> int \<Rightarrow> userec list \<Rightarrow> (ucache \<times> bool) option" where
  "load_ucache tab ls pw =
     (let u = \<lparr>hash_head = (\<lambda>_. 0), next_slot = (\<lambda>_. 0), nfree = 0, hashtable = [], lastspace = ls\<rparr>
      in case tab of
           None \<Rightarrow> Some (u, False)
         | Some t \<Rightarrow> load_loop (u\<lparr>hashtable := t\<rparr>) pw 0 (length pw))"

definition usersum :: "ucache \<Rightarrow> nat \<Rightarrow> int" where
  "usersum u maxusers = int maxusers - nfree u"

section \<open>The hash is total, in range and blind to case\<close>

lemma mytoupper_tolower: "mytoupper (tolower c) = mytoupper c"
proof (cases "isupper c")
  case True
  then have u: "65 \<le> unat c" "unat c \<le> 90"
    by (simp_all add: isupper_def word_le_nat_alt)
  then have "unat (c + 32) = unat c + 32" by (simp add: unat_word_ariths)
  then have "islower (c + 32)" "\<not> islower c"
    using u by (simp_all add: islower_def word_le_nat_alt)
  then show ?thesis using True by (simp add: mytoupper_def tolower_def isalpha_def toupper_def)
qed (simp add: tolower_def)

lemma mytoupper_range: "65 \<le> unat (mytoupper c) \<and> unat (mytoupper c) \<le> 90"
proof -
  consider "isupper c" | "islower c" "\<not> isupper c" | "\<not> isalpha c"
    by (auto simp: isalpha_def)
  then show ?thesis
  proof cases
    case 1
    then have "\<not> islower c" by (auto simp: isupper_def islower_def word_le_nat_alt)
    then show ?thesis using 1
      by (simp add: mytoupper_def isalpha_def toupper_def) (simp add: isupper_def word_le_nat_alt)
  next
    case 2
    then have "97 \<le> unat c" "unat c \<le> 122" by (simp_all add: islower_def word_le_nat_alt)
    then have "unat (c - 32) = unat c - 32" by (simp add: unat_sub word_le_nat_alt)
    with 2 \<open>97 \<le> unat c\<close> \<open>unat c \<le> 122\<close> show ?thesis
      by (auto simp: mytoupper_def isalpha_def toupper_def)
  next
    case 3
    have "unat (c mod 25 + 65) = unat c mod 25 + 65"
      by (simp add: unat_word_ariths unat_mod)
    moreover have "unat c mod 25 < 25" by simp
    ultimately show ?thesis using 3 by (simp add: mytoupper_def)
  qed
qed

lemma letter_less: "letter c < 26"
  using mytoupper_range [of c] unfolding letter_def by linarith

lemma letter_case: "tolower a = tolower b \<Longrightarrow> letter a = letter b"
  using mytoupper_tolower [of a] mytoupper_tolower [of b] by (simp add: letter_def)

text \<open>The rows of the generated table refer to later rows only.\<close>

definition wf_tab :: "int list list \<Rightarrow> bool" where
  "wf_tab tab \<longleftrightarrow> tab \<noteq> [] \<and> (\<forall>r < length tab. length (tab ! r) = 26 \<and>
     (\<forall>x \<in> set (tab ! r). x < 0 \<longrightarrow> int r < - x - 1 \<and> - x - 1 < int (length tab)))"

lemma wf_tab_entry:
  assumes "wf_tab tab" "r < length tab" "k < 26" "tab ! r ! k < 0"
  shows "r < nat (- (tab ! r ! k) - 1)" "nat (- (tab ! r ! k) - 1) < length tab"
proof -
  have "tab ! r ! k \<in> set (tab ! r)" "int r < - (tab ! r ! k) - 1 \<and> - (tab ! r ! k) - 1 < int (length tab)"
    using assms by (auto simp: wf_tab_def)
  then show "r < nat (- (tab ! r ! k) - 1)" "nat (- (tab ! r ! k) - 1) < length tab" by auto
qed

lemma hash_walk_total:
  assumes "wf_tab tab" "n1 < 0 \<Longrightarrow> nat (- n1 - 1) < length tab"
  shows "\<exists>h s' d'. hash_walk tab n1 s d = Some (h, s', d') \<and> length s' \<le> length s"
  using assms(2)
proof (induction "if n1 < 0 then length tab - nat (- n1 - 1) else 0" arbitrary: n1 s d rule: less_induct)
  case less
  show ?case
  proof (cases "n1 < 0")
    case False
    then show ?thesis by (simp add: hash_walk.simps)
  next
    case True
    let ?r = "nat (- n1 - 1)"
    have r: "?r < length tab" using less.prems True by simp
    have step: "\<exists>h s' d'. hash_walk tab (tab ! ?r ! k) s1 (d + 1) = Some (h, s', d') \<and> length s' \<le> length s1"
      if "k < 26" for k s1
    proof (rule less.hyps)
      show "(if tab ! ?r ! k < 0 then length tab - nat (- (tab ! ?r ! k) - 1) else 0)
          < (if n1 < 0 then length tab - ?r else 0)"
        using wf_tab_entry [OF assms(1) r that] True r by auto
      show "nat (- (tab ! ?r ! k) - 1) < length tab" if "tab ! ?r ! k < 0"
        using wf_tab_entry(2) [OF assms(1) r \<open>k < 26\<close> that] .
    qed
    show ?thesis
    proof (cases s)
      case Nil
      then show ?thesis
        using True r step [of 0 "[]"] by (subst hash_walk.simps) auto
    next
      case (Cons c s1)
      obtain h s' d' where "hash_walk tab (tab ! ?r ! letter c) s1 (d + 1) = Some (h, s', d')"
        "length s' \<le> length s1"
        using step [OF letter_less] by blast
      then show ?thesis using True r Cons by (subst hash_walk.simps) auto
    qed
  qed
qed

lemma hash_first_ok:
  assumes "wf_tab tab"
  shows "tab ! 0 ! letter c < 0 \<Longrightarrow> nat (- (tab ! 0 ! letter c) - 1) < length tab"
  using wf_tab_entry(2) [OF assms _ letter_less] assms by (simp add: wf_tab_def)

lemma ucache_hash_total:
  assumes "wf_tab tab" "0 < mu"
  shows "\<exists>h. ucache_hash tab mu u = Some h \<and> h \<le> mu * 4 \<and> (h = 0 \<longleftrightarrow> u = [])"
proof (cases u)
  case Nil
  then show ?thesis by (simp add: ucache_hash_def)
next
  case (Cons c s)
  obtain n1 s' d where w: "hash_walk tab (tab ! 0 ! letter c) s 1 = Some (n1, s', d)"
    using hash_walk_total [OF assms(1) hash_first_ok [OF assms(1)]] by blast
  have m: "Suc (x mod (mu * 4)) \<le> mu * 4" for x
    using assms(2) mod_less_divisor [of "mu * 4" x] by (simp add: Suc_le_eq)
  show ?thesis using w Cons m by (simp add: ucache_hash_def Let_def)
qed

text \<open>Two ids that differ in case walk the table alike.\<close>

lemma hash_walk_case:
  assumes "wf_tab tab" "n1 < 0 \<Longrightarrow> nat (- n1 - 1) < length tab" "map tolower s = map tolower t"
  shows "\<exists>h s' t' d'. hash_walk tab n1 s d = Some (h, s', d') \<and> hash_walk tab n1 t d = Some (h, t', d')
     \<and> map tolower s' = map tolower t'"
  using assms(2,3)
proof (induction "if n1 < 0 then length tab - nat (- n1 - 1) else 0" arbitrary: n1 s t d rule: less_induct)
  case less
  show ?case
  proof (cases "n1 < 0")
    case False
    then show ?thesis using less.prems by (simp add: hash_walk.simps)
  next
    case True
    let ?r = "nat (- n1 - 1)"
    have r: "?r < length tab" using less.prems True by simp
    have step: "\<exists>h s' t' d'. hash_walk tab (tab ! ?r ! k) s1 (d + 1) = Some (h, s', d')
        \<and> hash_walk tab (tab ! ?r ! k) t1 (d + 1) = Some (h, t', d') \<and> map tolower s' = map tolower t'"
      if k: "k < 26" and st: "map tolower s1 = map tolower t1" for k s1 t1
    proof (rule less.hyps [OF _ _ st])
      show "(if tab ! ?r ! k < 0 then length tab - nat (- (tab ! ?r ! k) - 1) else 0)
          < (if n1 < 0 then length tab - ?r else 0)"
        using wf_tab_entry [OF assms(1) r k] True r by auto
      show "nat (- (tab ! ?r ! k) - 1) < length tab" if "tab ! ?r ! k < 0"
        using wf_tab_entry(2) [OF assms(1) r k that] .
    qed
    show ?thesis
    proof (cases s)
      case Nil
      then have "t = []" using less.prems by simp
      then show ?thesis
        using True r step [of 0 "[]" "[]"] Nil
        by (simp add: hash_walk.simps [of tab n1 "[]" d])
    next
      case (Cons a s1)
      then obtain b t1 where t: "t = b # t1" "tolower a = tolower b" "map tolower s1 = map tolower t1"
        using less.prems by (cases t) auto
      show ?thesis
        using step [OF letter_less [of a] t(3)] True r Cons t(1) letter_case [OF t(2)]
        by (simp add: hash_walk.simps [of tab n1 "a # s1" d] hash_walk.simps [of tab n1 "b # t1" d])
    qed
  qed
qed

lemma hash_sum_case: "map tolower s = map tolower t \<Longrightarrow> hash_sum s = hash_sum t"
proof (induction s arbitrary: t)
  case (Cons a s)
  then obtain b t1 where t: "t = b # t1" "tolower a = tolower b" "map tolower s = map tolower t1"
    by (cases t) auto
  from letter_case [OF t(2)] map_eq_imp_length_eq [OF t(3)] Cons.IH [OF t(3)] show ?case
    by (simp add: t(1))
qed simp

lemma ucache_hash_case:
  assumes "wf_tab tab" "strcaseeq a b"
  shows "ucache_hash tab mu a = ucache_hash tab mu b"
proof (cases a)
  case Nil
  then show ?thesis using assms(2) by simp
next
  case (Cons x s)
  then obtain y t where b: "b = y # t" "tolower x = tolower y" "map tolower s = map tolower t"
    using assms(2) by (cases b) (auto simp: strcaseeq_def)
  obtain h s' t' d' where "hash_walk tab (tab ! 0 ! letter x) s 1 = Some (h, s', d')"
    "hash_walk tab (tab ! 0 ! letter x) t 1 = Some (h, t', d')" "map tolower s' = map tolower t'"
    using hash_walk_case [OF assms(1) hash_first_ok [OF assms(1)] b(3)] by blast
  moreover have "s' = [] \<longleftrightarrow> t' = []" using calculation(3) by auto
  ultimately show ?thesis
    using Cons b(1) letter_case [OF b(2)] hash_sum_case [of s' t']
    by (simp add: ucache_hash_def Let_def)
qed

section \<open>Chains\<close>

text \<open>The links from \<open>i\<close> visit the slots \<open>xs\<close> and arrive at \<open>j\<close>.\<close>

fun path :: "(nat \<Rightarrow> nat) \<Rightarrow> nat \<Rightarrow> nat list \<Rightarrow> nat \<Rightarrow> bool" where
  "path n i [] j \<longleftrightarrow> i = j"
| "path n i (x # xs) j \<longleftrightarrow> i = x \<and> i \<noteq> 0 \<and> path n (n i) xs j"

abbreviation chain :: "(nat \<Rightarrow> nat) \<Rightarrow> nat \<Rightarrow> nat list \<Rightarrow> bool" where
  "chain n i xs \<equiv> path n i xs 0"

lemma path_append: "path n i (xs @ ys) j \<longleftrightarrow> (\<exists>k. path n i xs k \<and> path n k ys j)"
  by (induction xs arbitrary: i) auto

lemma path_update [simp]: "v \<notin> set xs \<Longrightarrow> path (n(v := w)) i xs j \<longleftrightarrow> path n i xs j"
  by (induction xs arbitrary: i) auto

lemma path_cong: "\<forall>v \<in> set xs. n' v = n v \<Longrightarrow> path n' i xs j \<longleftrightarrow> path n i xs j"
  by (induction xs arbitrary: i) auto

lemma path_snoc_update:
  "path n i (xs @ [p]) j \<Longrightarrow> p \<notin> set xs \<Longrightarrow> path (n(p := k)) i (xs @ [p]) k"
  by (auto simp: path_append)

definition slot_rel :: "cstr \<Rightarrow> userec list \<Rightarrow> nat \<Rightarrow> bool" where
  "slot_rel name pw i \<longleftrightarrow> strcaseeq name (userid (pw ! (i - 1)))"

lemma slot_rel_fold: "strcaseeq name (userid (pw ! (i - Suc 0))) \<longleftrightarrow> slot_rel name pw i"
  by (simp add: slot_rel_def)

definition as_result :: "nat option \<Rightarrow> int" where
  "as_result r = (case r of None \<Rightarrow> - 1 | Some i \<Rightarrow> int i)"

lemma find_loop_chain:
  assumes "chain nx i xs" "\<forall>x \<in> set xs. x \<le> length pw"
  shows "find_loop nx pw name i = Some (as_result (find (slot_rel name pw) xs))"
  using assms
proof (induction xs arbitrary: i)
  case Nil
  then show ?case by (simp add: find_loop.simps as_result_def)
next
  case (Cons x xs)
  then show ?case by (subst find_loop.simps) (auto simp: as_result_def slot_rel_fold)
qed

text \<open>What taking slot \<open>j\<close> out of the chain of bucket \<open>h\<close> leaves.\<close>

definition unlinked :: "ucache \<Rightarrow> ucache \<Rightarrow> cstr \<Rightarrow> nat \<Rightarrow> nat list \<Rightarrow> nat \<Rightarrow> bool" where
  "unlinked u u' name h xs j \<longleftrightarrow>
     chain (next_slot u') (hash_head u' h) (remove1 j xs)
     \<and> (\<forall>h'. h' \<noteq> h \<longrightarrow> hash_head u' h' = hash_head u h')
     \<and> (\<forall>v. v \<notin> set xs \<longrightarrow> next_slot u' v = next_slot u v)
     \<and> hashtable u' = hashtable u \<and> lastspace u' = lastspace u
     \<and> nfree u' = (if name = [] then nfree u - 1 else nfree u)"

lemma del_loop_chain:
  assumes "chain (next_slot u) (hash_head u h) (ys @ xs)" "distinct (ys @ xs)"
    "path (next_slot u) i xs 0" "\<forall>x \<in> set xs. x \<le> length pw"
    "prev = (if ys = [] then None else Some (last ys))" "path (next_slot u) (hash_head u h) ys i"
  shows "\<exists>u'. del_loop u pw name h prev i = Some (u', as_result (find (slot_rel name pw) xs))
     \<and> (case find (slot_rel name pw) xs of None \<Rightarrow> u' = u
          | Some j \<Rightarrow> unlinked u u' name h (ys @ xs) j)"
  using assms
proof (induction xs arbitrary: i ys prev)
  case Nil
  then show ?case by (simp add: del_loop.simps as_result_def)
next
  case (Cons x xs)
  have x: "i = x" "x \<noteq> 0" "x \<le> length pw" "x \<notin> set ys" "x \<notin> set xs"
    "path (next_slot u) (next_slot u x) xs 0" using Cons.prems by auto
  show ?case
  proof (cases "slot_rel name pw x")
    case True
    let ?v = "case prev of
        Some p \<Rightarrow> u\<lparr>next_slot := (next_slot u)(p := next_slot u i)\<rparr>
      | None \<Rightarrow> u\<lparr>hash_head := (hash_head u)(h := next_slot u i)\<rparr>"
    let ?u' = "if name = [] then ?v\<lparr>nfree := nfree ?v - 1\<rparr> else ?v"
    have "del_loop u pw name h prev i = Some (?u', int x)"
      using x True by (subst del_loop.simps) (simp add: slot_rel_fold Let_def)
    moreover have "unlinked u ?u' name h (ys @ x # xs) x"
    proof (cases ys rule: rev_cases)
      case Nil
      then show ?thesis using x Cons.prems(5) by (auto simp: unlinked_def)
    next
      case (snoc zs p)
      have p: "p \<notin> set zs" "p \<notin> set xs" "p \<noteq> x" using Cons.prems(2) snoc by auto
      have "path ((next_slot u)(p := next_slot u x)) (hash_head u h) (zs @ [p]) (next_slot u x)"
        using path_snoc_update [OF Cons.prems(6) [unfolded snoc] p(1)] .
      then have "path ((next_slot u)(p := next_slot u x)) (hash_head u h) (zs @ p # xs) 0"
        using x(6) p by (auto simp: path_append)
      moreover have "remove1 x (zs @ p # x # xs) = zs @ p # xs"
        using x(4) snoc p by (simp add: remove1_append)
      ultimately show ?thesis using x p Cons.prems(5) snoc by (auto simp: unlinked_def)
    qed
    ultimately show ?thesis using True by (simp add: as_result_def)
  next
    case False
    have "\<exists>u'. del_loop u pw name h (Some x) (next_slot u x)
        = Some (u', as_result (find (slot_rel name pw) xs))
       \<and> (case find (slot_rel name pw) xs of None \<Rightarrow> u' = u
          | Some j \<Rightarrow> unlinked u u' name h ((ys @ [x]) @ xs) j)"
      by (rule Cons.IH) (use Cons.prems x in \<open>auto simp: path_append\<close>)
    moreover have "del_loop u pw name h prev i = del_loop u pw name h (Some x) (next_slot u x)"
      using x False by (subst del_loop.simps) (simp add: slot_rel_fold)
    ultimately show ?thesis using False by (simp cong: option.case_cong)
  qed
qed

section \<open>The lists the arrays stand for\<close>

definition uh_rep :: "ucache \<Rightarrow> userec list \<Rightarrow> (nat \<Rightarrow> nat list) \<Rightarrow> bool" where
  "uh_rep u pw cs \<longleftrightarrow>
     wf_tab (hashtable u) \<and> pw \<noteq> []
     \<and> (\<forall>h. chain (next_slot u) (hash_head u h) (cs h) \<and> distinct (cs h)
          \<and> (\<forall>i \<in> set (cs h). 0 < i \<and> i \<le> length pw
               \<and> uhash u pw (userid (pw ! (i - 1))) = Some h))
     \<and> nfree u = int (length (cs 0))"

lemma uh_rep_disjoint:
  assumes "uh_rep u pw cs" "i \<in> set (cs h)" "i \<in> set (cs h')"
  shows "h = h'"
  using assms unfolding uh_rep_def by (metis option.inject)

lemma uhash_ok: "uh_rep u pw cs \<Longrightarrow> \<exists>h. uhash u pw name = Some h \<and> (h = 0 \<longleftrightarrow> name = [])"
  using ucache_hash_total [of "hashtable u" "length pw" name] by (auto simp: uh_rep_def)

lemma finduseridhash_rep:
  assumes "uh_rep u pw cs" "uhash u pw name = Some h"
  shows "finduseridhash u pw name = Some (as_result (find (slot_rel name pw) (cs h)))"
  using assms find_loop_chain [of "next_slot u" "hash_head u h" "cs h" pw name]
  by (simp add: finduseridhash_def uh_rep_def)

lemma deluseridhash_rep:
  assumes "uh_rep u pw cs" "uhash u pw name = Some h"
  shows "\<exists>u'. deluseridhash u pw name = Some (u', as_result (find (slot_rel name pw) (cs h)))
     \<and> (case find (slot_rel name pw) (cs h) of None \<Rightarrow> u' = u
          | Some j \<Rightarrow> unlinked u u' name h (cs h) j)"
  using assms del_loop_chain [of u h "[]" "cs h" "hash_head u h" pw None name]
  by (simp add: deluseridhash_def uh_rep_def cong: option.case_cong)

lemma find_SomeD: "find P xs = Some x \<Longrightarrow> x \<in> set xs \<and> P x"
  by (auto simp: find_Some_iff)

lemma unlinked_rep:
  assumes "uh_rep u pw cs" "uhash u pw name = Some h" "find (slot_rel name pw) (cs h) = Some j"
    "unlinked u u' name h (cs h) j"
  shows "uh_rep u' pw (cs(h := remove1 j (cs h)))"
proof -
  have j: "j \<in> set (cs h)" using find_SomeD [OF assms(3)] by simp
  have h0: "h = 0 \<longleftrightarrow> name = []" using uhash_ok [OF assms(1), of name] assms(2) by simp
  have len: "nfree u' = int (length ((cs(h := remove1 j (cs h))) 0))"
    using assms(1,4) h0 j length_pos_if_in_set [OF j] Suc_leI [OF length_pos_if_in_set [OF j]]
    by (auto simp: uh_rep_def unlinked_def length_remove1 of_nat_diff)
  have "chain (next_slot u') (hash_head u' k) ((cs(h := remove1 j (cs h))) k)" for k
  proof (cases "k = h")
    case False
    have "next_slot u' x = next_slot u x" if "x \<in> set (cs k)" for x
      using assms(4) uh_rep_disjoint [OF assms(1) that] False by (auto simp: unlinked_def)
    then have "path (next_slot u') i (cs k) 0 = path (next_slot u) i (cs k) 0" for i
      by (intro path_cong) simp
    then show ?thesis using assms(1,4) False by (simp add: uh_rep_def unlinked_def)
  qed (use assms(4) in \<open>simp add: unlinked_def\<close>)
  then show ?thesis
    using assms(1,4) len by (auto simp: uh_rep_def unlinked_def dest: notin_set_remove1)
qed

definition linked_set :: "(nat \<Rightarrow> nat list) \<Rightarrow> nat set" where
  "linked_set cs = {i. \<exists>h. i \<in> set (cs h)}"

lemma insert_head_rep:
  assumes "uh_rep u pw cs" "i \<notin> linked_set cs" "0 < i" "i \<le> length pw"
    "uhash u pw (userid (pw ! (i - 1))) = Some h" "uhash u pw name = Some h" "h \<noteq> 0 \<or> tohead"
  shows "\<exists>u'. insertuseridhash u pw name i tohead = Some u' \<and> uh_rep u' pw (cs(h := i # cs h))
     \<and> hashtable u' = hashtable u \<and> lastspace u' = lastspace u"
proof -
  let ?u1 = "u\<lparr>next_slot := (next_slot u)(i := hash_head u h), hash_head := (hash_head u)(h := i)\<rparr>"
  let ?u' = "if name = [] then ?u1\<lparr>nfree := nfree ?u1 + 1\<rparr> else ?u1"
  have "insertuseridhash u pw name i tohead = Some ?u'"
    using assms(6,7) by (auto simp: insertuseridhash_def)
  moreover have "uh_rep ?u' pw (cs(h := i # cs h))"
  proof -
    have fresh: "i \<notin> set (cs k)" for k using assms(2) by (auto simp: linked_set_def)
    have "h = 0 \<longleftrightarrow> name = []" using uhash_ok [OF assms(1), of name] assms(6) by simp
    then show ?thesis using assms fresh by (auto simp: uh_rep_def)
  qed
  ultimately show ?thesis by auto
qed

lemma linked_insert: "linked_set (cs(h := i # cs h)) = insert i (linked_set cs)"
  by (auto simp: linked_set_def split: if_splits)

lemma linked_remove:
  assumes "uh_rep u pw cs" "j \<in> set (cs h)"
  shows "linked_set (cs(h := remove1 j (cs h))) = linked_set cs - {j}"
proof -
  have "distinct (cs h)" using assms(1) by (simp add: uh_rep_def)
  then have "set (remove1 j (cs h)) = set (cs h) - {j}" by (rule set_remove1_eq)
  moreover have "j \<notin> set (cs k)" if "k \<noteq> h" for k
    using uh_rep_disjoint [OF assms] that by blast
  ultimately have "i \<in> set ((cs(h := remove1 j (cs h))) k) \<longleftrightarrow> i \<in> set (cs k) - {j}" for i k
    by (cases "k = h") auto
  then show ?thesis by (auto simp: linked_set_def)
qed

section \<open>The contract of the user index\<close>

text \<open>
  The index state \<open>'s\<close> stands for a set of slots, of which \<open>name s\<close> gives the ids.  A search
  returns a slot of the set whose id matches, or 0 when there is none (the model's \<open>- 1\<close>).
\<close>

locale user_index =
  fixes inv :: "'s \<Rightarrow> nat set \<Rightarrow> bool"
    and name :: "'s \<Rightarrow> nat \<Rightarrow> cstr"
    and find_id :: "'s \<Rightarrow> cstr \<Rightarrow> int option"
    and del_id :: "'s \<Rightarrow> cstr \<Rightarrow> ('s \<times> int) option"
    and ins_id :: "'s \<Rightarrow> cstr \<Rightarrow> nat \<Rightarrow> 's option"
    and ok_slot :: "'s \<Rightarrow> nat \<Rightarrow> bool"
  assumes find_spec: "inv s L \<Longrightarrow> \<exists>r. find_id s u = Some r \<and>
      (if \<exists>i \<in> L. strcaseeq u (name s i) then \<exists>i \<in> L. r = int i \<and> strcaseeq u (name s i) else r = - 1)"
    and del_spec: "inv s L \<Longrightarrow> \<exists>s' r. del_id s u = Some (s', r) \<and> name s' = name s
      \<and> ok_slot s' = ok_slot s \<and>
      (if \<exists>i \<in> L. strcaseeq u (name s i)
       then \<exists>i \<in> L. r = int i \<and> strcaseeq u (name s i) \<and> inv s' (L - {i})
       else r = - 1 \<and> s' = s)"
    and ins_spec: "inv s L \<Longrightarrow> i \<notin> L \<Longrightarrow> ok_slot s i \<Longrightarrow> strcaseeq u (name s i) \<Longrightarrow>
      \<exists>s'. ins_id s u i = Some s' \<and> inv s' (insert i L) \<and> name s' = name s \<and> ok_slot s' = ok_slot s"
    and slot_pos: "inv s L \<Longrightarrow> i \<in> L \<Longrightarrow> 0 < i \<and> ok_slot s i"
begin

text \<open>No two slots of the set hold the same id, the free ones apart.\<close>

definition unique :: "'s \<Rightarrow> nat set \<Rightarrow> bool" where
  "unique s L \<longleftrightarrow> (\<forall>i \<in> L. \<forall>j \<in> L. name s i \<noteq> [] \<longrightarrow> strcaseeq (name s i) (name s j) \<longrightarrow> i = j)"

lemma find_unique:
  assumes "inv s L" "unique s L" "i \<in> L" "strcaseeq u (name s i)" "u \<noteq> []"
  shows "find_id s u = Some (int i)"
proof -
  obtain r j where r: "find_id s u = Some r" "j \<in> L" "r = int j" "strcaseeq u (name s j)"
    using find_spec [OF assms(1), of u] if_P [of "\<exists>i \<in> L. strcaseeq u (name s i)"] assms(3,4) by metis
  have "name s i \<noteq> []" using assms(4,5) by auto
  moreover have "strcaseeq (name s i) (name s j)"
    using assms(4) r(4) by (simp add: strcaseeq_def)
  ultimately have "i = j" using assms(2,3) r(2) by (auto simp: unique_def)
  with r show ?thesis by simp
qed

lemma find_absent: "inv s L \<Longrightarrow> \<forall>i \<in> L. \<not> strcaseeq u (name s i) \<Longrightarrow> find_id s u = Some (- 1)"
  using find_spec [of s L u] by auto

lemma find_positive:
  "inv s L \<Longrightarrow> find_id s u = Some r \<Longrightarrow> 0 < r \<longleftrightarrow> (\<exists>i \<in> L. strcaseeq u (name s i))"
  using find_spec [of s L u] slot_pos [of s L] by (auto split: if_splits)

lemma del_then_find:
  assumes "inv s L" "unique s L" "i \<in> L" "strcaseeq u (name s i)" "u \<noteq> []"
  shows "\<exists>s'. del_id s u = Some (s', int i) \<and> inv s' (L - {i}) \<and> unique s' (L - {i})
     \<and> name s' = name s \<and> find_id s' u = Some (- 1)"
proof -
  have ex: "\<exists>i \<in> L. strcaseeq u (name s i)" using assms(3,4) by blast
  obtain s' r where sr: "del_id s u = Some (s', r)" "name s' = name s"
    "\<exists>i \<in> L. r = int i \<and> strcaseeq u (name s i) \<and> inv s' (L - {i})"
    using del_spec [OF assms(1), of u] unfolding if_P [OF ex] by blast
  then obtain j where d: "del_id s u = Some (s', int j)" "name s' = name s" "j \<in> L"
    "strcaseeq u (name s j)" "inv s' (L - {j})" by blast
  have ne: "name s i \<noteq> []" using assms(4,5) by auto
  have "strcaseeq (name s i) (name s j)" using assms(4) d(4) by (simp add: strcaseeq_def)
  with ne have ij: "j = i" using assms(2,3) d(3) unfolding unique_def by metis
  have "\<not> strcaseeq u (name s' k)" if "k \<in> L - {i}" for k
  proof
    assume "strcaseeq u (name s' k)"
    then have "strcaseeq (name s i) (name s k)"
      using assms(4) d(2) by (simp add: strcaseeq_def)
    with that ne assms(2,3) show False unfolding unique_def by blast
  qed
  moreover have "unique s' (L - {i})" using assms(2) d(2) by (auto simp: unique_def)
  ultimately show ?thesis using d ij find_absent [of s' "L - {i}" u] by auto
qed

lemma ins_then_find:
  assumes "inv s L" "unique s L" "i \<notin> L" "ok_slot s i" "strcaseeq u (name s i)" "u \<noteq> []"
    "\<forall>j \<in> L. \<not> strcaseeq u (name s j)"
  shows "\<exists>s'. ins_id s u i = Some s' \<and> inv s' (insert i L) \<and> unique s' (insert i L)
     \<and> name s' = name s \<and> find_id s' u = Some (int i)"
proof -
  obtain s' where s': "ins_id s u i = Some s'" "inv s' (insert i L)" "name s' = name s"
    using ins_spec [OF assms(1,3-5)] by auto
  have "\<not> strcaseeq (name s i) (name s j)" "\<not> strcaseeq (name s j) (name s i)" if "j \<in> L" for j
    using that assms(5,7) by (auto simp: strcaseeq_def)
  then have "unique s' (insert i L)" using assms(2) s'(3) by (auto simp: unique_def)
  then show ?thesis using s' find_unique [of s' "insert i L" i u] assms(5,6) by auto
qed

end

section \<open>The chains provide the contract\<close>

type_synonym pwdb = "ucache \<times> userec list"

definition db_inv :: "pwdb \<Rightarrow> nat set \<Rightarrow> bool" where
  "db_inv s L \<longleftrightarrow> (\<exists>cs. uh_rep (fst s) (snd s) cs \<and> L = linked_set cs)"

definition db_name :: "pwdb \<Rightarrow> nat \<Rightarrow> cstr" where
  "db_name s i = userid (snd s ! (i - 1))"

definition db_find :: "pwdb \<Rightarrow> cstr \<Rightarrow> int option" where
  "db_find s name = finduseridhash (fst s) (snd s) name"

definition db_del :: "pwdb \<Rightarrow> cstr \<Rightarrow> (pwdb \<times> int) option" where
  "db_del s name = map_option (\<lambda>(u, r). ((u, snd s), r)) (deluseridhash (fst s) (snd s) name)"

definition db_ins :: "pwdb \<Rightarrow> cstr \<Rightarrow> nat \<Rightarrow> pwdb option" where
  "db_ins s name i = map_option (\<lambda>u. (u, snd s)) (insertuseridhash (fst s) (snd s) name i True)"

definition db_slot :: "pwdb \<Rightarrow> nat \<Rightarrow> bool" where
  "db_slot s i \<longleftrightarrow> 0 < i \<and> i \<le> length (snd s)"

lemma bucket_match:
  assumes "uh_rep u pw cs" "uhash u pw name = Some h" "strcaseeq name (userid (pw ! (i - 1)))"
  shows "i \<in> linked_set cs \<longleftrightarrow> i \<in> set (cs h)"
proof
  assume "i \<in> linked_set cs"
  then obtain h' where h': "i \<in> set (cs h')" by (auto simp: linked_set_def)
  have "uhash u pw (userid (pw ! (i - 1))) = Some h'" using assms(1) h' by (auto simp: uh_rep_def)
  moreover have "wf_tab (hashtable u)" using assms(1) by (simp add: uh_rep_def)
  ultimately show "i \<in> set (cs h)" using ucache_hash_case [OF _ assms(3)] assms(2) h' by auto
qed (auto simp: linked_set_def)

lemma find_bucket:
  assumes "uh_rep u pw cs" "uhash u pw name = Some h"
  shows "(\<exists>i \<in> linked_set cs. strcaseeq name (userid (pw ! (i - 1))))
      \<longleftrightarrow> find (slot_rel name pw) (cs h) \<noteq> None"
proof -
  have "find (slot_rel name pw) (cs h) \<noteq> None \<longleftrightarrow> (\<exists>i \<in> set (cs h). slot_rel name pw i)"
    by (auto simp: find_None_iff)
  then show ?thesis using bucket_match [OF assms] by (auto simp: slot_rel_def)
qed

interpretation db: user_index db_inv db_name db_find db_del db_ins db_slot
proof
  fix s L name assume inv: "db_inv s L"
  then obtain cs where rep: "uh_rep (fst s) (snd s) cs" and L: "L = linked_set cs"
    by (auto simp: db_inv_def)
  obtain h where h: "uhash (fst s) (snd s) name = Some h" using uhash_ok [OF rep] by auto
  let ?f = "find (slot_rel name (snd s)) (cs h)"
  have ex: "(\<exists>i \<in> L. strcaseeq name (db_name s i)) \<longleftrightarrow> ?f \<noteq> None"
    using find_bucket [OF rep h] by (simp add: L db_name_def)
  have hit: "i \<in> L \<and> strcaseeq name (db_name s i) \<and> i \<in> set (cs h)" if "?f = Some i" for i
    using find_SomeD [OF that] by (auto simp: L linked_set_def slot_rel_def db_name_def)
  show "\<exists>r. db_find s name = Some r \<and>
      (if \<exists>i \<in> L. strcaseeq name (db_name s i)
       then \<exists>i \<in> L. r = int i \<and> strcaseeq name (db_name s i) else r = - 1)"
    using finduseridhash_rep [OF rep h] hit unfolding ex
    by (cases ?f) (auto simp: db_find_def as_result_def)
  obtain u' where u': "deluseridhash (fst s) (snd s) name = Some (u', as_result ?f)"
    "case ?f of None \<Rightarrow> u' = fst s | Some j \<Rightarrow> unlinked (fst s) u' name h (cs h) j"
    using deluseridhash_rep [OF rep h] by blast
  have inv': "db_inv (u', snd s) (L - {j})" if "?f = Some j" for j
    using unlinked_rep [OF rep h that, of u'] u'(2) that linked_remove [OF rep, of j h] hit [OF that] L
    by (auto simp: db_inv_def)
  show "\<exists>s' r. db_del s name = Some (s', r) \<and> db_name s' = db_name s \<and> db_slot s' = db_slot s \<and>
      (if \<exists>i \<in> L. strcaseeq name (db_name s i)
       then \<exists>i \<in> L. r = int i \<and> strcaseeq name (db_name s i) \<and> db_inv s' (L - {i})
       else r = - 1 \<and> s' = s)"
    using u' hit inv' unfolding ex
    by (cases ?f) (auto simp: db_del_def as_result_def db_name_def db_slot_def fun_eq_iff)
next
  fix s L i name
  assume a: "db_inv s L" "i \<notin> L" "db_slot s i" "strcaseeq name (db_name s i)"
  then obtain cs where rep: "uh_rep (fst s) (snd s) cs" and L: "L = linked_set cs"
    by (auto simp: db_inv_def)
  obtain h where h: "uhash (fst s) (snd s) name = Some h" using uhash_ok [OF rep] by auto
  have "wf_tab (hashtable (fst s))" using rep by (simp add: uh_rep_def)
  then have "uhash (fst s) (snd s) (userid (snd s ! (i - 1))) = Some h"
    using ucache_hash_case [of "hashtable (fst s)" name "userid (snd s ! (i - 1))"] a(4) h
    by (simp add: db_name_def)
  then show "\<exists>s'. db_ins s name i = Some s' \<and> db_inv s' (insert i L) \<and> db_name s' = db_name s
      \<and> db_slot s' = db_slot s"
    using insert_head_rep [OF rep, of i h name True] a(2,3) h linked_insert [of cs h i] L
    by (fastforce simp: db_ins_def db_inv_def db_slot_def db_name_def fun_eq_iff)
next
  fix s L i assume "db_inv s L" "i \<in> L"
  then show "0 < i \<and> db_slot s i"
    by (auto simp: db_inv_def uh_rep_def linked_set_def db_slot_def)
qed

lemma db_free_count:
  assumes "db_inv s L"
  shows "nfree (fst s) = int (card {i \<in> L. db_name s i = []})"
proof -
  obtain cs where rep: "uh_rep (fst s) (snd s) cs" and L: "L = linked_set cs"
    using assms by (auto simp: db_inv_def)
  have "{i \<in> L. db_name s i = []} = set (cs 0)"
  proof -
    have "uhash (fst s) (snd s) [] = Some 0" by (simp add: ucache_hash_def)
    then have "strcaseeq [] (userid (snd s ! (i - 1))) \<Longrightarrow> i \<in> L \<longleftrightarrow> i \<in> set (cs 0)" for i
      using bucket_match [OF rep] L by blast
    moreover have "userid (snd s ! (i - 1)) = []" if "i \<in> set (cs 0)" for i
    proof -
      have "uhash (fst s) (snd s) (userid (snd s ! (i - 1))) = Some 0"
        using rep that by (auto simp: uh_rep_def)
      then show ?thesis using uhash_ok [OF rep, of "userid (snd s ! (i - 1))"] by simp
    qed
    ultimately show ?thesis by (auto simp: L linked_set_def db_name_def)
  qed
  then show ?thesis using rep by (simp add: uh_rep_def distinct_card)
qed

section \<open>Loading the index\<close>

definition tail_ok :: "ucache \<Rightarrow> (nat \<Rightarrow> nat list) \<Rightarrow> bool" where
  "tail_ok u cs \<longleftrightarrow> lastspace u = (if cs 0 = [] then - 1 else int (last (cs 0)))"

lemma path_end_update:
  "chain n i (xs @ [p]) \<Longrightarrow> p \<notin> set xs \<Longrightarrow> q \<notin> set (xs @ [p]) \<Longrightarrow> q \<noteq> 0 \<Longrightarrow>
     chain (n(p := q, q := 0)) i (xs @ [p, q])"
  by (auto simp: path_append)

lemma insert_tail_rep:
  assumes "uh_rep u pw cs" "tail_ok u cs" "i \<notin> linked_set cs" "0 < i" "i \<le> length pw"
    "userid (pw ! (i - 1)) = []"
  shows "\<exists>u'. insertuseridhash u pw [] i False = Some u' \<and> uh_rep u' pw (cs(0 := cs 0 @ [i]))
     \<and> tail_ok u' (cs(0 := cs 0 @ [i]))"
proof -
  have fresh: "i \<notin> set (cs k)" for k using assms(3) by (auto simp: linked_set_def)
  have h: "uhash u pw [] = Some 0" by (simp add: ucache_hash_def)
  have ch: "chain (next_slot u) (hash_head u 0) (cs 0)" "distinct (cs 0)"
    using assms(1) by (auto simp: uh_rep_def)
  show ?thesis
  proof (cases "cs 0" rule: rev_cases)
    case Nil
    let ?u' = "u\<lparr>hash_head := (hash_head u)(0 := i), next_slot := (next_slot u)(i := 0),
        lastspace := int i, nfree := nfree u + 1\<rparr>"
    have "insertuseridhash u pw [] i False = Some ?u'"
      using assms(2) h Nil by (simp add: insertuseridhash_def tail_ok_def Let_def)
    moreover have "uh_rep ?u' pw (cs(0 := cs 0 @ [i]))"
      using assms fresh Nil h by (auto simp: uh_rep_def)
    ultimately show ?thesis by (auto simp: tail_ok_def)
  next
    case (snoc xs p)
    let ?u' = "u\<lparr>next_slot := (next_slot u)(p := i, i := 0), lastspace := int i, nfree := nfree u + 1\<rparr>"
    have "insertuseridhash u pw [] i False = Some ?u'"
      using assms(2) h snoc by (simp add: insertuseridhash_def tail_ok_def Let_def)
    moreover have "chain ((next_slot u)(p := i, i := 0)) (hash_head u 0) (xs @ [p, i])"
      using ch snoc fresh [of 0] assms(4) by (intro path_end_update) auto
    moreover have "p \<notin> set (cs k)" if "k \<noteq> 0" for k
      using uh_rep_disjoint [OF assms(1), of p k 0] that snoc by auto
    moreover have "uh_rep ?u' pw (cs(0 := cs 0 @ [i]))"
    proof -
      have mem: "0 < v \<and> v \<le> length pw \<and> uhash u pw (userid (pw ! (v - 1))) = Some k"
        if "v \<in> set (cs k)" for v k
        using assms(1) that by (auto simp: uh_rep_def)
      have mem': "0 < v \<and> v \<le> length pw \<and> uhash u pw (userid (pw ! (v - 1))) = Some k"
        if "v \<in> set ((cs(0 := cs 0 @ [i])) k)" for v k
        using that mem [of v k] assms(4-6) h by (auto split: if_splits)
      have links: "chain (next_slot ?u') (hash_head ?u' k) ((cs(0 := cs 0 @ [i])) k)
          \<and> distinct ((cs(0 := cs 0 @ [i])) k)" for k
        using calculation(2) calculation(3) [of k] assms(1) fresh fresh [of 0] snoc ch
        by (cases "k = 0") (auto simp: uh_rep_def)
      show ?thesis using mem' links assms(1) unfolding uh_rep_def by simp
    qed
    ultimately show ?thesis by (auto simp: tail_ok_def)
  qed
qed

lemma linked_tail: "linked_set (cs(0 := cs 0 @ [i])) = insert i (linked_set cs)"
proof -
  have "(\<exists>h. x \<in> set ((cs(0 := cs 0 @ [i])) h)) \<longleftrightarrow> x = i \<or> (\<exists>h. x \<in> set (cs h))" for x
    by (metis Un_iff fun_upd_apply list.set(1,2) set_append singletonD singletonI)
  then show ?thesis by (auto simp: linked_set_def)
qed

definition slots_unique :: "userec list \<Rightarrow> nat \<Rightarrow> bool" where
  "slots_unique pw n \<longleftrightarrow> (\<forall>i < n. \<forall>j < n. userid (pw ! i) \<noteq> [] \<longrightarrow>
      strcaseeq (userid (pw ! i)) (userid (pw ! j)) \<longrightarrow> i = j)"

lemma find_loaded:
  assumes "uh_rep u pw cs" "linked_set cs = {1..i}"
  shows "\<exists>r. finduseridhash u pw name = Some r \<and>
     (0 < r \<longleftrightarrow> (\<exists>j < i. strcaseeq name (userid (pw ! j))))"
proof -
  have inv: "db_inv (u, pw) {1..i}" using assms by (auto simp: db_inv_def)
  obtain r where r: "finduseridhash u pw name = Some r"
    using db.find_spec [OF inv, of name] by (auto simp: db_find_def)
  have "0 < r \<longleftrightarrow> (\<exists>k \<in> {1..i}. strcaseeq name (userid (pw ! (k - 1))))"
    using db.find_positive [OF inv, of name r] r by (simp add: db_find_def db_name_def)
  also have "\<dots> \<longleftrightarrow> (\<exists>j < i. strcaseeq name (userid (pw ! j)))"
  proof
    assume "\<exists>j < i. strcaseeq name (userid (pw ! j))"
    then obtain j where "j < i" "strcaseeq name (userid (pw ! j))" by blast
    then show "\<exists>k \<in> {1..i}. strcaseeq name (userid (pw ! (k - 1)))"
      by (intro bexI [of _ "Suc j"]) auto
  qed force
  finally show ?thesis using r by blast
qed

lemma slots_unique_Suc:
  assumes "slots_unique pw i"
  shows "slots_unique pw (Suc i) \<longleftrightarrow>
     (userid (pw ! i) = [] \<or> \<not> (\<exists>j < i. strcaseeq (userid (pw ! i)) (userid (pw ! j))))"
proof
  assume "slots_unique pw (Suc i)"
  then show "userid (pw ! i) = [] \<or> \<not> (\<exists>j < i. strcaseeq (userid (pw ! i)) (userid (pw ! j)))"
    unfolding slots_unique_def by (metis less_Suc_eq less_irrefl)
next
  assume a: "userid (pw ! i) = [] \<or> \<not> (\<exists>j < i. strcaseeq (userid (pw ! i)) (userid (pw ! j)))"
  show "slots_unique pw (Suc i)"
    unfolding slots_unique_def
  proof (intro allI impI)
    fix j k
    assume jk: "j < Suc i" "k < Suc i" "userid (pw ! j) \<noteq> []" "strcaseeq (userid (pw ! j)) (userid (pw ! k))"
    have "userid (pw ! k) \<noteq> []" "strcaseeq (userid (pw ! k)) (userid (pw ! j))"
      using jk(3,4) by (auto simp: strcaseeq_def)
    then show "j = k" using a jk assms unfolding slots_unique_def less_Suc_eq by blast
  qed
qed

lemma load_step:
  assumes "uh_rep u pw cs" "tail_ok u cs" "linked_set cs = {1..i}" "i < length pw"
    "slots_unique pw i"
  shows "\<exists>u' cs'. insertuseridhash u pw (userid (pw ! i)) (i + 1) False = Some u' \<and> uh_rep u' pw cs'
     \<and> tail_ok u' cs' \<and> linked_set cs' = {1..i + 1}"
proof -
  have fresh: "i + 1 \<notin> linked_set cs" using assms(3) by simp
  have set: "insert (i + 1) {1..i} = {1..i + 1}" by auto
  obtain h where h: "uhash u pw (userid (pw ! i)) = Some h" "h = 0 \<longleftrightarrow> userid (pw ! i) = []"
    using uhash_ok [OF assms(1)] by blast
  show ?thesis
  proof (cases "userid (pw ! i) = []")
    case True
    then show ?thesis
      using insert_tail_rep [OF assms(1,2) fresh] assms(3,4) linked_tail [of cs "i + 1"] set by fastforce
  next
    case False
    obtain u' where u': "insertuseridhash u pw (userid (pw ! i)) (i + 1) False = Some u'"
      "uh_rep u' pw (cs(h := (i + 1) # cs h))" "lastspace u' = lastspace u"
      using insert_head_rep [OF assms(1) fresh, of h "userid (pw ! i)" False] assms(4) h False by auto
    moreover have "tail_ok u' (cs(h := (i + 1) # cs h))"
      using assms(2) u'(3) h(2) False by (simp add: tail_ok_def)
    ultimately show ?thesis using linked_insert [of cs h "i + 1"] assms(3) set by metis
  qed
qed

lemma load_loop_correct:
  "uh_rep u pw cs \<Longrightarrow> tail_ok u cs \<Longrightarrow> linked_set cs = {1..i} \<Longrightarrow> i + k = length pw \<Longrightarrow>
   slots_unique pw i \<Longrightarrow>
   \<exists>u' b. load_loop u pw i k = Some (u', b) \<and> (b \<longleftrightarrow> slots_unique pw (length pw))
     \<and> (b \<longrightarrow> db_inv (u', pw) {1..length pw})"
proof (induction k arbitrary: u cs i)
  case 0
  then show ?case by (auto simp: db_inv_def)
next
  case (Suc k)
  let ?name = "userid (pw ! i)"
  have i: "i < length pw" using Suc.prems(4) by simp
  obtain r where r: "finduseridhash u pw ?name = Some r"
    "0 < r \<longleftrightarrow> (\<exists>j < i. strcaseeq ?name (userid (pw ! j)))"
    using find_loaded [OF Suc.prems(1,3)] by blast
  obtain u' cs' where u': "insertuseridhash u pw ?name (i + 1) False = Some u'" "uh_rep u' pw cs'"
    "tail_ok u' cs'" "linked_set cs' = {1..i + 1}"
    using load_step [OF Suc.prems(1-3) i Suc.prems(5)] by blast
  show ?case
  proof (cases "slots_unique pw (Suc i)")
    case True
    then have ok: "?name \<noteq> [] \<longrightarrow> \<not> 0 < r" using slots_unique_Suc [OF Suc.prems(5)] r(2) by blast
    have "load_loop u pw i (Suc k) = load_loop u' pw (i + 1) k"
      using ok r(1) u'(1) by (cases "?name = []") (auto simp: Let_def)
    then show ?thesis using Suc.IH [OF u'(2-4)] Suc.prems(4) True by simp
  next
    case False
    then have "?name \<noteq> []" "0 < r" using slots_unique_Suc [OF Suc.prems(5)] r(2) by blast+
    moreover have "\<not> slots_unique pw (length pw)"
      using False i unfolding slots_unique_def by (meson Suc_leI less_le_trans)
    ultimately have "load_loop u pw i (Suc k) = Some (u, False)" using r(1) by (simp add: Let_def)
    then show ?thesis using \<open>\<not> slots_unique pw (length pw)\<close> by blast
  qed
qed

lemma db_unique_slots:
  assumes "slots_unique pw (length pw)"
  shows "db.unique (u, pw) {1..length pw}"
  unfolding db.unique_def
proof (intro ballI impI)
  fix i j
  assume a: "i \<in> {1..length pw}" "j \<in> {1..length pw}" "db_name (u, pw) i \<noteq> []"
    "strcaseeq (db_name (u, pw) i) (db_name (u, pw) j)"
  then have "i - 1 < length pw" "j - 1 < length pw" by auto
  then have "i - 1 = j - 1" using a assms unfolding slots_unique_def db_name_def by auto
  with a show "i = j" by auto
qed

lemma load_ucache_correct:
  assumes "wf_tab t" "pw \<noteq> []"
  shows "\<exists>u b. load_ucache (Some t) (- 1) pw = Some (u, b) \<and> (b \<longleftrightarrow> slots_unique pw (length pw))
     \<and> (b \<longrightarrow> db_inv (u, pw) {1..length pw})"
proof -
  let ?u = "\<lparr>hash_head = (\<lambda>_. 0), next_slot = (\<lambda>_. 0), nfree = 0, hashtable = t, lastspace = - 1\<rparr>"
  have "uh_rep ?u pw (\<lambda>_. [])" "tail_ok ?u (\<lambda>_. [])" "linked_set (\<lambda>_. []) = {1..0}"
    "slots_unique pw 0"
    using assms by (auto simp: uh_rep_def tail_ok_def linked_set_def slots_unique_def)
  from load_loop_correct [OF this(1-3) _ this(4), of "length pw"] show ?thesis
    by (simp add: load_ucache_def)
qed

end
