(* ===== verification/UserDb.thy ===== *)
theory UserDb
  imports UserHash
begin

text \<open>
  The user records of \<open>libythtbbs/user.c\<close>: registration, lookup, kick-out, deletion and update over
  the index of theory UserHash, and the scores computed from a record.  The password file is mapped
  into memory, so a write to it is seen through \<open>passwdptr\<close> at once.  Which system calls fail is an
  argument (\<open>passwd_io\<close>); \<open>None\<close> is an access outside the password array or a hash walk that does
  not end.
\<close>

section \<open>Writing a slot\<close>

locale user_store = user_index +
  fixes write_slot :: "'a \<Rightarrow> nat \<Rightarrow> 'r \<Rightarrow> 'a"
    and id_of :: "'r \<Rightarrow> cstr"
  assumes write_inv: "inv s L \<Longrightarrow> i \<notin> L \<Longrightarrow> ok_slot s i \<Longrightarrow>
      inv (write_slot s i x) L \<and> ok_slot (write_slot s i x) = ok_slot s"
    and write_name: "ok_slot s i \<Longrightarrow> ok_slot s j \<Longrightarrow>
      name (write_slot s i x) j = (if j = i then id_of x else name s j)"
begin

lemma unique_write:
  assumes "inv s L" "unique s L" "i \<notin> L" "ok_slot s i"
  shows "unique (write_slot s i x) L"
proof -
  have "name (write_slot s i x) j = name s j" if "j \<in> L" for j
    using write_name [OF assms(4), of j x] slot_pos [OF assms(1) that] that assms(3) by auto
  then show ?thesis using assms(2) by (simp add: unique_def)
qed

text \<open>Taking a free slot, writing a record with a new id into it and linking it again.\<close>

lemma take_free_slot:
  assumes "inv s L" "i0 \<in> L" "name s i0 = []"
  shows "\<exists>s1 i. del_id s [] = Some (s1, int i) \<and> i \<in> L \<and> name s i = [] \<and> inv s1 (L - {i})
     \<and> name s1 = name s \<and> ok_slot s1 = ok_slot s \<and> ok_slot s i"
proof -
  have ex: "\<exists>i \<in> L. strcaseeq [] (name s i)" using assms(2,3) by auto
  obtain s1 r where d: "del_id s [] = Some (s1, r)" "name s1 = name s" "ok_slot s1 = ok_slot s"
    "\<exists>i \<in> L. r = int i \<and> strcaseeq [] (name s i) \<and> inv s1 (L - {i})"
    using del_spec [OF assms(1), of "[]"] unfolding if_P [OF ex] by blast
  then show ?thesis using slot_pos [OF assms(1)] by fastforce
qed

lemma fill_slot:
  assumes "inv s (L - {i})" "unique s (L - {i})" "i \<in> L" "ok_slot s i" "id_of x \<noteq> []"
    "\<forall>j \<in> L - {i}. \<not> strcaseeq (id_of x) (name s j)"
  shows "\<exists>s'. ins_id (write_slot s i x) (id_of x) i = Some s' \<and> inv s' L \<and> unique s' L
     \<and> find_id s' (id_of x) = Some (int i) \<and> name s' = name (write_slot s i x)"
proof -
  have fresh: "i \<notin> L - {i}" by simp
  have w: "inv (write_slot s i x) (L - {i})" "ok_slot (write_slot s i x) = ok_slot s"
    using write_inv [OF assms(1) fresh assms(4)] by auto
  have n: "name (write_slot s i x) j = name s j" if "j \<in> L - {i}" for j
    using write_name [OF assms(4), of j x] slot_pos [OF assms(1) that] that by auto
  have "strcaseeq (id_of x) (name (write_slot s i x) i)"
    using write_name [OF assms(4,4)] by simp
  moreover have "insert i (L - {i}) = L" using assms(3) by auto
  moreover have "\<forall>j \<in> L - {i}. \<not> strcaseeq (id_of x) (name (write_slot s i x) j)"
    using assms(6) n by simp
  moreover have "ok_slot (write_slot s i x) i" using w(2) assms(4) by simp
  ultimately show ?thesis
    using ins_then_find [OF w(1) unique_write [OF assms(1,2) fresh assms(4)] fresh, of "id_of x"]
      assms(5) by metis
qed

text \<open>Blanking the record of a slot that was unlinked and putting it back as a free one.\<close>

lemma free_slot:
  assumes "inv s (L - {i})" "unique s (L - {i})" "i \<in> L" "ok_slot s i" "id_of x = []"
  shows "\<exists>s'. ins_id (write_slot s i x) [] i = Some s' \<and> inv s' L \<and> unique s' L
     \<and> name s' = name (write_slot s i x)"
proof -
  have fresh: "i \<notin> L - {i}" by simp
  have w: "inv (write_slot s i x) (L - {i})" "ok_slot (write_slot s i x) = ok_slot s"
    using write_inv [OF assms(1) fresh assms(4)] by auto
  have nm: "name (write_slot s i x) i = []" using write_name [OF assms(4,4)] assms(5) by simp
  have ins: "insert i (L - {i}) = L" using assms(3) by auto
  have ok: "ok_slot (write_slot s i x) i" "strcaseeq [] (name (write_slot s i x) i)"
    using w(2) assms(4) nm by simp_all
  obtain s' where s': "ins_id (write_slot s i x) [] i = Some s'" "inv s' L"
    "name s' = name (write_slot s i x)"
    using ins_spec [OF w(1) fresh ok] unfolding ins by blast
  have "unique s' L"
    using unique_write [OF assms(1,2) fresh assms(4), of x] s'(3) nm
    unfolding unique_def by (metis DiffI singletonD strcaseeq_Nil(1))
  with s' show ?thesis by blast
qed

end

definition db_write :: "pwdb \<Rightarrow> nat \<Rightarrow> userec \<Rightarrow> pwdb" where
  "db_write s i x = (fst s, (snd s)[i - 1 := x])"

lemma uh_rep_write:
  assumes "uh_rep u pw cs" "i \<notin> linked_set cs" "0 < i"
  shows "uh_rep u (pw[i - 1 := x]) cs"
proof -
  have "pw[i - 1 := x] ! (k - 1) = pw ! (k - 1)" if "k \<in> set (cs h)" for k h
  proof -
    have "0 < k" "k \<noteq> i" using assms that by (auto simp: uh_rep_def linked_set_def)
    then have "i - 1 \<noteq> k - 1" using assms(3) by simp
    then show ?thesis by simp
  qed
  then show ?thesis using assms(1) by (simp add: uh_rep_def)
qed

interpretation store: user_store db_inv db_name db_find db_del db_ins db_slot db_write userid
proof
  fix s L i x assume a: "db_inv s L" "i \<notin> L" "db_slot s i"
  then obtain cs where "uh_rep (fst s) (snd s) cs" "L = linked_set cs" by (auto simp: db_inv_def)
  then show "db_inv (db_write s i x) L \<and> db_slot (db_write s i x) = db_slot s"
    using uh_rep_write [of "fst s" "snd s" cs i x] a
    by (auto simp: db_inv_def db_write_def db_slot_def fun_eq_iff)
next
  fix s i j x assume "db_slot s i" "db_slot s j"
  then show "db_name (db_write s i x) j = (if j = i then userid x else db_name s j)"
    by (auto simp: db_slot_def db_name_def db_write_def nth_list_update)
qed

section \<open>The operations\<close>

record passwd_io =
  open_ok :: bool
  seek_ok :: bool
  write_ok :: bool

definition insertuserec :: "passwd_io \<Rightarrow> pwdb \<Rightarrow> userec \<Rightarrow> (pwdb \<times> int) option" where
  "insertuserec io s x =
     (case db_find s (userid x) of
        None \<Rightarrow> None
      | Some r \<Rightarrow>
          if r > 0 then Some (s, 0)
          else (case db_del s [] of
                  None \<Rightarrow> None
                | Some (s1, i) \<Rightarrow>
                    if i \<le> 0 then Some (s1, - 1)
                    else if \<not> open_ok io \<or> \<not> seek_ok io
                    then map_option (\<lambda>s2. (s2, - 1)) (db_ins s1 [] (nat i))
                    else if \<not> write_ok io then Some (s1, - 1)
                    else map_option (\<lambda>s2. (s2, i)) (db_ins (db_write s1 (nat i) x) (userid x) (nat i))))"

definition getuser :: "pwdb \<Rightarrow> cstr \<Rightarrow> nat option" where
  "getuser s name =
     (if name = [] \<or> 46 \<in> set name then Some 0
      else case db_find s name of
             None \<Rightarrow> None
           | Some i \<Rightarrow>
               Some (if i > 0 \<and> i \<le> int (length (snd s))
                       \<and> strcaseeq (db_name s (nat i)) name
                       \<and> kickout (snd s ! (nat i - 1)) = 0
                     then nat i else 0))"

definition getuserbynum :: "pwdb \<Rightarrow> int \<Rightarrow> int" where
  "getuserbynum s uid =
     (if uid > 0 \<and> uid \<le> int (length (snd s)) \<and> kickout (snd s ! (nat uid - 1)) = 0 then uid else 0)"

definition user_registered :: "pwdb \<Rightarrow> cstr \<Rightarrow> int option" where
  "user_registered s name =
     (if name = [] \<or> 46 \<in> set name then Some 0
      else case db_find s name of
             None \<Rightarrow> None
           | Some i \<Rightarrow>
               Some (if i > 0 \<and> i \<le> int (length (snd s)) \<and> strcaseeq (db_name s (nat i)) name
                     then (if kickout (snd s ! (nat i - 1)) \<noteq> 0 then - i else i) else 0))"

text \<open>
  \<open>kickoutuserec\<close>: the two trees removed come before the record is written, and the outcome of the
  write is not looked at.
\<close>

definition user_trees :: "cstr \<Rightarrow> cstr list" where
  "user_trees name =
     [lit ''mail/'' @ [mytoupper (hd (name @ [0]))] @ lit ''/'' @ name,
      lit ''home/'' @ [mytoupper (hd (name @ [0]))] @ lit ''/'' @ name]"

definition kickoutuserec ::
  "passwd_io \<Rightarrow> int \<Rightarrow> pwdb \<Rightarrow> cstr \<Rightarrow> (pwdb \<times> int \<times> cstr list) option" where
  "kickoutuserec io now s name =
     (case db_find s name of
        None \<Rightarrow> None
      | Some i \<Rightarrow>
          if i \<le> 0 \<or> i > int (length (snd s)) then Some (s, - 1, [])
          else let old = snd s ! (nat i - 1) in
            if kickout old \<noteq> 0 then Some (s, 0, [])
            else if \<not> open_ok io \<or> \<not> seek_ok io then Some (s, - 1, [])
            else Some (if write_ok io then db_write s (nat i) (old\<lparr>kickout := now\<rparr>) else s,
                       0, user_trees name))"

definition zero_userec :: userec where
  "zero_userec = \<lparr>userid = [], uflags = [0, 0], firstlogin = 0, lastlogin = 0, lastlogout = 0,
     ubits = 0, extralife5 = 0, lasthost = 0, username = [], numdays = 0, mailsize = 0,
     numlogins = 0, numposts = 0, stay = 0, userlevel = 0, userip = 0, userdefine = 0,
     passwd = replicate 16 0, salt = 0, kickout = 0\<rparr>"

text \<open>\<open>deluserec\<close>; a record may go once it has been kicked out for more than 23 hours.\<close>

definition deluserec :: "passwd_io \<Rightarrow> int \<Rightarrow> pwdb \<Rightarrow> cstr \<Rightarrow> (pwdb \<times> int) option" where
  "deluserec io now s name =
     (case db_find s name of
        None \<Rightarrow> None
      | Some i \<Rightarrow>
          if i \<le> 0 \<or> i > int (length (snd s)) then Some (s, 0)
          else let k = kickout (snd s ! (nat i - 1)) in
            if k = 0 \<or> now - k \<le> 86400 - 3600 then Some (s, 0)
            else (case db_del s name of
                    None \<Rightarrow> None
                  | Some (s1, j) \<Rightarrow>
                      if j \<le> 0 then Some (s1, - 1)
                      else if \<not> open_ok io \<or> \<not> seek_ok io
                      then map_option (\<lambda>s2. (s2, - 1)) (db_ins s1 name (nat i))
                      else map_option (\<lambda>s2. (s2, 0))
                             (db_ins (if write_ok io then db_write s1 (nat i) zero_userec else s1)
                               [] (nat i))))"

text \<open>
  \<open>updateuserec\<close>: the last field, \<open>kickout\<close>, is not written.  The error message reads
  \<open>passwdptr[i - 1]\<close> also when \<open>i\<close> is out of range, which is \<open>None\<close>.
\<close>

definition updateuserec :: "passwd_io \<Rightarrow> pwdb \<Rightarrow> userec \<Rightarrow> int \<Rightarrow> (pwdb \<times> int) option" where
  "updateuserec io s x usernum =
     (case (if usernum = 0 then db_find s (userid x) else Some usernum) of
        None \<Rightarrow> None
      | Some i \<Rightarrow>
          if i \<le> 0 \<or> i > int (length (snd s)) then None
          else if \<not> strcaseeq (db_name s (nat i)) (userid x) then Some (s, - 1)
          else let old = snd s ! (nat i - 1) in
            if kickout old \<noteq> 0 then Some (s, - 1)
            else if \<not> open_ok io \<or> \<not> seek_ok io then Some (s, - 1)
            else Some (if write_ok io then db_write s (nat i) (x\<lparr>kickout := kickout old\<rparr>) else s, 0))"

text \<open>\<open>apply_passwd\<close>: the callback may change its argument; \<open>- 1\<close> stops, 0 counts.\<close>

fun apply_passwd :: "(userec \<Rightarrow> 'a \<Rightarrow> int \<times> 'a) \<Rightarrow> 'a \<Rightarrow> userec list \<Rightarrow> nat \<times> 'a" where
  "apply_passwd f arg [] = (0, arg)"
| "apply_passwd f arg (r # rs) =
     (let (ret, arg') = f r arg in
      if ret = - 1 then (0, arg')
      else let (n, arg'') = apply_passwd f arg' rs in
           (if ret = 0 then n + 1 else n, arg''))"

section \<open>Registration, deletion and update\<close>

lemmas db_op_defs = db_find_def db_del_def db_ins_def db_write_def db_name_def db_slot_def

lemma db_slot_int: "db_slot s i \<Longrightarrow> int i \<le> int (length (snd s)) \<and> 0 < int i"
  by (simp add: db_slot_def)

lemma db_write_nth: "db_slot s i \<Longrightarrow> snd (db_write s i x) ! (i - 1) = x"
  by (cases i) (auto simp: db_slot_def db_write_def)

lemma db_del_snd: "db_del s n = Some (s', r) \<Longrightarrow> snd s' = snd s"
  by (auto simp: db_del_def)

lemma db_ins_snd: "db_ins s n i = Some s' \<Longrightarrow> snd s' = snd s"
  by (auto simp: db_ins_def)

text \<open>The three outcomes of a registration.\<close>

lemma insert_taken:
  assumes "db_inv s L" "i \<in> L" "strcaseeq (userid x) (db_name s i)"
  shows "insertuserec io s x = Some (s, 0)"
proof -
  obtain r where r: "db_find s (userid x) = Some r" using db.find_spec [OF assms(1)] by blast
  then have "0 < r" using db.find_positive [OF assms(1) r] assms(2,3) by blast
  with r show ?thesis by (simp add: insertuserec_def)
qed

lemma insert_full:
  assumes "db_inv s L" "\<forall>i \<in> L. \<not> strcaseeq (userid x) (db_name s i)" "\<forall>i \<in> L. db_name s i \<noteq> []"
  shows "insertuserec io s x = Some (s, - 1)"
proof -
  have "\<not> (\<exists>i \<in> L. strcaseeq [] (db_name s i))" using assms(3) by auto
  then have "db_del s [] = Some (s, - 1)" using db.del_spec [OF assms(1), of "[]"] by auto
  then show ?thesis using db.find_absent [OF assms(1,2)] by (simp add: insertuserec_def)
qed

lemma unique_mono: "db.unique s L \<Longrightarrow> L' \<subseteq> L \<Longrightarrow> db.unique s L'"
  by (auto simp: db.unique_def)

lemma unique_same_name: "db.unique s L \<Longrightarrow> db_name s' = db_name s \<Longrightarrow> db.unique s' L"
  by (simp add: db.unique_def)

lemma insert_ok:
  assumes "db_inv s L" "db.unique s L" "userid x \<noteq> []"
    "\<forall>i \<in> L. \<not> strcaseeq (userid x) (db_name s i)" "i0 \<in> L" "db_name s i0 = []"
    "open_ok io" "seek_ok io" "write_ok io"
  shows "\<exists>s' i. insertuserec io s x = Some (s', int i) \<and> i \<in> L \<and> db_name s i = []
     \<and> snd s' = (snd s)[i - 1 := x] \<and> db_inv s' L \<and> db.unique s' L
     \<and> db_find s' (userid x) = Some (int i)"
proof -
  obtain s1 i where d: "db_del s [] = Some (s1, int i)" "i \<in> L" "db_name s i = []"
    "db_inv s1 (L - {i})" "db_name s1 = db_name s" "db_slot s1 = db_slot s" "db_slot s i"
    using store.take_free_slot [OF assms(1,5,6)] by blast
  have u1: "db.unique s1 (L - {i})"
    using unique_mono [OF unique_same_name [OF assms(2) d(5)], of "L - {i}"] by blast
  have sl: "db_slot s1 i" using d(6,7) by simp
  have no: "\<forall>j \<in> L - {i}. \<not> strcaseeq (userid x) (db_name s1 j)" using assms(4) d(5) by simp
  obtain s' where s': "db_ins (db_write s1 i x) (userid x) i = Some s'" "db_inv s' L" "db.unique s' L"
    "db_find s' (userid x) = Some (int i)"
    using store.fill_slot [OF d(4) u1 d(2) sl assms(3) no] by blast
  have "snd s' = (snd s)[i - 1 := x]"
    using db_ins_snd [OF s'(1)] db_del_snd [OF d(1)] by (simp add: db_write_def)
  moreover have "insertuserec io s x = Some (s', int i)"
    using db.find_absent [OF assms(1,4)] d(1,7) s'(1) assms(7-9)
    by (simp add: insertuserec_def db_slot_def)
  ultimately show ?thesis using d s' by blast
qed

lemma insert_undo:
  assumes "db_inv s L" "db.unique s L"
    "\<forall>i \<in> L. \<not> strcaseeq (userid x) (db_name s i)" "i0 \<in> L" "db_name s i0 = []"
    "\<not> open_ok io \<or> \<not> seek_ok io"
  shows "\<exists>s'. insertuserec io s x = Some (s', - 1) \<and> snd s' = snd s \<and> db_inv s' L"
proof -
  obtain s1 i where d: "db_del s [] = Some (s1, int i)" "i \<in> L" "db_name s i = []"
    "db_inv s1 (L - {i})" "db_name s1 = db_name s" "db_slot s1 = db_slot s" "db_slot s i"
    using store.take_free_slot [OF assms(1,4,5)] by blast
  have ins: "insert i (L - {i}) = L" using d(2) by auto
  obtain s' where s': "db_ins s1 [] i = Some s'" "db_inv s' L"
    using db.ins_spec [OF d(4), of i "[]"] d(3,5-7) unfolding ins by auto
  have "insertuserec io s x = Some (s', - 1)"
    using db.find_absent [OF assms(1,3)] d(1,7) s'(1) assms(6)
    by (simp add: insertuserec_def db_slot_def)
  then show ?thesis using s'(2) db_ins_snd [OF s'(1)] db_del_snd [OF d(1)] by auto
qed

lemma insert_lost:
  assumes "db_inv s L" "\<forall>i \<in> L. \<not> strcaseeq (userid x) (db_name s i)" "i0 \<in> L" "db_name s i0 = []"
    "open_ok io" "seek_ok io" "\<not> write_ok io"
  shows "\<exists>s' i. insertuserec io s x = Some (s', - 1) \<and> i \<in> L \<and> db_name s i = []
     \<and> snd s' = snd s \<and> db_inv s' (L - {i})"
proof -
  obtain s1 i where d: "db_del s [] = Some (s1, int i)" "i \<in> L" "db_name s i = []"
    "db_inv s1 (L - {i})" "db_slot s i"
    using store.take_free_slot [OF assms(1,3,4)] by blast
  have "insertuserec io s x = Some (s1, - 1)"
    using db.find_absent [OF assms(1,2)] d(1,5) assms(5-7)
    by (simp add: insertuserec_def db_slot_def)
  then show ?thesis using d db_del_snd [OF d(1)] by blast
qed

text \<open>Deleting an id.\<close>

lemma delete_ok:
  assumes "db_inv s L" "db.unique s L" "i \<in> L" "strcaseeq nm (db_name s i)" "nm \<noteq> []"
    "kickout (snd s ! (i - 1)) \<noteq> 0" "now - kickout (snd s ! (i - 1)) > 82800"
    "open_ok io" "seek_ok io" "write_ok io"
  shows "\<exists>s'. deluserec io now s nm = Some (s', 0) \<and> snd s' = (snd s)[i - 1 := zero_userec]
     \<and> db_inv s' L \<and> db.unique s' L \<and> db_find s' nm = Some (- 1)"
proof -
  obtain s1 where d: "db_del s nm = Some (s1, int i)" "db_inv s1 (L - {i})" "db.unique s1 (L - {i})"
    "db_name s1 = db_name s" "db_find s1 nm = Some (- 1)"
    using db.del_then_find [OF assms(1-5)] by blast
  have sl: "db_slot s i" "db_slot s1 i"
    using db.slot_pos [OF assms(1,3)] db_del_snd [OF d(1)] by (auto simp: db_slot_def)
  obtain s' where s': "db_ins (db_write s1 i zero_userec) [] i = Some s'" "db_inv s' L" "db.unique s' L"
    "db_name s' = db_name (db_write s1 i zero_userec)"
    using store.free_slot [OF d(2,3) assms(3) sl(2), of zero_userec] by (auto simp: zero_userec_def)
  have "\<not> strcaseeq nm (db_name s' j)" if "j \<in> L" for j
  proof (cases "j = i")
    case True
    then show ?thesis
      using store.write_name [OF sl(2,2), of zero_userec] s'(4) assms(5) by (simp add: zero_userec_def)
  next
    case False
    have "\<not> strcaseeq nm (db_name s1 j)"
      using db.find_positive [OF d(2,5)] that False by auto
    moreover have "db_slot s1 j" using db.slot_pos [OF d(2)] that False by blast
    ultimately show ?thesis
      using store.write_name [OF sl(2), of j zero_userec] s'(4) False by simp
  qed
  then have "db_find s' nm = Some (- 1)" using db.find_absent [OF s'(2)] by blast
  moreover have "deluserec io now s nm = Some (s', 0)"
    using db.find_unique [OF assms(1-5)] d(1) s'(1) sl(1) assms(6-10)
    by (simp add: deluserec_def Let_def db_slot_def)
  moreover have "snd s' = (snd s)[i - 1 := zero_userec]"
    using db_ins_snd [OF s'(1)] db_del_snd [OF d(1)] by (simp add: db_write_def)
  ultimately show ?thesis using s' by blast
qed

lemma getuser_found:
  assumes "db_inv s L" "db.unique s L" "i \<in> L" "strcaseeq nm (db_name s i)" "nm \<noteq> []" "46 \<notin> set nm"
  shows "getuser s nm = Some (if kickout (snd s ! (i - 1)) = 0 then i else 0)"
  using db.find_unique [OF assms(1-5)] db.slot_pos [OF assms(1,3)] assms(4-6)
  by (simp add: getuser_def db_slot_def strcaseeq_sym)

lemma getuser_absent:
  assumes "db_inv s L" "\<forall>i \<in> L. \<not> strcaseeq nm (db_name s i)"
  shows "getuser s nm = Some 0"
  using db.find_absent [OF assms] by (simp add: getuser_def)

lemma free_count_insert:
  assumes "db_inv s L" "db_inv s' L" "i \<in> L" "db_name s i = []" "userid x \<noteq> []"
    "snd s' = (snd s)[i - 1 := x]"
  shows "nfree (fst s') = nfree (fst s) - 1"
proof -
  have nm: "db_name s' j = (if j = i then userid x else db_name s j)" if "j \<in> L" for j
    using db.slot_pos [OF assms(1) that] db.slot_pos [OF assms(1,3)] assms(6)
    by (cases i; cases j) (auto simp: db_name_def db_slot_def nth_list_update)
  have eq: "{j \<in> L. db_name s' j = []} = {j \<in> L. db_name s j = []} - {i}"
    using nm assms(5) by (auto split: if_splits)
  have fin: "finite L"
    using db.slot_pos [OF assms(1)] by (intro finite_subset [of L "{..length (snd s)}"]) (auto simp: db_slot_def)
  then have "card {j \<in> L. db_name s j = []} > 0" using assms(3,4) by (auto simp: card_gt_0_iff)
  then have "int (card {j \<in> L. db_name s' j = []}) = int (card {j \<in> L. db_name s j = []}) - 1"
    unfolding eq using fin assms(3,4) by (simp add: card_Diff_singleton of_nat_diff)
  then show ?thesis using db_free_count [OF assms(1)] db_free_count [OF assms(2)] by simp
qed

section \<open>Properties of the user database\<close>

text \<open>A small password file for the examples: one user, two free slots, all letters in bucket row 0.\<close>

definition sample_tab :: "int list list" where
  "sample_tab = [replicate 26 3]"

definition sample_pw :: "userec list" where
  "sample_pw = [zero_userec\<lparr>userid := lit ''SYSOP''\<rparr>, zero_userec, zero_userec]"

lemma sample_tab_wf: "wf_tab sample_tab"
  by (simp add: wf_tab_def sample_tab_def)

lemma sample_unique: "slots_unique sample_pw (length sample_pw)"
  by (auto simp: slots_unique_def sample_pw_def zero_userec_def less_Suc_eq numeral_3_eq_3 strcaseeq_def)

lemma sample_db: "\<exists>u. db_inv (u, sample_pw) {1..3} \<and> db.unique (u, sample_pw) {1..3}"
proof -
  have "length sample_pw = 3" "sample_pw \<noteq> []" by (simp_all add: sample_pw_def)
  then show ?thesis
    using load_ucache_correct [OF sample_tab_wf, of sample_pw] sample_unique
      db_unique_slots [OF sample_unique] by force
qed

text \<open>
  The hash of a user id is total on a generated table, lies within the \<open>hash_head\<close> array, is 0
  exactly for the empty id, and does not see letter case.
\<close>

theorem ucache_hash_props:
  assumes "wf_tab tab" "0 < mu"
  shows "(\<exists>h. ucache_hash tab mu a = Some h \<and> h < mu * 4 + 1 \<and> (h = 0 \<longleftrightarrow> a = []))
     \<and> (strcaseeq a b \<longrightarrow> ucache_hash tab mu a = ucache_hash tab mu b)"
  using ucache_hash_total [OF assms, of a] ucache_hash_case [OF assms(1), of a b mu] by auto

lemma ucache_hash_props_witness:
  "ucache_hash sample_tab 3 (lit ''SysOp'') = ucache_hash sample_tab 3 (lit ''sysop'')"
  using ucache_hash_props [OF sample_tab_wf, of 3 "lit ''SysOp''" "lit ''sysop''"]
  by (simp add: strcaseeq_def tolower_def isupper_def)

text \<open>
  \<open>load_ucache\<close> run in a fresh process ends, reports an error exactly when two records carry the
  same id, and otherwise links every slot of the password file: each registered id is found at its
  slot and the free slots are counted.
\<close>

theorem load_ucache_loads:
  assumes "wf_tab t" "pw \<noteq> []"
  shows "\<exists>u b. load_ucache (Some t) (- 1) pw = Some (u, b) \<and> (b \<longleftrightarrow> slots_unique pw (length pw))
     \<and> (b \<longrightarrow> (\<forall>i < length pw. userid (pw ! i) \<noteq> [] \<longrightarrow>
            finduseridhash u pw (userid (pw ! i)) = Some (int i + 1))
          \<and> usersum u (length pw) = int (card {i \<in> {1..length pw}. userid (pw ! (i - 1)) \<noteq> []}))"
proof -
  obtain u b where l: "load_ucache (Some t) (- 1) pw = Some (u, b)" "b \<longleftrightarrow> slots_unique pw (length pw)"
    "b \<longrightarrow> db_inv (u, pw) {1..length pw}"
    using load_ucache_correct [OF assms] by blast
  have "finduseridhash u pw (userid (pw ! i)) = Some (int i + 1)"
    if "b" "i < length pw" "userid (pw ! i) \<noteq> []" for i
  proof -
    have "db_inv (u, pw) {1..length pw}" "db.unique (u, pw) {1..length pw}"
      using that l(2,3) db_unique_slots by auto
    from db.find_unique [OF this, of "i + 1" "userid (pw ! i)"] that show ?thesis
      by (simp add: db_find_def db_name_def)
  qed
  moreover have "usersum u (length pw) = int (card {i \<in> {1..length pw}. userid (pw ! (i - 1)) \<noteq> []})" if b
  proof -
    let ?A = "{i \<in> {1..length pw}. userid (pw ! (i - 1)) = []}"
    let ?B = "{i \<in> {1..length pw}. userid (pw ! (i - 1)) \<noteq> []}"
    have "card (?A \<union> ?B) = card ?A + card ?B" by (intro card_Un_disjoint) auto
    moreover have "?A \<union> ?B = {1..length pw}" by auto
    moreover have "nfree u = int (card ?A)"
      using db_free_count [of "(u, pw)" "{1..length pw}"] that l(3) by (simp add: db_name_def)
    ultimately show ?thesis by (simp add: usersum_def)
  qed
  ultimately show ?thesis using l by blast
qed

lemma load_ucache_loads_witness:
  "\<exists>u. load_ucache (Some sample_tab) (- 1) sample_pw = Some (u, True)
     \<and> finduseridhash u sample_pw (lit ''SYSOP'') = Some 1"
proof -
  have "sample_pw \<noteq> []" "userid (sample_pw ! 0) = lit ''SYSOP''" "0 < length sample_pw"
    by (simp_all add: sample_pw_def)
  then show ?thesis
    using load_ucache_loads [OF sample_tab_wf, of sample_pw] sample_unique by fastforce
qed

text \<open>
  C6: Registration: with a free slot and a new id, \<open>insertuserec\<close> writes the record into a slot that
  was free and into no other, returns its number, and the id is found there afterwards; ids stay
  unique and \<open>usersum\<close> grows by one.  A taken id gives 0 and a full file gives -1, and neither
  changes anything.
\<close>

theorem insertuserec_registers:
  assumes "db_inv s L" "db.unique s L" "userid x \<noteq> []" "open_ok io" "seek_ok io" "write_ok io"
  shows "if \<exists>i \<in> L. strcaseeq (userid x) (db_name s i) then insertuserec io s x = Some (s, 0)
     else if \<forall>i \<in> L. db_name s i \<noteq> [] then insertuserec io s x = Some (s, - 1)
     else \<exists>s' i. insertuserec io s x = Some (s', int i) \<and> i \<in> L \<and> db_name s i = []
        \<and> snd s' = (snd s)[i - 1 := x] \<and> db_inv s' L \<and> db.unique s' L
        \<and> db_find s' (userid x) = Some (int i)
        \<and> usersum (fst s') (length (snd s')) = usersum (fst s) (length (snd s)) + 1"
proof -
  consider (taken) i where "i \<in> L" "strcaseeq (userid x) (db_name s i)"
    | (full) "\<forall>i \<in> L. \<not> strcaseeq (userid x) (db_name s i)" "\<forall>i \<in> L. db_name s i \<noteq> []"
    | (new) i0 where "\<forall>i \<in> L. \<not> strcaseeq (userid x) (db_name s i)" "i0 \<in> L" "db_name s i0 = []"
    by blast
  then show ?thesis
  proof cases
    case taken
    then show ?thesis using insert_taken [OF assms(1) taken] by (meson)
  next
    case full
    then show ?thesis using insert_full [OF assms(1) full] by auto
  next
    case new
    obtain s' i where s': "insertuserec io s x = Some (s', int i)" "i \<in> L" "db_name s i = []"
      "snd s' = (snd s)[i - 1 := x]" "db_inv s' L" "db.unique s' L" "db_find s' (userid x) = Some (int i)"
      using insert_ok [OF assms(1-3) new assms(4-6)] by blast
    have "usersum (fst s') (length (snd s')) = usersum (fst s) (length (snd s)) + 1"
      using free_count_insert [OF assms(1) s'(5,2,3) assms(3) s'(4)] s'(4) by (simp add: usersum_def)
    with s' new show ?thesis by auto
  qed
qed

lemma insertuserec_registers_witness:
  "\<exists>s s' i. snd s = sample_pw \<and> insertuserec \<lparr>open_ok = True, seek_ok = True, write_ok = True\<rparr> s
      (zero_userec\<lparr>userid := lit ''bob''\<rparr>) = Some (s', int i) \<and> db_find s' (lit ''bob'') = Some (int i)"
proof -
  obtain u where u: "db_inv (u, sample_pw) {1..3}" "db.unique (u, sample_pw) {1..3}"
    using sample_db by blast
  have three: "{1..3} = {1, 2, 3::nat}" by auto
  have names: "db_name (u, sample_pw) 1 = lit ''SYSOP''" "db_name (u, sample_pw) 2 = []"
    "db_name (u, sample_pw) 3 = []"
    by (simp_all add: db_name_def sample_pw_def zero_userec_def)
  let ?x = "zero_userec\<lparr>userid := lit ''bob''\<rparr>"
  let ?io = "\<lparr>open_ok = True, seek_ok = True, write_ok = True\<rparr>"
  have no: "\<not> (\<exists>i \<in> {1..3}. strcaseeq (userid ?x) (db_name (u, sample_pw) i))"
    "\<not> (\<forall>i \<in> {1..3}. db_name (u, sample_pw) i \<noteq> [])"
    unfolding three using names by (auto simp: strcaseeq_def)
  have x: "userid ?x \<noteq> []" "open_ok ?io" "seek_ok ?io" "write_ok ?io" by simp_all
  obtain s' i where "insertuserec ?io (u, sample_pw) ?x = Some (s', int i)"
    "db_find s' (userid ?x) = Some (int i)"
    using insertuserec_registers [OF u x] unfolding if_not_P [OF no(1)] if_not_P [OF no(2)] by blast
  then show ?thesis by (intro exI [of _ "(u, sample_pw)"] exI [of _ s'] exI [of _ i]) simp
qed

text \<open>
  When the password file cannot be opened or positioned, a failed registration leaves the records
  and the set of slots as they were.  When the \<open>write\<close> fails it does not: the free slot taken for the
  user is in no chain any more, and no later registration can use it.
\<close>

theorem insertuserec_failures:
  assumes "db_inv s L" "db.unique s L" "\<forall>i \<in> L. \<not> strcaseeq (userid x) (db_name s i)"
    "i0 \<in> L" "db_name s i0 = []" "\<not> (open_ok io \<and> seek_ok io \<and> write_ok io)"
  shows "\<exists>s'. insertuserec io s x = Some (s', - 1) \<and> snd s' = snd s
     \<and> (if open_ok io \<and> seek_ok io then \<exists>i \<in> L. db_name s i = [] \<and> db_inv s' (L - {i})
        else db_inv s' L)"
proof (cases "open_ok io \<and> seek_ok io")
  case True
  then show ?thesis using insert_lost [OF assms(1,3-5), of io] assms(6) by auto
next
  case False
  then show ?thesis using insert_undo [OF assms(1-5), of io] by auto
qed

lemma insertuserec_failures_witness:
  "\<exists>s s'. snd s = sample_pw \<and> insertuserec \<lparr>open_ok = True, seek_ok = True, write_ok = False\<rparr> s
      (zero_userec\<lparr>userid := lit ''bob''\<rparr>) = Some (s', - 1)"
proof -
  obtain u where u: "db_inv (u, sample_pw) {1..3}" "db.unique (u, sample_pw) {1..3}"
    using sample_db by blast
  have three: "{1..3} = {1, 2, 3::nat}" by auto
  have "db_name (u, sample_pw) 1 = lit ''SYSOP''" "db_name (u, sample_pw) 2 = []"
    "db_name (u, sample_pw) 3 = []"
    by (simp_all add: db_name_def sample_pw_def zero_userec_def)
  then have "\<forall>i \<in> {1..3}. \<not> strcaseeq (userid (zero_userec\<lparr>userid := lit ''bob''\<rparr>)) (db_name (u, sample_pw) i)"
    "db_name (u, sample_pw) 2 = []" "(2::nat) \<in> {1..3}"
    unfolding three by (auto simp: strcaseeq_def)
  from insertuserec_failures [OF u this(1,3,2), of "\<lparr>open_ok = True, seek_ok = True, write_ok = False\<rparr>"]
  obtain s' where "insertuserec \<lparr>open_ok = True, seek_ok = True, write_ok = False\<rparr> (u, sample_pw)
      (zero_userec\<lparr>userid := lit ''bob''\<rparr>) = Some (s', - 1)" by auto
  then show ?thesis by (intro exI [of _ "(u, sample_pw)"] exI [of _ s']) simp
qed



text \<open>
  \<open>updateuserec\<close> replaces the user's own record and nothing else: every other record, the index
  and the kick-out stamp stay, and a record that has been kicked out, or a slot number of somebody
  else, is refused.
\<close>

theorem updateuserec_replaces:
  assumes "db_inv s L" "db.unique s L" "i \<in> L" "strcaseeq (userid x) (db_name s i)" "userid x \<noteq> []"
    "open_ok io" "seek_ok io" "write_ok io" "usernum = 0 \<or> usernum = int i"
  shows "\<exists>s'. updateuserec io s x usernum =
        Some (s', if kickout (snd s ! (i - 1)) = 0 then 0 else - 1)
     \<and> fst s' = fst s
     \<and> snd s' = (if kickout (snd s ! (i - 1)) = 0
                  then (snd s)[i - 1 := x\<lparr>kickout := 0\<rparr>] else snd s)
     \<and> db_find s' (userid x) = Some (int i)"
proof -
  have sl: "db_slot s i" using db.slot_pos [OF assms(1,3)] by blast
  have find: "db_find s (userid x) = Some (int i)" by (rule db.find_unique [OF assms(1-5)])
  have m: "strcaseeq (db_name s i) (userid x)" using assms(4) by (simp add: strcaseeq_sym)
  let ?s' = "if kickout (snd s ! (i - 1)) = 0 then db_write s i (x\<lparr>kickout := 0\<rparr>) else s"
  have "(if usernum = 0 then db_find s (userid x) else Some usernum) = Some (int i)"
    using find assms(9) by auto
  then have up: "updateuserec io s x usernum =
      Some (?s', if kickout (snd s ! (i - 1)) = 0 then 0 else - 1)"
    using sl m assms(6-8) by (simp add: updateuserec_def Let_def db_slot_def)
  have il: "i - 1 < length (snd s)" using sl by (cases i) (auto simp: db_slot_def)
  have "strcaseeq (userid x) (db_name ?s' j) \<longleftrightarrow> strcaseeq (userid x) (db_name s j)" for j
  proof (cases "j - 1 = i - 1")
    case True
    then have "db_name s j = db_name s i" by (simp only: db_name_def)
    moreover have "db_name (db_write s i (x\<lparr>kickout := 0\<rparr>)) j = userid x"
      using True il by (simp only: db_name_def db_write_def snd_conv nth_list_update_eq) simp
    ultimately show ?thesis using assms(4) by simp
  next
    case False
    then have "db_name (db_write s i (x\<lparr>kickout := 0\<rparr>)) j = db_name s j"
      by (simp only: db_name_def db_write_def snd_conv nth_list_update_neq [OF not_sym [OF False]])
    then show ?thesis by simp
  qed
  then have eq: "slot_rel (userid x) (snd ?s') = slot_rel (userid x) (snd s)"
    by (simp add: slot_rel_def db_name_def fun_eq_iff)
  obtain cs where rep: "uh_rep (fst s) (snd s) cs" "L = linked_set cs"
    using assms(1) by (auto simp: db_inv_def)
  obtain h where h: "uhash (fst s) (snd s) (userid x) = Some h" using uhash_ok [OF rep(1)] by auto
  have fs: "fst ?s' = fst s" "length (snd ?s') = length (snd s)" by (simp_all add: db_write_def)
  have "chain (next_slot (fst s)) (hash_head (fst s) h) (cs h)" "\<forall>v \<in> set (cs h). v \<le> length (snd s)"
    using rep(1) by (auto simp: uh_rep_def)
  then have "db_find ?s' (userid x) = db_find s (userid x)"
    using finduseridhash_rep [OF rep(1) h] find_loop_chain [of "next_slot (fst s)" "hash_head (fst s) h" "cs h" "snd ?s'" "userid x"] h fs eq
    by (simp add: db_find_def finduseridhash_def)
  then show ?thesis using up find by (auto simp: db_write_def)
qed

lemma updateuserec_replaces_witness:
  "\<exists>s s'. snd s = sample_pw \<and> updateuserec \<lparr>open_ok = True, seek_ok = True, write_ok = True\<rparr> s
      (zero_userec\<lparr>userid := lit ''SYSOP'', numposts := 5\<rparr>) 0 = Some (s', 0)
      \<and> numposts (snd s' ! 0) = 5"
proof -
  obtain u where u: "db_inv (u, sample_pw) {1..3}" "db.unique (u, sample_pw) {1..3}"
    using sample_db by blast
  let ?x = "zero_userec\<lparr>userid := lit ''SYSOP'', numposts := 5\<rparr>"
  have "strcaseeq (userid ?x) (db_name (u, sample_pw) 1)" "userid ?x \<noteq> []"
    "kickout (snd (u, sample_pw) ! (1 - 1)) = 0"
    by (simp_all add: db_name_def sample_pw_def zero_userec_def)
  with updateuserec_replaces [OF u, of 1 ?x "\<lparr>open_ok = True, seek_ok = True, write_ok = True\<rparr>" 0]
  obtain s' where
    "updateuserec \<lparr>open_ok = True, seek_ok = True, write_ok = True\<rparr> (u, sample_pw) ?x 0 = Some (s', 0)"
    "snd s' = sample_pw[1 - 1 := ?x\<lparr>kickout := 0\<rparr>]" by auto
  then show ?thesis
    by (intro exI [of _ "(u, sample_pw)"] exI [of _ s']) (simp add: sample_pw_def)
qed

end
