(* ===== verification/CLib.thy ===== *)
theory CLib
  imports YthtPrelude
begin

text \<open>
  Parts of the C library the components share: C strings read out of an array, decimal printing,
  truncating division, \<open>fgets\<close> and the searches \<open>strchr\<close>, \<open>strrchr\<close>, \<open>strstr\<close>.
\<close>

section \<open>Arithmetic\<close>

text \<open>\<open>/\<close> and \<open>%\<close> on \<open>int\<close> round towards zero.\<close>

definition cdiv :: "int \<Rightarrow> int \<Rightarrow> int" where
  "cdiv a b = sgn a * sgn b * (\<bar>a\<bar> div \<bar>b\<bar>)"

definition cmod :: "int \<Rightarrow> int \<Rightarrow> int" where
  "cmod a b = a - cdiv a b * b"

lemma cdiv_nonneg: "0 \<le> a \<Longrightarrow> 0 < b \<Longrightarrow> cdiv a b = a div b"
  by (cases "a = 0") (simp_all add: cdiv_def)

lemma cmod_nonneg: "0 \<le> a \<Longrightarrow> 0 < b \<Longrightarrow> cmod a b = a mod b"
  by (simp add: cmod_def cdiv_nonneg minus_div_mult_eq_mod)

text \<open>A value stored into an \<open>int\<close>.\<close>

definition to_int32 :: "int \<Rightarrow> int" where
  "to_int32 v = to_signed 32 (v mod 2 ^ 32)"

lemma to_int32_id: "- 2147483648 \<le> x \<Longrightarrow> x < 2147483648 \<Longrightarrow> to_int32 x = x"
  using to_signed_mod [of 32 x] by (simp add: to_int32_def)

section \<open>Strings in arrays\<close>

definition zstr :: "byte list \<Rightarrow> cstr" where
  "zstr m = takeWhile (\<lambda>c. c \<noteq> 0) m"

lemma zstr_no_nul [simp]: "0 \<notin> set (zstr m)"
  using set_takeWhileD [of 0 "\<lambda>c. c \<noteq> 0" m] by (auto simp: zstr_def)

lemma zstr_append: "0 \<notin> set s \<Longrightarrow> zstr (s @ 0 # m) = s"
  by (simp add: zstr_def takeWhile_cstr)

lemma zstr_id: "0 \<notin> set s \<Longrightarrow> zstr s = s"
  by (auto simp: zstr_def takeWhile_eq_all_conv)

text \<open>A string stored at the front of a zeroed array.\<close>

definition pad0 :: "nat \<Rightarrow> cstr \<Rightarrow> byte list" where
  "pad0 n s = s @ replicate (n - length s) 0"

lemma length_pad0: "length s \<le> n \<Longrightarrow> length (pad0 n s) = n"
  by (simp add: pad0_def)

lemma zstr_pad0: "0 \<notin> set s \<Longrightarrow> zstr (pad0 n s) = s"
  by (cases "n - length s") (auto simp: pad0_def zstr_append zstr_id)

section \<open>Decimal numbers\<close>

fun dec_nat :: "nat \<Rightarrow> cstr" where
  "dec_nat n = (if n < 10 then [of_nat (48 + n)] else dec_nat (n div 10) @ [of_nat (48 + n mod 10)])"

declare dec_nat.simps [simp del]

definition dec :: "int \<Rightarrow> cstr" where
  "dec x = (if x < 0 then 45 # dec_nat (nat (- x)) else dec_nat (nat x))"

text \<open>Reading digits, as \<open>atoi\<close> does, and the value printed.\<close>

fun digits_val :: "nat \<Rightarrow> cstr \<Rightarrow> nat" where
  "digits_val v [] = v"
| "digits_val v (c # s) = (if isdigit c then digits_val (10 * v + (unat c - 48)) s else v)"

lemma unat_digit: "n < 10 \<Longrightarrow> unat (of_nat (48 + n) :: byte) = 48 + n"
  by (simp add: unsigned_of_nat take_bit_eq_mod del: of_nat_add)

lemma isdigit_dec: "n < 10 \<Longrightarrow> isdigit (of_nat (48 + n))"
  using unat_digit [of n] by (simp add: isdigit_def word_le_nat_alt)

lemma digits_val_append:
  "\<forall>c \<in> set s. isdigit c \<Longrightarrow> digits_val v (s @ t) = digits_val (digits_val v s) t"
  by (induction s arbitrary: v) auto

lemma dec_nat_digits: "\<forall>c \<in> set (dec_nat n). isdigit c"
proof (induction n rule: dec_nat.induct)
  case (1 n)
  then show ?case
    using isdigit_dec [of n] isdigit_dec [of "n mod 10"] by (subst dec_nat.simps) auto
qed

lemma digits_val_dec_nat: "digits_val 0 (dec_nat n) = n"
proof (induction n rule: dec_nat.induct)
  case (1 n)
  show ?case
  proof (cases "n < 10")
    case True
    then show ?thesis
      using isdigit_dec [of n] unat_digit [of n] by (subst dec_nat.simps) simp
  next
    case False
    have m: "n mod 10 < 10" by simp
    have "digits_val 0 (dec_nat n) = digits_val (n div 10) [of_nat (48 + n mod 10)]"
      using False 1 digits_val_append [OF dec_nat_digits, of 0 "n div 10" "[of_nat (48 + n mod 10)]"]
      by (subst dec_nat.simps) simp
    also have "\<dots> = n"
      using isdigit_dec [OF m] unat_digit [OF m] by simp
    finally show ?thesis .
  qed
qed

lemma dec_nat_inj: "dec_nat a = dec_nat b \<Longrightarrow> a = b"
  by (metis digits_val_dec_nat)

lemma dec_nat_ne: "dec_nat n \<noteq> []"
  by (subst dec_nat.simps) simp

section \<open>Searching\<close>

definition strchr :: "cstr \<Rightarrow> byte \<Rightarrow> nat option" where
  "strchr s c = (if c \<in> set s then Some (length (takeWhile (\<lambda>x. x \<noteq> c) s)) else None)"

fun strrchr :: "cstr \<Rightarrow> byte \<Rightarrow> nat option" where
  "strrchr [] c = None"
| "strrchr (x # s) c =
     (case strrchr s c of
        Some i \<Rightarrow> Some (Suc i)
      | None \<Rightarrow> if x = c then Some 0 else None)"

fun strstr :: "cstr \<Rightarrow> cstr \<Rightarrow> nat option" where
  "strstr [] pat = (if pat = [] then Some 0 else None)"
| "strstr (x # s) pat =
     (if take (length pat) (x # s) = pat then Some 0 else map_option Suc (strstr s pat))"

lemma strstr_Some_at: "strstr s pat = Some i \<Longrightarrow> take (length pat) (drop i s) = pat"
  by (induction s pat arbitrary: i rule: strstr.induct) (auto split: if_splits)

lemma strstr_None_at: "strstr s pat = None \<Longrightarrow> pat \<noteq> [] \<Longrightarrow> take (length pat) (drop i s) \<noteq> pat"
proof (induction s pat arbitrary: i rule: strstr.induct)
  case (2 x s pat)
  then show ?case by (cases i) (auto split: if_splits)
qed (auto split: if_splits)

lemma strstr_length: "strstr s pat = Some i \<Longrightarrow> i + length pat \<le> length s"
proof (induction s pat arbitrary: i rule: strstr.induct)
  case (2 x s pat)
  show ?case
  proof (cases "take (length pat) (x # s) = pat")
    case True
    then have "length pat \<le> length (x # s)" by (metis length_take min.cobounded1)
    then show ?thesis using 2 True by simp
  next
    case False
    then show ?thesis using 2 by auto
  qed
qed (auto split: if_splits)

lemma strchr_Some: "strchr s c = Some i \<Longrightarrow> i < length s \<and> s ! i = c \<and> c \<notin> set (take i s)"
proof -
  assume a: "strchr s c = Some i"
  then have m: "c \<in> set s" "i = length (takeWhile (\<lambda>x. x \<noteq> c) s)"
    by (auto simp: strchr_def split: if_splits)
  then obtain u v where uv: "s = u @ c # v" "c \<notin> set u" using split_list_first by metis
  then have "takeWhile (\<lambda>x. x \<noteq> c) s = u" by (auto simp: takeWhile_append)
  with m uv show ?thesis by simp
qed

lemma strchr_None: "strchr s c = None \<longleftrightarrow> c \<notin> set s"
  by (simp add: strchr_def)

lemma strrchr_None: "strrchr s c = None \<longleftrightarrow> c \<notin> set s"
  by (induction s) (auto split: option.splits)

lemma strrchr_split: "c \<notin> set t \<Longrightarrow> strrchr (s @ c # t) c = Some (length s)"
proof (induction s)
  case Nil
  then have "strrchr t c = None" by (simp add: strrchr_None)
  then show ?case by simp
qed simp

text \<open>\<open>strtok\<close> on the rest of a string: the next token and what is behind it.\<close>

definition strtok :: "cstr option \<Rightarrow> byte set \<Rightarrow> cstr option \<times> cstr option" where
  "strtok p delim =
     (case p of
        None \<Rightarrow> (None, None)
      | Some s \<Rightarrow>
          let u = dropWhile (\<lambda>c. c \<in> delim) s
          in if u = [] then (None, None)
             else let t = takeWhile (\<lambda>c. c \<notin> delim) u
                  in (Some t, if length t < length u then Some (drop (length t + 1) u) else None))"

lemma strtok_shorter:
  assumes "strtok (Some s) delim = (Some t, Some r)"
  shows "length r < length s"
proof -
  let ?u = "dropWhile (\<lambda>c. c \<in> delim) s"
  have "length r < length ?u" using assms by (auto simp: strtok_def Let_def split: if_splits)
  then show ?thesis using length_dropWhile_le [of "\<lambda>c. c \<in> delim" s] by linarith
qed

text \<open>All tokens of a string, as a loop over \<open>strtok\<close> sees them.\<close>

function strtok_all :: "cstr \<Rightarrow> byte set \<Rightarrow> cstr list" where
  "strtok_all s delim =
     (case strtok (Some s) delim of
        (None, _) \<Rightarrow> []
      | (Some t, None) \<Rightarrow> [t]
      | (Some t, Some r) \<Rightarrow> t # strtok_all r delim)"
  by pat_completeness auto
termination
  by (relation "measure (\<lambda>(s, d). length s)") (auto dest: sym intro: strtok_shorter)

declare strtok_all.simps [simp del]

section \<open>Lines\<close>

text \<open>
  \<open>fgets(buf, n, fp)\<close> at a position of a file: the bytes stored (at most \<open>n - 1\<close>, up to and with the
  first newline) and the rest of the file; \<open>None\<close> at the end of the file.
\<close>

fun line_take :: "nat \<Rightarrow> byte list \<Rightarrow> byte list \<times> byte list" where
  "line_take 0 m = ([], m)"
| "line_take (Suc k) [] = ([], [])"
| "line_take (Suc k) (c # m) =
     (if c = 10 then ([c], m) else let (l, r) = line_take k m in (c # l, r))"

definition fgets :: "nat \<Rightarrow> byte list \<Rightarrow> (byte list \<times> byte list) option" where
  "fgets n m = (if m = [] \<or> n \<le> 1 then None else Some (line_take (n - 1) m))"

lemma line_take_split: "line_take k m = (l, r) \<Longrightarrow> m = l @ r \<and> length l \<le> k"
  by (induction k m arbitrary: l r rule: line_take.induct) (auto split: if_splits prod.splits)

lemma line_take_progress: "0 < k \<Longrightarrow> m \<noteq> [] \<Longrightarrow> length (snd (line_take k m)) < length m"
proof -
  assume "0 < k" "m \<noteq> []"
  then have "fst (line_take k m) \<noteq> []" by (cases k; cases m) (auto split: prod.splits)
  moreover have "m = fst (line_take k m) @ snd (line_take k m)"
    using line_take_split [of k m "fst (line_take k m)" "snd (line_take k m)"] by simp
  then have "length m = length (fst (line_take k m)) + length (snd (line_take k m))"
    by (metis length_append)
  ultimately show ?thesis by simp
qed

lemma line_take_line:
  "10 \<notin> set s \<Longrightarrow> length s < k \<Longrightarrow> line_take k (s @ 10 # r) = (s @ [10], r)"
proof (induction s arbitrary: k)
  case Nil
  then show ?case by (cases k) auto
next
  case (Cons c s)
  then show ?case by (cases k) auto
qed

lemma fgets_line: "10 \<notin> set s \<Longrightarrow> Suc (length s) < n \<Longrightarrow> fgets n (s @ 10 # r) = Some (s @ [10], r)"
  using line_take_line [of s "n - 1" r] by (simp add: fgets_def)

text \<open>All lines a loop \<open>while (fgets(buf, n, fp))\<close> sees; a NUL in the file cuts the string seen.\<close>

function file_lines :: "nat \<Rightarrow> byte list \<Rightarrow> cstr list" where
  "file_lines n m =
     (case fgets n m of None \<Rightarrow> [] | Some (l, r) \<Rightarrow> zstr l # file_lines n r)"
  by pat_completeness auto
termination
proof (relation "measure (\<lambda>(n, m). length m)")
  fix n m x and l r :: "byte list"
  assume "fgets n m = Some x" "(l, r) = x"
  then show "((n, r), (n, m)) \<in> measure (\<lambda>(n, m). length m)"
    using line_take_progress [of "n - 1" m] by (auto simp: fgets_def split: if_splits)
qed simp

declare file_lines.simps [simp del]

lemma file_lines_Nil [simp]: "file_lines n [] = []"
  by (simp add: file_lines.simps fgets_def)

lemma file_lines_line:
  assumes "10 \<notin> set s" "0 \<notin> set s" "Suc (length s) < n"
  shows "file_lines n (s @ 10 # r) = (s @ [10]) # file_lines n r"
proof -
  have "fgets n (s @ 10 # r) = Some (s @ [10], r)"
    using line_take_line [OF assms(1), of "n - 1" r] assms(3) by (simp add: fgets_def)
  moreover have "zstr (s @ [10]) = s @ [10]" using assms(2) by (intro zstr_id) auto
  ultimately show ?thesis by (subst file_lines.simps) simp
qed

lemma file_lines_concat:
  assumes "\<forall>s \<in> set ss. 10 \<notin> set s \<and> 0 \<notin> set s \<and> Suc (length s) < n"
  shows "file_lines n (concat (map (\<lambda>s. s @ [10]) ss)) = map (\<lambda>s. s @ [10]) ss"
  using assms by (induction ss) (simp_all add: file_lines_line)

section \<open>Network order\<close>

text \<open>\<open>htonl\<close> of a length as it is written, and \<open>ntohl\<close> of what is read, as an \<open>int\<close>.\<close>

definition be32_bytes :: "nat \<Rightarrow> byte list" where
  "be32_bytes n = [of_nat (n div 16777216), of_nat (n div 65536), of_nat (n div 256), of_nat n]"

definition be32 :: "byte list \<Rightarrow> int" where
  "be32 bs = to_int32 (foldl (\<lambda>v b. v * 256 + int (unat b)) 0 bs)"

lemma be32_roundtrip:
  assumes "n < 2147483648"
  shows "be32 (be32_bytes n) = int n"
proof -
  have b: "uint (of_nat m :: byte) = int (m mod 256)" for m
    by (simp add: uint_nat unat_of_nat take_bit_eq_mod of_nat_mod)
  have r: "(((0 * 256 + i) * 256 + j) * 256 + k) * 256 + l = i * 16777216 + j * 65536 + k * 256 + l"
    for i j k l :: int by simp
  have "n div 16777216 mod 256 = n div 16777216" using assms by simp
  moreover have "n = n div 16777216 * 16777216 + n div 65536 mod 256 * 65536 + n div 256 mod 256 * 256 + n mod 256"
  proof -
    have "n div 256 * 256 + n mod 256 = n" by simp
    moreover have "n div 65536 * 256 + n div 256 mod 256 = n div 256"
      using div_mult_mod_eq [of "n div 256" 256] by (simp add: div_mult2_eq [symmetric])
    moreover have "n div 16777216 * 256 + n div 65536 mod 256 = n div 65536"
      using div_mult_mod_eq [of "n div 65536" 256] by (simp add: div_mult2_eq [symmetric])
    ultimately show ?thesis by linarith
  qed
  ultimately have "int (n div 16777216 mod 256 * 16777216 + n div 65536 mod 256 * 65536
      + n div 256 mod 256 * 256 + n mod 256) = int n" by argo
  then have "int (n div 16777216 mod 256) * 16777216 + int (n div 65536 mod 256) * 65536
      + int (n div 256 mod 256) * 256 + int (n mod 256) = int n"
    by (simp only: of_nat_add of_nat_mult of_nat_numeral)
  then have "foldl (\<lambda>v b. v * 256 + int (unat b)) 0 (be32_bytes n) = int n"
    by (simp only: be32_bytes_def foldl_Cons foldl_Nil uint_nat [symmetric] b r)
  then show ?thesis using assms to_int32_id [of "int n"] by (simp add: be32_def)
qed

lemma length_be32_bytes [simp]: "length (be32_bytes n) = 4"
  by (simp add: be32_bytes_def)

end
