(* ===== verification/StrOp.thy ===== *)
theory StrOp
  imports CLib
begin

text \<open>
  The string helpers of \<open>ythtlib/strop.c\<close> and \<open>mystrtok\<close> of \<open>ythtlib/common.c\<close>: bounded copy,
  trimming, the base-64 numbers of file names, and the filters that remove terminal escape
  sequences.
\<close>

section \<open>The operations\<close>

text \<open>What \<open>strsncpy\<close> leaves in \<open>s1\<close>, which has room for \<open>n\<close> bytes.\<close>

definition strsncpy :: "cstr \<Rightarrow> int \<Rightarrow> cstr" where
  "strsncpy s2 n =
     (if n \<le> 0 then []
      else let l = min (length s2) (nat n);
               n' = (if n > int l + 1 then l + 1 else nat n)
           in take (n' - 1) s2)"

definition blank :: "byte \<Rightarrow> bool" where
  "blank c \<longleftrightarrow> c \<in> {32, 9, 13, 10}"

definition strltrim :: "cstr \<Rightarrow> cstr" where
  "strltrim s = dropWhile blank s"

text \<open>
  \<open>strrtrim\<close> works in an array of 1024 bytes and starts at offset \<open>strlen(s) - 1\<close> of it: past the end
  of the array is \<open>None\<close>.  \<open>strchr\<close> finds the terminating NUL too, and the loop never leaves the
  first character.
\<close>

fun rtrim_loop :: "byte list \<Rightarrow> nat \<Rightarrow> nat" where
  "rtrim_loop t 0 = 0"
| "rtrim_loop t (Suc i) = (if blank (t ! Suc i) \<or> t ! Suc i = 0 then rtrim_loop t i else Suc i)"

definition strrtrim :: "cstr \<Rightarrow> cstr option" where
  "strrtrim s =
     (if s = [] then Some []
      else if length s > 1024 then None
      else let t = pad0 1024 (strsncpy s 1024);
               e = rtrim_loop t (length s - 1)
           in Some (zstr (take (e + 1) t)))"

definition normalize :: "cstr \<Rightarrow> cstr" where
  "normalize s = map (\<lambda>c. if c = 47 then 58 else c) s"

definition digit64 :: "byte \<Rightarrow> int" where
  "digit64 c = (if c \<ge> 97 then uint c - 97 + 26
                else if c \<ge> 65 then uint c - 65
                else if c \<ge> 48 then uint c - 48 + 52
                else uint c - 42 + 62)"

text \<open>\<open>myatoi\<close>: the \<open>int\<close> wraps on overflow.\<close>

fun atoi64_loop :: "cstr \<Rightarrow> nat \<Rightarrow> int \<Rightarrow> int" where
  "atoi64_loop [] n ret = ret"
| "atoi64_loop (c # s) 0 ret = ret"
| "atoi64_loop (c # s) (Suc n) ret = atoi64_loop s n (to_int32 (ret * 64 + digit64 c))"

definition myatoi :: "cstr \<Rightarrow> nat \<Rightarrow> int" where
  "myatoi buf len = atoi64_loop buf len 0"

definition mybase64 :: cstr where
  "mybase64 = lit ''ABCDEFGHIJKLMNOPQRSTUVWXYZabcdefghijklmnopqrstuvwxyz0123456789*+''"

text \<open>\<open>myitoa\<close> fills the buffer from the end; \<open>>>\<close> on a negative \<open>int\<close> keeps the sign.\<close>

fun myitoa :: "int \<Rightarrow> nat \<Rightarrow> cstr" where
  "myitoa n 0 = []"
| "myitoa n (Suc len) = myitoa (n div 64) len @ [mybase64 ! nat (n mod 64)]"

definition ansi_end :: "byte \<Rightarrow> bool" where
  "ansi_end c \<longleftrightarrow> (c > 97 \<and> c < 122) \<or> (c > 65 \<and> c < 90) \<or> c = 64"

fun filteransi_loop :: "bool \<Rightarrow> cstr \<Rightarrow> cstr" where
  "filteransi_loop st [] = []"
| "filteransi_loop st (c # s) =
     (let st1 = (c = 27 \<or> st) in
      if \<not> st1 then c # filteransi_loop False s
      else filteransi_loop (\<not> ansi_end c) s)"

definition filteransi :: "cstr \<Rightarrow> cstr" where
  "filteransi s = filteransi_loop False s"

fun filteransi2_loop :: "nat \<Rightarrow> cstr \<Rightarrow> cstr" where
  "filteransi2_loop st [] = []"
| "filteransi2_loop st (c # s) =
     (let st1 = (if c = 27
                 then (if take 1 s = [60] \<or> take 2 s = [91, 60] then 2 else 1)
                 else st);
          st2 = (if st1 = 1 \<and> ansi_end c then 0 else st1);
          st3 = (if st2 = 2 \<and> (c = 62 \<or> c = 10) then 0 else st2)
      in if st1 = 0 then c # filteransi2_loop 0 s else filteransi2_loop st3 s)"

definition filteransi2 :: "cstr \<Rightarrow> cstr" where
  "filteransi2 s = filteransi2_loop 0 s"

text \<open>\<open>mystrtok\<close>: the pieces stored in \<open>tmp\<close>, at most \<open>max\<close> of them.\<close>

fun mystrtok :: "cstr \<Rightarrow> byte \<Rightarrow> nat \<Rightarrow> cstr list" where
  "mystrtok buf c 0 = [buf]"
| "mystrtok buf c (Suc 0) = [buf]"
| "mystrtok buf c (Suc (Suc k)) =
     (case strchr buf c of
        None \<Rightarrow> [buf]
      | Some i \<Rightarrow> take i buf # mystrtok (drop (i + 1) buf) c (Suc k))"

section \<open>Facts\<close>

lemma strsncpy_take: "strsncpy s n = take (nat n - 1) s"
  by (auto simp: strsncpy_def Let_def min_def)

lemma length_strsncpy: "0 < n \<Longrightarrow> int (length (strsncpy s n)) < n"
  by (simp add: strsncpy_take)

lemma strsncpy_no_nul: "0 \<notin> set s \<Longrightarrow> 0 \<notin> set (strsncpy s n)"
  by (auto simp: strsncpy_take dest: in_set_takeD)

lemma rtrim_loop_le: "rtrim_loop t i \<le> i"
  by (induction t i rule: rtrim_loop.induct) (auto simp: le_SucI)

lemma rtrim_loop_blank:
  "rtrim_loop t i < j \<Longrightarrow> j \<le> i \<Longrightarrow> blank (t ! j) \<or> t ! j = 0"
  by (induction t i rule: rtrim_loop.induct) (auto simp: le_Suc_eq split: if_splits)

lemma rtrim_loop_stop: "rtrim_loop t i \<noteq> 0 \<Longrightarrow> \<not> blank (t ! rtrim_loop t i)"
  by (induction t i rule: rtrim_loop.induct) (auto split: if_splits)

lemma mybase64_nth: "k < 64 \<Longrightarrow> digit64 (mybase64 ! k) = int k"
proof -
  have "\<forall>k \<in> set [0..<64]. digit64 (mybase64 ! k) = int k" by code_simp
  then show "k < 64 \<Longrightarrow> digit64 (mybase64 ! k) = int k" by simp
qed

lemma length_myitoa [simp]: "length (myitoa n len) = len"
  by (induction n len rule: myitoa.induct) auto

lemma atoi64_append:
  "atoi64_loop (s @ [c]) (Suc (length s)) r = to_int32 (atoi64_loop s (length s) r * 64 + digit64 c)"
  by (induction s arbitrary: r) auto

lemma atoi64_itoa:
  "0 \<le> n \<Longrightarrow> n < 64 ^ len \<Longrightarrow> n < 2147483648 \<Longrightarrow> atoi64_loop (myitoa n len) len 0 = n"
proof (induction n len rule: myitoa.induct)
  case (2 n len)
  have "n < 64 * 64 ^ len" using 2(3) by simp
  then have "n div 64 < 64 ^ len" by linarith
  then have ih: "atoi64_loop (myitoa (n div 64) len) len 0 = n div 64"
    using 2 by (intro 2(1)) auto
  have k: "nat (n mod 64) < 64" using 2(2) by (simp add: nat_less_iff)
  have "atoi64_loop (myitoa n (Suc len)) (Suc len) 0 = to_int32 (n div 64 * 64 + n mod 64)"
    using atoi64_append [of "myitoa (n div 64) len" "mybase64 ! nat (n mod 64)" 0] ih
      mybase64_nth [OF k] by simp
  also have "\<dots> = n" using 2(2,4) by (simp add: to_int32_id)
  finally show ?case .
qed simp

lemma filteransi_no_esc: "27 \<notin> set (filteransi_loop st s)"
  by (induction st s rule: filteransi_loop.induct) (auto simp: Let_def)

lemma filteransi_plain: "27 \<notin> set s \<Longrightarrow> filteransi s = s"
  by (induction s) (auto simp: filteransi_def)

lemma filteransi_skip:
  "\<forall>c \<in> set p. \<not> ansi_end c \<Longrightarrow> ansi_end e \<Longrightarrow>
     filteransi_loop True (p @ e # s) = filteransi_loop False s"
  by (induction p) (auto simp: Let_def)

lemma filteransi_prefix:
  "27 \<notin> set a \<Longrightarrow> filteransi_loop False (a @ s) = a @ filteransi_loop False s"
  by (induction a) auto

lemma filteransi2_no_esc: "27 \<notin> set (filteransi2_loop st s)"
  by (induction st s rule: filteransi2_loop.induct) (auto simp: Let_def)

lemma mystrtok_join:
  "concat (map (\<lambda>p. p @ [c]) (mystrtok s c m)) = s @ [c]"
proof (induction s c m rule: mystrtok.induct)
  case (3 buf c k)
  show ?case
  proof (cases "strchr buf c")
    case (Some i)
    then have i: "i < length buf" "buf ! i = c" using strchr_Some by blast+
    then have "take i buf @ c # drop (i + 1) buf = buf" by (metis Suc_eq_plus1 id_take_nth_drop)
    then have "take i buf @ c # drop (Suc i) buf @ [c] = buf @ [c]" by (metis Suc_eq_plus1 append.assoc append_Cons)
    then show ?thesis using 3 Some by simp
  qed simp
qed simp_all

lemma length_mystrtok: "0 < m \<Longrightarrow> length (mystrtok s c m) \<le> m"
  by (induction s c m rule: mystrtok.induct) (auto split: option.splits)

section \<open>Properties\<close>

text \<open>
  \<open>myatoi\<close> reads back every number \<open>myitoa\<close> writes, for any field width that can hold it and any
  \<open>int\<close> that is not negative.
\<close>

theorem myitoa_roundtrip:
  assumes "0 \<le> n" "n < 64 ^ len" "n < 2147483648"
  shows "myatoi (myitoa n len) len = n \<and> length (myitoa n len) = len"
  using atoi64_itoa [OF assms] by (simp add: myatoi_def)

lemma myitoa_roundtrip_witness: "myatoi (myitoa 1000000007 5) 5 = 1000000007"
  using myitoa_roundtrip [of 1000000007 5] by simp

text \<open>
  \<open>filteransi\<close> removes every escape character, leaves a text without one alone, and removes an
  escape sequence together with its final letter when that letter is not one of \<open>a z A Z\<close>.
\<close>

theorem filteransi_filters:
  assumes "27 \<notin> set a" "27 \<notin> set b" "\<forall>c \<in> set p. \<not> ansi_end c" "ansi_end e"
  shows "filteransi (a @ 27 # p @ e # b) = a @ b \<and> 27 \<notin> set (filteransi s) \<and> filteransi a = a"
  using filteransi_prefix [OF assms(1), of "27 # p @ e # b"] filteransi_skip [OF assms(3,4), of b]
    filteransi_no_esc [of False s] filteransi_plain [OF assms(1)] filteransi_plain [OF assms(2)]
  by (simp add: filteransi_def ansi_end_def Let_def)

lemma filteransi_filters_witness: "filteransi (lit ''a'' @ 27 # lit ''[1;36'' @ 109 # lit ''b'') = lit ''ab''"
  using filteransi_filters [of "lit ''a''" "lit ''b''" "lit ''[1;36''" 109 "[]"]
  by (simp add: ansi_end_def)

text \<open>The four letters at the ends of the ranges are no terminators, so the text behind a cursor-up sequence is lost.\<close>

lemma filteransi_loses_text: "filteransi (27 # lit ''[Ahello'') = lit ''ello''"
  by (simp add: filteransi_def ansi_end_def)

end
