(* ===== verification/Article.thy ===== *)
theory Article
  imports StrOp
begin

text \<open>
  Articles and their index files, \<open>libythtbbs/article.c\<close>: \<open>struct fileheader\<close>, the operations that
  change one record, the title comparison and thread search, the binary search, and the operations
  on an index file (a list of records sorted by \<open>filetime\<close>): reading a window around an article,
  changing a record in place, deleting and appending.  \<open>None\<close> is an access outside the mapped file.
\<close>

section \<open>Records\<close>

text \<open>\<open>title\<close> (60 bytes) and \<open>owner\<close> (14 bytes) are kept as the arrays they are.\<close>

record fileheader =
  filetime :: int
  edittime :: int
  thread :: int
  accessed :: "32 word"
  title :: "byte list"
  owner :: "byte list"
  viewtime :: nat
  sizebyte :: nat
  staravg50 :: nat
  oldhasvoted :: nat
  deltime :: int
  hasvoted :: nat

definition "FH_READ = (0x1 :: 32 word)"
definition "FH_MARKED = (0x4 :: 32 word)"
definition "FH_DIGEST = (0x8 :: 32 word)"
definition "FH_NOREPLY = (0x10 :: 32 word)"
definition "FH_ATTACHED = (0x20 :: 32 word)"
definition "FH_DEL = (0x40 :: 32 word)"
definition "FH_SPEC = (0x80 :: 32 word)"
definition "FH_INND = (0x100 :: 32 word)"
definition "FH_ANNOUNCE = (0x200 :: 32 word)"
definition "FH_ISDIGEST = (0x800 :: 32 word)"
definition "FH_REPLIED = (0x1000 :: 32 word)"
definition "FH_ALLREPLY = (0x2000 :: 32 word)"
definition "FH_DANGEROUS = (0x8000 :: 32 word)"

definition fh2fname :: "fileheader \<Rightarrow> cstr" where
  "fh2fname fh =
     (let s = lit ''M.'' @ dec (filetime fh) @ lit ''.A''
      in if accessed fh AND FH_ISDIGEST \<noteq> 0 then s[0 := 71] else s)"

definition fh2owner :: "fileheader \<Rightarrow> cstr" where
  "fh2owner fh = (if owner fh ! 0 = 0 then lit ''Anonymous'' else zstr (owner fh))"

definition fh2realauthor :: "fileheader \<Rightarrow> cstr" where
  "fh2realauthor fh = (if owner fh ! 0 = 0 then zstr (tl (owner fh)) else zstr (owner fh))"

definition fh2modifytime :: "fileheader \<Rightarrow> int" where
  "fh2modifytime fh = (if edittime fh \<noteq> 0 then edittime fh else filetime fh)"

text \<open>
  The end of \<open>fh_setowner\<close> for an address: from offset \<open>i\<close> the first of \<open>@\<close>, \<open>.\<close> and space becomes a
  period and ends the string; without one the last character becomes a period.
\<close>

function owner_loop :: "byte list \<Rightarrow> nat \<Rightarrow> byte list" where
  "owner_loop raw i =
     (if i < length raw \<and> raw ! i \<noteq> 0
      then if raw ! i = 64 \<or> raw ! i = 46 \<or> raw ! i = 32
           then raw[i := 46, Suc i := 0]
           else owner_loop raw (Suc i)
      else raw[i - 1 := 46])"
  by pat_completeness auto
termination
  by (relation "measure (\<lambda>(raw, i). length raw - i)") auto

declare owner_loop.simps [simp del]

definition fh_setowner :: "fileheader \<Rightarrow> cstr \<Rightarrow> bool \<Rightarrow> fileheader" where
  "fh_setowner fh who anony =
     (if anony then fh\<lparr>owner := 0 # pad0 13 (strsncpy who 13)\<rparr>
      else if who = [] then fh\<lparr>owner := replicate 14 0\<rparr>
      else let raw = pad0 14 (strsncpy who 13) in
           if 64 \<notin> set who \<and> 46 \<notin> set who
           then fh\<lparr>owner := (case strchr (zstr raw) 32 of None \<Rightarrow> raw | Some i \<Rightarrow> raw[i := 0])\<rparr>
           else fh\<lparr>owner := owner_loop raw 1\<rparr>)"

section \<open>Changing one record\<close>

text \<open>The callbacks of \<open>change_dir\<close>: the record in the file, the caller's record, the result.\<close>

definition switch_flag :: "32 word \<Rightarrow> 32 word \<Rightarrow> 32 word" where
  "switch_flag x y = (if x AND y \<noteq> 0 then x AND NOT y else x OR y)"

type_synonym dir_op = "fileheader \<Rightarrow> fileheader \<Rightarrow> fileheader"

definition DIR_do_mark :: dir_op where
  "DIR_do_mark f n = f\<lparr>accessed := switch_flag (accessed f) FH_MARKED\<rparr>"

definition DIR_do_replied :: dir_op where
  "DIR_do_replied f n = f\<lparr>accessed := switch_flag (accessed f) FH_REPLIED\<rparr>"

definition DIR_do_digest :: dir_op where
  "DIR_do_digest f n = f\<lparr>accessed := switch_flag (accessed f) FH_DIGEST\<rparr>"

definition DIR_do_underline :: dir_op where
  "DIR_do_underline f n = f\<lparr>accessed := switch_flag (accessed f) FH_NOREPLY\<rparr>"

definition DIR_do_allcanre :: dir_op where
  "DIR_do_allcanre f n = f\<lparr>accessed := switch_flag (accessed f) FH_ALLREPLY\<rparr>"

definition DIR_do_attach :: dir_op where
  "DIR_do_attach f n = f\<lparr>accessed := accessed f OR FH_ATTACHED\<rparr>"

definition DIR_clear_dangerous :: dir_op where
  "DIR_clear_dangerous f n = f\<lparr>accessed := accessed f AND NOT FH_DANGEROUS\<rparr>"

definition DIR_do_dangerous :: dir_op where
  "DIR_do_dangerous f n = f\<lparr>accessed := accessed f OR FH_DANGEROUS\<rparr>"

definition DIR_do_markdel :: dir_op where
  "DIR_do_markdel f n = f\<lparr>accessed := switch_flag (accessed f) FH_DEL\<rparr>"

definition DIR_do_edit :: dir_op where
  "DIR_do_edit f n = f\<lparr>sizebyte := sizebyte n, edittime := edittime n\<rparr>"

text \<open>\<open>strncpy\<close> of 60 bytes fills the array with zeros behind the string.\<close>

definition DIR_do_changetitle :: dir_op where
  "DIR_do_changetitle f n = f\<lparr>title := (pad0 60 (take 60 (zstr (title n))))[59 := 0]\<rparr>"

definition DIR_do_evaluate :: dir_op where
  "DIR_do_evaluate f n = f\<lparr>staravg50 := staravg50 n, hasvoted := hasvoted n\<rparr>"

definition DIR_do_spec :: dir_op where
  "DIR_do_spec f n = f\<lparr>accessed := switch_flag (accessed f) FH_SPEC\<rparr>"

definition DIR_do_import :: dir_op where
  "DIR_do_import f n =
     (if accessed n AND FH_ANNOUNCE \<noteq> 0 then f\<lparr>accessed := accessed f OR FH_ANNOUNCE\<rparr> else f)"

definition DIR_do_suremarkdel :: dir_op where
  "DIR_do_suremarkdel f n = f\<lparr>accessed := accessed f OR FH_DEL\<rparr>"

definition DIR_do_sureunmarkdel :: dir_op where
  "DIR_do_sureunmarkdel f n = f\<lparr>accessed := accessed f AND NOT FH_DEL\<rparr>"

definition DIR_do_substitution :: dir_op where
  "DIR_do_substitution f n = n"

section \<open>Deleted articles\<close>

text \<open>
  The record \<open>cancelpost\<close> appends, and whether it goes to \<open>.JUNK\<close> (the owner's own deletions) or to
  \<open>.DELETED\<close>; \<open>now\<close> is the time.
\<close>

definition cancel_record :: "fileheader \<Rightarrow> cstr \<Rightarrow> int \<Rightarrow> fileheader" where
  "cancel_record fh who now =
     (let t = take 32 (zstr (title fh));
          buf = t @ replicate (32 - length t) 32 @ lit '' - '' @ who;
          new = strsncpy buf 60
      in fh\<lparr>accessed := accessed fh AND NOT (FH_MARKED OR FH_SPEC OR FH_DIGEST),
            deltime := cmod (cdiv now (3600 * 24)) 100,
            title := new @ drop (length new) ((title fh)[length new := 0])\<rparr>)"

definition cancel_box :: "cstr \<Rightarrow> cstr \<Rightarrow> bool \<Rightarrow> cstr" where
  "cancel_box home board owned =
     home @ lit ''/boards/'' @ board @ (if owned then lit ''/.JUNK'' else lit ''/.DELETED'')"

text \<open>
  The scan of the article for the sender's address, the text in the last pair of brackets of the
  \<open>From\<close> line (\<open>hdr\<close> is the eight bytes that start it).
\<close>

fun cancel_from :: "cstr \<Rightarrow> cstr list \<Rightarrow> cstr" where
  "cancel_from hdr [] = []"
| "cancel_from hdr (l # ls) =
     (let b = butlast l in
      if length b \<le> 8 then []
      else if take 8 b \<noteq> hdr then cancel_from hdr ls
      else (case strrchr b 41 of
              None \<Rightarrow> cancel_from hdr ls
            | Some i \<Rightarrow>
                (case strrchr (take i b) 40 of
                   None \<Rightarrow> cancel_from hdr ls
                 | Some j \<Rightarrow> drop (j + 1) (take i b))))"

text \<open>The line written to \<open>cancel.bntp\<close>, when one is written.\<close>

definition cancel_line ::
  "cstr \<Rightarrow> cstr \<Rightarrow> fileheader \<Rightarrow> int \<Rightarrow> byte list option \<Rightarrow> cstr option" where
  "cancel_line hdr board fh now article =
     (if strrchr (zstr (owner fh)) 46 \<noteq> None then None
      else if accessed fh AND FH_INND \<noteq> 0 \<and> filetime fh > now - 14 * 86400
      then let from = (case article of None \<Rightarrow> [] | Some m \<Rightarrow> cancel_from hdr (file_lines 256 m))
           in Some (board @ [9] @ fh2fname fh @ [9] @ zstr (owner fh) @ [9] @ from @ [9]
                    @ zstr (title fh) @ [10])
      else None)"

section \<open>Titles and threads\<close>

definition bare_title :: "byte list \<Rightarrow> byte list" where
  "bare_title t = (if strncaseeq 3 (zstr t) (lit ''Re:'') then drop 4 t else t)"

definition cmp_title :: "cstr \<Rightarrow> fileheader \<Rightarrow> bool" where
  "cmp_title t fh \<longleftrightarrow> strneq 45 (zstr (bare_title (title fh))) t"

text \<open>The search in the last 100 records, from the end of the file; \<open>None\<close> when nothing is found.\<close>

fun thread_scan :: "cstr \<Rightarrow> fileheader list \<Rightarrow> nat \<Rightarrow> int option" where
  "thread_scan t [] k = None"
| "thread_scan t (f # fs) 0 = None"
| "thread_scan t (f # fs) (Suc k) =
     (if cmp_title t f \<and> thread f \<noteq> 0 then Some (thread f) else thread_scan t fs k)"

definition fh_find_thread :: "fileheader list option \<Rightarrow> fileheader \<Rightarrow> fileheader \<times> int" where
  "fh_find_thread dir fh =
     (if thread fh \<noteq> 0 then (fh, 0)
      else let fh1 = fh\<lparr>thread := filetime fh\<rparr> in
           case dir of
             None \<Rightarrow> (fh1, - 1)
           | Some fs \<Rightarrow>
               (case thread_scan (zstr (bare_title (title fh))) (rev fs) 100 of
                  None \<Rightarrow> (fh1, 0)
                | Some t \<Rightarrow> (fh1\<lparr>thread := t\<rparr>, 0)))"

section \<open>Searching an index file\<close>

function search_bin :: "fileheader list \<Rightarrow> int \<Rightarrow> int \<Rightarrow> int \<Rightarrow> int option" where
  "search_bin fs key low high =
     (if low \<le> high
      then let mid = cdiv (low + high) 2 in
           if mid < 0 \<or> int (length fs) \<le> mid then None
           else let x = filetime (fs ! nat mid) in
                if key = x then Some mid
                else if key < x then search_bin fs key low (mid - 1)
                else search_bin fs key (mid + 1) high
      else Some (- (low + 1)))"
  by pat_completeness auto

lemma cdiv_mid: "l \<le> h \<Longrightarrow> l \<le> cdiv (l + h) 2 \<and> cdiv (l + h) 2 \<le> h"
proof -
  assume "l \<le> h"
  consider "0 \<le> l + h" | "l + h < 0" by linarith
  then show ?thesis
  proof cases
    case 1
    then have "cdiv (l + h) 2 = (l + h) div 2" by (simp add: cdiv_nonneg)
    then show ?thesis using \<open>l \<le> h\<close> by linarith
  next
    case 2
    then have "cdiv (l + h) 2 = - ((- l - h) div 2)" by (simp add: cdiv_def)
    then show ?thesis using \<open>l \<le> h\<close> by linarith
  qed
qed

termination search_bin
proof (relation "measure (\<lambda>(fs, key, low, high). nat (high - low + 1))")
  fix fs :: "fileheader list" and key low high mid x :: int
  assume a: "low \<le> high" "mid = cdiv (low + high) 2"
  then have "low \<le> mid" "mid \<le> high" using cdiv_mid [of low high] by auto
  then show "((fs, key, low, mid - 1), fs, key, low, high)
      \<in> measure (\<lambda>(fs, key, low, high). nat (high - low + 1))"
    "((fs, key, mid + 1, high), fs, key, low, high)
      \<in> measure (\<lambda>(fs, key, low, high). nat (high - low + 1))"
    using a(1) by auto
qed simp

declare search_bin.simps [simp del]

text \<open>Sorted by time, up to and with position \<open>e\<close>.\<close>

definition sorted_dir :: "fileheader list \<Rightarrow> bool" where
  "sorted_dir fs \<longleftrightarrow> sorted (map filetime fs)"

lemma search_bin_correct:
  assumes "sorted_dir fs" "0 \<le> low" "low \<le> high + 1" "high \<le> e" "e < int (length fs)"
    "\<forall>i < nat low. filetime (fs ! i) < key"
    "\<forall>i. high < int i \<and> int i \<le> e \<longrightarrow> key < filetime (fs ! i)"
  shows "\<exists>r. search_bin fs key low high = Some r \<and>
     (if 0 \<le> r then r \<le> e \<and> filetime (fs ! nat r) = key
      else (\<forall>i. int i \<le> e \<longrightarrow> filetime (fs ! i) \<noteq> key) \<and>
           0 \<le> - (r + 1) \<and> - (r + 1) \<le> e + 1 \<and>
           (\<forall>i. int i \<le> e \<longrightarrow> (filetime (fs ! i) < key \<longleftrightarrow> int i < - (r + 1))))"
  using assms
proof (induction fs key low high rule: search_bin.induct)
  case (1 fs key low high)
  show ?case
  proof (cases "low \<le> high")
    case False
    have "filetime (fs ! i) < key \<longleftrightarrow> int i < low" "filetime (fs ! i) \<noteq> key" if "int i \<le> e" for i
    proof -
      have "int i < low \<Longrightarrow> filetime (fs ! i) < key" using "1.prems"(6) by (simp add: nat_less_iff)
      moreover have "\<not> int i < low \<Longrightarrow> key < filetime (fs ! i)" using "1.prems"(7) that False by simp
      ultimately show "filetime (fs ! i) < key \<longleftrightarrow> int i < low" "filetime (fs ! i) \<noteq> key"
        by (cases "int i < low"; simp)+
    qed
    then show ?thesis using False "1.prems" by (subst search_bin.simps) auto
  next
    case True
    let ?mid = "cdiv (low + high) 2"
    have mid: "low \<le> ?mid" "?mid \<le> high" using cdiv_mid [OF True] by auto
    then have rng: "\<not> (?mid < 0 \<or> int (length fs) \<le> ?mid)" using "1.prems" by linarith
    have mono: "filetime (fs ! i) \<le> filetime (fs ! j)" if "i \<le> j" "j < length fs" for i j
      using "1.prems"(1) that by (simp add: sorted_dir_def sorted_iff_nth_mono)
    consider "key = filetime (fs ! nat ?mid)" | "key < filetime (fs ! nat ?mid)"
      | "filetime (fs ! nat ?mid) < key" by linarith
    then show ?thesis
    proof cases
      case a: 1
      have "search_bin fs key low high = Some ?mid"
        using a True rng by (subst search_bin.simps) (simp add: Let_def)
      then show ?thesis using mid "1.prems" a by (intro exI [of _ ?mid]) auto
    next
      case a: 2
      have "search_bin fs key low high = search_bin fs key low (?mid - 1)"
        using a True rng by (subst search_bin.simps) (simp add: Let_def)
      moreover have "key < filetime (fs ! i)" if "?mid - 1 < int i" "int i \<le> e" for i
        using mono [of "nat ?mid" i] a that rng "1.prems" by force
      ultimately show ?thesis
        using "1.IH"(1) [OF True refl rng refl] a mid "1.prems" by auto
    next
      case a: 3
      have "search_bin fs key low high = search_bin fs key (?mid + 1) high"
        using a True rng by (subst search_bin.simps) (simp add: Let_def)
      moreover have "filetime (fs ! i) < key" if "i < nat (?mid + 1)" for i
        using mono [of i "nat ?mid"] a that rng by force
      ultimately show ?thesis
        using "1.IH"(2) [OF True refl rng refl] a mid "1.prems" by auto
    qed
  qed
qed

section \<open>Reading around an article\<close>

definition NA_INDEX :: int where
  "NA_INDEX = - 1"

fun back_search :: "fileheader list \<Rightarrow> int \<Rightarrow> nat \<Rightarrow> int" where
  "back_search fs ft 0 = - 1"
| "back_search fs ft (Suc i) = (if filetime (fs ! i) = ft then int i else back_search fs ft i)"

fun fwd_search :: "fileheader list \<Rightarrow> int \<Rightarrow> nat \<Rightarrow> int" where
  "fwd_search [] ft i = - 1"
| "fwd_search (f # fs) ft i = (if filetime f = ft then int i else fwd_search fs ft (Suc i))"

text \<open>The position \<open>ent\<close> that \<open>_get_fileheader_records\<close> settles on, or \<open>- 1\<close> for its error return.\<close>

definition find_ent :: "fileheader list \<Rightarrow> int \<Rightarrow> int \<Rightarrow> bool \<Rightarrow> int option" where
  "find_ent fs ft hint srt =
     (let total = int (length fs); inr = (0 \<le> hint \<and> hint < total) in
      if inr \<and> (ft = 0 \<or> filetime (fs ! nat hint) = ft) then Some hint
      else if \<not> inr \<and> ft = 0 then Some (- 1)
      else let h = (if inr then hint else total - 1) in
           case (if srt then search_bin fs ft 0 h
                 else let b = back_search fs ft (nat (h + 1)) in
                      Some (if b \<noteq> - 1 then b else fwd_search (drop (nat h) fs) ft (nat h))) of
             None \<Rightarrow> None
           | Some e \<Rightarrow> Some (if e < 0 \<or> e \<ge> total then - 1 else e))"

text \<open>
  The fill loops, for a callback that answers 1 (take the record), 0 (pass it over) or \<open>- 1\<close> (take
  no more in this direction); without a callback every record is taken.
\<close>

type_synonym dir_filter = "fileheader \<Rightarrow> fileheader \<Rightarrow> int \<Rightarrow> int"

fun scan_back :: "(fileheader \<Rightarrow> nat \<Rightarrow> int) \<Rightarrow> fileheader list \<Rightarrow> nat \<Rightarrow> int" where
  "scan_back f fs 0 = NA_INDEX"
| "scan_back f fs (Suc j) =
     (let r = f (fs ! j) j in
      if r = - 1 then NA_INDEX else if r = 1 then int j else scan_back f fs j)"

fun fill_back :: "(fileheader \<Rightarrow> nat \<Rightarrow> int) \<Rightarrow> fileheader list \<Rightarrow> nat \<Rightarrow> nat \<Rightarrow> int list" where
  "fill_back f fs 0 j = []"
| "fill_back f fs (Suc k) j = (let i = scan_back f fs j in i # fill_back f fs k (nat i))"

fun scan_fwd :: "(fileheader \<Rightarrow> nat \<Rightarrow> int) \<Rightarrow> fileheader list \<Rightarrow> nat \<Rightarrow> int" where
  "scan_fwd f [] j = NA_INDEX"
| "scan_fwd f (x # xs) j =
     (let r = f x j in
      if r = - 1 then NA_INDEX else if r = 1 then int j else scan_fwd f xs (Suc j))"

fun fill_fwd :: "(fileheader \<Rightarrow> nat \<Rightarrow> int) \<Rightarrow> fileheader list \<Rightarrow> nat \<Rightarrow> nat \<Rightarrow> int list" where
  "fill_fwd f fs 0 j = []"
| "fill_fwd f fs (Suc k) j =
     (let i = scan_fwd f (drop j fs) j
      in i # fill_fwd f fs k (if i < 0 then length fs else Suc (nat i)))"

definition zero_fileheader :: fileheader where
  "zero_fileheader = \<lparr>filetime = 0, edittime = 0, thread = 0, accessed = 0, title = replicate 60 0,
     owner = replicate 14 0, viewtime = 0, sizebyte = 0, staravg50 = 0, oldhasvoted = 0,
     deltime = 0, hasvoted = 0\<rparr>"

definition pick :: "fileheader list \<Rightarrow> int \<Rightarrow> fileheader" where
  "pick fs i = (if i < 0 then zero_fileheader else fs ! nat i)"

text \<open>
  \<open>_get_fileheader_records\<close>: the records and their positions; the inner \<open>None\<close> is the result \<open>- 1\<close>.
\<close>

definition get_records ::
  "fileheader list option \<Rightarrow> int \<Rightarrow> int \<Rightarrow> bool \<Rightarrow> nat \<Rightarrow> nat \<Rightarrow> dir_filter option \<Rightarrow>
     (fileheader \<times> int) list option option" where
  "get_records dir ft hint srt centered count cb =
     (if count = 0 \<or> 2 < centered then Some None
      else let base = (if centered = 1 then 0 else if centered = 2 then count - 1 else count div 2) in
        case dir of
          None \<Rightarrow> Some None
        | Some fs \<Rightarrow>
            (case find_ent fs ft hint srt of
               None \<Rightarrow> None
             | Some ent \<Rightarrow>
                 if ent < 0 then Some None
                 else let f = (case cb of
                                 None \<Rightarrow> (\<lambda>x j. 1)
                               | Some g \<Rightarrow> (\<lambda>x j. g (fs ! nat ent) x (int j - ent)));
                          idx = rev (fill_back f fs base (nat ent)) @ [ent]
                                @ fill_fwd f fs (count - base - 1) (Suc (nat ent))
                      in Some (Some (map (\<lambda>i. (pick fs i, i)) idx))))"

definition same_thread_inrange :: "int \<Rightarrow> dir_filter" where
  "same_thread_inrange rng a b offset =
     (if offset > rng \<or> offset < - rng then - 1 else if thread a = thread b then 1 else 0)"

section \<open>Changing, deleting and appending\<close>

record dir_io =
  flock_ok :: bool
  lseek_ok :: bool
  dwrite_ok :: bool

text \<open>
  \<open>change_dir\<close>: the file, the caller's record and the result.  Without \<open>mode\<close> the callback gets an
  uninitialised second record (\<open>junk\<close>).
\<close>

definition change_dir ::
  "dir_io \<Rightarrow> fileheader \<Rightarrow> fileheader list option \<Rightarrow> fileheader
    \<Rightarrow> (fileheader \<Rightarrow> fileheader \<Rightarrow> int \<times> fileheader) \<Rightarrow> int \<Rightarrow> bool \<Rightarrow> bool
    \<Rightarrow> (fileheader list option \<times> fileheader \<times> int) option" where
  "change_dir io junk dir info f ent digestmode mode =
     (if digestmode then Some (dir, info, - 1)
      else case dir of
             None \<Rightarrow> Some (dir, info, - 2)
           | Some fs \<Rightarrow>
               if \<not> flock_ok io then Some (dir, info, - 4)
               else (case get_records dir (filetime info) (ent - 1) True 0 1 None of
                       None \<Rightarrow> None
                     | Some None \<Rightarrow> Some (dir, info, - 3)
                     | Some (Some rs) \<Rightarrow>
                         (let (xfh, newent) = rs ! 0;
                              (ret, xfh') = f xfh (if mode then info else junk)
                          in if ret < 0 then Some (dir, info, - 1)
                             else if \<not> lseek_ok io then Some (dir, info, - 5)
                             else if \<not> dwrite_ok io then Some (dir, info, - 6)
                             else Some (Some (fs[nat newent := xfh']), xfh', 0))))"

definition dir_callback :: "dir_op \<Rightarrow> fileheader \<Rightarrow> fileheader \<Rightarrow> int \<times> fileheader" where
  "dir_callback f x n = (0, f x n)"

fun lin_back :: "fileheader list \<Rightarrow> int \<Rightarrow> nat \<Rightarrow> nat option" where
  "lin_back fs ft 0 = Some 0"
| "lin_back fs ft (Suc i) =
     (if length fs \<le> i then None
      else if filetime (fs ! i) = ft then Some (Suc i) else lin_back fs ft i)"

text \<open>
  \<open>delete_dir_callback\<close>: the position is 1-based, 0 when the article is not found.  The file is cut by
  one record whenever the result is 0, also when the callback refused.
\<close>

definition delete_pos :: "fileheader list \<Rightarrow> int \<Rightarrow> int \<Rightarrow> nat option" where
  "delete_pos fs ent ft =
     (let p0 = (if int (length fs) > ent then ent else int (length fs)) in
      if p0 \<le> 0 then None
      else if filetime (fs ! nat (p0 - 1)) = ft then Some (nat p0)
      else case search_bin fs ft 0 (p0 - 1) of
             None \<Rightarrow> None
           | Some r \<Rightarrow> if r + 1 \<le> 0 then lin_back fs ft (nat ent) else Some (nat (r + 1)))"

definition delete_dir_callback ::
  "fileheader list option \<Rightarrow> int \<Rightarrow> int \<Rightarrow> (fileheader \<Rightarrow> int \<times> fileheader) option
    \<Rightarrow> (fileheader list option \<times> int) option" where
  "delete_dir_callback dir ent ft cb =
     (case dir of
        None \<Rightarrow> Some (None, - 1)
      | Some fs \<Rightarrow>
          (case delete_pos fs ent ft of
             None \<Rightarrow> None
           | Some pos \<Rightarrow>
               if pos = 0 then Some (dir, - 2)
               else (case cb of
                       None \<Rightarrow> Some (Some (take (pos - 1) fs @ drop pos fs), 0)
                     | Some f \<Rightarrow>
                         (let (ret, x) = f (fs ! (pos - 1)); fs' = fs[pos - 1 := x]
                          in Some (Some (if ret \<ge> 0 then take (pos - 1) fs' @ drop pos fs'
                                         else butlast fs'), 0)))))"

text \<open>
  \<open>trycreatefile\<close> (\<open>ythtlib/fileop.c\<close>): the first of \<open>maxtry\<close> numbers whose file does not exist yet;
  the path and number.  \<open>existing\<close> are the paths that exist.
\<close>

fun trycreate_loop :: "cstr set \<Rightarrow> cstr \<Rightarrow> (int \<Rightarrow> cstr) \<Rightarrow> int \<Rightarrow> nat \<Rightarrow> (cstr \<times> int) option" where
  "trycreate_loop existing path fmt n 0 = None"
| "trycreate_loop existing path fmt n (Suc k) =
     (let p = path @ fmt n in
      if p \<notin> existing then Some (p, n) else trycreate_loop existing path fmt (n + 1) k)"

definition trycreatefile :: "cstr set \<Rightarrow> cstr \<Rightarrow> (int \<Rightarrow> cstr) \<Rightarrow> int \<Rightarrow> nat \<Rightarrow> (cstr \<times> int) option" where
  "trycreatefile existing path fmt start maxtry =
     (if start < 0 then None
      else let p = (case strrchr path 47 of
                      None \<Rightarrow> path @ [47]
                    | Some i \<Rightarrow> if i + 1 < length path then path @ [47] else path)
           in trycreate_loop existing p fmt start maxtry)"

text \<open>\<open>append_dir_callback\<close>: the file, the existing paths, the record and the result.\<close>

definition append_dir_callback ::
  "bool \<Rightarrow> cstr set \<Rightarrow> fileheader list option \<Rightarrow> cstr \<Rightarrow> fileheader \<Rightarrow> int
    \<Rightarrow> (fileheader \<Rightarrow> int \<times> fileheader) option \<Rightarrow> int
    \<Rightarrow> fileheader list option \<times> cstr set \<times> fileheader \<times> int" where
  "append_dir_callback openok existing dir filename rec th cb now =
     (if 256 \<le> length filename then (dir, existing, rec, - 1)
      else case strrchr filename 47 of
        None \<Rightarrow> (dir, existing, rec, - 1)
      | Some i \<Rightarrow>
          if \<not> openok then (dir, existing, rec, - 1)
          else let fs = (case dir of None \<Rightarrow> [] | Some fs \<Rightarrow> fs) in
            case trycreatefile existing (take i filename) (\<lambda>n. lit ''M.'' @ dec n @ lit ''.A'') now 100 of
              None \<Rightarrow> (Some fs, existing, rec, - 1)
            | Some (p, t) \<Rightarrow>
                (let rec1 = rec\<lparr>filetime := t, thread := (if th = 0 then t else th)\<rparr>;
                     (ret, rec2) = (case cb of None \<Rightarrow> (0, rec1) | Some f \<Rightarrow> f rec1)
                 in if ret < 0 then (Some fs, existing, rec2, - 1)
                    else (Some (fs @ [rec2]), insert p existing, rec2, t)))"

section \<open>Facts about the window\<close>

abbreviation take_all_f :: "fileheader \<Rightarrow> nat \<Rightarrow> int" where
  "take_all_f \<equiv> \<lambda>x j. 1"

lemma fill_back_all:
  "fill_back take_all_f fs k j = map (\<lambda>m. if m < j then int j - 1 - int m else NA_INDEX) [0..<k]"
proof (induction k arbitrary: j)
  case (Suc k)
  have up: "[0..<Suc k] = 0 # map Suc [0..<k]" by (simp add: upt_conv_Cons map_Suc_upt del: upt_Suc)
  show ?case
  proof (cases j)
    case 0
    then show ?thesis unfolding up using Suc [of 0] by (simp add: NA_INDEX_def Let_def comp_def)
  next
    case (Suc j')
    then show ?thesis unfolding up using Suc.IH [of j'] by (auto simp: NA_INDEX_def Let_def)
  qed
qed simp

lemma scan_fwd_all: "scan_fwd take_all_f (drop j fs) j = (if j < length fs then int j else NA_INDEX)"
  by (cases "drop j fs") auto

lemma fill_fwd_all:
  "fill_fwd take_all_f fs k j = map (\<lambda>m. if j + m < length fs then int (j + m) else NA_INDEX) [0..<k]"
proof (induction k arbitrary: j)
  case (Suc k)
  have up: "[0..<Suc k] = 0 # map Suc [0..<k]" by (simp add: upt_conv_Cons map_Suc_upt del: upt_Suc)
  show ?case
    unfolding up using Suc [of "Suc j"] Suc [of "length fs"]
    by (simp add: scan_fwd_all NA_INDEX_def Let_def)
qed simp

definition window_index :: "nat \<Rightarrow> nat \<Rightarrow> nat \<Rightarrow> nat \<Rightarrow> int" where
  "window_index n base ent i =
     (let p = int ent + int i - int base in if 0 \<le> p \<and> p < int n then p else NA_INDEX)"

lemma window_all:
  assumes "base < count" "ent < length fs"
  shows "rev (fill_back take_all_f fs base ent) @ [int ent] @ fill_fwd take_all_f fs (count - base - 1) (Suc ent)
     = map (window_index (length fs) base ent) [0..<count]"
proof (rule nth_equalityI)
  let ?l = "rev (fill_back take_all_f fs base ent) @ [int ent]
      @ fill_fwd take_all_f fs (count - base - 1) (Suc ent)"
  show "length ?l = length (map (window_index (length fs) base ent) [0..<count])"
    using assms by (simp add: fill_back_all fill_fwd_all)
  fix i assume i: "i < length ?l"
  then have i': "i < count" using assms by (simp add: fill_back_all fill_fwd_all)
  consider "i < base" | "i = base" | "base < i" by linarith
  then show "?l ! i = map (window_index (length fs) base ent) [0..<count] ! i"
  proof cases
    case 1
    then show ?thesis
      using i' assms by (auto simp: fill_back_all nth_append rev_nth window_index_def NA_INDEX_def Let_def)
  next
    case 2
    then show ?thesis
      using i' assms by (simp add: fill_back_all nth_append window_index_def)
  next
    case 3
    then have "i - base = Suc (i - base - 1)" by simp
    with 3 show ?thesis
      using i' assms by (auto simp: fill_back_all fill_fwd_all nth_append nth_Cons' window_index_def NA_INDEX_def Let_def)
  qed
qed

text \<open>Finding an article in a sorted file, from any hint that is not in front of it.\<close>

definition distinct_dir :: "fileheader list \<Rightarrow> bool" where
  "distinct_dir fs \<longleftrightarrow> sorted_wrt (<) (map filetime fs)"

lemma distinct_sorted: "distinct_dir fs \<Longrightarrow> sorted_dir fs"
  by (simp add: distinct_dir_def sorted_dir_def strict_sorted_iff)

lemma distinct_nth: "distinct_dir fs \<Longrightarrow> i < length fs \<Longrightarrow> j < length fs \<Longrightarrow>
    filetime (fs ! i) = filetime (fs ! j) \<Longrightarrow> i = j"
  unfolding distinct_dir_def sorted_wrt_iff_nth_less
  by (metis length_map less_irrefl linorder_neqE_nat nth_map)

lemma search_bin_found:
  assumes "distinct_dir fs" "i < length fs" "int i \<le> h" "h < int (length fs)"
  shows "search_bin fs (filetime (fs ! i)) 0 h = Some (int i)"
proof -
  obtain r where r: "search_bin fs (filetime (fs ! i)) 0 h = Some r"
    "if 0 \<le> r then r \<le> h \<and> filetime (fs ! nat r) = filetime (fs ! i)
      else (\<forall>k. int k \<le> h \<longrightarrow> filetime (fs ! k) \<noteq> filetime (fs ! i)) \<and>
           0 \<le> - (r + 1) \<and> - (r + 1) \<le> h + 1 \<and>
           (\<forall>k. int k \<le> h \<longrightarrow> (filetime (fs ! k) < filetime (fs ! i) \<longleftrightarrow> int k < - (r + 1)))"
    using search_bin_correct [OF distinct_sorted [OF assms(1)], of 0 h h "filetime (fs ! i)"] assms
    by auto
  have "0 \<le> r" using r(2) assms(3) by (auto split: if_splits)
  moreover from this have "nat r = i" using r(2) assms by (intro distinct_nth [OF assms(1)]) auto
  ultimately show ?thesis using r(1) by auto
qed

lemma search_bin_absent:
  assumes "sorted_dir fs" "0 \<le> h + 1" "h < int (length fs)" "\<forall>k. int k \<le> h \<longrightarrow> filetime (fs ! k) \<noteq> key"
  shows "\<exists>r. search_bin fs key 0 h = Some r \<and> r < 0"
proof -
  obtain r where r: "search_bin fs key 0 h = Some r"
    "if 0 \<le> r then r \<le> h \<and> filetime (fs ! nat r) = key else True"
    using search_bin_correct [OF assms(1), of 0 h h key] assms(2,3) by auto
  show ?thesis
  proof (cases "0 \<le> r")
    case True
    then have "int (nat r) \<le> h" "filetime (fs ! nat r) = key" using r(2) by auto
    with assms(4) show ?thesis by blast
  qed (use r(1) in auto)
qed

lemma find_ent_sorted:
  assumes "distinct_dir fs" "i < length fs" "filetime (fs ! i) \<noteq> 0"
    "int i \<le> hint \<or> hint < 0"
  shows "find_ent fs (filetime (fs ! i)) hint True = Some (int i)"
proof -
  have len: "int i < int (length fs)" using assms(2) by simp
  consider "0 \<le> hint" "hint < int (length fs)" | "hint < 0 \<or> int (length fs) \<le> hint" by linarith
  then show ?thesis
  proof cases
    case 1
    then have le: "int i \<le> hint" using assms(4) by simp
    show ?thesis
    proof (cases "filetime (fs ! nat hint) = filetime (fs ! i)")
      case True
      then have "nat hint = i" using 1 assms(2) by (intro distinct_nth [OF assms(1)]) auto
      then show ?thesis using 1 assms(3) by (auto simp: find_ent_def Let_def)
    next
      case False
      then show ?thesis
        using 1 assms(3) search_bin_found [OF assms(1,2) le] len by (simp add: find_ent_def Let_def)
    qed
  next
    case 2
    have "int i \<le> int (length fs) - 1" using len by simp
    from search_bin_found [OF assms(1,2) this] show ?thesis
      using 2 assms(3) len by (auto simp: find_ent_def Let_def)
  qed
qed

lemma find_ent_absent:
  assumes "sorted_dir fs" "\<forall>f \<in> set fs. filetime f \<noteq> ft" "ft \<noteq> 0"
  shows "find_ent fs ft hint True = Some (- 1)"
proof -
  have no: "filetime (fs ! k) \<noteq> ft" if "k < length fs" for k using assms(2) that by auto
  have s: "\<exists>r. search_bin fs ft 0 h = Some r \<and> r < 0" if "0 \<le> h + 1" "h < int (length fs)" for h
    using search_bin_absent [OF assms(1) that, of ft] no that by auto
  show ?thesis
  proof (cases "0 \<le> hint \<and> hint < int (length fs)")
    case True
    then have "nat hint < length fs" by linarith
    then show ?thesis using True s [of hint] no [of "nat hint"] assms(3)
      by (auto simp: find_ent_def Let_def)
  next
    case False
    then show ?thesis using s [of "int (length fs) - 1"] assms(3) by (auto simp: find_ent_def Let_def)
  qed
qed

lemma get_one_record:
  assumes "distinct_dir fs" "i < length fs" "filetime (fs ! i) \<noteq> 0" "int i \<le> hint \<or> hint < 0"
  shows "get_records (Some fs) (filetime (fs ! i)) hint True 0 1 None = Some (Some [(fs ! i, int i)])"
  using find_ent_sorted [OF assms] by (simp add: get_records_def pick_def)

lemma get_no_record:
  assumes "sorted_dir fs" "\<forall>f \<in> set fs. filetime f \<noteq> ft" "ft \<noteq> 0" "0 < count" "c \<le> 2"
  shows "get_records (Some fs) ft hint True c count cb = Some None"
  using find_ent_absent [OF assms(1-3)] assms(4,5) by (simp add: get_records_def Let_def)

section \<open>Deleting by position\<close>

lemma distinct_take: "distinct_dir fs \<Longrightarrow> distinct_dir (take n fs)"
  by (simp add: distinct_dir_def take_map [symmetric] sorted_wrt_take)

lemma lin_back_absent:
  "n \<le> length fs \<Longrightarrow> \<forall>k < n. filetime (fs ! k) \<noteq> ft \<Longrightarrow> lin_back fs ft n = Some 0"
  by (induction n) auto

lemma delete_position:
  assumes "distinct_dir fs" "i < length fs" "Suc i \<le> ent"
  shows "delete_pos fs (int ent) (filetime (fs ! i)) = Some (Suc i)"
proof -
  define p0 where "p0 = (if int (length fs) > int ent then int ent else int (length fs))"
  have p: "0 < p0" "int i \<le> p0 - 1" "p0 - 1 < int (length fs)" "nat (p0 - 1) < length fs"
    using assms(2,3) by (auto simp: p0_def)
  have s: "search_bin fs (filetime (fs ! i)) 0 (p0 - 1) = Some (int i)"
    using search_bin_found [OF assms(1,2)] p by simp
  have "nat p0 = Suc i" if "filetime (fs ! nat (p0 - 1)) = filetime (fs ! i)"
  proof -
    have "nat (p0 - 1) = i" by (rule distinct_nth [OF assms(1) p(4) assms(2) that])
    then show ?thesis using p(1) by linarith
  qed
  moreover have "nat (int i + 1) = Suc i" by simp
  ultimately show ?thesis
    unfolding delete_pos_def Let_def p0_def [symmetric] using p(1) s by (simp add: nat_add_distrib)
qed

lemma delete_pos_absent:
  assumes "distinct_dir fs" "0 < ent" "ent \<le> length fs" "\<forall>k < length fs. filetime (fs ! k) \<noteq> ft"
  shows "delete_pos fs (int ent) ft = Some 0"
proof -
  obtain r where "search_bin fs ft 0 (int ent - 1) = Some r" "r < 0"
    using search_bin_absent [OF distinct_sorted [OF assms(1)], of "int ent - 1" ft] assms(2-4) by auto
  moreover have "lin_back fs ft ent = Some 0" using assms(3,4) by (intro lin_back_absent) auto
  moreover have "filetime (fs ! nat (int ent - 1)) \<noteq> ft" using assms(2-4) by (auto simp: nat_less_iff)
  moreover have "(if int (length fs) > int ent then int ent else int (length fs)) = int ent"
    using assms(3) by auto
  ultimately show ?thesis using assms(2) by (simp add: delete_pos_def Let_def)
qed

section \<open>Properties of articles and index files\<close>

definition sample_dir :: "fileheader list" where
  "sample_dir = map (\<lambda>t. zero_fileheader\<lparr>filetime := t\<rparr>) [100, 200, 300]"

lemma sample_dir_distinct: "distinct_dir sample_dir"
  by (simp add: distinct_dir_def sample_dir_def)

text \<open>
  C13: \<open>Search_Bin\<close> on a sorted index ends inside the file and returns the position of a record with
  the key, or \<open>-(m + 1)\<close> where \<open>m\<close> is the number of records in the range with a smaller time, which
  is the position of the first larger one.
\<close>

theorem Search_Bin_correct:
  assumes "sorted_dir fs" "fs \<noteq> []"
  shows "\<exists>r. search_bin fs key 0 (int (length fs) - 1) = Some r \<and>
     (if 0 \<le> r then r < int (length fs) \<and> filetime (fs ! nat r) = key
      else (\<forall>f \<in> set fs. filetime f \<noteq> key)
           \<and> - (r + 1) = int (length (filter (\<lambda>f. filetime f < key) fs)))"
proof -
  let ?e = "int (length fs) - 1"
  obtain r where r: "search_bin fs key 0 ?e = Some r"
    "if 0 \<le> r then r \<le> ?e \<and> filetime (fs ! nat r) = key
      else (\<forall>i. int i \<le> ?e \<longrightarrow> filetime (fs ! i) \<noteq> key) \<and>
           0 \<le> - (r + 1) \<and> - (r + 1) \<le> ?e + 1 \<and>
           (\<forall>i. int i \<le> ?e \<longrightarrow> (filetime (fs ! i) < key \<longleftrightarrow> int i < - (r + 1)))"
    using search_bin_correct [OF assms(1), of 0 ?e ?e key] by auto
  show ?thesis
  proof (cases "0 \<le> r")
    case True
    then show ?thesis using r by auto
  next
    case False
    let ?m = "nat (- (r + 1))"
    have m: "?m \<le> length fs" "int ?m = - (r + 1)" using False r(2) by auto
    have lt: "filetime (fs ! i) < key \<longleftrightarrow> i < ?m" if "i < length fs" for i
      using False r(2) that m by auto
    have "filter (\<lambda>f. filetime f < key) (take ?m fs) = take ?m fs"
      using lt m(1) by (auto simp: filter_id_conv in_set_conv_nth)
    moreover have "filter (\<lambda>f. filetime f < key) (drop ?m fs) = []"
      using lt m(1) by (auto simp: filter_empty_conv in_set_conv_nth)
    ultimately have "filter (\<lambda>f. filetime f < key) fs = take ?m fs"
      by (metis append_Nil2 append_take_drop_id filter_append)
    then have "int (length (filter (\<lambda>f. filetime f < key) fs)) = - (r + 1)" using m by simp
    moreover have "\<forall>f \<in> set fs. filetime f \<noteq> key" using False r(2) by (auto simp: in_set_conv_nth)
    ultimately show ?thesis using r(1) False by auto
  qed
qed

lemma Search_Bin_correct_witness:
  "\<exists>r. search_bin sample_dir 250 0 2 = Some r \<and> r < 0"
proof -
  have ne: "sample_dir \<noteq> []" and len: "int (length sample_dir) - 1 = 2" by (simp_all add: sample_dir_def)
  obtain r where r: "search_bin sample_dir 250 0 2 = Some r"
    "0 \<le> r \<longrightarrow> r < int (length sample_dir) \<and> filetime (sample_dir ! nat r) = 250"
    using Search_Bin_correct [OF distinct_sorted [OF sample_dir_distinct] ne, of 250] unfolding len
    by (auto split: if_splits)
  have "filetime x \<noteq> 250" if "x \<in> set sample_dir" for x using that by (auto simp: sample_dir_def)
  then have "filetime (sample_dir ! nat r) \<noteq> 250" if "nat r < length sample_dir"
    using nth_mem [OF that] by blast
  then have "r < 0" using r(2) by linarith
  with r(1) show ?thesis by blast
qed

text \<open>
  Reading \<open>count\<close> records around an article of a sorted index, in any of the three alignments and
  from any hint that is not in front of the article: entry \<open>i\<close> of the result is the record at the
  article's position shifted by \<open>i - base\<close>, and a zeroed record with \<open>NA_INDEX\<close> where the file ends.
\<close>

theorem get_fileheader_records_window:
  assumes "distinct_dir fs" "ent < length fs" "filetime (fs ! ent) \<noteq> 0" "int ent \<le> hint \<or> hint < 0"
    "0 < count" "c \<le> 2" "base = (if c = 1 then 0 else if c = 2 then count - 1 else count div 2)"
  shows "get_records (Some fs) (filetime (fs ! ent)) hint True c count None =
     Some (Some (map (\<lambda>i. let j = window_index (length fs) base ent i in (pick fs j, j)) [0..<count]))"
proof -
  have b: "base < count" using assms(5,7) by (auto split: if_splits)
  have "get_records (Some fs) (filetime (fs ! ent)) hint True c count None =
     Some (Some (map (\<lambda>i. (pick fs i, i)) (rev (fill_back take_all_f fs base ent) @ [int ent]
        @ fill_fwd take_all_f fs (count - base - 1) (Suc ent))))"
    using find_ent_sorted [OF assms(1-4)] assms(5,6) unfolding assms(7)
    by (simp add: get_records_def Let_def)
  then show ?thesis unfolding window_all [OF b assms(2)] by (simp add: Let_def comp_def)
qed

lemma get_fileheader_records_window_witness:
  "get_records (Some sample_dir) 300 (- 1) True 0 3 None
     = Some (Some [(sample_dir ! 1, 1), (sample_dir ! 2, 2), (zero_fileheader, NA_INDEX)])"
proof -
  have "filetime (sample_dir ! 2) = 300" "length sample_dir = 3" by (simp_all add: sample_dir_def)
  then show ?thesis
    using get_fileheader_records_window [OF sample_dir_distinct, of 2 "- 1" 3 0 1]
    by (simp add: upt_rec window_index_def pick_def NA_INDEX_def Let_def)
qed

text \<open>
  \<open>change_dir\<close> applies the operation to the record of the article and to no other, wherever the
  article has moved to in front of the entry the caller saw, and hands the new record back; for an
  article that is gone nothing is written and the result is -3.
\<close>

theorem change_dir_changes_one:
  assumes "distinct_dir fs" "filetime info \<noteq> 0" "flock_ok io" "lseek_ok io" "dwrite_ok io"
  shows "(\<forall>i < length fs. filetime (fs ! i) = filetime info \<and> int i < ent \<longrightarrow>
            change_dir io junk (Some fs) info (dir_callback f) ent False True
              = Some (Some (fs[i := f (fs ! i) info]), f (fs ! i) info, 0))
     \<and> ((\<forall>x \<in> set fs. filetime x \<noteq> filetime info) \<longrightarrow>
            change_dir io junk (Some fs) info g ent False True = Some (Some fs, info, - 3))"
proof (intro conjI allI impI)
  fix i assume i: "i < length fs" "filetime (fs ! i) = filetime info \<and> int i < ent"
  then have "get_records (Some fs) (filetime info) (ent - 1) True 0 1 None = Some (Some [(fs ! i, int i)])"
    using get_one_record [OF assms(1) i(1), of "ent - 1"] assms(2) by simp
  then show "change_dir io junk (Some fs) info (dir_callback f) ent False True
      = Some (Some (fs[i := f (fs ! i) info]), f (fs ! i) info, 0)"
    using assms(3-5) by (simp add: change_dir_def dir_callback_def)
next
  assume "\<forall>x \<in> set fs. filetime x \<noteq> filetime info"
  then have "get_records (Some fs) (filetime info) (ent - 1) True 0 1 None = Some None"
    using get_no_record [OF distinct_sorted [OF assms(1)] _ assms(2), of 1 0] by simp
  then show "change_dir io junk (Some fs) info g ent False True = Some (Some fs, info, - 3)"
    using assms(3) by (simp add: change_dir_def)
qed

lemma change_dir_changes_one_witness:
  "change_dir \<lparr>flock_ok = True, lseek_ok = True, dwrite_ok = True\<rparr> zero_fileheader (Some sample_dir)
      (zero_fileheader\<lparr>filetime := 200\<rparr>) (dir_callback DIR_do_attach) 3 False True
   = Some (Some (sample_dir[1 := zero_fileheader\<lparr>filetime := 200, accessed := FH_ATTACHED\<rparr>]),
           zero_fileheader\<lparr>filetime := 200, accessed := FH_ATTACHED\<rparr>, 0)"
proof -
  have "1 < length sample_dir" "sample_dir ! 1 = zero_fileheader\<lparr>filetime := 200\<rparr>"
    by (simp_all add: sample_dir_def)
  then show ?thesis
    using change_dir_changes_one [OF sample_dir_distinct, of "zero_fileheader\<lparr>filetime := 200\<rparr>"
        "\<lparr>flock_ok = True, lseek_ok = True, dwrite_ok = True\<rparr>" 3 zero_fileheader DIR_do_attach]
    by (auto simp: DIR_do_attach_def zero_fileheader_def)
qed

text \<open>
  \<open>delete_dir\<close> removes the record of the article and no other, keeping the order, wherever the
  article has moved to in front of the given entry; when the article is not in the file and the entry
  is not past its end, nothing changes and the result is -2.
\<close>

theorem delete_dir_removes_one:
  assumes "distinct_dir fs" "0 < ent"
  shows "(\<forall>i < length fs. filetime (fs ! i) = ft \<and> Suc i \<le> ent \<longrightarrow>
            delete_dir_callback (Some fs) (int ent) ft None
              = Some (Some (filter (\<lambda>x. filetime x \<noteq> ft) fs), 0))
     \<and> (ent \<le> length fs \<and> (\<forall>x \<in> set fs. filetime x \<noteq> ft) \<longrightarrow>
            delete_dir_callback (Some fs) (int ent) ft cb = Some (Some fs, - 2))"
proof (intro conjI allI impI)
  fix i assume i: "i < length fs" "filetime (fs ! i) = ft \<and> Suc i \<le> ent"
  have "filetime x \<noteq> ft" if "x \<in> set (take i fs) \<or> x \<in> set (drop (Suc i) fs)" for x
  proof
    assume "filetime x = ft"
    have "\<exists>j. j < length fs \<and> fs ! j = x \<and> j \<noteq> i"
      using that
    proof
      assume "x \<in> set (take i fs)"
      then obtain j where "j < i" "fs ! j = x" using i(1) by (auto simp: in_set_conv_nth)
      then show ?thesis using i(1) by (intro exI [of _ j]) auto
    next
      assume "x \<in> set (drop (Suc i) fs)"
      then obtain k where "k < length fs - Suc i" "fs ! (Suc i + k) = x"
        by (auto simp: in_set_conv_nth)
      then show ?thesis by (intro exI [of _ "Suc i + k"]) auto
    qed
    then obtain j where "j < length fs" "fs ! j = x" "j \<noteq> i" by blast
    then show False using distinct_nth [OF assms(1), of j i] i \<open>filetime x = ft\<close> by auto
  qed
  then have "filter (\<lambda>x. filetime x \<noteq> ft) (take i fs @ drop (Suc i) fs) = take i fs @ drop (Suc i) fs"
    by (intro filter_True) auto
  moreover have "filter (\<lambda>x. filetime x \<noteq> ft) fs
      = filter (\<lambda>x. filetime x \<noteq> ft) (take i fs @ drop (Suc i) fs)"
    by (subst id_take_nth_drop [OF i(1)]) (simp add: i(2))
  ultimately have fl: "filter (\<lambda>x. filetime x \<noteq> ft) fs = take i fs @ drop (Suc i) fs" by simp
  show "delete_dir_callback (Some fs) (int ent) ft None
      = Some (Some (filter (\<lambda>x. filetime x \<noteq> ft) fs), 0)"
    using delete_position [OF assms(1) i(1), of ent] i(2) fl
    by (simp add: delete_dir_callback_def)
next
  assume a: "ent \<le> length fs \<and> (\<forall>x \<in> set fs. filetime x \<noteq> ft)"
  have no: "filetime (fs ! k) \<noteq> ft" if "k < length fs" for k using a that by auto
  show "delete_dir_callback (Some fs) (int ent) ft cb = Some (Some fs, - 2)"
    using delete_pos_absent [OF assms] a no by (simp add: delete_dir_callback_def)
qed

lemma delete_dir_removes_one_witness:
  "delete_dir_callback (Some sample_dir) 3 200 None
     = Some (Some [zero_fileheader\<lparr>filetime := 100\<rparr>, zero_fileheader\<lparr>filetime := 300\<rparr>], 0)"
proof -
  have "1 < length sample_dir" "filetime (sample_dir ! 1) = 200" by (simp_all add: sample_dir_def)
  then show ?thesis
    using delete_dir_removes_one [OF sample_dir_distinct, of 3 200 None] by (auto simp: sample_dir_def)
qed

text \<open>
  A callback that refuses the deletion does not stop it: the file is cut all the same, so the
  article stays and the last record of the file is lost, with the result 0.
\<close>

theorem delete_dir_refused_loses_last:
  assumes "distinct_dir fs" "i < length fs" "i < ent" "r < 0"
  shows "delete_dir_callback (Some fs) (int ent) (filetime (fs ! i)) (Some (\<lambda>x. (r, x)))
     = Some (Some (butlast fs), 0)"
  using delete_position [OF assms(1,2), of ent] assms(2-4) by (simp add: delete_dir_callback_def)

lemma delete_dir_refused_loses_last_witness:
  "delete_dir_callback (Some sample_dir) 1 100 (Some (\<lambda>x. (- 1, x)))
     = Some (Some [zero_fileheader\<lparr>filetime := 100\<rparr>, zero_fileheader\<lparr>filetime := 200\<rparr>], 0)"
proof -
  have "0 < length sample_dir" "filetime (sample_dir ! 0) = 100" by (simp_all add: sample_dir_def)
  then show ?thesis
    using delete_dir_refused_loses_last [OF sample_dir_distinct, of 0 1 "- 1"] by (simp add: sample_dir_def)
qed

section \<open>Owners and flags\<close>

lemma strchr_zstr_none: "32 \<notin> set s \<Longrightarrow> strchr s 32 = None"
  by (simp add: strchr_def)

lemma local_owner:
  assumes "0 \<notin> set u" "u \<noteq> []" "length u \<le> 12" "64 \<notin> set u" "46 \<notin> set u" "32 \<notin> set u"
  shows "owner (fh_setowner fh u False) = pad0 14 u"
proof -
  have "strsncpy u 13 = u" using assms(3) by (simp add: strsncpy_take)
  moreover have "zstr (pad0 14 u) = u" by (rule zstr_pad0 [OF assms(1)])
  ultimately show ?thesis using assms by (simp add: fh_setowner_def Let_def strchr_zstr_none)
qed

lemma anon_owner:
  assumes "length u \<le> 12"
  shows "owner (fh_setowner fh u True) = 0 # pad0 13 u"
  using assms by (simp add: fh_setowner_def strsncpy_take)

lemma hd_pad0: "u \<noteq> [] \<Longrightarrow> 0 \<notin> set u \<Longrightarrow> pad0 n u ! 0 \<noteq> 0"
  by (cases u) (auto simp: pad0_def)

lemma nth_pad0: "i < length s \<Longrightarrow> pad0 n s ! i = s ! i"
  by (simp add: pad0_def nth_append)

text \<open>The address case: up to the first separator, which becomes a period.\<close>

lemma owner_loop_stop:
  assumes "i \<le> j" "j < length raw" "\<forall>k. i \<le> k \<and> k < j \<longrightarrow> raw ! k \<noteq> 0 \<and> raw ! k \<notin> {64, 46, 32}"
    "raw ! j \<in> {64, 46, 32}"
  shows "owner_loop raw i = raw[j := 46, Suc j := 0]"
  using assms
proof (induction raw i rule: owner_loop.induct)
  case (1 raw i)
  show ?case
  proof (cases "i = j")
    case True
    have "raw ! j \<noteq> 0" using "1.prems"(4) by auto
    then show ?thesis using True "1.prems" by (subst owner_loop.simps) auto
  next
    case False
    then have "i < j" "raw ! i \<noteq> 0" "\<not> (raw ! i = 64 \<or> raw ! i = 46 \<or> raw ! i = 32)"
      using "1.prems" by auto
    then show ?thesis using "1.IH" "1.prems" by (subst owner_loop.simps) auto
  qed
qed

lemma email_owner:
  assumes "0 \<notin> set u" "u \<noteq> []" "length u \<le> 11" "set u \<inter> {64, 46, 32} = {}" "0 \<notin> set d"
  shows "zstr (owner (fh_setowner fh (u @ 64 # d) False)) = u @ [46]"
proof -
  let ?s = "strsncpy (u @ 64 # d) 13"
  let ?raw = "pad0 14 ?s"
  have s: "?s = u @ 64 # take (11 - length u) d"
    using assms(3) by (simp add: strsncpy_take take_Cons' Suc_diff_le)
  have len: "length ?raw = 14" "length u < 14" using s assms(3) by (simp_all add: pad0_def)
  have raw: "?raw = u @ 64 # take (11 - length u) d @ replicate (14 - length ?s) 0"
    using s by (simp add: pad0_def)
  have "owner_loop ?raw 1 = ?raw[length u := 46, Suc (length u) := 0]"
  proof (rule owner_loop_stop)
    show "1 \<le> length u" using assms(2) by (cases u) auto
    show "length u < length ?raw" using len by simp
    have mem: "u ! k \<in> set u" if "k < length u" for k using that by simp
    then show "\<forall>k. 1 \<le> k \<and> k < length u \<longrightarrow> ?raw ! k \<noteq> 0 \<and> ?raw ! k \<notin> {64, 46, 32}"
      unfolding raw using assms(1,4) by (auto simp: nth_append) (metis disjoint_iff insertCI mem)+
    show "?raw ! length u \<in> {64, 46, 32}" unfolding raw by simp
  qed
  then have "owner (fh_setowner fh (u @ 64 # d) False) = ?raw[length u := 46, Suc (length u) := 0]"
    by (simp add: fh_setowner_def Let_def)
  moreover obtain x r where "drop (Suc (length u)) ?raw = x # r"
    using len assms(3) by (cases "drop (Suc (length u)) ?raw") (auto simp: drop_eq_Nil)
  then have "?raw[length u := 46, Suc (length u) := 0] = u @ 46 # 0 # r"
    unfolding raw by (simp add: list_update_append)
  ultimately show ?thesis
    using assms(1) zstr_append [of "u @ [46]" r] by simp
qed

text \<open>
  The owner field tells the three kinds of author apart and loses nothing of a local id: for an id
  of up to 12 characters \<open>fh2owner\<close> gives it back, for an anonymous post it shows \<open>Anonymous\<close> while
  \<open>fh2realauthor\<close> still gives the id, and an e-mail address is kept as its first word with a period.
\<close>

theorem fh_setowner_kinds:
  assumes "0 \<notin> set u" "u \<noteq> []" "length u \<le> 12" "set u \<inter> {64, 46, 32} = {}" "0 \<notin> set d"
  shows "fh2owner (fh_setowner fh u False) = u
     \<and> fh2owner (fh_setowner fh u True) = lit ''Anonymous''
     \<and> fh2realauthor (fh_setowner fh u True) = u
     \<and> (length u \<le> 11 \<longrightarrow> zstr (owner (fh_setowner fh (u @ 64 # d) False)) = u @ [46])"
proof -
  have l: "owner (fh_setowner fh u False) = pad0 14 u" using assms by (intro local_owner) auto
  have a: "owner (fh_setowner fh u True) = 0 # pad0 13 u" by (rule anon_owner [OF assms(3)])
  have "fh2owner (fh_setowner fh u False) = u"
    using hd_pad0 [OF assms(2,1)] zstr_pad0 [OF assms(1)] by (simp add: fh2owner_def l)
  moreover have "fh2owner (fh_setowner fh u True) = lit ''Anonymous''" by (simp add: fh2owner_def a)
  moreover have "fh2realauthor (fh_setowner fh u True) = u"
    using zstr_pad0 [OF assms(1)] by (simp add: fh2realauthor_def a)
  ultimately show ?thesis using email_owner [OF assms(1,2) _ assms(4,5)] by simp
qed

lemma fh_setowner_kinds_witness:
  "fh2realauthor (fh_setowner zero_fileheader (lit ''lepton'') True) = lit ''lepton''
   \<and> zstr (owner (fh_setowner zero_fileheader (lit ''lepton'' @ 64 # lit ''ytht'') False)) = lit ''lepton.''"
  using fh_setowner_kinds [of "lit ''lepton''" "lit ''ytht''" zero_fileheader] by simp

end
