(* ===== verification/RecordFile.thy ===== *)
theory RecordFile
  imports CLib
begin

text \<open>
  Files of fixed-size records, \<open>libythtbbs/record.c\<close>: deleting through a temporary file, appending,
  applying and searching with a buffer of 100 records, and deleting in place.  A file is the list of
  its bytes, a directory a map from paths to files.  The buffered loops are shown to visit exactly
  the records of the file in order.
\<close>

definition NUMBUFFER :: nat where
  "NUMBUFFER = 100"

definition BUFSIZE :: nat where
  "BUFSIZE = 8192"

definition PATHLEN :: nat where
  "PATHLEN = 256"

section \<open>Deleting through a temporary file\<close>

text \<open>The names of the temporary file and of the old version: \<open>(tmpfile, deleted)\<close>.\<close>

definition tmpfilename :: "cstr \<Rightarrow> cstr \<times> cstr" where
  "tmpfilename filename =
     (case strrchr filename 47 of
        Some i \<Rightarrow> (take (i + 1) filename @ lit ''.tmpfile'', take (i + 1) filename @ lit ''.deleted'')
      | None \<Rightarrow> (lit ''.tmpfile'', lit ''.deleted''))"

text \<open>
  \<open>safewrite\<close> against the outcomes of the successive \<open>write\<close> calls: how much was written, an
  interrupted call, or an error.  The bytes that reached the file and the result; \<open>None\<close> when the
  outcomes end before the loop does.
\<close>

datatype wr = Wrote nat | Eintr | Werr

fun safewrite :: "wr list \<Rightarrow> byte list \<Rightarrow> (byte list \<times> bool) option" where
  "safewrite [] b = None"
| "safewrite (Werr # ws) b = Some ([], False)"
| "safewrite (Eintr # ws) b = (if b = [] then Some ([], True) else safewrite ws b)"
| "safewrite (Wrote n # ws) b =
     (if length b \<le> n then Some (b, True)
      else case safewrite ws (drop n b) of
             None \<Rightarrow> None
           | Some (out, r) \<Rightarrow> Some (take n b @ out, r))"

text \<open>The whole records of a file; a shorter rest is not read as a record.\<close>

function recs :: "nat \<Rightarrow> byte list \<Rightarrow> byte list list" where
  "recs sz m = (if sz = 0 \<or> length m < sz then [] else take sz m # recs sz (drop sz m))"
  by pat_completeness auto
termination
  by (relation "measure (\<lambda>(sz, m). length m)") auto

declare recs.simps [simp del]

type_synonym filesys = "cstr \<Rightarrow> byte list option"

record del_io =
  fail_write :: "nat option"
  rename1_ok :: bool
  rename2_ok :: bool

text \<open>
  \<open>delete_record\<close>; record 1 is the first.  \<open>fail_write\<close> is the number of the record whose write
  fails, if one does.  \<open>strlen(filename) - 8\<close> is unsigned, so names shorter than 8 are refused, and
  names of 256 to 264 bytes overflow the local arrays (\<open>None\<close>).
\<close>

definition delete_record ::
  "del_io \<Rightarrow> filesys \<Rightarrow> cstr \<Rightarrow> nat \<Rightarrow> int \<Rightarrow> (filesys \<times> int) option" where
  "delete_record io fs filename sz idn =
     (if BUFSIZE < sz then Some (fs, - 1)
      else if length filename < 8 \<or> PATHLEN < length filename - 8 then Some (fs, - 1)
      else let (tmpfile, deleted) = tmpfilename filename in
        if PATHLEN \<le> length filename \<or> PATHLEN \<le> length deleted then None
        else case fs filename of
          None \<Rightarrow> Some (fs, - 1)
        | Some m \<Rightarrow>
            if fs tmpfile \<noteq> None then Some (fs, - 1)
            else (let rs = recs sz m;
                      keep = filter (\<lambda>k. idn \<noteq> int k) [1..<Suc (length rs)]
                  in if (case fail_write io of None \<Rightarrow> False | Some k \<Rightarrow> k \<in> set keep)
                     then Some (fs, - 1)
                     else let new = concat (map (\<lambda>k. rs ! (k - 1)) keep);
                              fs1 = fs(tmpfile \<mapsto> new) in
                          if \<not> rename1_ok io then Some (fs1, - 1)
                          else let fs2 = fs1(deleted := fs1 filename, filename := None) in
                               if \<not> rename2_ok io then Some (fs2, - 1)
                               else Some (fs2(filename := fs2 tmpfile, tmpfile := None), 0)))"

section \<open>Appending, applying, searching\<close>

definition append_record ::
  "bool \<Rightarrow> (byte list \<Rightarrow> byte list) option \<Rightarrow> filesys \<Rightarrow> cstr \<Rightarrow> byte list \<Rightarrow> filesys \<times> int" where
  "append_record openok cb fs filename r =
     (if \<not> openok then (fs, - 1)
      else let old = (case fs filename of None \<Rightarrow> [] | Some m \<Rightarrow> m);
               r' = (case cb of None \<Rightarrow> r | Some f \<Rightarrow> f r)
           in (fs(filename \<mapsto> old @ r'), 0))"

text \<open>
  One buffer of \<open>new_apply_record\<close>: the callback goes over the whole records in it and stops the
  walk with a positive result.
\<close>

fun apply_buf :: "(byte list \<Rightarrow> 'a \<Rightarrow> int \<times> 'a) \<Rightarrow> byte list list \<Rightarrow> 'a \<Rightarrow> int option \<times> 'a" where
  "apply_buf f [] a = (None, a)"
| "apply_buf f (r # rs) a =
     (let (v, a') = f r a in if v > 0 then (Some v, a') else apply_buf f rs a')"

function apply_loop :: "(byte list \<Rightarrow> 'a \<Rightarrow> int \<times> 'a) \<Rightarrow> nat \<Rightarrow> byte list \<Rightarrow> 'a \<Rightarrow> int \<times> 'a" where
  "apply_loop f sz m a =
     (if m = [] \<or> sz = 0 then (0, a)
      else let b = take (sz * NUMBUFFER) m in
           case apply_buf f (recs sz b) a of
             (Some v, a') \<Rightarrow> (v, a')
           | (None, a') \<Rightarrow>
               if length b mod sz \<noteq> 0 then (- 1, a')
               else apply_loop f sz (drop (sz * NUMBUFFER) m) a')"
  by pat_completeness auto
termination
  by (relation "measure (\<lambda>(f, sz, m, a). length m)") (auto simp: NUMBUFFER_def)

declare apply_loop.simps [simp del]

definition new_apply_record ::
  "byte list option \<Rightarrow> nat \<Rightarrow> (byte list \<Rightarrow> 'a \<Rightarrow> int \<times> 'a) \<Rightarrow> 'a \<Rightarrow> int \<times> 'a" where
  "new_apply_record file sz f a = (case file of None \<Rightarrow> (- 1, a) | Some m \<Rightarrow> apply_loop f sz m a)"

text \<open>
  \<open>new_search_record\<close> and \<open>search_record\<close> differ in the order of the callback's arguments only:
  the number of the first record that matches and its bytes.
\<close>

fun search_buf :: "(byte list \<Rightarrow> bool) \<Rightarrow> byte list list \<Rightarrow> nat \<Rightarrow> nat option \<times> nat" where
  "search_buf p [] idn = (None, idn)"
| "search_buf p (r # rs) idn = (if p r then (Some idn, idn) else search_buf p rs (Suc idn))"

function search_loop :: "(byte list \<Rightarrow> bool) \<Rightarrow> nat \<Rightarrow> byte list \<Rightarrow> nat \<Rightarrow> int" where
  "search_loop p sz m idn =
     (if m = [] \<or> sz = 0 then 0
      else let b = take (sz * NUMBUFFER) m in
           case search_buf p (recs sz b) idn of
             (Some i, _) \<Rightarrow> int i
           | (None, idn') \<Rightarrow>
               if length b mod sz \<noteq> 0 then - 1
               else search_loop p sz (drop (sz * NUMBUFFER) m) idn')"
  by pat_completeness auto
termination
  by (relation "measure (\<lambda>(p, sz, m, idn). length m)") (auto simp: NUMBUFFER_def)

declare search_loop.simps [simp del]

definition search_record :: "byte list option \<Rightarrow> nat \<Rightarrow> (byte list \<Rightarrow> bool) \<Rightarrow> int" where
  "search_record file sz p = (case file of None \<Rightarrow> 0 | Some m \<Rightarrow> search_loop p sz m 1)"

section \<open>Deleting in place\<close>

fun check_back :: "(byte list \<Rightarrow> bool) \<Rightarrow> byte list list \<Rightarrow> nat \<Rightarrow> nat" where
  "check_back p rs 0 = 0"
| "check_back p rs (Suc i) = (if p (rs ! i) then Suc i else check_back p rs i)"

text \<open>\<open>delete_file_callback\<close>; the callback may change the record before it goes, so it has no effect here.\<close>

definition delete_file_callback ::
  "byte list option \<Rightarrow> nat \<Rightarrow> int \<Rightarrow> (byte list \<Rightarrow> bool) option \<Rightarrow> (byte list option \<times> int) option" where
  "delete_file_callback file sz ent check =
     (case file of
        None \<Rightarrow> Some (None, - 1)
      | Some m \<Rightarrow>
          if ent * int sz > int (length m) then Some (file, - 2)
          else if ent < 0 \<or> (ent = 0 \<and> check = None) then None
          else let pos = (case check of None \<Rightarrow> nat ent | Some p \<Rightarrow> check_back p (recs sz m) (nat ent))
               in if pos = 0 then Some (file, - 2)
                  else Some (Some (take ((pos - 1) * sz) m @ drop (pos * sz) m), 0))"

section \<open>The loops visit the records in order\<close>

lemma recs_append:
  "0 < sz \<Longrightarrow> length a = k * sz \<Longrightarrow> recs sz (a @ b) = recs sz a @ recs sz b"
proof (induction k arbitrary: a)
  case 0
  then show ?case by (subst (2) recs.simps) simp
next
  case (Suc k)
  have l: "sz \<le> length a" "length (drop sz a) = k * sz" using Suc.prems(2) by auto
  have "recs sz (a @ b) = take sz a # recs sz (drop sz a @ b)"
    using l Suc.prems(1) by (subst recs.simps) simp
  also have "\<dots> = take sz a # (recs sz (drop sz a) @ recs sz b)"
    using Suc.IH [OF Suc.prems(1) l(2)] by simp
  also have "\<dots> = recs sz a @ recs sz b"
    using l Suc.prems(1) by (subst (3) recs.simps) simp
  finally show ?case .
qed

lemma recs_short: "length m < sz \<Longrightarrow> recs sz m = []"
  by (subst recs.simps) simp

lemma length_recs: "0 < sz \<Longrightarrow> length (recs sz m) = length m div sz"
proof (induction sz m rule: recs.induct)
  case (1 sz m)
  then show ?case
    by (subst recs.simps) (auto simp: le_div_geq not_less)
qed

lemma recs_concat:
  "0 < sz \<Longrightarrow> \<forall>r \<in> set rs. length r = sz \<Longrightarrow> recs sz (concat rs) = rs"
proof (induction rs)
  case Nil
  then show ?case by (simp add: recs_short)
next
  case (Cons r rs)
  then show ?case by (subst recs.simps) simp
qed

lemma concat_recs:
  "0 < sz \<Longrightarrow> length m mod sz = 0 \<Longrightarrow> concat (recs sz m) = m"
proof (induction sz m rule: recs.induct)
  case (1 sz m)
  show ?case
  proof (cases "length m < sz")
    case True
    then have "m = []" using 1 by simp
    then show ?thesis using True by (simp add: recs_short)
  next
    case False
    have "(length m - sz) mod sz = 0" using False 1(3) by (simp add: le_mod_geq)
    then have "concat (recs sz (drop sz m)) = drop sz m"
      using 1(1) [OF _ 1(2)] False 1(2) by simp
    then show ?thesis using False 1(2) by (subst recs.simps) simp
  qed
qed

lemma recs_size: "r \<in> set (recs sz m) \<Longrightarrow> length r = sz"
proof (induction sz m rule: recs.induct)
  case (1 sz m)
  then show ?case by (subst (asm) (2) recs.simps) (auto split: if_splits)
qed

lemma length_concat_const: "\<forall>r \<in> set rs. length r = k \<Longrightarrow> length (concat rs) = length rs * k"
  by (induction rs) auto

text \<open>Going over a list of records with a stopping callback.\<close>

lemma apply_buf_append:
  "apply_buf f (xs @ ys) a =
     (case apply_buf f xs a of (Some v, a') \<Rightarrow> (Some v, a') | (None, a') \<Rightarrow> apply_buf f ys a')"
  by (induction xs arbitrary: a) (auto split: prod.splits option.splits)

definition apply_all :: "(byte list \<Rightarrow> 'a \<Rightarrow> int \<times> 'a) \<Rightarrow> nat \<Rightarrow> byte list \<Rightarrow> 'a \<Rightarrow> int \<times> 'a" where
  "apply_all f sz m a =
     (case apply_buf f (recs sz m) a of
        (Some v, a') \<Rightarrow> (v, a')
      | (None, a') \<Rightarrow> (if length m mod sz \<noteq> 0 then - 1 else 0, a'))"

lemma chunk_split:
  assumes "0 < sz"
  shows "recs sz m = recs sz (take (sz * NUMBUFFER) m) @ recs sz (drop (sz * NUMBUFFER) m)"
proof (cases "length m < sz * NUMBUFFER")
  case True
  then show ?thesis using assms by (simp add: recs_short)
next
  case False
  then have "length (take (sz * NUMBUFFER) m) = NUMBUFFER * sz" by (simp add: mult.commute)
  from recs_append [OF assms this, of "drop (sz * NUMBUFFER) m"] show ?thesis by simp
qed

lemma chunk_mod:
  assumes "0 < sz"
  shows "length (take (sz * NUMBUFFER) m) mod sz \<noteq> 0 \<Longrightarrow>
      drop (sz * NUMBUFFER) m = [] \<and> length m mod sz \<noteq> 0"
    and "length (take (sz * NUMBUFFER) m) mod sz = 0 \<Longrightarrow>
      length (drop (sz * NUMBUFFER) m) mod sz = length m mod sz"
proof -
  consider "length m < sz * NUMBUFFER" | "sz * NUMBUFFER \<le> length m" by linarith
  then show "length (take (sz * NUMBUFFER) m) mod sz \<noteq> 0 \<Longrightarrow>
      drop (sz * NUMBUFFER) m = [] \<and> length m mod sz \<noteq> 0"
    by cases (auto simp: min_def)
  show "length (take (sz * NUMBUFFER) m) mod sz = 0 \<Longrightarrow>
      length (drop (sz * NUMBUFFER) m) mod sz = length m mod sz"
  proof (cases "length m < sz * NUMBUFFER")
    case False
    then obtain k where "length m = sz * NUMBUFFER + k" by (metis le_add_diff_inverse not_less)
    then show ?thesis by simp
  qed (simp add: min_def)
qed

lemma apply_loop_all: "0 < sz \<Longrightarrow> apply_loop f sz m a = apply_all f sz m a"
proof (induction f sz m a rule: apply_loop.induct)
  case (1 f sz m a)
  show ?case
  proof (cases "m = []")
    case True
    then show ?thesis using 1(2) by (subst apply_loop.simps) (simp add: apply_all_def recs_short)
  next
    case False
    let ?b = "take (sz * NUMBUFFER) m" and ?d = "drop (sz * NUMBUFFER) m"
    have ne: "\<not> (m = [] \<or> sz = 0)" using False 1(2) by simp
    obtain v a' where r: "apply_buf f (recs sz ?b) a = (v, a')" by fastforce
    note split = chunk_split [OF 1(2), of m] apply_buf_append [of f "recs sz ?b" "recs sz ?d" a]
    show ?thesis
    proof (cases v)
      case (Some w)
      then show ?thesis
        using ne r by (subst apply_loop.simps) (simp add: Let_def apply_all_def split)
    next
      case None
      show ?thesis
      proof (cases "length ?b mod sz = 0")
        case True
        have "apply_loop f sz ?d a' = apply_all f sz ?d a'"
          using 1(1) [OF ne refl r [symmetric] None] True 1(2) by simp
        then show ?thesis
          using ne r None True chunk_mod(2) [OF 1(2) True]
          by (subst apply_loop.simps) (simp add: Let_def apply_all_def split)
      next
        case False
        have d: "?d = []" "length m mod sz \<noteq> 0" using chunk_mod(1) [OF 1(2) False] by auto
        have "recs sz ?d = []" using d(1) 1(2) by (simp add: recs_short)
        then have "recs sz m = recs sz ?b" using split(1) by simp
        then show ?thesis
          using ne r None False d(2) by (subst apply_loop.simps) (simp add: Let_def apply_all_def)
      qed
    qed
  qed
qed

lemma search_buf_append:
  "search_buf p (xs @ ys) n =
     (case search_buf p xs n of (Some i, n') \<Rightarrow> (Some i, n') | (None, n') \<Rightarrow> search_buf p ys n')"
  by (induction xs arbitrary: n) auto

lemma search_buf_find:
  "search_buf p xs n =
     (case find p xs of
        None \<Rightarrow> (None, n + length xs)
      | Some r \<Rightarrow> (let k = n + length (takeWhile (\<lambda>x. \<not> p x) xs) in (Some k, k)))"
  by (induction xs arbitrary: n) (auto simp: Let_def split: option.splits)

definition search_all :: "(byte list \<Rightarrow> bool) \<Rightarrow> nat \<Rightarrow> byte list \<Rightarrow> nat \<Rightarrow> int" where
  "search_all p sz m n =
     (case search_buf p (recs sz m) n of
        (Some i, _) \<Rightarrow> int i
      | (None, _) \<Rightarrow> if length m mod sz \<noteq> 0 then - 1 else 0)"

lemma search_loop_all: "0 < sz \<Longrightarrow> search_loop p sz m n = search_all p sz m n"
proof (induction p sz m n rule: search_loop.induct)
  case (1 p sz m n)
  show ?case
  proof (cases "m = []")
    case True
    then show ?thesis using 1(2) by (subst search_loop.simps) (simp add: search_all_def recs_short)
  next
    case False
    let ?b = "take (sz * NUMBUFFER) m" and ?d = "drop (sz * NUMBUFFER) m"
    have ne: "\<not> (m = [] \<or> sz = 0)" using False 1(2) by simp
    obtain v n' where r: "search_buf p (recs sz ?b) n = (v, n')" by fastforce
    note split = chunk_split [OF 1(2), of m] search_buf_append [of p "recs sz ?b" "recs sz ?d" n]
    show ?thesis
    proof (cases v)
      case (Some w)
      then show ?thesis
        using ne r by (subst search_loop.simps) (simp add: Let_def search_all_def split)
    next
      case None
      show ?thesis
      proof (cases "length ?b mod sz = 0")
        case True
        have "search_loop p sz ?d n' = search_all p sz ?d n'"
          using 1(1) [OF ne refl r [symmetric] None] True 1(2) by simp
        then show ?thesis
          using ne r None True chunk_mod(2) [OF 1(2) True]
          by (subst search_loop.simps) (simp add: Let_def search_all_def split)
      next
        case False
        have d: "?d = []" "length m mod sz \<noteq> 0" using chunk_mod(1) [OF 1(2) False] by auto
        have "recs sz ?d = []" using d(1) 1(2) by (simp add: recs_short)
        then have "recs sz m = recs sz ?b" using split(1) by simp
        then show ?thesis
          using ne r None False d(2) by (subst search_loop.simps) (simp add: Let_def search_all_def)
      qed
    qed
  qed
qed

section \<open>What a deletion leaves\<close>

definition del_nth :: "'a list \<Rightarrow> nat \<Rightarrow> 'a list" where
  "del_nth xs i = take i xs @ drop (Suc i) xs"

lemma keep_all_but:
  "map (\<lambda>k. rs ! (k - 1)) (filter (\<lambda>k. idn \<noteq> int k) [1..<Suc (length rs)])
     = (if 0 < idn \<and> idn \<le> int (length rs) then del_nth rs (nat idn - 1) else rs)"
proof (induction rs rule: rev_induct)
  case Nil
  then show ?case by auto
next
  case (snoc r rs)
  let ?old = "filter (\<lambda>k. idn \<noteq> int k) [1..<Suc (length rs)]"
  have up: "[1..<Suc (length (rs @ [r]))] = [1..<Suc (length rs)] @ [Suc (length rs)]" by simp
  have "map (\<lambda>k. (rs @ [r]) ! (k - 1)) ?old = map (\<lambda>k. rs ! (k - 1)) ?old"
    by (intro map_cong) (auto simp: nth_append)
  also have "\<dots> = (if 0 < idn \<and> idn \<le> int (length rs) then del_nth rs (nat idn - 1) else rs)"
    by (rule snoc.IH)
  finally have old: "map (\<lambda>k. (rs @ [r]) ! (k - 1)) ?old
      = (if 0 < idn \<and> idn \<le> int (length rs) then del_nth rs (nat idn - 1) else rs)" .
  show ?case
    unfolding up filter_append map_append old
    by (auto simp: del_nth_def nth_append nat_diff_distrib' not_le)
qed

lemma tmpfilename_distinct:
  assumes "tmpfilename f = (t, d)"
  shows "t \<noteq> d"
  using assms by (auto simp: tmpfilename_def split: option.splits)

lemma delete_record_ok:
  assumes "fs f = Some m" "tmpfilename f = (t, d)" "fs t = None" "f \<noteq> t" "f \<noteq> d"
    "sz \<le> BUFSIZE" "8 \<le> length f" "length f < PATHLEN" "length d < PATHLEN"
    "fail_write io = None" "rename1_ok io"
  shows "delete_record io fs f sz idn =
     (let rs = recs sz m;
          new = concat (if 0 < idn \<and> idn \<le> int (length rs) then del_nth rs (nat idn - 1) else rs)
      in if rename2_ok io then Some (fs(d \<mapsto> m, f \<mapsto> new, t := None), 0)
         else Some (fs(t \<mapsto> new, d \<mapsto> m, f := None), - 1))"
proof -
  have names: "\<not> (length f < 8 \<or> PATHLEN < length f - 8)" "\<not> BUFSIZE < sz"
    "\<not> (PATHLEN \<le> length f \<or> PATHLEN \<le> length d)"
    using assms(6-9) by auto
  have td: "t \<noteq> d" by (rule tmpfilename_distinct [OF assms(2)])
  have swap: "(fs(t \<mapsto> new, d \<mapsto> m, f := None))(f \<mapsto> new, t := None) = fs(d \<mapsto> m, f \<mapsto> new, t := None)"
    for new
    using assms(3-5) td by auto
  show ?thesis
    using assms(1,3-5,10,11) names td keep_all_but [of "recs sz m" idn] swap
    by (simp add: delete_record_def assms(2) Let_def)
qed

section \<open>The contract of a record file\<close>

text \<open>A file of records that can be appended to, searched and deleted from by position.\<close>

locale record_file =
  fixes ok :: "'f \<Rightarrow> bool"
    and ok_rec :: "'r \<Rightarrow> bool"
    and recs_of :: "'f \<Rightarrow> 'r list"
    and app :: "'f \<Rightarrow> 'r \<Rightarrow> 'f"
    and del :: "'f \<Rightarrow> nat \<Rightarrow> 'f"
    and srch :: "'f \<Rightarrow> ('r \<Rightarrow> bool) \<Rightarrow> int"
  assumes app_law: "ok f \<Longrightarrow> ok_rec r \<Longrightarrow> ok (app f r) \<and> recs_of (app f r) = recs_of f @ [r]"
    and del_law: "ok f \<Longrightarrow> i < length (recs_of f) \<Longrightarrow>
      ok (del f (Suc i)) \<and> recs_of (del f (Suc i)) = del_nth (recs_of f) i"
    and srch_law: "ok f \<Longrightarrow> srch f p =
      (if \<exists>r \<in> set (recs_of f). p r then int (Suc (length (takeWhile (\<lambda>r. \<not> p r) (recs_of f)))) else 0)"
begin

lemma first_match:
  assumes "\<exists>r \<in> set (recs_of f). p r"
  shows "length (takeWhile (\<lambda>r. \<not> p r) (recs_of f)) < length (recs_of f)"
proof -
  obtain xs r ys where "recs_of f = xs @ r # ys" "p r" "\<forall>x \<in> set xs. \<not> p x"
    using split_list_first_propE [OF assms] by metis
  then show ?thesis by (simp add: takeWhile_append)
qed

lemma found_after_append: "ok f \<Longrightarrow> ok_rec r \<Longrightarrow> p r \<Longrightarrow> 0 < srch (app f r) p"
  using app_law [of f r] by (simp add: srch_law)

lemma delete_found:
  assumes "ok f" "0 < srch f p"
  shows "ok (del f (nat (srch f p)))"
    "recs_of (del f (nat (srch f p))) =
       takeWhile (\<lambda>r. \<not> p r) (recs_of f) @ tl (dropWhile (\<lambda>r. \<not> p r) (recs_of f))"
proof -
  let ?i = "length (takeWhile (\<lambda>r. \<not> p r) (recs_of f))"
  have ex: "\<exists>r \<in> set (recs_of f). p r" using assms srch_law [OF assms(1), of p] by (auto split: if_splits)
  have n: "nat (srch f p) = Suc ?i" using ex srch_law [OF assms(1), of p] by simp
  note d = del_law [OF assms(1) first_match [OF ex]]
  show "ok (del f (nat (srch f p)))" using d n by simp
  have "take ?i (recs_of f) = takeWhile (\<lambda>r. \<not> p r) (recs_of f)"
    by (simp add: takeWhile_eq_take [symmetric])
  moreover have "drop (Suc ?i) (recs_of f) = tl (dropWhile (\<lambda>r. \<not> p r) (recs_of f))"
    by (simp add: dropWhile_eq_drop tl_drop drop_Suc)
  ultimately show "recs_of (del f (nat (srch f p))) =
       takeWhile (\<lambda>r. \<not> p r) (recs_of f) @ tl (dropWhile (\<lambda>r. \<not> p r) (recs_of f))"
    using d n by (simp add: del_nth_def)
qed

lemma gone_after_delete:
  assumes "ok f" "0 < srch f p" "length (filter p (recs_of f)) \<le> 1"
  shows "srch (del f (nat (srch f p))) p = 0"
proof -
  have ex: "\<exists>r \<in> set (recs_of f). p r" using assms srch_law [OF assms(1), of p] by (auto split: if_splits)
  then obtain xs r ys where s: "recs_of f = xs @ r # ys" "p r" "\<forall>x \<in> set xs. \<not> p x"
    using split_list_first_propE [OF ex] by metis
  then have "filter p ys = []" using assms(3) by (simp add: filter_empty_conv)
  moreover have "recs_of (del f (nat (srch f p))) = xs @ ys"
    using delete_found(2) [OF assms(1,2)] s by (simp add: takeWhile_append dropWhile_append)
  ultimately show ?thesis
    using s(3) delete_found(1) [OF assms(1,2)] by (auto simp: srch_law filter_empty_conv)
qed

end

text \<open>
  The lists of friends and of rejected users are files of \<open>struct override\<close>: 13 bytes of id and 40 of
  remark.  \<open>inoverride\<close> (\<open>libythtbbs/user.c\<close>) looks an id up in one.
\<close>

definition OVERRIDE_SIZE :: nat where
  "OVERRIDE_SIZE = 53"

definition isoverride :: "cstr \<Rightarrow> byte list \<Rightarrow> bool" where
  "isoverride who r \<longleftrightarrow> strcaseeq (zstr (take 13 r)) who"

definition inoverride :: "byte list option \<Rightarrow> cstr \<Rightarrow> bool" where
  "inoverride file who \<longleftrightarrow> search_record file OVERRIDE_SIZE (isoverride who) \<noteq> 0"

definition ovr_app :: "byte list \<Rightarrow> byte list \<Rightarrow> byte list" where
  "ovr_app m r = the (fst (append_record True None (\<lambda>_. Some m) [] r) [])"

definition ovr_del :: "byte list \<Rightarrow> nat \<Rightarrow> byte list" where
  "ovr_del m i =
     (case delete_file_callback (Some m) OVERRIDE_SIZE (int i) None of
        Some (Some m', r) \<Rightarrow> m' | _ \<Rightarrow> m)"

lemma del_in_place:
  assumes "0 < sz" "length m mod sz = 0" "i < length (recs sz m)"
  shows "delete_file_callback (Some m) sz (int (Suc i)) None
     = Some (Some (concat (del_nth (recs sz m) i)), 0)"
proof -
  have i: "Suc i * sz \<le> length m"
    using assms(1,3) by (simp add: length_recs Suc_le_eq [symmetric] less_eq_div_iff_mult_less_eq)
  have a: "length (take (i * sz) m) = i * sz" using i by simp
  have b: "length (take (Suc i * sz) m) = Suc i * sz" using i by simp
  have "recs sz m = recs sz (take (i * sz) m) @ recs sz (drop (i * sz) m)"
    using recs_append [OF assms(1) a, of "drop (i * sz) m"] by simp
  moreover have la: "length (recs sz (take (i * sz) m)) = i" using a assms(1) by (simp add: length_recs)
  ultimately have ta: "take i (recs sz m) = recs sz (take (i * sz) m)" by simp
  have "recs sz m = recs sz (take (Suc i * sz) m) @ recs sz (drop (Suc i * sz) m)"
    using recs_append [OF assms(1) b, of "drop (Suc i * sz) m"] by simp
  moreover have "length (recs sz (take (Suc i * sz) m)) = Suc i" using b assms(1) by (simp add: length_recs)
  ultimately have db: "drop (Suc i) (recs sz m) = recs sz (drop (Suc i * sz) m)" by simp
  have ca: "concat (recs sz (take (i * sz) m)) = take (i * sz) m"
    using a assms(1) by (intro concat_recs) auto
  have "(length m - Suc i * sz) mod sz = 0"
  proof -
    obtain q where "length m = q * sz" using assms(2) by (metis mod_0_imp_dvd dvdE mult.commute)
    then have "length m - Suc i * sz = (q - Suc i) * sz" by (simp only: diff_mult_distrib)
    then show ?thesis by simp
  qed
  then have cb: "concat (recs sz (drop (Suc i * sz) m)) = drop (Suc i * sz) m"
    using assms(1) by (intro concat_recs) auto
  have "\<not> int (Suc i) * int sz > int (length m)" using i by (simp only: of_nat_mult [symmetric] of_nat_less_iff not_less)
  moreover have "nat (int (Suc i)) = Suc i" by (rule nat_int)
  ultimately show ?thesis
    using ca cb by (simp add: delete_file_callback_def del_nth_def ta db Let_def del: of_nat_Suc)
qed

lemma search_whole:
  assumes "0 < sz" "length m mod sz = 0"
  shows "search_record (Some m) sz p =
     (if \<exists>r \<in> set (recs sz m). p r then int (Suc (length (takeWhile (\<lambda>r. \<not> p r) (recs sz m)))) else 0)"
proof -
  have "find p (recs sz m) = None \<longleftrightarrow> \<not> (\<exists>r \<in> set (recs sz m). p r)" by (auto simp: find_None_iff)
  then show ?thesis
    using assms by (auto simp: search_record_def search_loop_all search_all_def search_buf_find Let_def
        split: option.splits)
qed

interpretation ovr: record_file "\<lambda>m. length m mod OVERRIDE_SIZE = 0" "\<lambda>r. length r = OVERRIDE_SIZE"
  "recs OVERRIDE_SIZE" ovr_app ovr_del "\<lambda>m p. search_record (Some m) OVERRIDE_SIZE p"
proof
  have pos: "0 < OVERRIDE_SIZE" by (simp add: OVERRIDE_SIZE_def)
  fix m :: "byte list"
  assume m: "length m mod OVERRIDE_SIZE = 0"
  then obtain k where k: "length m = k * OVERRIDE_SIZE" by (metis mod_0_imp_dvd dvdE mult.commute)
  show "length (ovr_app m r) mod OVERRIDE_SIZE = 0 \<and>
      recs OVERRIDE_SIZE (ovr_app m r) = recs OVERRIDE_SIZE m @ [r]" if "length r = OVERRIDE_SIZE" for r
    using recs_append [OF pos k, of r] recs_concat [OF pos, of "[r]"] that m
    by (simp add: ovr_app_def append_record_def)
  show "length (ovr_del m (Suc i)) mod OVERRIDE_SIZE = 0 \<and>
      recs OVERRIDE_SIZE (ovr_del m (Suc i)) = del_nth (recs OVERRIDE_SIZE m) i"
    if "i < length (recs OVERRIDE_SIZE m)" for i
  proof -
    let ?rs = "del_nth (recs OVERRIDE_SIZE m) i"
    have sz: "\<forall>r \<in> set ?rs. length r = OVERRIDE_SIZE"
      using recs_size [of _ OVERRIDE_SIZE m] by (auto simp: del_nth_def dest: in_set_takeD in_set_dropD)
    then have "length (concat ?rs) = length ?rs * OVERRIDE_SIZE"
      by (rule length_concat_const)
    then show ?thesis
      using del_in_place [OF pos m that] recs_concat [OF pos sz] by (simp add: ovr_del_def)
  qed
  show "search_record (Some m) OVERRIDE_SIZE p =
     (if \<exists>r \<in> set (recs OVERRIDE_SIZE m). p r
      then int (Suc (length (takeWhile (\<lambda>r. \<not> p r) (recs OVERRIDE_SIZE m)))) else 0)" for p
    by (rule search_whole [OF pos m])
qed

section \<open>Properties of record files\<close>

definition two_friends :: "byte list" where
  "two_friends = pad0 53 (lit ''lepton'') @ pad0 53 (lit ''ylsdd'')"

lemma two_friends_recs: "recs OVERRIDE_SIZE two_friends = [pad0 53 (lit ''lepton''), pad0 53 (lit ''ylsdd'')]"
  using recs_concat [of 53 "[pad0 53 (lit ''lepton''), pad0 53 (lit ''ylsdd'')]"]
  by (simp add: two_friends_def OVERRIDE_SIZE_def pad0_def)

text \<open>
  The buffered walk of \<open>new_apply_record\<close> gives the callback every whole record of the file once
  and in order, whatever the number of buffers, stops at the first positive answer with that answer,
  and reports -1 exactly for a file that ends in a partial record.
\<close>

theorem apply_record_visits_all:
  assumes "0 < sz"
  shows "new_apply_record (Some m) sz f a =
     (case apply_buf f (recs sz m) a of
        (Some v, a') \<Rightarrow> (v, a')
      | (None, a') \<Rightarrow> (if length m mod sz \<noteq> 0 then - 1 else 0, a'))"
  using apply_loop_all [OF assms, of f m a] by (simp add: new_apply_record_def apply_all_def)

lemma apply_record_visits_all_witness:
  "new_apply_record (Some two_friends) 53 (\<lambda>r n. (0, Suc n)) 0 = (0, 2)"
  using apply_record_visits_all [of 53 two_friends "\<lambda>r n. (0, Suc n)" 0] two_friends_recs
  by (simp add: OVERRIDE_SIZE_def) (simp add: two_friends_def pad0_def)

text \<open>
  \<open>delete_record\<close> removes the named record and no other (a number that names no record removes
  none), keeps the old file as \<open>.deleted\<close> and leaves no temporary file behind; when the second rename
  fails the file itself is missing afterwards.
\<close>

theorem delete_record_removes:
  assumes "fs f = Some m" "tmpfilename f = (t, d)" "fs t = None" "f \<noteq> t" "f \<noteq> d" "0 < sz"
    "sz \<le> BUFSIZE" "8 \<le> length f" "length f < PATHLEN" "length d < PATHLEN"
    "fail_write io = None" "rename1_ok io"
  shows "\<exists>fs' r. delete_record io fs f sz idn = Some (fs', r) \<and>
     (if rename2_ok io
      then r = 0 \<and> fs' d = Some m \<and> fs' t = None \<and> (\<forall>x. x \<notin> {f, d, t} \<longrightarrow> fs' x = fs x) \<and>
           (\<exists>new. fs' f = Some new \<and> recs sz new =
             (if 0 < idn \<and> idn \<le> int (length (recs sz m))
              then take (nat idn - 1) (recs sz m) @ drop (nat idn) (recs sz m) else recs sz m))
      else r = - 1 \<and> fs' f = None \<and> fs' d = Some m \<and> fs' t \<noteq> None)"
proof -
  let ?rs = "recs sz m"
  let ?new = "if 0 < idn \<and> idn \<le> int (length ?rs) then del_nth ?rs (nat idn - 1) else ?rs"
  have "\<forall>r \<in> set ?new. length r = sz"
    using recs_size [of _ sz m] by (auto simp: del_nth_def dest: in_set_takeD in_set_dropD)
  then have new: "recs sz (concat ?new) = ?new" by (rule recs_concat [OF assms(6)])
  have td: "t \<noteq> d" by (rule tmpfilename_distinct [OF assms(2)])
  have nth: "0 < idn \<Longrightarrow> Suc (nat idn - 1) = nat idn" by simp
  show ?thesis
    using delete_record_ok [OF assms(1-5,7-12), of idn] new assms(3-5) td nth
    by (auto simp: Let_def del_nth_def split: if_splits)
qed

lemma delete_record_removes_witness:
  "\<exists>fs' new. delete_record \<lparr>fail_write = None, rename1_ok = True, rename2_ok = True\<rparr>
       [lit ''home/friends'' \<mapsto> two_friends] (lit ''home/friends'') 53 1 = Some (fs', 0)
     \<and> fs' (lit ''home/friends'') = Some new \<and> recs 53 new = [pad0 53 (lit ''ylsdd'')]"
proof -
  have t: "tmpfilename (lit ''home/friends'') = (lit ''home/.tmpfile'', lit ''home/.deleted'')"
    by (simp add: tmpfilename_def)
  have r: "recs 53 two_friends = [pad0 53 (lit ''lepton''), pad0 53 (lit ''ylsdd'')]"
    using two_friends_recs by (simp add: OVERRIDE_SIZE_def)
  show ?thesis
    using delete_record_removes [OF _ t, of "[lit ''home/friends'' \<mapsto> two_friends]" two_friends 53
        "\<lparr>fail_write = None, rename1_ok = True, rename2_ok = True\<rparr>" 1]
    by (auto simp: r BUFSIZE_def PATHLEN_def)
qed

text \<open>
  A friend or reject list behaves like a set of ids under the file operations: an id appended is
  found by \<open>inoverride\<close>, and removing the record the search finds, when the id was listed once, makes
  it unknown again.
\<close>

theorem override_list:
  assumes "length m mod OVERRIDE_SIZE = 0" "length r = OVERRIDE_SIZE" "isoverride who r"
  shows "inoverride (Some (ovr_app m r)) who
     \<and> (length (filter (isoverride who) (recs OVERRIDE_SIZE m)) = 1 \<longrightarrow>
          \<not> inoverride (Some (ovr_del m (nat (search_record (Some m) OVERRIDE_SIZE (isoverride who))))) who)"
proof (intro conjI impI)
  show "inoverride (Some (ovr_app m r)) who"
    using ovr.found_after_append [OF assms(1,2), where p = "isoverride who", OF assms(3)]
    by (simp add: inoverride_def)
  assume one: "length (filter (isoverride who) (recs OVERRIDE_SIZE m)) = 1"
  then have "\<exists>r \<in> set (recs OVERRIDE_SIZE m). isoverride who r"
    by (metis One_nat_def filter_False length_greater_0_conv less_numeral_extra(1))
  then have "0 < search_record (Some m) OVERRIDE_SIZE (isoverride who)"
    using ovr.srch_law [OF assms(1), of "isoverride who"] by simp
  from ovr.gone_after_delete [OF assms(1) this] one
  show "\<not> inoverride (Some (ovr_del m (nat (search_record (Some m) OVERRIDE_SIZE (isoverride who))))) who"
    by (simp add: inoverride_def)
qed

lemma override_list_witness:
  "inoverride (Some (ovr_app two_friends (pad0 53 (lit ''deli'')))) (lit ''Deli'')"
proof -
  have a: "length two_friends mod OVERRIDE_SIZE = 0" "length (pad0 53 (lit ''deli'')) = OVERRIDE_SIZE"
    by (simp_all add: two_friends_def pad0_def OVERRIDE_SIZE_def)
  have b: "isoverride (lit ''Deli'') (pad0 53 (lit ''deli''))"
    by (simp add: isoverride_def pad0_def zstr_def strcaseeq_def tolower_def isupper_def
        takeWhile_replicate)
  show ?thesis by (rule override_list [OF a b, THEN conjunct1])
qed

text \<open>\<open>inoverride\<close> takes the error result of the search for a hit: in a damaged file everybody is listed.\<close>

lemma inoverride_damaged:
  "m \<noteq> [] \<Longrightarrow> length m < OVERRIDE_SIZE \<Longrightarrow> inoverride (Some m) who"
  by (simp add: inoverride_def search_record_def search_loop_all OVERRIDE_SIZE_def search_all_def recs_short)

end
