(* ===== verification/Utmp.thy ===== *)
theory Utmp
  imports UserHash CLib
begin

text \<open>
  The table of online users in shared memory (\<open>struct UTMPFILE\<close> and \<open>struct UINDEX\<close>):
  \<open>queryUIndex\<close>, \<open>update_max_online\<close>, \<open>add_uindex\<close>, \<open>remove_uindex\<close>, \<open>utmp_kickidle\<close>,
  \<open>utmp_login\<close> and \<open>utmp_logout\<close> of \<open>libythtbbs/bbsinfo.c\<close> with \<open>isreject\<close> and \<open>utmp_iphash\<close> of
  \<open>libythtbbs/uinfo.c\<close>.  Free entries and the entries of web guests are chained through
  \<open>guesthash_next\<close>, with the free list under head 0.  The sizes \<open>MAXACTIVE\<close>, \<open>MAXACTIVERUN\<close> and
  \<open>MAXUSERS\<close> come from the configuration.
\<close>

section \<open>Addresses\<close>

text \<open>\<open>inet_aton\<close>: one to four numbers, decimal, octal or hexadecimal; blanks may follow.\<close>

definition digit_of :: "nat \<Rightarrow> byte \<Rightarrow> nat option" where
  "digit_of base c =
     (let v = (if isdigit c then unat c - 48
               else if islower c then unat c - 97 + 10
               else if isupper c then unat c - 65 + 10 else base)
      in if v < base then Some v else None)"

fun num_val :: "nat \<Rightarrow> nat \<Rightarrow> cstr \<Rightarrow> nat option" where
  "num_val base v [] = Some v"
| "num_val base v (c # s) =
     (case digit_of base c of None \<Rightarrow> None | Some d \<Rightarrow> num_val base (base * v + d) s)"

definition part_val :: "cstr \<Rightarrow> nat option" where
  "part_val s =
     (case s of
        [] \<Rightarrow> None
      | c # s' \<Rightarrow>
          if \<not> isdigit c then None
          else if c = 48
          then (case s' of
                  [] \<Rightarrow> Some 0
                | x # s'' \<Rightarrow> if x = 120 \<or> x = 88 then num_val 16 0 s'' else num_val 8 0 s')
          else num_val 10 0 s)"

function split_dots :: "cstr \<Rightarrow> cstr list" where
  "split_dots s = (case strchr s 46 of None \<Rightarrow> [s] | Some i \<Rightarrow> take i s # split_dots (drop (i + 1) s))"
  by pat_completeness auto
termination
  by (relation "measure length") (auto dest: strchr_Some)

declare split_dots.simps [simp del]

definition isspace :: "byte \<Rightarrow> bool" where
  "isspace c \<longleftrightarrow> c = 32 \<or> (9 \<le> c \<and> c \<le> 13)"

text \<open>The address in host order.\<close>

definition inet_value :: "cstr \<Rightarrow> nat option" where
  "inet_value s =
     (let ps = split_dots (takeWhile (\<lambda>c. \<not> isspace c) s); vs = map part_val ps; n = length ps in
      if n > 4 \<or> None \<in> set vs then None
      else let xs = map the vs in
           if (\<forall>x \<in> set (butlast xs). x \<le> 255) \<and> last xs < 256 ^ (5 - n)
           then Some (foldl (\<lambda>a x. 256 * a + x) 0 (butlast xs) * 256 ^ (5 - n) + last xs)
           else None)"

text \<open>\<open>s_addr\<close> holds it in network order, which a little-endian machine reads reversed.\<close>

definition swap4 :: "nat \<Rightarrow> nat" where
  "swap4 v = (v mod 256) * 256 ^ 3 + (v div 256 mod 256) * 256 ^ 2 + (v div 256 ^ 2 mod 256) * 256
     + v div 256 ^ 3 mod 256"

definition UTMPHASH_SIZE :: nat where
  "UTMPHASH_SIZE = 4099"

text \<open>\<open>junk\<close> is what the local variable holds when \<open>inet_aton\<close> refuses the string.\<close>

definition utmp_iphash :: "nat \<Rightarrow> cstr \<Rightarrow> nat" where
  "utmp_iphash junk host =
     (case inet_value host of Some v \<Rightarrow> swap4 v | None \<Rightarrow> junk) mod UTMPHASH_SIZE + 1"

section \<open>State\<close>

definition MAXREJECTS :: nat where
  "MAXREJECTS = 32"

text \<open>The fields of \<open>struct user_info\<close> this code looks at or changes.\<close>

record user_info =
  active :: int
  uid :: int
  pid :: int
  invisible :: int
  sockactive :: int
  sockaddr :: int
  destuid :: int
  lasttime :: int
  ulevel :: "32 word"
  fromhost :: cstr
  uname :: cstr
  reject :: "int list"
  iskicked :: bool

record utmpshm =
  uinfo :: "nat \<Rightarrow> user_info"
  guest_head :: "nat \<Rightarrow> nat"
  guest_next :: "nat \<Rightarrow> nat"
  uptime :: int
  activeuser :: int
  maxuser :: int
  maxtoday :: int
  wwwguestnum :: int
  uindex :: "nat \<Rightarrow> nat list"

text \<open>What the functions read besides: the configuration, the guest account, the clock, the processes.\<close>

record utmp_env =
  maxactive :: nat
  maxactiverun :: nat
  maxusers :: nat
  guest_uid :: int
  now :: int
  alive :: "int \<Rightarrow> bool"
  addr_junk :: nat

definition PERM_SYSOP :: "32 word" where "PERM_SYSOP = 0x4000"
definition PERM_SEECLOAK :: "32 word" where "PERM_SEECLOAK = 0x80"

definition userperm :: "user_info \<Rightarrow> 32 word \<Rightarrow> bool" where
  "userperm u lev \<longleftrightarrow> (lev = 0 \<or> ulevel u AND lev \<noteq> 0)"

section \<open>The index of a user's sessions\<close>

fun reject_scan :: "int list \<Rightarrow> nat \<Rightarrow> int \<Rightarrow> bool" where
  "reject_scan rs 0 who = False"
| "reject_scan [] (Suc n) who = False"
| "reject_scan (r # rs) (Suc n) who = (r \<noteq> 0 \<and> (r = who \<or> reject_scan rs n who))"

definition isreject :: "user_info \<Rightarrow> user_info \<Rightarrow> bool" where
  "isreject u reader =
     (if userperm reader PERM_SYSOP then False
      else if uid u = uid reader then False
      else reject_scan (reject u) MAXREJECTS (uid reader)
           \<or> reject_scan (reject reader) MAXREJECTS (uid u))"

text \<open>\<open>queryUIndex\<close>: the entry found, 1-based, or 0 for \<open>NULL\<close>.\<close>

fun query_scan :: "(nat \<Rightarrow> user_info) \<Rightarrow> int \<Rightarrow> user_info option \<Rightarrow> int \<Rightarrow> bool \<Rightarrow> nat list \<Rightarrow> nat" where
  "query_scan info u reader p tested [] = 0"
| "query_scan info u reader p tested (e # es) =
     (if e = 0 then query_scan info u reader p tested es
      else let x = info (e - 1) in
        if active x = 0 \<or> pid x = 0 \<or> uid x \<noteq> u then query_scan info u reader p tested es
        else if p \<noteq> 0 \<and> pid x \<noteq> p then query_scan info u reader p tested es
        else case reader of
          None \<Rightarrow> e
        | Some r \<Rightarrow>
            if \<not> tested \<and> isreject x r then 0
            else if invisible x \<noteq> 0 \<and> \<not> userperm r (PERM_SYSOP OR PERM_SEECLOAK)
            then query_scan info u reader p True es
            else e)"

definition queryUIndex :: "utmp_env \<Rightarrow> utmpshm \<Rightarrow> int \<Rightarrow> user_info option \<Rightarrow> int \<Rightarrow> nat" where
  "queryUIndex env s u reader p =
     (if u \<le> 0 \<or> u > int (maxusers env) then 0
      else query_scan (uinfo s) u reader p False (uindex s (nat (u - 1))))"

fun put_first :: "(nat \<Rightarrow> bool) \<Rightarrow> nat list \<Rightarrow> nat \<Rightarrow> nat list" where
  "put_first free [] e = []"
| "put_first free (x # xs) e = (if free x then e # xs else x # put_first free xs e)"

definition add_uindex :: "utmp_env \<Rightarrow> utmpshm \<Rightarrow> int \<Rightarrow> nat \<Rightarrow> utmpshm" where
  "add_uindex env s u ent =
     (if u \<le> 0 \<or> u > int (maxusers env) \<or> u = guest_uid env then s
      else let k = nat (u - 1); es = uindex s k in
        if ent \<in> set es then s
        else s\<lparr>uindex := (uindex s)(k := put_first
               (\<lambda>e. e = 0 \<or> active (uinfo s (e - 1)) = 0 \<or> uid (uinfo s (e - 1)) \<noteq> u) es ent)\<rparr>)"

definition remove_uindex :: "utmp_env \<Rightarrow> utmpshm \<Rightarrow> int \<Rightarrow> nat \<Rightarrow> utmpshm" where
  "remove_uindex env s u ent =
     (if u \<le> 0 \<or> u > int (maxusers env) \<or> u = guest_uid env then s
      else let k = nat (u - 1)
           in s\<lparr>uindex := (uindex s)(k := put_first (\<lambda>e. e = ent) (uindex s k) 0)\<rparr>)"

section \<open>Login, logout and idle sessions\<close>

text \<open>\<open>update_max_online\<close>; \<open>mfile\<close> is the number in \<open>.max_login_num\<close>, if the file exists.\<close>

definition update_max_online :: "int option \<Rightarrow> utmpshm \<Rightarrow> utmpshm \<times> int option" where
  "update_max_online mfile s =
     (if activeuser s \<le> maxtoday s then (s, mfile)
      else let s1 = s\<lparr>maxtoday := activeuser s\<rparr> in
        if activeuser s1 \<le> maxuser s1 then (s1, mfile)
        else let s2 = s1\<lparr>maxuser := activeuser s1\<rparr> in
          case mfile of
            None \<Rightarrow> (s2, Some (maxuser s2))
          | Some t \<Rightarrow> if t > maxuser s2 then (s2\<lparr>maxuser := t\<rparr>, mfile) else (s2, Some (maxuser s2)))"

definition www_guest :: "user_info \<Rightarrow> bool" where
  "www_guest u \<longleftrightarrow> strcaseeq (uname u) (lit ''guest'') \<and> pid u = 1"

text \<open>Taking an entry out of its guest chain: the loop from entry \<open>i\<close> on.\<close>

partial_function (option) guest_unlink :: "(nat \<Rightarrow> nat) \<Rightarrow> nat \<Rightarrow> nat \<Rightarrow> (nat \<Rightarrow> nat) option" where
  "guest_unlink nx i t =
     (if nx i = 0 then Some nx
      else if nx i = t then Some (nx(i := nx t))
      else guest_unlink nx (nx i) t)"

text \<open>An entry that \<open>utmp_kickidle\<close> leaves alone.\<close>

definition keeps :: "utmp_env \<Rightarrow> user_info \<Rightarrow> bool" where
  "keeps env u \<longleftrightarrow> pid u = 0 \<or> active u = 0
     \<or> (pid u = 1 \<and> now env - lasttime u < 20 * 60 \<and> \<not> iskicked u)
     \<or> (pid u > 1 \<and> now env - lasttime u < 120)
     \<or> (pid u > 1 \<and> alive env (pid u))"

definition cleared :: "user_info \<Rightarrow> user_info" where
  "cleared u = u\<lparr>active := 0, pid := 0, invisible := 1, sockactive := 0, sockaddr := 0,
                 destuid := 0, lasttime := 0\<rparr>"

definition kick_entry :: "utmp_env \<Rightarrow> utmpshm \<Rightarrow> nat \<Rightarrow> utmpshm option" where
  "kick_entry env s n =
     (let u = uinfo s n in
      if keeps env u then Some s
      else case (if www_guest u
                 then let h = utmp_iphash (addr_junk env) (fromhost u); i = guest_head s h in
                      if i = n + 1
                      then Some (s\<lparr>guest_head := (guest_head s)(h := guest_next s i),
                                   wwwguestnum := wwwguestnum s - 1\<rparr>)
                      else map_option (\<lambda>nx. s\<lparr>guest_next := nx, wwwguestnum := wwwguestnum s - 1\<rparr>)
                             (guest_unlink (guest_next s) i (n + 1))
                 else Some s) of
             None \<Rightarrow> None
           | Some s1 \<Rightarrow>
               let s2 = s1\<lparr>guest_next := (guest_next s1)(n + 1 := guest_head s1 0),
                           guest_head := (guest_head s1)(0 := n + 1),
                           activeuser := activeuser s1 - 1\<rparr>;
                   s3 = remove_uindex env s2 (uid u) (n + 1)
               in Some (s3\<lparr>uinfo := (uinfo s3)(n := cleared u)\<rparr>))"

fun kick_from :: "utmp_env \<Rightarrow> nat \<Rightarrow> nat \<Rightarrow> utmpshm \<Rightarrow> utmpshm option" where
  "kick_from env n 0 s = Some s"
| "kick_from env n (Suc k) s =
     (case kick_entry env s n of None \<Rightarrow> None | Some s' \<Rightarrow> kick_from env (Suc n) k s')"

definition utmp_kickidle :: "utmp_env \<Rightarrow> utmpshm \<Rightarrow> utmpshm option" where
  "utmp_kickidle env s =
     (if now env < uptime s + 60 \<and> now env \<ge> uptime s then Some s
      else kick_from env 0 (maxactive env) (s\<lparr>uptime := now env\<rparr>))"

definition utmp_login ::
  "utmp_env \<Rightarrow> int option \<Rightarrow> utmpshm \<Rightarrow> user_info \<Rightarrow> (utmpshm \<times> int option \<times> int) option" where
  "utmp_login env mfile s up =
     (let j = guest_head s 0 in
      if j = 0 \<or> maxactiverun env < j then Some (s, mfile, - 1)
      else let u = uinfo s (j - 1) in
        if active u \<noteq> 0 \<and> pid u \<noteq> 0 then Some (s, mfile, - 1)
        else let s1 = s\<lparr>guest_head := (guest_head s)(0 := guest_next s j),
                        guest_next := (guest_next s)(j := 0),
                        uinfo := (uinfo s)(j - 1 := up), activeuser := activeuser s + 1\<rparr>;
                 (s2, mfile') = update_max_online mfile s1;
                 s3 = add_uindex env s2 (uid up) j;
                 s4 = (if www_guest up
                       then let h = utmp_iphash (addr_junk env) (fromhost up)
                            in s3\<lparr>guest_next := (guest_next s3)(j := guest_head s3 h),
                                  guest_head := (guest_head s3)(h := j),
                                  wwwguestnum := wwwguestnum s3 + 1\<rparr>
                       else s3)
             in map_option (\<lambda>s5. (s5, mfile', int j)) (utmp_kickidle env s4))"

text \<open>
  \<open>utmp_logout\<close>: the state and the caller's entry number, which is -1 afterwards.  An entry number
  of 0 reads in front of the table (\<open>None\<close>).
\<close>

definition utmp_logout :: "utmp_env \<Rightarrow> utmpshm \<Rightarrow> int \<Rightarrow> user_info \<Rightarrow> (utmpshm \<times> int) option" where
  "utmp_logout env s ent up =
     (if ent < 0 then Some (s, - 1)
      else if ent = 0 then None
      else let e = nat ent in
        if active (uinfo s (e - 1)) = 0 then Some (s, - 1)
        else let s1 = remove_uindex env s (uid (uinfo s (e - 1))) e
             in Some (s1\<lparr>uinfo := (uinfo s1)(e - 1 := up),
                         guest_next := (guest_next s1)(e := guest_head s1 0),
                         guest_head := (guest_head s1)(0 := e),
                         activeuser := activeuser s1 - 1\<rparr>, - 1))"

section \<open>Chains under the three changes\<close>

definition chains :: "(nat \<Rightarrow> nat) \<Rightarrow> (nat \<Rightarrow> nat) \<Rightarrow> (nat \<Rightarrow> nat list) \<Rightarrow> bool" where
  "chains nx hds cs \<longleftrightarrow> (\<forall>h. chain nx (hds h) (cs h) \<and> distinct (cs h))"

lemma chainsD: "chains nx hds cs \<Longrightarrow> chain nx (hds k) (cs k) \<and> distinct (cs k)"
  by (simp add: chains_def)

lemma chains_push:
  assumes "chains nx hds cs" "\<forall>h. e \<notin> set (cs h)" "e \<noteq> 0"
  shows "chains (nx(e := hds k)) (hds(k := e)) (cs(k := e # cs k))"
  using assms by (auto simp: chains_def)

lemma chains_pop:
  assumes "chains nx hds cs" "cs k = e # r" "\<forall>h. h \<noteq> k \<longrightarrow> e \<notin> set (cs h)"
  shows "chains (nx(e := x)) (hds(k := nx e)) (cs(k := r))" "hds k = e"
proof -
  have k: "chain nx (hds k) (e # r)" "distinct (e # r)" using chainsD [OF assms(1), of k] assms(2) by auto
  show "hds k = e" using k(1) by simp
  have "chain (nx(e := x)) ((hds(k := nx e)) h) ((cs(k := r)) h) \<and> distinct ((cs(k := r)) h)" for h
    using assms(1,3) k by (cases "h = k") (auto simp: chains_def)
  then show "chains (nx(e := x)) (hds(k := nx e)) (cs(k := r))" by (simp add: chains_def)
qed

lemma guest_unlink_chain:
  "chain nx i (i # xs) \<Longrightarrow> distinct (i # xs) \<Longrightarrow> t \<in> set xs \<Longrightarrow>
   \<exists>p nx'. guest_unlink nx i t = Some nx' \<and> nx' = nx(p := nx t) \<and> p \<in> set (i # xs)
     \<and> chain nx' i (i # remove1 t xs)"
proof (induction xs arbitrary: i)
  case (Cons x xs)
  have x: "nx i = x" "x \<noteq> 0" "i \<noteq> 0" "i \<noteq> x" "chain nx (nx x) xs" using Cons.prems by auto
  show ?case
  proof (cases "x = t")
    case True
    have "guest_unlink nx i t = Some (nx(i := nx t))"
      using x True by (subst guest_unlink.simps) simp
    moreover have "chain (nx(i := nx t)) i (i # xs)"
      using x True Cons.prems(2) by simp
    ultimately show ?thesis using True by (intro exI [of _ i]) auto
  next
    case False
    obtain p nx' where p: "guest_unlink nx x t = Some nx'" "nx' = nx(p := nx t)" "p \<in> set (x # xs)"
      "chain nx' x (x # remove1 t xs)"
    proof -
      have "chain nx x (x # xs)" "distinct (x # xs)" "t \<in> set xs" using Cons.prems x False by auto
      then show ?thesis using Cons.IH [of x] that by blast
    qed
    have "guest_unlink nx i t = Some nx'" using x False p(1) by (subst guest_unlink.simps) simp
    moreover have "nx' i = x" using p(2,3) Cons.prems(2) x by auto
    then have "chain nx' i (i # remove1 t (x # xs))" using p(4) x(3) False by simp
    moreover have "p \<in> set (i # x # xs)" using p(3) by auto
    ultimately show ?thesis using p(2) by blast
  qed
qed simp

lemma chains_unlink:
  assumes "chains nx hds cs" "e \<in> set (cs k)" "hds k \<noteq> e"
    "\<forall>h h' x. x \<in> set (cs h) \<longrightarrow> x \<in> set (cs h') \<longrightarrow> h = h'"
  shows "\<exists>nx'. guest_unlink nx (hds k) e = Some nx' \<and> chains nx' hds (cs(k := remove1 e (cs k)))"
proof -
  obtain i xs where c: "cs k = i # xs" using assms(2) by (cases "cs k") auto
  have k: "chain nx (hds k) (i # xs)" "distinct (i # xs)" using chainsD [OF assms(1), of k] c by auto
  then have i: "hds k = i" by simp
  obtain p nx' where p: "guest_unlink nx i e = Some nx'" "nx' = nx(p := nx e)" "p \<in> set (i # xs)"
    "chain nx' i (i # remove1 e xs)"
    using guest_unlink_chain [of nx i xs e] k i assms(2,3) c by auto
  have "chain nx' (hds h) ((cs(k := remove1 e (cs k))) h) \<and> distinct ((cs(k := remove1 e (cs k))) h)" for h
  proof (cases "h = k")
    case True
    then show ?thesis using p(4) i c k(2) assms(3) by auto
  next
    case False
    then have "p \<notin> set (cs h)" using assms(4) p(3) c by (metis)
    then show ?thesis using False assms(1) p(2) by (simp add: chains_def)
  qed
  then show ?thesis using p(1) i by (auto simp: chains_def)
qed

section \<open>The invariant\<close>

text \<open>The list an entry belongs to: the free list, the chain of its address, or none.\<close>

definition place :: "nat \<Rightarrow> user_info \<Rightarrow> nat option" where
  "place junk u = (if active u = 0 then Some 0
                   else if www_guest u then Some (utmp_iphash junk (fromhost u)) else None)"

definition is_on :: "user_info \<Rightarrow> bool" where
  "is_on u \<longleftrightarrow> active u \<noteq> 0"

definition um_rep :: "utmp_env \<Rightarrow> utmpshm \<Rightarrow> (nat \<Rightarrow> nat list) \<Rightarrow> bool" where
  "um_rep env s cs \<longleftrightarrow>
     chains (guest_next s) (guest_head s) cs
     \<and> (\<forall>h. set (cs h) = {e. 0 < e \<and> e \<le> maxactive env \<and> place (addr_junk env) (uinfo s (e - 1)) = Some h})
     \<and> (\<exists>xs. cs 0 = xs @ [Suc (maxactiverun env)..<Suc (maxactive env)])
     \<and> (\<forall>n. maxactiverun env \<le> n \<longrightarrow> \<not> is_on (uinfo s n))
     \<and> activeuser s = int (card {n. n < maxactiverun env \<and> is_on (uinfo s n)})
     \<and> wwwguestnum s = int (card {n. n < maxactiverun env \<and> is_on (uinfo s n) \<and> www_guest (uinfo s n)})"

definition um_inv :: "utmp_env \<Rightarrow> utmpshm \<Rightarrow> bool" where
  "um_inv env s \<longleftrightarrow> maxactiverun env \<le> maxactive env \<and> (\<exists>cs. um_rep env s cs)"

lemma iphash_pos: "utmp_iphash junk h \<noteq> 0"
  by (simp add: utmp_iphash_def)

lemma place_0: "place junk u = Some 0 \<longleftrightarrow> \<not> is_on u"
  using iphash_pos by (auto simp: place_def is_on_def)

lemma um_rep_disjoint:
  "um_rep env s cs \<Longrightarrow> \<forall>h h' x. x \<in> set (cs h) \<longrightarrow> x \<in> set (cs h') \<longrightarrow> h = h'"
  by (simp add: um_rep_def)

lemma um_rep_mem: "um_rep env s cs \<Longrightarrow> e \<in> set (cs h) \<longleftrightarrow>
    0 < e \<and> e \<le> maxactive env \<and> place (addr_junk env) (uinfo s (e - 1)) = Some h"
  by (simp add: um_rep_def)

text \<open>The counters when one entry changes.\<close>

lemma card_count_update:
  fixes info :: "nat \<Rightarrow> user_info"
  assumes "n < run"
  shows "int (card {m. m < run \<and> P ((info(n := u)) m)})
    = int (card {m. m < run \<and> P (info m)}) - (if P (info n) then 1 else 0) + (if P u then 1 else 0)"
proof -
  let ?A = "{m. m < run \<and> P (info m)}" and ?B = "{m. m < run \<and> P ((info(n := u)) m)}"
  let ?C = "{m. m < run \<and> m \<noteq> n \<and> P (info m)}"
  have fin: "finite ?C" "n \<notin> ?C" by auto
  have "?A = (if P (info n) then insert n ?C else ?C)" "?B = (if P u then insert n ?C else ?C)"
    using assms by auto
  then show ?thesis using fin by simp
qed

text \<open>The part of a state the chains and counters depend on.\<close>

lemma um_rep_cong:
  assumes "uinfo s' = uinfo s" "guest_head s' = guest_head s" "guest_next s' = guest_next s"
    "activeuser s' = activeuser s" "wwwguestnum s' = wwwguestnum s"
  shows "um_rep env s' cs \<longleftrightarrow> um_rep env s cs"
  using assms by (simp add: um_rep_def)

lemma uindex_frame [simp]:
  "uinfo (add_uindex env s u e) = uinfo s" "guest_head (add_uindex env s u e) = guest_head s"
  "guest_next (add_uindex env s u e) = guest_next s" "activeuser (add_uindex env s u e) = activeuser s"
  "wwwguestnum (add_uindex env s u e) = wwwguestnum s"
  "uinfo (remove_uindex env s u e) = uinfo s" "guest_head (remove_uindex env s u e) = guest_head s"
  "guest_next (remove_uindex env s u e) = guest_next s"
  "activeuser (remove_uindex env s u e) = activeuser s"
  "wwwguestnum (remove_uindex env s u e) = wwwguestnum s"
  by (simp_all add: add_uindex_def remove_uindex_def Let_def)

lemma max_online_frame:
  assumes "update_max_online mf s = (s', mf')"
  shows "uinfo s' = uinfo s" "guest_head s' = guest_head s" "guest_next s' = guest_next s"
    "activeuser s' = activeuser s" "wwwguestnum s' = wwwguestnum s" "uindex s' = uindex s"
  using assms by (auto simp: update_max_online_def Let_def split: if_splits option.splits)

text \<open>One entry changes its state and moves between lists.\<close>

lemma um_rep_move:
  assumes "um_rep env s cs" "0 < e" "e \<le> maxactiverun env" "maxactiverun env \<le> maxactive env"
    "chains nx hds cs'"
    "\<And>h. set (cs' h) = (set (cs h) - {e}) \<union> (if place (addr_junk env) u = Some h then {e} else {})"
    "\<exists>xs. cs' 0 = xs @ [Suc (maxactiverun env)..<Suc (maxactive env)]"
    "activeuser s' = activeuser s - (if is_on (uinfo s (e - 1)) then 1 else 0) + (if is_on u then 1 else 0)"
    "wwwguestnum s' = wwwguestnum s
        - (if is_on (uinfo s (e - 1)) \<and> www_guest (uinfo s (e - 1)) then 1 else 0)
        + (if is_on u \<and> www_guest u then 1 else 0)"
    "uinfo s' = (uinfo s)(e - 1 := u)" "guest_next s' = nx" "guest_head s' = hds"
  shows "um_rep env s' cs'"
proof -
  let ?pl = "\<lambda>e'. place (addr_junk env) (uinfo s' (e' - 1))"
  have n: "e - 1 < maxactiverun env" using assms(2,3) by simp
  have sets: "set (cs' h) = {e'. 0 < e' \<and> e' \<le> maxactive env \<and> ?pl e' = Some h}" for h
  proof -
    have "e' \<in> set (cs' h) \<longleftrightarrow> 0 < e' \<and> e' \<le> maxactive env \<and> ?pl e' = Some h" for e'
    proof (cases "e' = e")
      case True
      then show ?thesis using assms(2,3,4,6,10) by simp
    next
      case False
      then have "0 < e' \<Longrightarrow> e' - 1 \<noteq> e - 1" using assms(2) by auto
      then show ?thesis using False assms(6,10) um_rep_mem [OF assms(1), of e' h] by auto
    qed
    then show ?thesis by blast
  qed
  have "\<not> is_on (uinfo s' m)" if "maxactiverun env \<le> m" for m
    using assms(1,10) n that by (auto simp: um_rep_def)
  then show ?thesis
    using assms(1,5,7-9,11-12) sets card_count_update [OF n, of is_on "uinfo s" u]
      card_count_update [OF n, of "\<lambda>x. is_on x \<and> www_guest x" "uinfo s" u]
    by (simp add: um_rep_def assms(10))
qed

section \<open>Kicking idle sessions\<close>

lemma cleared_off [simp]: "\<not> is_on (cleared u)" "place junk (cleared u) = Some 0"
  by (simp_all add: cleared_def is_on_def place_def)

lemma keeps_off: "\<not> keeps env u \<Longrightarrow> is_on u"
  by (auto simp: keeps_def is_on_def)

lemma free_grows:
  assumes "um_rep env s cs" "e \<le> maxactiverun env"
  shows "\<exists>xs. cs 0 = xs @ [Suc (maxactiverun env)..<Suc (maxactive env)]"
    "\<exists>xs. e # cs 0 = xs @ [Suc (maxactiverun env)..<Suc (maxactive env)]"
proof -
  show "\<exists>xs. cs 0 = xs @ [Suc (maxactiverun env)..<Suc (maxactive env)]"
    using assms(1) by (simp add: um_rep_def)
  then show "\<exists>xs. e # cs 0 = xs @ [Suc (maxactiverun env)..<Suc (maxactive env)]"
    by (metis append_Cons)
qed

text \<open>A kick in two steps: out of the guest chain, then onto the free list.\<close>

definition kick_rest :: "utmp_env \<Rightarrow> utmpshm \<Rightarrow> nat \<Rightarrow> utmpshm" where
  "kick_rest env s1 n =
     (let s2 = s1\<lparr>guest_next := (guest_next s1)(n + 1 := guest_head s1 0),
                  guest_head := (guest_head s1)(0 := n + 1), activeuser := activeuser s1 - 1\<rparr>;
          s3 = remove_uindex env s2 (uid (uinfo s1 n)) (n + 1)
      in s3\<lparr>uinfo := (uinfo s3)(n := cleared (uinfo s1 n))\<rparr>)"

lemma kick_entry_guest:
  assumes "\<not> keeps env (uinfo s n)" "www_guest (uinfo s n)"
    "h = utmp_iphash (addr_junk env) (fromhost (uinfo s n))"
    "(if guest_head s h = n + 1 then Some (guest_next s, (guest_head s)(h := guest_next s (n + 1)))
      else map_option (\<lambda>nx. (nx, guest_head s)) (guest_unlink (guest_next s) (guest_head s h) (n + 1)))
     = Some (nx, hds)"
  shows "kick_entry env s n = Some (kick_rest env
           (s\<lparr>guest_next := nx, guest_head := hds, wwwguestnum := wwwguestnum s - 1\<rparr>) n)"
proof (cases "guest_head s h = n + 1")
  case True
  then have "nx = guest_next s" "hds = (guest_head s)(h := guest_next s (n + 1))" using assms(4) by auto
  then show ?thesis using assms(1,2,3) True by (simp add: kick_entry_def kick_rest_def Let_def)
next
  case False
  then have "guest_unlink (guest_next s) (guest_head s h) (n + 1) = Some nx" "hds = guest_head s"
    using assms(4) by auto
  then show ?thesis using assms(1,2,3) False by (simp add: kick_entry_def kick_rest_def Let_def)
qed

text \<open>A web guest taken out of its chain and put on the free list.\<close>

lemma chains_guest_kick:
  assumes rep: "um_rep env s cs" and e: "0 < e" "e \<le> maxactive env" "is_on (uinfo s (e - 1))"
    "www_guest (uinfo s (e - 1))"
  defines "h \<equiv> utmp_iphash (addr_junk env) (fromhost (uinfo s (e - 1)))"
  shows "\<exists>nx hds. (if guest_head s h = e then Some (guest_next s, (guest_head s)(h := guest_next s e))
            else map_option (\<lambda>nx. (nx, guest_head s)) (guest_unlink (guest_next s) (guest_head s h) e))
          = Some (nx, hds)
     \<and> hds 0 = guest_head s 0
     \<and> chains (nx(e := hds 0)) (hds(0 := e)) (cs(h := remove1 e (cs h), 0 := e # cs 0))"
proof -
  have h: "h \<noteq> 0" using iphash_pos h_def by simp
  have ch: "chains (guest_next s) (guest_head s) cs" using rep by (simp add: um_rep_def)
  have mem: "e \<in> set (cs k) \<longleftrightarrow> k = h" for k
    using um_rep_mem [OF rep, of e k] e by (auto simp: place_def is_on_def h_def)
  have d: "distinct (cs k)" for k using chainsD [OF ch] by blast
  have dis: "\<forall>k. e \<notin> set ((cs(h := remove1 e (cs h))) k)" using mem d by auto
  have push: "chains (nx(e := hds 0)) (hds(0 := e)) (cs(h := remove1 e (cs h), 0 := e # cs 0))"
    if "chains nx hds (cs(h := remove1 e (cs h)))" for nx hds
  proof -
    have eq: "(cs(h := remove1 e (cs h)))(0 := e # (cs(h := remove1 e (cs h))) 0)
        = cs(h := remove1 e (cs h), 0 := e # cs 0)" using h by simp
    have "e \<noteq> 0" using e(1) by simp
    then show ?thesis by (rule chains_push [OF that dis, of 0, unfolded eq])
  qed
  show ?thesis
  proof (cases "guest_head s h = e")
    case True
    obtain r where r: "cs h = e # r"
      using chainsD [OF ch, of h] mem [of h] True by (cases "cs h") auto
    have "chains ((guest_next s)(e := guest_next s e)) ((guest_head s)(h := guest_next s e))
        (cs(h := r))" by (rule chains_pop (1) [OF ch r]) (use mem in auto)
    then have "chains (guest_next s) ((guest_head s)(h := guest_next s e)) (cs(h := remove1 e (cs h)))"
      using r by simp
    from push [OF this] show ?thesis using True h
      by - (rule exI [of _ "guest_next s"], rule exI [of _ "(guest_head s)(h := guest_next s e)"],
        simp del: fun_upd_apply, simp)
  next
    case False
    have "e \<in> set (cs h)" using mem by simp
    then obtain nx where "guest_unlink (guest_next s) (guest_head s h) e = Some nx"
      "chains nx (guest_head s) (cs(h := remove1 e (cs h)))"
      using chains_unlink [OF ch _ False um_rep_disjoint [OF rep]] by blast
    with push show ?thesis using False h
      by - (rule exI [of _ nx], rule exI [of _ "guest_head s"], simp del: fun_upd_apply)
  qed
qed

lemma kick_entry_inv:
  assumes "um_rep env s cs" "maxactiverun env \<le> maxactive env"
  shows "\<exists>s' cs'. kick_entry env s n = Some s' \<and> um_rep env s' cs'
     \<and> uinfo s' = (if keeps env (uinfo s n) then uinfo s else (uinfo s)(n := cleared (uinfo s n)))
     \<and> uptime s' = uptime s \<and> maxuser s' = maxuser s \<and> maxtoday s' = maxtoday s"
proof (cases "keeps env (uinfo s n)")
  case True
  then show ?thesis using assms(1) by (auto simp: kick_entry_def)
next
  case False
  let ?u = "uinfo s n" and ?e = "n + 1"
  have on: "is_on ?u" using keeps_off [OF False] .
  moreover have "\<forall>m. maxactiverun env \<le> m \<longrightarrow> \<not> is_on (uinfo s m)" using assms(1) by (simp add: um_rep_def)
  ultimately have n: "n < maxactiverun env" by (meson not_le)
  then have e: "0 < ?e" "?e \<le> maxactive env" "?e \<le> maxactiverun env" using assms(2) by auto
  note fg = free_grows [OF assms(1) e(3)]
  show ?thesis
  proof (cases "www_guest ?u")
    case True
    let ?h = "utmp_iphash (addr_junk env) (fromhost ?u)"
    obtain nx hds where k: "(if guest_head s ?h = ?e
          then Some (guest_next s, (guest_head s)(?h := guest_next s ?e))
          else map_option (\<lambda>nx. (nx, guest_head s)) (guest_unlink (guest_next s) (guest_head s ?h) ?e))
        = Some (nx, hds)"
      "hds 0 = guest_head s 0"
      "chains (nx(?e := hds 0)) (hds(0 := ?e)) (cs(?h := remove1 ?e (cs ?h), 0 := ?e # cs 0))"
      using chains_guest_kick [OF assms(1) e(1,2), unfolded add_diff_cancel_right', OF on True]
      by (elim exE conjE) (rule that)
    let ?s1 = "s\<lparr>guest_next := nx, guest_head := hds, wwwguestnum := wwwguestnum s - 1\<rparr>"
    let ?s4 = "kick_rest env ?s1 n"
    have "kick_entry env s n = Some ?s4" by (rule kick_entry_guest [OF False True refl k(1)])
    moreover have "um_rep env ?s4 (cs(?h := remove1 ?e (cs ?h), 0 := ?e # cs 0))"
    proof (rule um_rep_move [OF assms(1) e(1,3) assms(2) k(3)])
      show "set ((cs(?h := remove1 ?e (cs ?h), 0 := ?e # cs 0)) k) = set (cs k) - {?e}
          \<union> (if place (addr_junk env) (cleared ?u) = Some k then {?e} else {})" for k
      proof -
        have "distinct (cs ?h)" using assms(1) chainsD by (auto simp: um_rep_def)
        moreover have "?e \<in> set (cs k) \<longleftrightarrow> k = ?h"
          using um_rep_mem [OF assms(1), of ?e k] e on True by (auto simp: place_def is_on_def)
        ultimately show ?thesis using iphash_pos [of "addr_junk env" "fromhost ?u"] by auto
      qed
    qed (use on True fg(2) in \<open>simp_all add: kick_rest_def Let_def\<close>)
    ultimately show ?thesis using False
      by (intro exI [of _ ?s4] exI) (auto simp: kick_rest_def remove_uindex_def Let_def)
  next
    case g: False
    let ?s4 = "kick_rest env s n"
    have no: "?e \<notin> set (cs k)" for k
      using um_rep_mem [OF assms(1), of ?e k] on g by (auto simp: place_def is_on_def)
    have ch: "chains (guest_next s) (guest_head s) cs" using assms(1) by (simp add: um_rep_def)
    have "kick_entry env s n = Some ?s4"
      using False g by (simp add: kick_entry_def kick_rest_def Let_def)
    moreover have "um_rep env ?s4 (cs(0 := ?e # cs 0))"
    proof (rule um_rep_move [OF assms(1) e(1,3) assms(2) chains_push [OF ch, of ?e 0]])
      show "set ((cs(0 := ?e # cs 0)) k) = set (cs k) - {?e}
          \<union> (if place (addr_junk env) (cleared ?u) = Some k then {?e} else {})" for k
        using no by auto
    qed (use on g fg(2) no in \<open>simp_all add: kick_rest_def Let_def\<close>)
    ultimately show ?thesis using False
      by (intro exI [of _ ?s4] exI) (auto simp: kick_rest_def remove_uindex_def Let_def)
  qed
qed

lemma kick_from_inv:
  "um_rep env s cs \<Longrightarrow> maxactiverun env \<le> maxactive env \<Longrightarrow>
   \<exists>s' cs'. kick_from env n k s = Some s' \<and> um_rep env s' cs'
     \<and> (\<forall>m. uinfo s' m = (if n \<le> m \<and> m < n + k \<and> \<not> keeps env (uinfo s m) then cleared (uinfo s m)
                          else uinfo s m))"
proof (induction k arbitrary: n s cs)
  case 0
  then show ?case by auto
next
  case (Suc k)
  obtain s1 cs1 where 1: "kick_entry env s n = Some s1" "um_rep env s1 cs1"
    "uinfo s1 = (if keeps env (uinfo s n) then uinfo s else (uinfo s)(n := cleared (uinfo s n)))"
    using kick_entry_inv [OF Suc.prems, of n] by blast
  obtain s2 cs2 where 2: "kick_from env (Suc n) k s1 = Some s2" "um_rep env s2 cs2"
    "\<forall>m. uinfo s2 m = (if Suc n \<le> m \<and> m < Suc n + k \<and> \<not> keeps env (uinfo s1 m) then cleared (uinfo s1 m)
                          else uinfo s1 m)"
    using Suc.IH [OF 1(2) Suc.prems(2)] by blast
  have "uinfo s2 m = (if n \<le> m \<and> m < n + Suc k \<and> \<not> keeps env (uinfo s m) then cleared (uinfo s m)
                          else uinfo s m)" for m
  proof (cases "m = n")
    case True
    then show ?thesis using 1(3) 2(3) by simp
  next
    case False
    then have "uinfo s1 m = uinfo s m" using 1(3) by simp
    moreover have "n \<le> m \<longleftrightarrow> Suc n \<le> m" using False by auto
    ultimately show ?thesis using 2(3) by simp
  qed
  then show ?case using 1(1) 2(1,2) by auto
qed

text \<open>The sweep happens once a minute, or when the clock went back.\<close>

definition sweeps :: "utmp_env \<Rightarrow> utmpshm \<Rightarrow> bool" where
  "sweeps env s \<longleftrightarrow> \<not> (uptime s \<le> now env \<and> now env < uptime s + 60)"

definition swept :: "utmp_env \<Rightarrow> bool \<Rightarrow> user_info \<Rightarrow> user_info" where
  "swept env b u = (if b \<and> \<not> keeps env u then cleared u else u)"

lemma kickidle_inv:
  assumes "um_rep env s cs" "maxactiverun env \<le> maxactive env"
  shows "\<exists>s' cs'. utmp_kickidle env s = Some s' \<and> um_rep env s' cs'
     \<and> (\<forall>m. uinfo s' m = swept env (sweeps env s) (uinfo s m))"
proof (cases "sweeps env s")
  case True
  let ?s0 = "s\<lparr>uptime := now env\<rparr>"
  have "um_rep env ?s0 cs" using assms(1) by (simp add: um_rep_def)
  then obtain s' cs' where k: "kick_from env 0 (maxactive env) ?s0 = Some s'" "um_rep env s' cs'"
    "\<forall>m. uinfo s' m = (if 0 \<le> m \<and> m < 0 + maxactive env \<and> \<not> keeps env (uinfo ?s0 m)
            then cleared (uinfo ?s0 m) else uinfo ?s0 m)"
    using kick_from_inv assms(2) by blast
  have "m < maxactive env" if "\<not> keeps env (uinfo s m)" for m
  proof (rule ccontr)
    assume "\<not> m < maxactive env"
    then have "\<not> is_on (uinfo s m)" using assms by (simp add: um_rep_def)
    then show False using keeps_off [OF that] by simp
  qed
  then have "uinfo s' m = swept env (sweeps env s) (uinfo s m)" for m
    using k(3) True by (auto simp: swept_def)
  then show ?thesis using k(1,2) True by (auto simp: utmp_kickidle_def sweeps_def)
next
  case False
  then show ?thesis using assms(1) by (auto simp: utmp_kickidle_def sweeps_def swept_def)
qed

section \<open>Login and logout\<close>

lemma free_head:
  assumes "um_rep env s cs" "maxactiverun env \<le> maxactive env"
  shows "guest_head s 0 \<noteq> 0 \<and> guest_head s 0 \<le> maxactiverun env \<longleftrightarrow>
      (\<exists>n < maxactiverun env. \<not> is_on (uinfo s n))"
    "guest_head s 0 \<noteq> 0 \<Longrightarrow> \<exists>r. cs 0 = guest_head s 0 # r \<and> \<not> is_on (uinfo s (guest_head s 0 - 1))"
proof -
  let ?run = "maxactiverun env"
  obtain xs where xs: "cs 0 = xs @ [Suc ?run..<Suc (maxactive env)]" using assms(1) by (auto simp: um_rep_def)
  have ch: "chain (guest_next s) (guest_head s 0) (cs 0)" "distinct (cs 0)"
    using assms(1) chainsD by (auto simp: um_rep_def)
  have mem: "e \<in> set (cs 0) \<longleftrightarrow> 0 < e \<and> e \<le> maxactive env \<and> \<not> is_on (uinfo s (e - 1))" for e
    using um_rep_mem [OF assms(1), of e 0] by (simp add: place_0)
  show part2: "\<exists>r. cs 0 = guest_head s 0 # r \<and> \<not> is_on (uinfo s (guest_head s 0 - 1))"
    if "guest_head s 0 \<noteq> 0"
    using ch mem [of "guest_head s 0"] that by (cases "cs 0") auto
  show "guest_head s 0 \<noteq> 0 \<and> guest_head s 0 \<le> ?run \<longleftrightarrow> (\<exists>n < ?run. \<not> is_on (uinfo s n))"
  proof
    assume h: "guest_head s 0 \<noteq> 0 \<and> guest_head s 0 \<le> ?run"
    then show "\<exists>n < ?run. \<not> is_on (uinfo s n)" using part2 by (intro exI [of _ "guest_head s 0 - 1"]) auto
  next
    assume "\<exists>n < ?run. \<not> is_on (uinfo s n)"
    then obtain n where n: "n < ?run" "\<not> is_on (uinfo s n)" by blast
    show "guest_head s 0 \<noteq> 0 \<and> guest_head s 0 \<le> ?run"
    proof (cases xs)
      case Nil
      have "Suc n \<in> set (cs 0)" using n mem [of "Suc n"] assms(2) by simp
      then show ?thesis using n(1) xs Nil by simp
    next
      case (Cons x r)
      then have x: "cs 0 = x # r @ [Suc ?run..<Suc (maxactive env)]" using xs by simp
      then have "guest_head s 0 = x" "0 < x" "x \<le> maxactive env" using ch(1) mem [of x] by auto
      moreover have "x \<notin> set [Suc ?run..<Suc (maxactive env)]" using ch(2) x by auto
      ultimately show ?thesis by auto
    qed
  qed
qed

text \<open>What a login does to the chains, before the sweep.\<close>

lemma login_place:
  assumes rep: "um_rep env s cs" "maxactiverun env \<le> maxactive env" and on: "is_on up"
    and j: "j = guest_head s 0" "j \<noteq> 0" "j \<le> maxactiverun env"
    and s': "uinfo s' = (uinfo s)(j - 1 := up)" "activeuser s' = activeuser s + 1"
    and h: "h = utmp_iphash (addr_junk env) (fromhost up)"
    and g: "if www_guest up
        then guest_next s' = (guest_next s)(j := guest_head s h)
           \<and> guest_head s' = (guest_head s)(0 := guest_next s j, h := j) \<and> wwwguestnum s' = wwwguestnum s + 1
        else guest_next s' = (guest_next s)(j := 0)
           \<and> guest_head s' = (guest_head s)(0 := guest_next s j) \<and> wwwguestnum s' = wwwguestnum s"
  shows "\<exists>cs'. um_rep env s' cs'"
proof -
  have h0: "h \<noteq> 0" using h iphash_pos by simp
  obtain r where r: "cs 0 = j # r" "\<not> is_on (uinfo s (j - 1))"
    using free_head(2) [OF rep] j by auto
  have ch: "chains (guest_next s) (guest_head s) cs" using rep(1) by (simp add: um_rep_def)
  have jm: "j \<in> set (cs k) \<longleftrightarrow> k = 0" for k
    using um_rep_mem [OF rep(1), of j k] r j(2,3) rep(2) by (auto simp: place_def is_on_def)
  have d: "distinct (j # r)" using chainsD [OF ch, of 0] r by simp
  obtain xs where xs: "cs 0 = xs @ [Suc (maxactiverun env)..<Suc (maxactive env)]"
    using rep(1) by (auto simp: um_rep_def)
  obtain ys where ys: "r = ys @ [Suc (maxactiverun env)..<Suc (maxactive env)]"
  proof (cases xs)
    case Nil
    then have "j \<in> set [Suc (maxactiverun env)..<Suc (maxactive env)]"
      using xs r(1) list.set_intros(1) [of j r] by simp
    then show ?thesis using j(3) by simp
  next
    case (Cons x zs)
    then show ?thesis using xs r(1) that by simp
  qed
  have pop: "chains ((guest_next s)(j := x)) ((guest_head s)(0 := guest_next s j)) (cs(0 := r))" for x
    by (rule chains_pop(1) [OF ch r(1)]) (use jm in auto)
  have n0: "0 < j" using j(2) by simp
  show ?thesis
  proof (cases "www_guest up")
    case True
    have "\<forall>k. j \<notin> set ((cs(0 := r)) k)" using jm d by auto
    note push = chains_push [OF pop this j(2), of 0 h]
    have "(cs(0 := r)) h = cs h" "((guest_head s)(0 := guest_next s j)) h = guest_head s h"
      using h0 by simp_all
    note push [unfolded this fun_upd_upd]
    then have ch': "chains (guest_next s') (guest_head s') (cs(0 := r, h := j # cs h))"
      using g True by (simp del: fun_upd_apply)
    have "um_rep env s' (cs(0 := r, h := j # cs h))"
    proof (rule um_rep_move [OF rep(1) n0 j(3) rep(2) ch'])
      show "set ((cs(0 := r, h := j # cs h)) k) = set (cs k) - {j}
          \<union> (if place (addr_junk env) up = Some k then {j} else {})" for k
        using jm [of k] r(1) d h h0 True on by (auto simp: place_def is_on_def)
    qed (use s' on True r(2) g ys h0 in simp_all)
    then show ?thesis by blast
  next
    case False
    have ch': "chains (guest_next s') (guest_head s') (cs(0 := r))" using g False pop by simp
    have "um_rep env s' (cs(0 := r))"
    proof (rule um_rep_move [OF rep(1) n0 j(3) rep(2) ch'])
      show "set ((cs(0 := r)) k) = set (cs k) - {j}
          \<union> (if place (addr_junk env) up = Some k then {j} else {})" for k
        using jm [of k] r(1) d h h0 False on by (auto simp: place_def is_on_def)
    qed (use s' on False r(2) g ys in simp_all)
    then show ?thesis by blast
  qed
qed

lemma login_result:
  assumes "um_inv env s" "is_on up"
  shows "\<exists>s' mf' r. utmp_login env mf s up = Some (s', mf', r) \<and> um_inv env s'
     \<and> (if \<forall>n < maxactiverun env. is_on (uinfo s n) then r = - 1 \<and> s' = s
        else 0 < r \<and> nat r \<le> maxactiverun env \<and> \<not> is_on (uinfo s (nat r - 1))
          \<and> (\<forall>n. uinfo s' n = swept env (sweeps env s) (if n = nat r - 1 then up else uinfo s n)))"
proof -
  have run: "maxactiverun env \<le> maxactive env" and "\<exists>cs. um_rep env s cs"
    using assms(1) by (auto simp: um_inv_def)
  then obtain cs where rep: "um_rep env s cs" by blast
  let ?j = "guest_head s 0"
  show ?thesis
  proof (cases "\<forall>n < maxactiverun env. is_on (uinfo s n)")
    case True
    then have "?j = 0 \<or> maxactiverun env < ?j" using free_head(1) [OF rep run] by force
    then have "utmp_login env mf s up = Some (s, mf, - 1)" by (simp add: utmp_login_def)
    then show ?thesis using assms(1) True by simp
  next
    case False
    then have j: "?j \<noteq> 0" "?j \<le> maxactiverun env" using free_head(1) [OF rep run] by auto
    have off: "\<not> is_on (uinfo s (?j - 1))" using free_head(2) [OF rep run j(1)] by blast
    let ?s1 = "s\<lparr>guest_head := (guest_head s)(0 := guest_next s ?j), guest_next := (guest_next s)(?j := 0),
                uinfo := (uinfo s)(?j - 1 := up), activeuser := activeuser s + 1\<rparr>"
    obtain s2 mf' where m: "update_max_online mf ?s1 = (s2, mf')" by force
    note fr = max_online_frame [OF m]
    have up2: "uptime s2 = uptime s"
      using m by (auto simp: update_max_online_def Let_def split: if_splits option.splits)
    let ?s3 = "add_uindex env s2 (uid up) ?j" and ?h = "utmp_iphash (addr_junk env) (fromhost up)"
    have up3: "uptime ?s3 = uptime s" using up2 by (simp add: add_uindex_def Let_def)
    let ?s4 = "if www_guest up
       then ?s3\<lparr>guest_next := (guest_next ?s3)(?j := guest_head ?s3 ?h),
                guest_head := (guest_head ?s3)(?h := ?j), wwwguestnum := wwwguestnum ?s3 + 1\<rparr>
       else ?s3"
    have "\<exists>cs'. um_rep env ?s4 cs'"
    proof (rule login_place [OF rep run assms(2) refl j, where h = ?h])
      show "uinfo ?s4 = (uinfo s)(?j - 1 := up)" "activeuser ?s4 = activeuser s + 1"
        using fr by simp_all
      show "if www_guest up
          then guest_next ?s4 = (guest_next s)(?j := guest_head s ?h)
             \<and> guest_head ?s4 = (guest_head s)(0 := guest_next s ?j, ?h := ?j)
             \<and> wwwguestnum ?s4 = wwwguestnum s + 1
          else guest_next ?s4 = (guest_next s)(?j := 0)
             \<and> guest_head ?s4 = (guest_head s)(0 := guest_next s ?j) \<and> wwwguestnum ?s4 = wwwguestnum s"
        using fr by (cases "www_guest up") (simp_all add: iphash_pos)
    qed (rule refl)
    then obtain cs' where rep4: "um_rep env ?s4 cs'" by blast
    obtain s5 cs5 where k: "utmp_kickidle env ?s4 = Some s5" "um_rep env s5 cs5"
      "\<forall>n. uinfo s5 n = swept env (sweeps env ?s4) (uinfo ?s4 n)"
      using kickidle_inv [OF rep4 run] by blast
    have "utmp_login env mf s up = Some (s5, mf', int ?j)"
      using j off m k(1) by (cases "www_guest up") (simp_all add: utmp_login_def Let_def is_on_def)
    moreover have "uinfo ?s4 = (uinfo s)(?j - 1 := up)" "sweeps env ?s4 = sweeps env s"
      using fr(1) up3 by (simp_all add: sweeps_def)
    ultimately show ?thesis using False j off k(2,3) run
      by (intro exI [of _ s5] exI [of _ mf'] exI [of _ "int ?j"]) (auto simp: um_inv_def)
  qed
qed

lemma utmp_login_ok_inv:
  "um_inv env s \<Longrightarrow> is_on up \<Longrightarrow> utmp_login env mf s up = Some (s', mf', r) \<Longrightarrow> um_inv env s'"
  using login_result [of env s up mf] by auto

text \<open>
  On a table whose chains and counters are consistent \<open>utmp_login\<close> always returns, and leaves a
  consistent table.  It refuses, without a change, exactly when all \<open>MAXACTIVERUN\<close> entries are in use;
  otherwise it gives out the number of an entry that was free, which then holds the caller's record.
  All other entries stay as they are, except that the sweep of the minute clears the dead ones.
\<close>

theorem utmp_login_ok:
  assumes "um_inv env s" "is_on up"
  shows "\<exists>s' mf' r. utmp_login env mf s up = Some (s', mf', r) \<and> um_inv env s'
     \<and> (if \<forall>n < maxactiverun env. is_on (uinfo s n) then r = - 1 \<and> s' = s
        else 0 < r \<and> nat r \<le> maxactiverun env \<and> \<not> is_on (uinfo s (nat r - 1))
          \<and> (\<forall>n. uinfo s' n = swept env (sweeps env s) (if n = nat r - 1 then up else uinfo s n)))"
  using assms by (rule login_result)

lemma logout_result:
  assumes "um_inv env s" "0 < ent" "nat ent \<le> maxactiverun env" "\<not> is_on up"
    "\<not> www_guest (uinfo s (nat ent - 1))"
  shows "\<exists>s'. utmp_logout env s ent up = Some (s', - 1) \<and> um_inv env s'
     \<and> (if is_on (uinfo s (nat ent - 1))
        then uinfo s' = (uinfo s)(nat ent - 1 := up) \<and> activeuser s' = activeuser s - 1
          \<and> guest_head s' 0 = nat ent
        else s' = s)"
proof (cases "is_on (uinfo s (nat ent - 1))")
  case False
  then show ?thesis using assms(1,2) by (auto simp: utmp_logout_def is_on_def)
next
  case True
  let ?e = "nat ent"
  obtain cs where run: "maxactiverun env \<le> maxactive env" and rep: "um_rep env s cs"
    using assms(1) by (auto simp: um_inv_def)
  have e: "0 < ?e" using assms(2) by simp
  let ?s1 = "remove_uindex env s (uid (uinfo s (?e - 1))) ?e"
  let ?s' = "?s1\<lparr>uinfo := (uinfo ?s1)(?e - 1 := up), guest_next := (guest_next ?s1)(?e := guest_head ?s1 0),
                 guest_head := (guest_head ?s1)(0 := ?e), activeuser := activeuser ?s1 - 1\<rparr>"
  have eq: "utmp_logout env s ent up = Some (?s', - 1)"
    using True assms(2) by (simp add: utmp_logout_def is_on_def Let_def)
  have no: "?e \<notin> set (cs k)" for k
    using um_rep_mem [OF rep, of ?e k] True assms(5) by (auto simp: place_def is_on_def)
  have ch: "chains (guest_next s) (guest_head s) cs" using rep by (simp add: um_rep_def)
  have "um_rep env ?s' (cs(0 := ?e # cs 0))"
  proof (rule um_rep_move [OF rep e assms(3) run chains_push [OF ch, of ?e 0]])
    show "set ((cs(0 := ?e # cs 0)) k) = set (cs k) - {?e}
        \<union> (if place (addr_junk env) up = Some k then {?e} else {})" for k
      using no assms(4) by (auto simp: place_def is_on_def)
  qed (use True assms(4,5) e no free_grows(2) [OF rep assms(3)] in simp_all)
  then show ?thesis using eq True run by (auto simp: um_inv_def)
qed

lemma utmp_logout_ok_inv:
  "um_inv env s \<Longrightarrow> 0 < ent \<Longrightarrow> nat ent \<le> maxactiverun env \<Longrightarrow> \<not> is_on up \<Longrightarrow>
   \<not> www_guest (uinfo s (nat ent - 1)) \<Longrightarrow> utmp_logout env s ent up = Some (s', r) \<Longrightarrow> um_inv env s'"
  using logout_result [of env s ent up] by auto

text \<open>
  \<open>utmp_logout\<close> of an entry in range that is no web guest's returns -1 in the caller's variable and
  leaves a consistent table: a live entry gets the caller's record, goes to the head of the free list and
  is counted down; a dead one is left alone.
\<close>

theorem utmp_logout_ok:
  assumes "um_inv env s" "0 < ent" "nat ent \<le> maxactiverun env" "\<not> is_on up"
    "\<not> www_guest (uinfo s (nat ent - 1))"
  shows "\<exists>s'. utmp_logout env s ent up = Some (s', - 1) \<and> um_inv env s'
     \<and> (if is_on (uinfo s (nat ent - 1))
        then uinfo s' = (uinfo s)(nat ent - 1 := up) \<and> activeuser s' = activeuser s - 1
          \<and> guest_head s' 0 = nat ent
        else s' = s)"
  using assms by (rule logout_result)

section \<open>The index and queries\<close>

lemma query_scan_sound:
  "query_scan info u reader p b es = e \<Longrightarrow> e \<noteq> 0 \<Longrightarrow>
   e \<in> set es \<and> is_on (info (e - 1)) \<and> uid (info (e - 1)) = u \<and> pid (info (e - 1)) \<noteq> 0
   \<and> (p \<noteq> 0 \<longrightarrow> pid (info (e - 1)) = p)
   \<and> (\<forall>r. reader = Some r \<longrightarrow> invisible (info (e - 1)) = 0 \<or> userperm r (PERM_SYSOP OR PERM_SEECLOAK))"
  by (induction info u reader p b es rule: query_scan.induct)
    (auto simp: Let_def is_on_def split: if_splits option.splits)

lemma query_scan_complete:
  "e \<in> set es \<Longrightarrow> e \<noteq> 0 \<Longrightarrow> is_on (info (e - 1)) \<Longrightarrow> uid (info (e - 1)) = u \<Longrightarrow>
   pid (info (e - 1)) \<noteq> 0 \<Longrightarrow> p \<noteq> 0 \<longrightarrow> pid (info (e - 1)) = p \<Longrightarrow>
   query_scan info u None p b es \<noteq> 0"
  by (induction es) (auto simp: Let_def is_on_def)

lemma put_first_free: "x \<in> set xs \<Longrightarrow> free x \<Longrightarrow> e \<in> set (put_first free xs e)"
  by (induction xs) auto

lemma put_first_length [simp]: "length (put_first free xs e) = length xs"
  by (induction xs) auto

lemma put_first_keeps: "y \<in> set xs \<Longrightarrow> \<not> free y \<Longrightarrow> y \<in> set (put_first free xs e)"
  by (induction xs) auto

text \<open>
  Once \<open>add_uindex\<close> has entered a live session of a registered user whose index row has room, that is
  a row with an empty, dead or foreign link, \<open>queryUIndex\<close> for the user and the process finds a live
  session of that user and process; no other live session of the user is dropped from the row and no
  other user's row changes.
\<close>

theorem login_then_query:
  assumes "0 < u" "u \<le> int (maxusers env)" "u \<noteq> guest_uid env" "ent \<noteq> 0"
    "is_on (uinfo s (ent - 1))" "uid (uinfo s (ent - 1)) = u" "pid (uinfo s (ent - 1)) = p" "p \<noteq> 0"
    "\<exists>x \<in> set (uindex s (nat (u - 1))). x = ent \<or> x = 0 \<or> \<not> is_on (uinfo s (x - 1)) \<or> uid (uinfo s (x - 1)) \<noteq> u"
  shows "(\<exists>e. queryUIndex env (add_uindex env s u ent) u None p = e \<and> e \<noteq> 0 \<and> is_on (uinfo s (e - 1))
        \<and> uid (uinfo s (e - 1)) = u \<and> pid (uinfo s (e - 1)) = p)
    \<and> {x \<in> set (uindex s (nat (u - 1))). x \<noteq> 0 \<and> is_on (uinfo s (x - 1)) \<and> uid (uinfo s (x - 1)) = u}
        \<subseteq> set (uindex (add_uindex env s u ent) (nat (u - 1)))
    \<and> (\<forall>k. k = nat (u - 1) \<or> uindex (add_uindex env s u ent) k = uindex s k)"
proof -
  let ?k = "nat (u - 1)" and ?free = "\<lambda>e. e = 0 \<or> active (uinfo s (e - 1)) = 0 \<or> uid (uinfo s (e - 1)) \<noteq> u"
  let ?s' = "add_uindex env s u ent"
  have s': "?s' = (if ent \<in> set (uindex s ?k) then s
      else s\<lparr>uindex := (uindex s)(?k := put_first ?free (uindex s ?k) ent)\<rparr>)"
    using assms(1-3) by (simp add: add_uindex_def Let_def)
  have "ent \<in> set (uindex ?s' ?k)"
    using assms(9) put_first_free [of _ "uindex s ?k" ?free ent] by (auto simp: s' is_on_def)
  then have ne: "query_scan (uinfo s) u None p False (uindex ?s' ?k) \<noteq> 0"
    using assms(4-8) by (intro query_scan_complete [of ent]) auto
  have "queryUIndex env ?s' u None p = query_scan (uinfo s) u None p False (uindex ?s' ?k)"
    using assms(1,2) by (simp add: queryUIndex_def)
  then have 1: "\<exists>e. queryUIndex env ?s' u None p = e \<and> e \<noteq> 0 \<and> is_on (uinfo s (e - 1))
      \<and> uid (uinfo s (e - 1)) = u \<and> pid (uinfo s (e - 1)) = p"
    using ne query_scan_sound [OF refl ne] assms(8) by auto
  have 2: "x \<in> set (uindex ?s' ?k)"
    if "x \<in> set (uindex s ?k)" "is_on (uinfo s (x - 1))" "uid (uinfo s (x - 1)) = u" "x \<noteq> 0" for x
    using that put_first_keeps [of x "uindex s ?k" ?free ent] by (auto simp: s' is_on_def)
  have 3: "uindex ?s' k = uindex s k" if "k \<noteq> ?k" for k using that by (simp add: s')
  show ?thesis using 1 2 3 by blast
qed

section \<open>Every reachable table\<close>

text \<open>\<open>initutmp\<close> of \<open>local_utl/shminit.c\<close>, on the zeroed segment.\<close>

definition initutmp :: "nat \<Rightarrow> utmpshm \<Rightarrow> utmpshm" where
  "initutmp n s = s\<lparr>guest_head := (guest_head s)(0 := 1),
     guest_next := (\<lambda>i. if 1 \<le> i \<and> i < n then i + 1 else if i = n then 0 else guest_next s i)\<rparr>"

text \<open>
  The steps: a login, a logout and any change of an entry by its owner that keeps the session alive
  and its name, process and address.  The clock and the processes alive are arbitrary in each step.
\<close>

inductive utmp_run :: "utmp_env \<Rightarrow> utmpshm \<Rightarrow> bool" for env where
  run_init: "\<forall>n. uinfo s n = uinfo0 \<and> guest_head s n = 0 \<and> guest_next s n = 0 \<Longrightarrow> active uinfo0 = 0 \<Longrightarrow>
     activeuser s = 0 \<Longrightarrow> wwwguestnum s = 0 \<Longrightarrow> utmp_run env (initutmp (maxactive env) s)"
| run_login: "utmp_run env s \<Longrightarrow> is_on up \<Longrightarrow>
     utmp_login (env\<lparr>now := t, alive := al\<rparr>) mf s up = Some (s', mf', r) \<Longrightarrow> utmp_run env s'"
| run_logout: "utmp_run env s \<Longrightarrow> 0 < ent \<Longrightarrow> nat ent \<le> maxactiverun env \<Longrightarrow> \<not> is_on up \<Longrightarrow>
     \<not> www_guest (uinfo s (nat ent - 1)) \<Longrightarrow> utmp_logout env s ent up = Some (s', r) \<Longrightarrow> utmp_run env s'"
| run_touch: "utmp_run env s \<Longrightarrow> is_on (uinfo s n) \<Longrightarrow> is_on u \<Longrightarrow> uname u = uname (uinfo s n) \<Longrightarrow>
     pid u = pid (uinfo s n) \<Longrightarrow> fromhost u = fromhost (uinfo s n) \<Longrightarrow>
     utmp_run env (s\<lparr>uinfo := (uinfo s)(n := u)\<rparr>)"

inductive_cases utmp_runE: "utmp_run env s"

lemma um_inv_env [simp]: "um_inv (env\<lparr>now := t, alive := al\<rparr>) s = um_inv env s"
  by (simp add: um_inv_def um_rep_def)

lemma place_on: "place junk u = (if is_on u then if www_guest u then Some (utmp_iphash junk (fromhost u))
    else None else Some 0)"
  by (simp add: place_def is_on_def)

lemma um_inv_touch:
  assumes "um_inv env s" "is_on (uinfo s n)" "is_on u" "uname u = uname (uinfo s n)"
    "pid u = pid (uinfo s n)" "fromhost u = fromhost (uinfo s n)"
  shows "um_inv env (s\<lparr>uinfo := (uinfo s)(n := u)\<rparr>)"
proof -
  let ?f = "(uinfo s)(n := u)"
  have "is_on (?f m) = is_on (uinfo s m)" "www_guest (?f m) = www_guest (uinfo s m)"
    "fromhost (?f m) = fromhost (uinfo s m)" for m
    using assms(2-) by (simp_all add: www_guest_def)
  then have "is_on (?f m) = is_on (uinfo s m)" "www_guest (?f m) = www_guest (uinfo s m)"
    "place (addr_junk env) (?f m) = place (addr_junk env) (uinfo s m)" for m
    by (simp_all add: place_on del: fun_upd_apply)
  then show ?thesis using assms(1) by (simp add: um_inv_def um_rep_def del: fun_upd_apply)
qed

lemma chain_from: "(\<And>i. a \<le> i \<Longrightarrow> i < n \<Longrightarrow> nx i = i + 1) \<Longrightarrow> nx n = 0 \<Longrightarrow> 0 < a \<Longrightarrow> a \<le> n \<Longrightarrow>
    chain nx a [a..<Suc n]"
proof (induction "n - a" arbitrary: a)
  case 0
  then show ?case by simp
next
  case (Suc d)
  then have "chain nx (Suc a) [Suc a..<Suc n]" by (intro Suc.hyps) auto
  moreover have "nx a = Suc a" using Suc.prems(1) [of a] Suc.hyps(2) by simp
  moreover have "[a..<Suc n] = a # [Suc a..<Suc n]" using Suc.prems(4) by (simp add: upt_conv_Cons)
  ultimately show ?case using Suc.prems(3) by (simp del: upt_Suc)
qed

lemma um_inv_init:
  assumes "0 < maxactive env" "maxactiverun env \<le> maxactive env"
    "\<forall>n. \<not> is_on (uinfo s n)" "\<forall>n. guest_head s n = 0" "activeuser s = 0" "wwwguestnum s = 0"
  shows "um_inv env (initutmp (maxactive env) s)"
proof -
  let ?s = "initutmp (maxactive env) s" and ?n = "maxactive env"
  let ?cs = "\<lambda>h. if h = 0 then [1..<Suc ?n] else []"
  have "chain (guest_next ?s) 1 [1..<Suc ?n]"
    by (rule chain_from) (use assms(1) in \<open>auto simp: initutmp_def\<close>)
  then have "chains (guest_next ?s) (guest_head ?s) ?cs"
    using assms(4) by (simp add: chains_def initutmp_def)
  moreover have "\<exists>xs. ?cs 0 = xs @ [Suc (maxactiverun env)..<Suc ?n]"
    using upt_add_eq_append [of 1 "Suc (maxactiverun env)" "?n - maxactiverun env"] assms(2)
    by (simp del: upt_Suc)
  moreover have "set (?cs h) = {e. 0 < e \<and> e \<le> ?n \<and> place (addr_junk env) (uinfo ?s (e - 1)) = Some h}" for h
    using assms(3) by (auto simp: initutmp_def place_def is_on_def)
  ultimately have "um_rep env ?s ?cs"
    using assms(3,5,6) by (simp add: um_rep_def initutmp_def)
  then show ?thesis using assms(2) by (auto simp: um_inv_def)
qed

lemma utmp_run_inv:
  "utmp_run env s \<Longrightarrow> 0 < maxactive env \<Longrightarrow> maxactiverun env \<le> maxactive env \<Longrightarrow> um_inv env s"
proof (induction rule: utmp_run.induct)
  case (run_init s uinfo0)
  then show ?case by (intro um_inv_init) (auto simp: is_on_def)
next
  case (run_login s up al t mf s' mf' r)
  then have "um_inv (env\<lparr>now := t, alive := al\<rparr>) s" by simp
  from utmp_login_ok_inv [OF this run_login.hyps(2,3)] show ?case by simp
next
  case (run_logout s ent up s' r)
  then show ?case using utmp_logout_ok_inv by blast
next
  case (run_touch s n u)
  then show ?case using um_inv_touch by blast
qed

text \<open>
  C14: However logins, logouts and changes of live sessions follow each other from the table of
  \<open>initutmp\<close>, with any clock and any set of living processes at each step, the counter of the active
  users is the number of live entries and at most \<open>MAXACTIVERUN\<close>, the counter of web guests is their
  number, the free list holds exactly the dead entries, and a login neither loops nor fails unless every
  entry is taken.
\<close>

theorem utmp_run_safe:
  assumes "utmp_run env s" "0 < maxactive env" "maxactiverun env \<le> maxactive env"
  shows "activeuser s = int (card {n. n < maxactiverun env \<and> is_on (uinfo s n)})
    \<and> activeuser s \<le> int (maxactiverun env)
    \<and> wwwguestnum s = int (card {n. n < maxactiverun env \<and> is_on (uinfo s n) \<and> www_guest (uinfo s n)})
    \<and> (\<exists>l. chain (guest_next s) (guest_head s 0) l \<and> distinct l
         \<and> set l = {e. 0 < e \<and> e \<le> maxactive env \<and> \<not> is_on (uinfo s (e - 1))})
    \<and> (\<forall>mf up. is_on up \<longrightarrow> (\<exists>s' mf' r. utmp_login env mf s up = Some (s', mf', r)
         \<and> (r = - 1 \<longleftrightarrow> activeuser s = int (maxactiverun env))))"
proof -
  have inv: "um_inv env s" using utmp_run_inv assms by blast
  then obtain cs where rep: "um_rep env s cs" by (auto simp: um_inv_def)
  let ?A = "{n. n < maxactiverun env \<and> is_on (uinfo s n)}"
  have a: "activeuser s = int (card ?A)" using rep by (simp add: um_rep_def)
  have sub: "?A \<subseteq> {..<maxactiverun env}" by auto
  then have le: "card ?A \<le> maxactiverun env" using card_mono [OF finite_lessThan sub] by simp
  have full: "activeuser s = int (maxactiverun env) \<longleftrightarrow> (\<forall>n < maxactiverun env. is_on (uinfo s n))"
  proof
    assume "activeuser s = int (maxactiverun env)"
    then have "?A = {..<maxactiverun env}" using a sub by (intro card_subset_eq) auto
    then show "\<forall>n < maxactiverun env. is_on (uinfo s n)" by blast
  next
    assume "\<forall>n < maxactiverun env. is_on (uinfo s n)"
    then have "?A = {..<maxactiverun env}" by auto
    then show "activeuser s = int (maxactiverun env)" using a by simp
  qed
  have "chain (guest_next s) (guest_head s 0) (cs 0)" "distinct (cs 0)"
    using rep chainsD by (auto simp: um_rep_def)
  moreover have "set (cs 0) = {e. 0 < e \<and> e \<le> maxactive env \<and> \<not> is_on (uinfo s (e - 1))}"
    using um_rep_mem [OF rep, of _ 0] by (auto simp: place_0)
  moreover have "wwwguestnum s = int (card {n. n < maxactiverun env \<and> is_on (uinfo s n) \<and> www_guest (uinfo s n)})"
    using rep by (simp add: um_rep_def)
  moreover have "\<exists>s' mf' r. utmp_login env mf s up = Some (s', mf', r)
         \<and> (r = - 1 \<longleftrightarrow> activeuser s = int (maxactiverun env))" if "is_on up" for mf up
  proof (cases "\<forall>n < maxactiverun env. is_on (uinfo s n)")
    case True
    then show ?thesis using login_result [OF inv that, of mf] full by auto
  next
    case False
    then show ?thesis using login_result [OF inv that, of mf] full unfolding if_not_P [OF False] by auto
  qed
  ultimately show ?thesis using a le by auto
qed

section \<open>A concrete table\<close>

definition idle_user :: user_info where
  "idle_user = \<lparr>active = 0, uid = 0, pid = 0, invisible = 0, sockactive = 0, sockaddr = 0, destuid = 0,
     lasttime = 0, ulevel = 0, fromhost = [], uname = [], reject = [], iskicked = False\<rparr>"

definition live_user :: user_info where
  "live_user = idle_user\<lparr>active := 1, uid := 5, pid := 77, uname := lit ''lepton''\<rparr>"

definition table0 :: utmpshm where
  "table0 = initutmp 2 \<lparr>uinfo = (\<lambda>n. idle_user), guest_head = (\<lambda>n. 0), guest_next = (\<lambda>n. 0), uptime = 0,
     activeuser = 0, maxuser = 0, maxtoday = 0, wwwguestnum = 0, uindex = (\<lambda>k. [0, 0, 0, 0, 0, 0])\<rparr>"

definition env0 :: utmp_env where
  "env0 = \<lparr>maxactive = 2, maxactiverun = 1, maxusers = 9, guest_uid = 3, now = 100, alive = (\<lambda>p. p = 77),
     addr_junk = 0\<rparr>"

lemma table0_inv: "um_inv env0 table0"
  using um_inv_init [of env0 "\<lparr>uinfo = (\<lambda>n. idle_user), guest_head = (\<lambda>n. 0), guest_next = (\<lambda>n. 0),
      uptime = 0, activeuser = 0, maxuser = 0, maxtoday = 0, wwwguestnum = 0, uindex = (\<lambda>k. [0, 0, 0, 0, 0, 0])\<rparr>"]
  by (simp add: table0_def env0_def is_on_def idle_user_def)

lemma live_user_on: "is_on live_user" "\<not> www_guest live_user"
  by (simp_all add: live_user_def is_on_def idle_user_def www_guest_def)

lemma table0_uinfo: "uinfo table0 n = idle_user"
  by (simp add: table0_def initutmp_def)

theorem utmp_login_ok_witness:
  "\<exists>s' mf' r. utmp_login env0 None table0 live_user = Some (s', mf', r) \<and> um_inv env0 s' \<and> r = 1"
proof -
  have off: "\<not> is_on idle_user" by (simp add: is_on_def idle_user_def)
  have nn: "\<not> (\<forall>n < maxactiverun env0. is_on (uinfo table0 n))"
    using off by (auto simp: table0_uinfo env0_def)
  have "0 < r \<Longrightarrow> nat r \<le> 1 \<Longrightarrow> r = 1" for r :: int by linarith
  then show ?thesis
    using utmp_login_ok [OF table0_inv live_user_on(1), of None] unfolding if_not_P [OF nn]
    by (fastforce simp: env0_def)
qed

theorem utmp_logout_ok_witness:
  "\<exists>s'. utmp_logout env0 table0 1 idle_user = Some (s', - 1) \<and> um_inv env0 s' \<and> s' = table0"
proof -
  have "\<not> is_on idle_user" "\<not> www_guest idle_user"
    by (simp_all add: is_on_def idle_user_def www_guest_def)
  then show ?thesis
    using utmp_logout_ok [OF table0_inv, of 1 idle_user] by (auto simp: table0_uinfo env0_def)
qed

definition table1 :: utmpshm where
  "table1 = table0\<lparr>uinfo := (uinfo table0)(0 := live_user)\<rparr>"

theorem login_then_query_witness:
  "\<exists>e. queryUIndex env0 (add_uindex env0 table1 5 1) 5 None 77 = e \<and> e \<noteq> 0"
  using login_then_query [of 5 env0 1 table1 77]
  by (auto simp: table1_def table0_def initutmp_def env0_def is_on_def live_user_def idle_user_def)

theorem utmp_run_safe_witness: "activeuser table0 \<le> 1"
proof -
  have "utmp_run env0 table0"
    unfolding table0_def using utmp_run.run_init [of _ idle_user env0]
    by (simp add: env0_def idle_user_def)
  then show ?thesis using utmp_run_safe [of env0 table0] by (simp add: env0_def)
qed

end
