(* ===== verification/MsgBox.thy ===== *)
theory MsgBox
  imports CLib
begin

text \<open>
  The instant messages of a user, \<open>libythtbbs/msg.c\<close>: the index of all messages (\<open>msgindex\<close>), the
  index of the received ones with the number already read in front (\<open>msgindex2\<close>), and the texts
  (\<open>msgcontent\<close>).  A file is the list of its bytes.  The locale \<open>mailbox\<close> states the queue the
  front ends rely on, and the operations are shown to implement it.
\<close>

section \<open>Data\<close>

definition MAX_MSG_SIZE :: int where
  "MAX_MSG_SIZE = 1024"

text \<open>\<open>struct msghead\<close>; \<open>msgid\<close> are the 14 bytes of the id.\<close>

record msghead =
  pos :: int
  len :: int
  sent :: byte
  mode :: byte
  msgid :: "byte list"
  msgtime :: int
  frompid :: int
  topid :: int

definition MSGHEAD_SIZE :: nat where
  "MSGHEAD_SIZE = 36"

definition enc_head :: "msghead \<Rightarrow> byte list" where
  "enc_head h = le32 (pos h) @ le32 (len h) @ [sent h, mode h] @ msgid h @ le32 (msgtime h)
     @ le32 (frompid h) @ le32 (topid h)"

definition dec_head :: "byte list \<Rightarrow> msghead" where
  "dec_head m = \<lparr>pos = rd_s32 m, len = rd_s32 (drop 4 m), sent = m ! 8, mode = m ! 9,
     msgid = take 14 (drop 10 m), msgtime = rd_s32 (drop 24 m), frompid = rd_s32 (drop 28 m),
     topid = rd_s32 (drop 32 m)\<rparr>"

record msgbox =
  msgindex :: "byte list option"
  msgindex2 :: "byte list option"
  msgcontent :: "byte list option"

record msg_io =
  open_index :: bool
  open_content :: bool
  lock_index :: bool
  open_index2 :: bool
  lock_index2 :: bool

text \<open>\<open>write\<close> at an offset, beyond the end over a hole of zeros.\<close>

definition pwrite :: "byte list \<Rightarrow> nat \<Rightarrow> byte list \<Rightarrow> byte list" where
  "pwrite m off bs = take off (pad0 off m) @ bs @ drop (off + length bs) m"

definition opened :: "byte list option \<Rightarrow> byte list" where
  "opened f = (case f of None \<Rightarrow> [] | Some m \<Rightarrow> m)"

section \<open>The operations\<close>

definition head_count :: "byte list \<Rightarrow> int" where
  "head_count m = cdiv (int (length m) - 4) (int MSGHEAD_SIZE)"

text \<open>The record appended to an index; an empty file first gets its counter.\<close>

definition put_head :: "byte list \<Rightarrow> msghead \<Rightarrow> byte list" where
  "put_head m h =
     (let count = (if m = [] then 0 else head_count m);
          m1 = (if m = [] then le32 0 else m)
      in pwrite m1 (nat (count * int MSGHEAD_SIZE + 4)) (enc_head h))"

definition save_msgtext :: "msg_io \<Rightarrow> msgbox \<Rightarrow> msghead \<Rightarrow> cstr \<Rightarrow> msgbox \<times> msghead \<times> int" where
  "save_msgtext io box h msg =
     (if \<not> open_index io then (box, h, - 1)
      else let b1 = box\<lparr>msgindex := Some (opened (msgindex box))\<rparr> in
        if \<not> open_content io then (b1, h, - 1)
        else let b2 = b1\<lparr>msgcontent := Some (opened (msgcontent b1))\<rparr> in
          if \<not> lock_index io then (b2, h, - 1)
          else let size' = length (opened (msgcontent b2));
                   i0 = int (length msg) + 1;
                   i = (if i0 \<ge> MAX_MSG_SIZE then MAX_MSG_SIZE - 1 else i0);
                   h' = h\<lparr>pos := int size', len := i\<rparr>;
                   b3 = b2\<lparr>msgindex := Some (put_head (opened (msgindex b2)) h'),
                           msgcontent := Some (pwrite (opened (msgcontent b2)) size'
                                                (take (nat i) (msg @ [0])))\<rparr>
               in if sent h \<noteq> 0 then (b3, h', 0)
                  else if \<not> open_index2 io then (b3, h', - 1)
                  else let b4 = b3\<lparr>msgindex2 := Some (opened (msgindex2 b3))\<rparr> in
                    if \<not> lock_index2 io then (b4, h', - 1)
                    else (b4\<lparr>msgindex2 := Some (put_head (opened (msgindex2 b4)) h')\<rparr>, h', 0))"

text \<open>\<open>id\<close> 0 is the index of all messages, 1 that of the received ones.\<close>

definition index_of :: "bool \<Rightarrow> msgbox \<Rightarrow> byte list option" where
  "index_of received box = (if received then msgindex2 box else msgindex box)"

definition get_unreadcount :: "bool \<Rightarrow> msgbox \<Rightarrow> int" where
  "get_unreadcount lockok box =
     (case msgindex2 box of
        None \<Rightarrow> 0
      | Some m \<Rightarrow>
          if \<not> lockok \<or> m = [] then 0
          else let r = rd_s32 m in if r \<ge> head_count m then 0 else head_count m - r)"

definition get_msgcount :: "bool \<Rightarrow> bool \<Rightarrow> msgbox \<Rightarrow> int" where
  "get_msgcount lockok received box =
     (case index_of received box of
        None \<Rightarrow> 0
      | Some m \<Rightarrow> if \<not> lockok then 0 else head_count m)"

definition load_msghead :: "bool \<Rightarrow> bool \<Rightarrow> msgbox \<Rightarrow> int \<Rightarrow> msghead option" where
  "load_msghead lockok received box i =
     (case index_of received box of
        None \<Rightarrow> None
      | Some m \<Rightarrow>
          if \<not> lockok \<or> i < 0 \<or> i \<ge> head_count m then None
          else Some (dec_head (take MSGHEAD_SIZE (drop (nat (i * int MSGHEAD_SIZE + 4)) m))))"

text \<open>
  \<open>load_msgtext\<close>: what the caller's buffer holds up to its NUL and the result; the buffer is \<open>old\<close>
  where the file is too short.  A negative length writes in front of the buffer (\<open>None\<close>).
\<close>

definition load_msgtext :: "msgbox \<Rightarrow> msghead \<Rightarrow> byte list \<Rightarrow> (cstr \<times> int) option" where
  "load_msgtext box h old =
     (case msgcontent box of
        None \<Rightarrow> Some ([], - 1)
      | Some m \<Rightarrow>
          let i = (if len h \<ge> MAX_MSG_SIZE then MAX_MSG_SIZE - 1 else len h) in
          if i < 0 then None
          else let r = take (nat i) (drop (nat (pos h)) m);
                   buf = r @ drop (length r) (0 # drop 1 old)
               in Some (zstr (take (nat i) buf), 0))"

text \<open>
  \<open>get_unreadmsg\<close> in its two accesses to the file: reading the counter, then storing it one higher.
  The lock is a read lock, which does not exclude another reader in between.
\<close>

definition unread_read :: "byte list \<Rightarrow> int option" where
  "unread_read m =
     (if m = [] then None else let r = rd_s32 m in if r \<ge> head_count m then None else Some r)"

definition unread_write :: "byte list \<Rightarrow> int \<Rightarrow> byte list" where
  "unread_write m r = pwrite m 0 (le32 (r + 1))"

definition get_unreadmsg :: "msg_io \<Rightarrow> msgbox \<Rightarrow> msgbox \<times> int" where
  "get_unreadmsg io box =
     (if \<not> open_index2 io then (box, - 1)
      else let b1 = box\<lparr>msgindex2 := Some (opened (msgindex2 box))\<rparr> in
        if \<not> lock_index2 io then (b1, - 1)
        else let m = opened (msgindex2 b1) in
          case unread_read m of
            None \<Rightarrow> (b1, - 1)
          | Some r \<Rightarrow> (b1\<lparr>msgindex2 := Some (unread_write m r)\<rparr>, r))"

definition clear_msg :: "msgbox \<Rightarrow> msgbox" where
  "clear_msg box = box\<lparr>msgindex := None, msgindex2 := None, msgcontent := None\<rparr>"

section \<open>Laying out a message for the terminal\<close>

text \<open>
  The loop over the text in \<open>translate_msg\<close>: \<open>j\<close> marks the first byte of a two-byte character.  The
  column starts again at 0 after the attribute of the next line.
\<close>

fun msg_wrap :: "cstr \<Rightarrow> cstr \<Rightarrow> bool \<Rightarrow> nat \<Rightarrow> int \<Rightarrow> cstr \<times> int" where
  "msg_wrap attstr [] j p ret = (replicate (80 - p) 32 @ [27, 91, 109, 10], ret + 2)"
| "msg_wrap attstr (c # s) j p ret =
     (let j1 = (if j then False else 128 \<le> c);
          brk = (\<not> j1 \<and> p \<ge> 80) \<or> (j1 \<and> p \<ge> 79) \<or> c = 10;
          pre = (if brk then replicate (79 - p) 32 @ [27, 91, 109, 10] @ attstr else []);
          p1 = (if brk then 0 else p);
          ret1 = (if brk then ret + 1 else ret);
          (cs, p2) = (if c = 10 then ([], p1) else if c \<noteq> 13 then ([c], p1 + 1) else ([], p1));
          (rest, r) = msg_wrap attstr s j1 p2 ret1
      in (pre @ cs @ rest, r))"

text \<open>
  The line with the sender and the attribute of the text.  \<open>tm\<close> is the string of \<open>ctime\<close>, \<open>site\<close> is
  \<open>MY_BBS_ID\<close>; Chinese characters are their GBK bytes.
\<close>

definition sgr :: "string \<Rightarrow> cstr" where
  "sgr s = [27, 91] @ lit s @ [109]"

definition fixw :: "nat \<Rightarrow> cstr \<Rightarrow> cstr" where
  "fixw n s = take n s @ replicate (n - length s) 32"

definition rfixw :: "nat \<Rightarrow> cstr \<Rightarrow> cstr" where
  "rfixw n s = replicate (n - length s) 32 @ take n s"

definition msg_uid :: "msghead \<Rightarrow> bool \<Rightarrow> cstr \<Rightarrow> cstr" where
  "msg_uid h add_site site =
     (if mode h = 0
      then (if add_site then take 79 ([0xD5, 0xBE, 0xB3, 0xA4, 64] @ site) else [0xD5, 0xBE, 0xB3, 0xA4])
      else (if add_site then take 79 (zstr (msgid h) @ [64] @ site) else fixw 14 (zstr (msgid h))))"

definition msg_title :: "msghead \<Rightarrow> cstr \<Rightarrow> cstr \<Rightarrow> cstr" where
  "msg_title h uid tm =
     (let t = fixw 16 tm; who = fixw 14 (zstr (msgid h)) in
      if mode h = 2
      then (if sent h = 0
            then sgr ''1;44'' @ sgr ''36'' @ uid @ sgr ''33'' @ [32, 32, 40] @ t @ [41] @ sgr ''37''
                 @ replicate 46 32 @ sgr [] @ [10]
            else sgr ''0;1;32'' @ [61, 62] @ sgr ''37'' @ uid @ sgr ''33'' @ [40] @ t @ [41] @ sgr ''37''
                 @ replicate 46 32 @ sgr [] @ [10])
      else if mode h = 5
      then (if sent h = 0
            then sgr ''1;45'' @ sgr ''36'' @ uid @ sgr ''33'' @ [32, 32, 40] @ t @ [41] @ sgr ''37''
                 @ replicate 46 32 @ sgr [] @ [10]
            else sgr ''0;1;45;32'' @ [61, 62] @ sgr ''37'' @ uid @ sgr ''33'' @ [40] @ t @ [41] @ sgr ''37''
                 @ replicate 46 32 @ sgr [] @ [10])
      else if mode h = 0
      then sgr ''44'' @ sgr ''33'' @ uid @ [0xD3, 0xDA, 32] @ rfixw 16 tm @ [32, 0xCA, 0xB1, 0xB9, 0xE3, 0xB2, 0xA5]
           @ sgr ''37'' @ replicate 50 32 @ sgr [] @ [10]
      else if mode h = 1
      then (if sent h = 0
            then sgr ''44'' @ sgr ''36'' @ who @ [40] @ t @ [41, 32, 0xD1, 0xFB, 0xC7, 0xEB, 0xC4, 0xE3]
                 @ sgr ''37'' @ replicate 43 32 @ sgr [] @ [10]
            else sgr ''44'' @ sgr ''37'' @ [0xC4, 0xE3, 40] @ t @ [41, 32, 0xD1, 0xFB, 0xC7, 0xEB] @ who
                 @ sgr ''37'' @ replicate 43 32 @ sgr [] @ [10])
      else sgr ''45'' @ sgr ''36'' @ uid @ sgr ''33'' @ [32, 32, 40] @ sgr ''36'' @ t @ sgr ''33'' @ [41]
           @ sgr ''37'' @ replicate 46 32 @ sgr [] @ [10])"

definition msg_attr :: "msghead \<Rightarrow> cstr" where
  "msg_attr h =
     (if mode h = 2 then (if sent h = 0 then sgr ''44;37;1'' else sgr ''36;1'')
      else if mode h = 5 then (if sent h = 0 then sgr ''45;37;1'' else sgr ''45;36;1'')
      else if mode h = 0 then sgr ''44'' @ sgr ''1;37''
      else if mode h = 1 then (if sent h = 0 then sgr ''44'' @ sgr ''1;37'' else sgr ''44'' @ sgr ''1;36'')
      else sgr ''45'' @ sgr ''1;37'')"

definition translate_msg :: "cstr \<Rightarrow> cstr \<Rightarrow> cstr \<Rightarrow> msghead \<Rightarrow> bool \<Rightarrow> cstr \<times> int" where
  "translate_msg site tm src h add_site =
     (let (body, r) = msg_wrap (msg_attr h) src False 0 0
      in (msg_title h (msg_uid h add_site site) tm @ msg_attr h @ body, r))"

section \<open>The queue a mailbox implements\<close>

text \<open>
  \<open>rep s ms k\<close>: the box holds the received messages \<open>ms\<close>, of which the first \<open>k\<close> have been read;
  \<open>capacity\<close> is a number of messages that still fit.
\<close>

locale mailbox =
  fixes rep :: "'s \<Rightarrow> 'm list \<Rightarrow> nat \<Rightarrow> bool"
    and ok :: "'m \<Rightarrow> bool"
    and capacity :: "'s \<Rightarrow> nat"
    and put :: "'s \<Rightarrow> 'm \<Rightarrow> 's"
    and next_unread :: "'s \<Rightarrow> 's \<times> int"
    and view :: "'s \<Rightarrow> int \<Rightarrow> 'm option"
  assumes put_rep: "rep s ms k \<Longrightarrow> ok m \<Longrightarrow> 0 < capacity s \<Longrightarrow>
      rep (put s m) (ms @ [m]) k \<and> capacity s \<le> Suc (capacity (put s m))"
    and next_rep: "rep s ms k \<Longrightarrow> k < length ms \<Longrightarrow>
      \<exists>s'. next_unread s = (s', int k) \<and> rep s' ms (Suc k) \<and> capacity s' = capacity s"
    and next_none: "rep s ms k \<Longrightarrow> length ms \<le> k \<Longrightarrow> snd (next_unread s) = - 1"
    and view_rep: "rep s ms k \<Longrightarrow> i < length ms \<Longrightarrow> view s (int i) = Some (ms ! i)"
begin

text \<open>Reading \<open>n\<close> messages one after the other.\<close>

fun drain :: "nat \<Rightarrow> 's \<Rightarrow> 's \<times> 'm option list" where
  "drain 0 s = (s, [])"
| "drain (Suc n) s =
     (let (s1, i) = next_unread s; (s2, ms) = drain n s1 in (s2, view s1 i # ms))"

lemma puts_rep:
  "rep s ms k \<Longrightarrow> \<forall>m \<in> set xs. ok m \<Longrightarrow> length xs \<le> capacity s \<Longrightarrow>
   rep (foldl put s xs) (ms @ xs) k"
proof (induction xs arbitrary: s ms)
  case (Cons x xs)
  then have "rep (put s x) (ms @ [x]) k" "length xs \<le> capacity (put s x)"
    using put_rep [of s ms k x] by auto
  then show ?case using Cons.IH [of "put s x" "ms @ [x]"] Cons.prems(2) by simp
qed simp

lemma drain_rep:
  "rep s ms k \<Longrightarrow> k + n \<le> length ms \<Longrightarrow>
   \<exists>s'. drain n s = (s', map Some (take n (drop k ms))) \<and> rep s' ms (k + n)"
proof (induction n arbitrary: s k)
  case (Suc n)
  obtain s1 where s1: "next_unread s = (s1, int k)" "rep s1 ms (Suc k)"
    using next_rep [OF Suc.prems(1)] Suc.prems(2) by auto
  obtain s2 where s2: "drain n s1 = (s2, map Some (take n (drop (Suc k) ms)))" "rep s2 ms (Suc k + n)"
    using Suc.IH [OF s1(2)] Suc.prems(2) by auto
  have "take (Suc n) (drop k ms) = ms ! k # take n (drop (Suc k) ms)"
    using Suc.prems(2) by (simp add: Cons_nth_drop_Suc [symmetric])
  then show ?case using s1 s2 view_rep [OF s1(2), of k] Suc.prems(2) by simp
qed simp

text \<open>Everything sent comes out once and in order, behind what was unread before.\<close>

lemma send_then_drain:
  assumes "rep s ms k" "k \<le> length ms" "\<forall>m \<in> set xs. ok m" "length xs \<le> capacity s"
  shows "\<exists>s'. drain (length ms - k + length xs) (foldl put s xs) = (s', map Some (drop k ms @ xs))
     \<and> snd (next_unread s') = - 1"
proof -
  have r: "rep (foldl put s xs) (ms @ xs) k" using puts_rep assms(1,3,4) .
  obtain s' where "drain (length ms - k + length xs) (foldl put s xs)
      = (s', map Some (take (length ms - k + length xs) (drop k (ms @ xs))))"
    "rep s' (ms @ xs) (k + (length ms - k + length xs))"
    using drain_rep [OF r, of "length ms - k + length xs"] assms(2) by auto
  then show ?thesis using next_none [of s' "ms @ xs"] assms(2) by simp
qed

end

section \<open>The files behind it\<close>

lemma length_enc_head: "length (msgid h) = 14 \<Longrightarrow> length (enc_head h) = MSGHEAD_SIZE"
  by (simp add: enc_head_def MSGHEAD_SIZE_def del: le_bytes.simps)

definition int32 :: "int \<Rightarrow> bool" where
  "int32 x \<longleftrightarrow> - 2147483648 \<le> x \<and> x < 2147483648"

definition head_ok :: "msghead \<Rightarrow> bool" where
  "head_ok h \<longleftrightarrow> length (msgid h) = 14 \<and> int32 (pos h) \<and> int32 (len h) \<and> int32 (msgtime h)
     \<and> int32 (frompid h) \<and> int32 (topid h)"

lemma rd_s32_int32: "int32 x \<Longrightarrow> rd_s32 (le32 x @ m) = x" "int32 x \<Longrightarrow> rd_s32 (le32 x) = x"
  using rd_s32_le32 [of x m] rd_s32_le32 [of x "[]"] by (auto simp: int32_def)

lemma dec_enc_head: "head_ok h \<Longrightarrow> dec_head (enc_head h) = h"
  by (simp add: head_ok_def dec_head_def enc_head_def rd_s32_int32 nth_append drop_Cons' del: le_bytes.simps)

definition index_file :: "nat \<Rightarrow> msghead list \<Rightarrow> byte list" where
  "index_file k hs = le32 (int k) @ concat (map enc_head hs)"

definition index_rep :: "byte list option \<Rightarrow> msghead list \<Rightarrow> nat \<Rightarrow> bool" where
  "index_rep f hs k \<longleftrightarrow> opened f = index_file k hs \<or> (opened f = [] \<and> hs = [] \<and> k = 0)"

lemma length_index_file:
  "\<forall>h \<in> set hs. head_ok h \<Longrightarrow> length (index_file k hs) = 4 + MSGHEAD_SIZE * length hs"
  by (induction hs) (auto simp: index_file_def length_enc_head head_ok_def simp del: le_bytes.simps)

lemma head_count_file:
  "\<forall>h \<in> set hs. head_ok h \<Longrightarrow> head_count (index_file k hs) = int (length hs)"
  by (simp add: head_count_def length_index_file cdiv_nonneg MSGHEAD_SIZE_def)

lemma index_file_ne: "index_file k hs \<noteq> []"
  by (simp add: index_file_def eval_nat_numeral)

lemma put_head_rep:
  assumes "index_rep f hs k" "\<forall>h \<in> set hs. head_ok h" "head_ok h"
  shows "put_head (opened f) h = index_file k (hs @ [h])"
proof -
  have p: "pwrite m (length m) bs = m @ bs" for m bs
    by (simp add: pwrite_def pad0_def)
  have w: "pwrite (index_file k hs) (nat (int (length hs) * int MSGHEAD_SIZE + 4)) bs = index_file k hs @ bs" for bs
    using p [of "index_file k hs"] assms(2)
    by (simp add: length_index_file nat_add_distrib nat_mult_distrib mult.commute add.commute)
  show ?thesis
  proof (cases "opened f = []")
    case True
    then have "hs = []" "k = 0" using assms(1) index_file_ne [of k hs] by (auto simp: index_rep_def)
    then show ?thesis using True by (simp add: put_head_def index_file_def pwrite_def pad0_def)
  next
    case False
    then have "opened f = index_file k hs" using assms(1) by (auto simp: index_rep_def)
    then show ?thesis using False w assms(2)
      by (simp add: put_head_def head_count_file) (simp add: index_file_def)
  qed
qed

lemma drop_heads:
  "\<forall>h \<in> set hs. head_ok h \<Longrightarrow>
   drop (MSGHEAD_SIZE * i) (concat (map enc_head hs)) = concat (map enc_head (drop i hs))"
proof (induction hs arbitrary: i)
  case (Cons h hs)
  then have "length (enc_head h) = MSGHEAD_SIZE" by (simp add: length_enc_head head_ok_def)
  then show ?case using Cons by (cases i) simp_all
qed simp

lemma load_head_rep:
  assumes "index_rep (index_of received box) hs k" "\<forall>h \<in> set hs. head_ok h" "i < length hs"
    "index_of received box \<noteq> None"
  shows "load_msghead True received box (int i) = Some (hs ! i)"
proof -
  obtain m where m: "index_of received box = Some m" using assms(4) by auto
  have f: "m = index_file k hs" using assms(1,3) m by (auto simp: index_rep_def opened_def)
  have "drop (nat (int i * int MSGHEAD_SIZE + 4)) m = concat (map enc_head (drop i hs))"
  proof -
    note d = drop_heads [OF assms(2), of i]
    have "nat (int i * int MSGHEAD_SIZE + 4) = 4 + MSGHEAD_SIZE * i"
      by (simp add: nat_add_distrib nat_mult_distrib mult.commute)
    then show ?thesis using d f by (simp add: index_file_def del: le_bytes.simps)
  qed
  also have "\<dots> = enc_head (hs ! i) @ concat (map enc_head (drop (Suc i) hs))"
    using assms(3) by (simp add: Cons_nth_drop_Suc [symmetric])
  finally have "take MSGHEAD_SIZE (drop (nat (int i * int MSGHEAD_SIZE + 4)) m) = enc_head (hs ! i)"
    using assms(2,3) by (simp add: length_enc_head head_ok_def)
  then show ?thesis
    using m f assms(2,3) by (simp add: load_msghead_def head_count_file dec_enc_head)
qed

lemma unread_rep:
  assumes "index_rep f hs k" "\<forall>h \<in> set hs. head_ok h" "int k < 2147483648"
  shows "unread_read (opened f) = (if k < length hs then Some (int k) else None)"
    "k < length hs \<Longrightarrow> unread_write (opened f) (int k) = index_file (Suc k) hs"
proof -
  have k: "int32 (int k)" using assms(3) by (simp add: int32_def)
  show "unread_read (opened f) = (if k < length hs then Some (int k) else None)"
  proof (cases "opened f = []")
    case True
    then have "hs = []" using assms(1) index_file_ne [of k hs] by (auto simp: index_rep_def)
    then show ?thesis using True by (simp add: unread_read_def)
  next
    case False
    then have "opened f = index_file k hs" using assms(1) by (auto simp: index_rep_def)
    moreover have "rd_s32 (index_file k hs) = int k"
      using rd_s32_int32(1) [OF k] by (simp add: index_file_def)
    ultimately show ?thesis using False assms(2) by (simp add: unread_read_def head_count_file)
  qed
  show "unread_write (opened f) (int k) = index_file (Suc k) hs" if "k < length hs"
  proof -
    have "opened f = index_file k hs" using assms(1) that by (auto simp: index_rep_def)
    then show ?thesis
      by (simp add: unread_write_def pwrite_def pad0_def index_file_def add.commute del: le_bytes.simps)
  qed
qed

section \<open>The mailbox of the code\<close>

text \<open>A stored head, the text behind it, and the part of a message that does not depend on the files.\<close>

definition text_at :: "byte list \<Rightarrow> msghead \<Rightarrow> cstr \<Rightarrow> bool" where
  "text_at c h t \<longleftrightarrow> 0 \<le> pos h \<and> len h = min 1023 (int (length t) + 1) \<and> 0 \<notin> set t
     \<and> pos h + len h \<le> int (length c) \<and> take (nat (len h)) (drop (nat (pos h)) c) = take (nat (len h)) (t @ [0])"

definition bare :: "msghead \<Rightarrow> msghead" where
  "bare h = h\<lparr>pos := 0, len := 0\<rparr>"

type_synonym message = "msghead \<times> cstr"

definition msg_ok :: "message \<Rightarrow> bool" where
  "msg_ok m \<longleftrightarrow> head_ok (fst m) \<and> bare (fst m) = fst m \<and> 0 \<notin> set (snd m) \<and> length (snd m) \<le> 1023"

definition box_rep :: "msgbox \<Rightarrow> (msghead \<times> cstr) list \<Rightarrow> nat \<Rightarrow> bool" where
  "box_rep box al k \<longleftrightarrow>
     index_rep (msgindex box) (map fst al) 0
     \<and> index_rep (msgindex2 box) (map fst (filter (\<lambda>m. sent (fst m) = 0) al)) k
     \<and> (\<forall>m \<in> set al. head_ok (fst m) \<and> length (snd m) \<le> 1023
          \<and> text_at (opened (msgcontent box)) (fst m) (snd m))
     \<and> length al \<le> length (opened (msgcontent box)) \<and> length (opened (msgcontent box)) < 2147483648
     \<and> k \<le> length (filter (\<lambda>m. sent (fst m) = 0) al)"

definition recv_rep :: "msgbox \<Rightarrow> message list \<Rightarrow> nat \<Rightarrow> bool" where
  "recv_rep box ms k \<longleftrightarrow>
     (\<exists>al. box_rep box al k \<and> ms = map (\<lambda>(h, t). (bare h, t)) (filter (\<lambda>m. sent (fst m) = 0) al))"

definition box_capacity :: "msgbox \<Rightarrow> nat" where
  "box_capacity box = (2147483647 - length (opened (msgcontent box))) div 1024"

definition io_fine :: msg_io where
  "io_fine = \<lparr>open_index = True, open_content = True, lock_index = True, open_index2 = True, lock_index2 = True\<rparr>"

definition box_put :: "msgbox \<Rightarrow> message \<Rightarrow> msgbox" where
  "box_put box m = fst (save_msgtext io_fine box (fst m) (snd m))"

definition box_view :: "msgbox \<Rightarrow> int \<Rightarrow> message option" where
  "box_view box i =
     (case load_msghead True True box i of
        None \<Rightarrow> None
      | Some h \<Rightarrow> map_option (\<lambda>(t, r). (bare h, t)) (load_msgtext box h (replicate 1024 0)))"

lemma text_at_append: "text_at c h t \<Longrightarrow> text_at (c @ d) h t"
  by (auto simp: text_at_def)

lemma text_at_new:
  assumes "0 \<notin> set t" "i = min 1023 (int (length t) + 1)"
  shows "text_at (c @ take (nat i) (t @ [0])) (h\<lparr>pos := int (length c), len := i\<rparr>) t"
proof -
  have "nat i = min 1023 (Suc (length t))" "0 \<le> i" using assms(2) by auto
  then show ?thesis using assms by (auto simp: text_at_def min_def)
qed

lemma load_text_at:
  assumes "text_at c h t" "msgcontent box = Some c" "length t \<le> 1023"
  shows "load_msgtext box h old = Some (t, 0)"
proof -
  let ?n = "nat (len h)"
  have l: "0 \<le> len h" "len h < 1024" "?n = min 1023 (Suc (length t))"
    using assms(1) by (auto simp: text_at_def)
  have n: "length (take ?n (drop (nat (pos h)) c)) = ?n" using assms(1) l by (auto simp: text_at_def)
  have "take ?n (t @ [0]) = (if length t = 1023 then t else t @ [0])"
    using assms(3) l(3) by auto
  then have "zstr (take ?n (drop (nat (pos h)) c)) = t"
    using assms(1) by (auto simp: text_at_def zstr_append zstr_id)
  then show ?thesis
    using l n assms(2) by (simp add: load_msgtext_def MAX_MSG_SIZE_def Let_def)
qed

lemma save_rep:
  assumes rep: "box_rep box al k" and ok: "msg_ok (h, t)" and cap: "0 < box_capacity box"
  shows "\<exists>box' h'. save_msgtext io_fine box h t = (box', h', 0) \<and> bare h' = h \<and> sent h' = sent h
     \<and> box_rep box' (al @ [(h', t)]) k \<and> box_capacity box \<le> Suc (box_capacity box')"
proof -
  let ?c = "opened (msgcontent box)" and ?rc = "\<lambda>m. sent (fst m) = 0"
  define i where "i = min 1023 (int (length t) + 1)"
  define h' where "h' = h\<lparr>pos := int (length ?c), len := i\<rparr>"
  let ?c' = "?c @ take (nat i) (t @ [0])"
  define b2 where "b2 = (if sent h \<noteq> 0 then msgindex2 box else Some (put_head (opened (msgindex2 box)) h'))"
  let ?b = "box\<lparr>msgindex := Some (put_head (opened (msgindex box)) h'), msgindex2 := b2,
               msgcontent := Some ?c'\<rparr>"
  have i: "(if int (length t) + 1 \<ge> MAX_MSG_SIZE then MAX_MSG_SIZE - 1 else int (length t) + 1) = i"
    using ok by (auto simp: i_def MAX_MSG_SIZE_def msg_ok_def min_def)
  have w: "pwrite c (length c) bs = c @ bs" for c bs by (simp add: pwrite_def pad0_def)
  have save: "save_msgtext io_fine box h t = (?b, h', 0)"
    by (simp add: save_msgtext_def io_fine_def Let_def opened_def i h'_def b2_def w
        split: option.split)
  have small: "length ?c < 2147482624" using cap by (simp add: box_capacity_def div_greater_zero_iff)
  have i1: "0 < nat i" "nat i \<le> 1023" "nat i \<le> Suc (length t)" by (auto simp: i_def)
  have hok: "head_ok h'" "bare h' = h" "sent h' = sent h"
    using ok small i1 by (auto simp: msg_ok_def head_ok_def h'_def bare_def int32_def)
  have heads: "\<forall>x \<in> set (map fst al). head_ok x" "\<forall>x \<in> set (map fst (filter ?rc al)). head_ok x"
    using rep by (auto simp: box_rep_def)
  have r: "index_rep (msgindex box) (map fst al) 0" "index_rep (msgindex2 box) (map fst (filter ?rc al)) k"
    using rep by (simp_all add: box_rep_def)
  have p1: "index_rep (Some (put_head (opened (msgindex box)) h')) (map fst (al @ [(h', t)])) 0"
    using put_head_rep [OF r(1) heads(1) hok(1)] by (simp add: index_rep_def opened_def)
  have p2: "index_rep b2 (map fst (filter ?rc (al @ [(h', t)]))) k"
    using put_head_rep [OF r(2) heads(2) hok(1)] r(2) hok(3)
    by (auto simp: b2_def index_rep_def opened_def)
  have texts: "text_at ?c' (fst m) (snd m)" if "m \<in> set (al @ [(h', t)])" for m
  proof (cases "m \<in> set al")
    case True
    then show ?thesis using rep text_at_append by (auto simp: box_rep_def)
  next
    case False
    then have "m = (h', t)" using that by simp
    then show ?thesis using text_at_new [of t i ?c h] ok by (simp add: msg_ok_def i_def h'_def)
  qed
  have "length (take (nat i) (t @ [0])) = nat i" using i1 by simp
  then have l: "length ?c' = length ?c + nat i" by (simp only: length_append)
  have o: "opened (msgcontent ?b) = ?c'" by (simp add: opened_def)
  have "box_rep ?b (al @ [(h', t)]) k"
    unfolding box_rep_def
  proof (intro conjI ballI)
    show "index_rep (msgindex ?b) (map fst (al @ [(h', t)])) 0" using p1 by simp
    show "index_rep (msgindex2 ?b) (map fst (filter ?rc (al @ [(h', t)]))) k" using p2 by simp
    show "length (al @ [(h', t)]) \<le> length (opened (msgcontent ?b))"
      unfolding o l using rep i1(1) by (simp add: box_rep_def del: zero_less_nat_eq)
    show "length (opened (msgcontent ?b)) < 2147483648" unfolding o l using small i1 by simp
    show "k \<le> length (filter ?rc (al @ [(h', t)]))" using rep by (simp add: box_rep_def)
    fix m assume m: "m \<in> set (al @ [(h', t)])"
    show "text_at (opened (msgcontent ?b)) (fst m) (snd m)" using texts [OF m] by (simp add: opened_def)
    show "head_ok (fst m)" "length (snd m) \<le> 1023" using m hok(1) ok rep
      by (auto simp: box_rep_def msg_ok_def)
  qed
  moreover have "box_capacity box \<le> Suc (box_capacity ?b)"
    unfolding box_capacity_def o l
  proof -
    have "2147483647 - length ?c \<le> (2147483647 - (length ?c + nat i)) + 1024" using i1(2) by linarith
    then have "(2147483647 - length ?c) div 1024 \<le> ((2147483647 - (length ?c + nat i)) + 1024) div 1024"
      by (rule div_le_mono)
    then show "(2147483647 - length ?c) div 1024 \<le> Suc ((2147483647 - (length ?c + nat i)) div 1024)"
      unfolding div_add_self2 [OF zero_neq_numeral [symmetric]] Suc_eq_plus1 .
  qed
  ultimately show ?thesis using save hok(2,3) by blast
qed

definition recv_ok :: "message \<Rightarrow> bool" where
  "recv_ok m \<longleftrightarrow> msg_ok m \<and> sent (fst m) = 0"

definition box_next :: "msgbox \<Rightarrow> msgbox \<times> int" where
  "box_next = get_unreadmsg io_fine"

lemma box_next_rep:
  assumes "recv_rep box ms k"
  shows "k < length ms \<Longrightarrow> \<exists>box'. box_next box = (box', int k) \<and> recv_rep box' ms (Suc k)
      \<and> box_capacity box' = box_capacity box"
    "length ms \<le> k \<Longrightarrow> snd (box_next box) = - 1"
proof -
  let ?rc = "\<lambda>m. sent (fst m) = 0"
  obtain al where al: "box_rep box al k" "ms = map (\<lambda>(h, t). (bare h, t)) (filter ?rc al)"
    using assms by (auto simp: recv_rep_def)
  let ?hs = "map fst (filter ?rc al)"
  have r: "index_rep (msgindex2 box) ?hs k" "\<forall>h \<in> set ?hs. head_ok h" using al(1) by (auto simp: box_rep_def)
  have "length (filter ?rc al) \<le> length al" by simp
  then have k: "int k < 2147483648" using al(1) unfolding box_rep_def by linarith
  note u = unread_rep [OF r k]
  show "\<exists>box'. box_next box = (box', int k) \<and> recv_rep box' ms (Suc k) \<and> box_capacity box' = box_capacity box"
    if "k < length ms"
  proof -
    let ?b = "box\<lparr>msgindex2 := Some (index_file (Suc k) ?hs)\<rparr>"
    have lt: "k < length ?hs" using that al(2) by simp
    have "box_next box = (?b, int k)"
      using u lt by (simp add: box_next_def get_unreadmsg_def io_fine_def Let_def opened_def)
    moreover have "box_rep ?b al (Suc k)"
      using al(1) lt by (simp add: box_rep_def index_rep_def opened_def)
    moreover have "box_capacity ?b = box_capacity box" by (simp add: box_capacity_def)
    ultimately show ?thesis using al(2) by (auto simp: recv_rep_def)
  qed
  show "snd (box_next box) = - 1" if "length ms \<le> k"
    using u(1) that al(2) by (simp add: box_next_def get_unreadmsg_def io_fine_def Let_def opened_def)
qed

lemma box_view_rep:
  assumes "recv_rep box ms k" "i < length ms"
  shows "box_view box (int i) = Some (ms ! i)"
proof -
  let ?rc = "\<lambda>m. sent (fst m) = 0"
  obtain al where al: "box_rep box al k" "ms = map (\<lambda>(h, t). (bare h, t)) (filter ?rc al)"
    using assms by (auto simp: recv_rep_def)
  let ?hs = "map fst (filter ?rc al)"
  have r: "index_rep (index_of True box) ?hs k" "\<forall>h \<in> set ?hs. head_ok h"
    using al(1) by (auto simp: box_rep_def index_of_def)
  have i: "i < length ?hs" using assms(2) al(2) by simp
  then have ne: "index_of True box \<noteq> None"
    using r(1) index_file_ne [of k ?hs] i
    by (cases "index_of True box") (auto simp: index_rep_def opened_def)
  note h = load_head_rep [OF r i ne]
  let ?m = "filter ?rc al ! i"
  have "?m \<in> set (filter ?rc al)" using i by (intro nth_mem) simp
  then have m: "?m \<in> set al" by simp
  have "opened (msgcontent box) \<noteq> []" using al(1) m by (auto simp: box_rep_def)
  then obtain c where c: "msgcontent box = Some c" by (auto simp: opened_def split: option.splits)
  have "text_at c (fst ?m) (snd ?m)" "length (snd ?m) \<le> 1023"
    using al(1) m c by (auto simp: box_rep_def opened_def)
  then have "load_msgtext box (fst ?m) old = Some (snd ?m, 0)" for old using load_text_at c by blast
  then show ?thesis using h i al(2) by (simp add: box_view_def split_def)
qed

interpretation mb: mailbox recv_rep recv_ok box_capacity box_put box_next box_view
proof
  fix s ms k m
  assume a: "recv_rep s ms k" "recv_ok m" "0 < box_capacity s"
  obtain al where al: "box_rep s al k" "ms = map (\<lambda>(h, t). (bare h, t)) (filter (\<lambda>m. sent (fst m) = 0) al)"
    using a(1) by (auto simp: recv_rep_def)
  obtain h t where m: "m = (h, t)" by fastforce
  obtain box' h' where b: "save_msgtext io_fine s h t = (box', h', 0)" "bare h' = h" "sent h' = sent h"
    "box_rep box' (al @ [(h', t)]) k" "box_capacity s \<le> Suc (box_capacity box')"
    using save_rep [OF al(1) _ a(3), of h t] a(2) m by (auto simp: recv_ok_def)
  have "ms @ [m] = map (\<lambda>(h, t). (bare h, t)) (filter (\<lambda>m. sent (fst m) = 0) (al @ [(h', t)]))"
    using al(2) b(2,3) a(2) m by (simp add: recv_ok_def)
  then show "recv_rep (box_put s m) (ms @ [m]) k \<and> box_capacity s \<le> Suc (box_capacity (box_put s m))"
    using b m by (auto simp: recv_rep_def box_put_def)
qed (use box_next_rep box_view_rep in auto)

section \<open>Statements about the code\<close>

text \<open>Fetching the unread messages one by one.\<close>

fun read_msgs :: "nat \<Rightarrow> msgbox \<Rightarrow> msgbox \<times> message option list" where
  "read_msgs 0 box = (box, [])"
| "read_msgs (Suc n) box =
     (let (b1, i) = box_next box; (b2, ms) = read_msgs n b1 in (b2, box_view b1 i # ms))"

lemma read_msgs_drain: "read_msgs n box = mb.drain n box"
  by (induction n arbitrary: box) (auto split: prod.splits)

lemma unread_count_rep: "recv_rep box ms k \<Longrightarrow> get_unreadcount True box = int (length ms) - int k"
proof -
  assume r: "recv_rep box ms k"
  let ?rc = "\<lambda>m. sent (fst m) = 0"
  obtain al where al: "box_rep box al k" "ms = map (\<lambda>(h, t). (bare h, t)) (filter ?rc al)"
    using r by (auto simp: recv_rep_def)
  let ?hs = "map fst (filter ?rc al)"
  have i: "index_rep (msgindex2 box) ?hs k" "\<forall>h \<in> set ?hs. head_ok h" "k \<le> length ?hs"
    using al(1) by (auto simp: box_rep_def)
  have "length (filter ?rc al) \<le> length al" by simp
  then have k: "int32 (int k)" using al(1) unfolding box_rep_def int32_def by linarith
  show ?thesis
  proof (cases "opened (msgindex2 box) = []")
    case True
    then have "?hs = []" "k = 0" using i(1) index_file_ne [of k ?hs] by (auto simp: index_rep_def)
    then show ?thesis using True al(2)
      by (auto simp: get_unreadcount_def opened_def split: option.splits)
  next
    case False
    then have f: "msgindex2 box = Some (index_file k ?hs)"
      using i(1) by (cases "msgindex2 box") (auto simp: index_rep_def opened_def)
    have "rd_s32 (index_file k ?hs) = int k" using rd_s32_int32(1) [OF k] by (simp add: index_file_def)
    then show ?thesis using f i al(2) index_file_ne [of k ?hs]
      by (simp add: get_unreadcount_def head_count_file)
  qed
qed

lemma clear_rep: "recv_rep (clear_msg box) [] 0" "box_capacity (clear_msg box) = 2097151"
  by (auto simp: recv_rep_def box_rep_def clear_msg_def index_rep_def opened_def box_capacity_def
      intro!: exI [of _ "[]"])

text \<open>
  C15: A mailbox is a queue: whatever well-formed messages of at most 1023 bytes are saved, fetching
  brings every message not yet read once, in the order of saving and with the text that was saved, and
  then reports that nothing is left; before fetching, the count of unread messages is theirs.  The
  capacity is that of file positions of 31 bits.
\<close>

theorem mailbox_fifo:
  assumes "recv_rep box ms k" "k \<le> length ms" "\<forall>m \<in> set xs. recv_ok m" "length xs \<le> box_capacity box"
  shows "(\<exists>box'. read_msgs (length ms - k + length xs) (foldl box_put box xs)
        = (box', map Some (drop k ms @ xs)) \<and> snd (get_unreadmsg io_fine box') = - 1)
    \<and> get_unreadcount True (foldl box_put box xs) = int (length ms - k + length xs)
    \<and> snd (get_unreadmsg io_fine (clear_msg box)) = - 1"
proof -
  have "snd (get_unreadmsg io_fine (clear_msg box)) = - 1"
    by (simp add: get_unreadmsg_def io_fine_def clear_msg_def opened_def unread_read_def)
  then show ?thesis
    using mb.send_then_drain [OF assms] unread_count_rep [OF mb.puts_rep [OF assms(1,3,4)]] assms(2)
    by (simp add: read_msgs_drain box_next_def of_nat_diff)
qed

definition hello_msg :: message where
  "hello_msg = (\<lparr>pos = 0, len = 0, sent = 0, mode = 2, msgid = replicate 14 0, msgtime = 7, frompid = 1,
     topid = 1\<rparr>, lit ''hello'')"

theorem mailbox_fifo_witness:
  "\<exists>box'. read_msgs 1 (foldl box_put (clear_msg \<lparr>msgindex = None, msgindex2 = None, msgcontent = None\<rparr>)
       [hello_msg]) = (box', [Some hello_msg])"
proof -
  have "recv_ok hello_msg"
    by (simp add: recv_ok_def msg_ok_def hello_msg_def head_ok_def int32_def bare_def)
  then show ?thesis
    using mailbox_fifo [OF clear_rep(1), of "[hello_msg]" "\<lparr>msgindex = None, msgindex2 = None, msgcontent = None\<rparr>"]
      clear_rep(2) [of "\<lparr>msgindex = None, msgindex2 = None, msgcontent = None\<rparr>"]
    by (auto simp del: read_msgs.simps)
qed

text \<open>
  Two programs of one user that both hold the read lock: each reads the counter before either stores
  it, so both show the same message.
\<close>

lemma unread_delivered_twice:
  assumes "index_rep (Some m) hs k" "\<forall>h \<in> set hs. head_ok h" "k < length hs" "int k < 2147483647"
  shows "unread_read m = Some (int k)"
    "unread_write (unread_write m (int k)) (int k) = index_file (Suc k) hs"
proof -
  have o: "opened (Some m) = m" by (simp add: opened_def)
  show "unread_read m = Some (int k)" using unread_rep(1) [OF assms(1,2)] assms(3,4) o by simp
  have "unread_write m (int k) = index_file (Suc k) hs" using unread_rep(2) [OF assms(1,2)] assms(3,4) o by simp
  then show "unread_write (unread_write m (int k)) (int k) = index_file (Suc k) hs"
    by (simp add: unread_write_def pwrite_def pad0_def index_file_def add.commute del: le_bytes.simps)
qed

text \<open>Lines of a message on the terminal.\<close>

definition newlines :: "cstr \<Rightarrow> nat" where
  "newlines s = length (filter (\<lambda>c. c = 10) s)"

lemma newlines_append [simp]: "newlines (s @ t) = newlines s + newlines t"
  by (simp add: newlines_def)

lemma newlines_simps [simp]: "newlines [] = 0" "newlines (c # s) = (if c = 10 then 1 else 0) + newlines s"
  "newlines (replicate n 32) = 0"
  by (simp_all add: newlines_def filter_replicate)

lemma msg_wrap_newlines:
  "newlines attstr = 0 \<Longrightarrow>
   snd (msg_wrap attstr s j p ret) = int (newlines (fst (msg_wrap attstr s j p ret))) + ret + 1"
  by (induction s arbitrary: j p ret) (auto simp: Let_def split_def)

lemma msg_title_newlines:
  assumes "newlines uid = 0" "newlines tm = 0" "newlines (msgid h) = 0"
  shows "newlines (msg_title h uid tm) = 1" "newlines (msg_attr h) = 0"
proof -
  have t: "newlines (take n s) = 0" if "newlines s = 0" for n s
    using that set_take_subset [of n s] by (auto simp: newlines_def filter_empty_conv)
  have z: "newlines (zstr s) = 0" if "newlines s = 0" for s
    using that set_takeWhileD by (fastforce simp: newlines_def zstr_def filter_empty_conv)
  show "newlines (msg_title h uid tm) = 1"
    using assms by (simp add: msg_title_def Let_def sgr_def fixw_def rfixw_def t z)
  show "newlines (msg_attr h) = 0"
    by (simp add: msg_attr_def sgr_def)
qed

text \<open>
  The number \<open>translate_msg\<close> returns is the number of lines of the text it lays out, its title line
  included, for any text, line feeds and two-byte characters in it included.
\<close>

theorem translate_msg_lines:
  assumes "newlines site = 0" "newlines tm = 0" "newlines (msgid h) = 0"
  shows "int (newlines (fst (translate_msg site tm src h add_site))) = snd (translate_msg site tm src h add_site)"
proof -
  have "newlines (msg_uid h add_site site) = 0"
  proof -
    have t: "newlines (take n s) = 0" if "newlines s = 0" for n s
      using that set_take_subset [of n s] by (auto simp: newlines_def filter_empty_conv)
    have "newlines (zstr (msgid h)) = 0"
      using assms(3) set_takeWhileD by (fastforce simp: newlines_def zstr_def filter_empty_conv)
    then have "newlines (zstr (msgid h) @ [64] @ site) = 0" "newlines ([0xD5, 0xBE, 0xB3, 0xA4, 64] @ site) = 0"
      using assms(1) by simp_all
    then show ?thesis using t \<open>newlines (zstr (msgid h)) = 0\<close> unfolding msg_uid_def fixw_def by simp
  qed
  from msg_title_newlines [OF this assms(2,3)] show ?thesis
    using msg_wrap_newlines [of "msg_attr h" src False 0 0]
    by (simp add: translate_msg_def split_def Let_def)
qed

theorem translate_msg_lines_witness:
  "int (newlines (fst (translate_msg (lit ''ytht'') (lit ''now'') (lit ''hello'') (fst hello_msg) True)))
     = snd (translate_msg (lit ''ytht'') (lit ''now'') (lit ''hello'') (fst hello_msg) True)"
proof -
  have "newlines (lit ''ytht'') = 0" "newlines (lit ''now'') = 0" "newlines (msgid (fst hello_msg)) = 0"
    by (simp_all add: hello_msg_def newlines_def filter_replicate)
  then show ?thesis by (rule translate_msg_lines)
qed

end
