(* ===== verification/MailQuota.thy ===== *)
theory MailQuota
  imports UserDb Article
begin

text \<open>
  Mail to a user and the quota of his mailbox: \<open>ythtlib/numbyte.c\<close> and \<open>libythtbbs/mail.c\<close>.  The size
  of a mail is kept in one byte, the size of the mailbox in kilobytes in the \<open>short\<close> field \<open>mailsize\<close> of
  the user's record: -1 means too much for the field, -2 not counted yet.
\<close>

section \<open>Sizes in one byte\<close>

definition numtable :: "int list" where
  "numtable =
   [
    1, 2, 3, 4, 5, 6, 7, 8, 9, 10, 11, 12, 13, 14, 15, 16, 17, 18, 19, 20, 21, 22, 23, 24, 25, 26,
    27, 28, 29, 30, 31, 32, 33, 34, 35, 36, 37, 38, 39, 40, 41, 42, 43, 44, 45, 46, 47, 48, 49,
    50, 51, 52, 53, 55, 56, 57, 59, 61, 63, 65, 67, 69, 71, 74, 77, 80, 83, 86, 90, 94, 98, 103,
    108, 113, 118, 124, 131, 138, 145, 153, 161, 170, 180, 190, 201, 213, 226, 240, 255, 270, 287,
    305, 324, 345, 367, 391, 417, 444, 473, 505, 538, 574, 613, 654, 699, 746, 797, 852, 910, 973,
    1040, 1112, 1189, 1272, 1360, 1455, 1557, 1666, 1782, 1907, 2041, 2185, 2339, 2504, 2681,
    2870, 3073, 3290, 3524, 3773, 4041, 4328, 4635, 4964, 5317, 5695, 6101, 6535, 7000, 7499,
    8033, 8606, 9219, 9877, 10581, 11336, 12145, 13012, 13941, 14937, 16004, 17147, 18372, 19685,
    21092, 22599, 24214, 25945, 27800, 29788, 31918, 34201, 36646, 39267, 42076, 45086, 48311,
    51767, 55471, 59439, 63692, 68249, 73133, 78366, 83973, 89983, 96422, 103322, 110717, 118640,
    127131, 136230, 145980, 156429, 167625, 179623, 192479, 206256, 221020, 236840, 253793,
    271960, 291427, 312288, 334642, 358596, 384266, 411773, 441249, 472836, 506684, 542955,
    581822, 623472, 668104, 715931, 767183, 822103, 880955, 944020, 1011600, 1084018, 1161620,
    1244778, 1333889, 1429380, 1531707, 1641359, 1758862, 1884776, 2019705, 2164294, 2319233,
    2485265, 2663182, 2853837, 3058141, 3277071, 3511675, 3763073, 4032469, 4321152, 4630501,
    4961996, 5317223, 5697881, 6105791, 6542902, 7011306, 7513244, 8051115, 8627493, 9245133,
    9906990, 10616230, 11376244, 12190668, 13063396, 13998603, 15000762, 16074665, 17225449,
    18458618, 19780069, 21196124]"

fun numbyte_loop :: "int \<Rightarrow> int list \<Rightarrow> nat \<Rightarrow> nat" where
  "numbyte_loop n [] i = i"
| "numbyte_loop n (t # ts) i = (if i < 254 \<and> n > t then numbyte_loop n ts (i + 1) else i)"

definition numbyte :: "int \<Rightarrow> byte" where
  "numbyte n = (if n \<le> 0 then 0 else of_nat (numbyte_loop n numtable 0 + 1))"

definition bytenum :: "byte \<Rightarrow> int" where
  "bytenum c = (if c = 0 then 0 else numtable ! (unat c - 1))"

fun tight :: "int \<Rightarrow> int list \<Rightarrow> bool" where
  "tight t [] = True"
| "tight t (x # xs) = (t < x \<and> 100 * x \<le> 108 * (t + 1) \<and> tight x xs)"

lemma length_numtable: "length numtable = 255"
  by (simp add: numtable_def)

lemma tight_numtable: "tight 0 numtable"
  unfolding numtable_def by simp

lemma numtable_last: "numtable ! 254 = 21196124"
  by (simp add: numtable_def)

lemma numbyte_loop_spec:
  "tight t ts \<Longrightarrow> t < n \<Longrightarrow> i + length ts = 255 \<Longrightarrow> ts \<noteq> [] \<Longrightarrow>
   (let k = numbyte_loop n ts i in
    i \<le> k \<and> k \<le> 254 \<and> 100 * ts ! (k - i) \<le> 108 * n \<and> (n \<le> last ts \<longrightarrow> n \<le> ts ! (k - i))
    \<and> (\<forall>j. i \<le> j \<and> j < k \<longrightarrow> ts ! (j - i) < n))"
proof (induction n ts i arbitrary: t rule: numbyte_loop.induct)
  case (2 n x xs i)
  show ?case
  proof (cases "i < 254 \<and> n > x")
    case True
    then have ne: "xs \<noteq> []" using 2(4) by auto
    let ?k = "numbyte_loop n xs (i + 1)"
    have ih: "i + 1 \<le> ?k" "?k \<le> 254" "100 * xs ! (?k - (i + 1)) \<le> 108 * n"
      "n \<le> last xs \<longrightarrow> n \<le> xs ! (?k - (i + 1))"
      "\<forall>j. i + 1 \<le> j \<and> j < ?k \<longrightarrow> xs ! (j - (i + 1)) < n"
      using 2(1) [OF True, of x] 2(2-5) ne True by (auto simp: Let_def)
    have "(x # xs) ! (j - i) < n" if "i \<le> j" "j < ?k" for j
      using ih(5) that True by (cases "j = i") (auto simp: nth_Cons')
    moreover have "?k - i = Suc (?k - (i + 1))" using ih(1) by simp
    ultimately show ?thesis using ih(1-4) True ne by (simp add: Let_def)
  next
    case False
    then have "numbyte_loop n (x # xs) i = i" by (simp only: numbyte_loop.simps if_False)
    moreover have "100 * x \<le> 108 * n" using 2(2,3) by simp
    moreover have "xs = []" if "\<not> n \<le> x" using 2(4) that False by (cases xs) auto
    ultimately show ?thesis using 2(4) by (auto simp: Let_def)
  qed
qed simp

lemma loop_numtable:
  assumes "0 < n"
  defines "k \<equiv> numbyte_loop n numtable 0"
  shows "k \<le> 254" "100 * numtable ! k \<le> 108 * n" "n \<le> 21196124 \<Longrightarrow> n \<le> numtable ! k"
    "\<And>j. j < k \<Longrightarrow> numtable ! j < n"
proof -
  have ne: "numtable \<noteq> []" using length_numtable by force
  have l: "last numtable = 21196124" using numtable_last length_numtable ne by (simp add: last_conv_nth)
  note s = numbyte_loop_spec [OF tight_numtable assms(1), of 0, unfolded Let_def l]
  have "0 + length numtable = 255" using length_numtable by simp
  note s = s [OF this ne]
  show "k \<le> 254" "100 * numtable ! k \<le> 108 * n" "n \<le> 21196124 \<Longrightarrow> n \<le> numtable ! k"
    "\<And>j. j < k \<Longrightarrow> numtable ! j < n"
    using s by (simp_all add: k_def)
qed

lemma unat_numbyte: "0 < n \<Longrightarrow> unat (numbyte n) = numbyte_loop n numtable 0 + 1"
  using loop_numtable(1) [of n]
  by (simp add: numbyte_def unsigned_of_nat take_bit_eq_mod del: of_nat_add of_nat_Suc)

lemma bytenum_numbyte: "0 < n \<Longrightarrow> bytenum (numbyte n) = numtable ! numbyte_loop n numtable 0"
proof -
  assume "0 < n"
  note u = unat_numbyte [OF this]
  then have "numbyte n \<noteq> 0" by (metis unat_0 add_is_0 one_neq_zero)
  then show ?thesis using u by (simp add: bytenum_def)
qed

text \<open>
  C17: The byte kept for a size stands for a size that is not smaller, at most 8 per cent larger, and is the
  smallest with that property in the table, for sizes up to 21196124; for any size it is a valid index.
\<close>

theorem numbyte_tight:
  assumes "0 < n"
  shows "100 * bytenum (numbyte n) \<le> 108 * n
    \<and> (n \<le> 21196124 \<longrightarrow> n \<le> bytenum (numbyte n))
    \<and> 0 < unat (numbyte n) \<and> unat (numbyte n) \<le> 255
    \<and> (\<forall>c. 0 < unat c \<and> unat c < unat (numbyte n) \<longrightarrow> bytenum c < n)"
proof -
  let ?k = "numbyte_loop n numtable 0"
  note s = loop_numtable [OF assms]
  have "bytenum c < n" if "0 < unat c" "unat c < unat (numbyte n)" for c
  proof -
    have "c \<noteq> 0" using that(1) by auto
    then show ?thesis using s(4) that unat_numbyte [OF assms] by (simp add: bytenum_def)
  qed
  then show ?thesis
    using s(1-3) bytenum_numbyte [OF assms] unat_numbyte [OF assms] by auto
qed

theorem numbyte_tight_witness: "5000 \<le> bytenum (numbyte 5000) \<and> bytenum (numbyte 5000) \<le> 5400"
  using numbyte_tight [of 5000] by simp

section \<open>The mailbox and its quota\<close>

definition FH_SYSMAIL :: "32 word" where "FH_SYSMAIL = 0x20000"
definition PERM_BOARDS :: "32 word" where "PERM_BOARDS = 0x400"
definition PERM_ARBITRATE :: "32 word" where "PERM_ARBITRATE = 0x1000"
definition PERM_MAILADMIN :: "32 word" where "PERM_MAILADMIN = 0x4000"
definition PERM_SPECIAL1 :: "32 word" where "PERM_SPECIAL1 = 0x400000"
definition PERM_DENYMAIL :: "32 word" where "PERM_DENYMAIL = 0x40000000"

definition SHRT_MAX :: int where "SHRT_MAX = 32767"

text \<open>Assigning an \<open>int\<close> to a \<open>short\<close>.\<close>

definition to_short :: "int \<Rightarrow> int" where
  "to_short x = to_signed 16 (x mod 2 ^ 16)"

datatype mfile = Plain "byte list" | Link cstr

text \<open>
  The users, the \<open>.DIR\<close> file in each user's mail directory, and the files by their paths.
  \<open>mail_env\<close>: what the system calls answer, the clock, and the name of the site.
\<close>

record mailst =
  mdb :: pwdb
  mdirs :: "cstr \<Rightarrow> fileheader list option"
  mfiles :: "cstr \<Rightarrow> mfile option"

record mail_env =
  bbs_home :: cstr
  bbs_name :: cstr
  mdir_ok :: bool
  dir_open :: bool
  mfile_open :: bool
  link_ok :: bool
  linkname_ok :: bool
  pio :: passwd_io
  mnow :: int
  mtime :: cstr

definition setmailfile :: "cstr \<Rightarrow> cstr \<Rightarrow> cstr \<Rightarrow> cstr" where
  "setmailfile home uid f =
     home @ lit ''/mail/'' @ [mytoupper (hd (uid @ [0]))] @ [47] @ uid @ [47] @ f"

definition file_size :: "mailst \<Rightarrow> cstr \<Rightarrow> int" where
  "file_size st p =
     (case mfiles st p of
        None \<Rightarrow> 0
      | Some (Plain b) \<Rightarrow> int (length b)
      | Some (Link q) \<Rightarrow> (case mfiles st q of Some (Plain b) \<Rightarrow> int (length b) | _ \<Rightarrow> 0))"

definition has_level :: "userec \<Rightarrow> 32 word \<Rightarrow> bool" where
  "has_level u lev \<longleftrightarrow> userlevel u AND lev \<noteq> 0"

definition mailsize_nolimit :: "cstr list" where
  "mailsize_nolimit = [lit ''SYSOP'', lit ''delete'', lit ''arbitration'']"

definition max_mailsize :: "userec \<Rightarrow> int" where
  "max_mailsize u =
     (if has_level u PERM_MAILADMIN \<or> has_level u PERM_SPECIAL1 then 300
      else if has_level u PERM_ARBITRATE \<or> has_level u PERM_BOARDS then 100 * 2 else 100) * 10"

text \<open>The size of one mail in kilobytes, at least 1.\<close>

definition filekilo :: "nat \<Rightarrow> int" where
  "filekilo sb = (let k = bytenum (of_nat sb) div 1024 in if k = 0 then 1 else k)"

definition calc_entry :: "mailst \<Rightarrow> cstr \<Rightarrow> cstr \<Rightarrow> fileheader \<Rightarrow> fileheader" where
  "calc_entry st home uid fh =
     (if sizebyte fh = 0
      then fh\<lparr>sizebyte := unat (numbyte (file_size st (setmailfile home uid (fh2fname fh))))\<rparr>
      else fh)"

definition dir_kilos :: "fileheader list \<Rightarrow> int" where
  "dir_kilos fs = sum_list (map (\<lambda>fh. filekilo (sizebyte fh)) fs)"

text \<open>The record of user \<open>i\<close> (1-based).\<close>

definition urec :: "mailst \<Rightarrow> nat \<Rightarrow> userec" where
  "urec st i = snd (mdb st) ! (i - 1)"

definition set_mailsize :: "mail_env \<Rightarrow> mailst \<Rightarrow> userec \<Rightarrow> int \<Rightarrow> mailst option" where
  "set_mailsize env st u n = map_option (\<lambda>(db, r). st\<lparr>mdb := db\<rparr>) (updateuserec (pio env) (mdb st) u n)"

definition calc_mailsize :: "mail_env \<Rightarrow> mailst \<Rightarrow> nat \<Rightarrow> (mailst \<times> int) option" where
  "calc_mailsize env st i =
     (let u = urec st i in
      if \<not> mdir_ok env \<or> \<not> dir_open env then Some (st, 0)
      else let fs = (case mdirs st (userid u) of None \<Rightarrow> [] | Some fs \<Rightarrow> fs);
               fs' = map (calc_entry st (bbs_home env) (userid u)) fs;
               n = dir_kilos fs';
               st1 = st\<lparr>mdirs := (mdirs st)(userid u \<mapsto> fs')\<rparr>
           in map_option (\<lambda>st2. (st2, n))
                (set_mailsize env st1 (u\<lparr>mailsize := (if n > SHRT_MAX \<or> n < 0 then - 1 else n)\<rparr>) 0))"

definition get_mailsize :: "mail_env \<Rightarrow> mailst \<Rightarrow> nat \<Rightarrow> (mailst \<times> int) option" where
  "get_mailsize env st i =
     (if mailsize (urec st i) = - 2
      then map_option (\<lambda>(st', n). (st', mailsize (urec st' i))) (calc_mailsize env st i)
      else Some (st, mailsize (urec st i)))"

definition update_mailsize_up :: "mail_env \<Rightarrow> mailst \<Rightarrow> fileheader \<Rightarrow> cstr \<Rightarrow> (mailst \<times> int) option" where
  "update_mailsize_up env st fh name =
     (case getuser (mdb st) name of
        None \<Rightarrow> None
      | Some i \<Rightarrow>
          if i = 0 then Some (st, - 1)
          else if userid (urec st i) \<in> set mailsize_nolimit then Some (st, 0)
          else case get_mailsize env st i of
            None \<Rightarrow> None
          | Some (st1, currsize) \<Rightarrow>
              let sysmail = (accessed fh AND FH_SYSMAIL \<noteq> 0); u = urec st1 i; size' = filekilo (sizebyte fh) in
              if currsize = - 1 \<and> \<not> sysmail then Some (st1, - 1)
              else if currsize \<noteq> - 1 \<and> size' + currsize > SHRT_MAX \<and> \<not> sysmail then Some (st1, - 1)
              else if currsize \<noteq> - 1 \<and> size' + currsize \<le> SHRT_MAX \<and> size' + currsize > max_mailsize u \<and> \<not> sysmail
              then Some (st1, - 1)
              else map_option (\<lambda>st2. (st2, 0))
                     (set_mailsize env st1
                        (u\<lparr>mailsize := (if currsize = - 1 \<or> size' + currsize > SHRT_MAX then - 1
                                       else to_short (mailsize u + size'))\<rparr>) (int i)))"

definition update_mailsize_down :: "mail_env \<Rightarrow> mailst \<Rightarrow> fileheader \<Rightarrow> cstr \<Rightarrow> (mailst \<times> int) option" where
  "update_mailsize_down env st fh name =
     (case getuser (mdb st) name of
        None \<Rightarrow> None
      | Some i \<Rightarrow>
          if i = 0 then Some (st, - 1)
          else if userid (urec st i) \<in> set mailsize_nolimit then Some (st, 0)
          else case get_mailsize env st i of
            None \<Rightarrow> None
          | Some (st1, c) \<Rightarrow>
              case (if c = - 1 then calc_mailsize env st1 i else Some (st1, c)) of
                None \<Rightarrow> None
              | Some (st2, currsize) \<Rightarrow>
                  let u = urec st2 i; size' = filekilo (sizebyte fh) in
                  map_option (\<lambda>st3. (st3, 0))
                    (set_mailsize env st2
                       (u\<lparr>mailsize := (if currsize < size' then 0
                                      else if currsize - size' > SHRT_MAX then - 1
                                      else to_short (mailsize u - size'))\<rparr>) (int i)))"

definition DIR_do_editmail ::
  "mail_env \<Rightarrow> mailst \<Rightarrow> fileheader \<Rightarrow> fileheader \<Rightarrow> cstr \<Rightarrow> (mailst \<times> fileheader) option" where
  "DIR_do_editmail env st fh new name =
     (case getuser (mdb st) name of
        None \<Rightarrow> None
      | Some i \<Rightarrow>
          let size' = cdiv (bytenum (of_nat (sizebyte new)) - bytenum (of_nat (sizebyte fh))) 1024;
              fh' = fh\<lparr>sizebyte := sizebyte new, edittime := edittime new\<rparr> in
          if i = 0 then Some (st, fh')
          else case get_mailsize env st i of
            None \<Rightarrow> None
          | Some (st1, currsize) \<Rightarrow>
              let u = urec st1 i in
              map_option (\<lambda>st2. (st2, fh'))
                (set_mailsize env st1
                   (u\<lparr>mailsize := (if currsize + size' > SHRT_MAX then SHRT_MAX
                                  else if currsize + size' < 0 then 0
                                  else to_short (mailsize u + size'))\<rparr>) (int i)))"

text \<open>\<open>check_mailperm\<close>: which of the messages is returned; \<open>None\<close> in the result is the null pointer.\<close>

datatype mailperm_err = NoSuchUser | MailDenied | BoxFull int

definition check_mailperm :: "mail_env \<Rightarrow> mailst \<Rightarrow> nat option \<Rightarrow> (mailst \<times> mailperm_err option) option" where
  "check_mailperm env st who =
     (case who of
        None \<Rightarrow> Some (st, Some NoSuchUser)
      | Some i \<Rightarrow>
          if has_level (urec st i) PERM_DENYMAIL then Some (st, Some MailDenied)
          else let maxsize = max_mailsize (urec st i) in
            map_option (\<lambda>(st1, currsize). (st1, if currsize < 0 \<or> currsize > maxsize then Some (BoxFull maxsize) else None))
              (get_mailsize env st i))"

definition invalidaddr :: "cstr \<Rightarrow> bool" where
  "invalidaddr addr \<longleftrightarrow> addr = [] \<or> 64 \<notin> set addr
     \<or> (\<exists>c \<in> set addr. \<not> isalnum c \<and> c \<notin> set (lit ''.!@:-_''))"

section \<open>Delivering a mail\<close>

text \<open>The record of a new mail; \<open>sz\<close> is the size of its text, 1024 for a link.\<close>

definition new_mail :: "cstr \<Rightarrow> cstr \<Rightarrow> int \<Rightarrow> bool \<Rightarrow> fileheader" where
  "new_mail ttl sender sz sysmail =
     (let fh = fh_setowner zero_fileheader sender False
      in fh\<lparr>title := pad0 60 (strsncpy ttl 60), sizebyte := unat (numbyte sz),
            accessed := (if sysmail then accessed fh OR FH_SYSMAIL else accessed fh AND NOT FH_SYSMAIL)\<rparr>)"

text \<open>
  Appending the record to the mailbox: the callback of \<open>append_dir_callback\<close> is \<open>update_mailsize_up\<close>,
  which is reached when a file name was found.
\<close>

definition append_mail :: "mail_env \<Rightarrow> mailst \<Rightarrow> nat \<Rightarrow> cstr \<Rightarrow> fileheader \<Rightarrow> (mailst \<times> int) option" where
  "append_mail env st i name fh =
     (let uid = userid (urec st i); path = setmailfile (bbs_home env) uid (lit ''.DIR'');
          existing = {p. mfiles st p \<noteq> None};
          app = (\<lambda>dir cb. append_dir_callback (dir_open env) existing dir path fh 0 cb (mnow env))
      in if snd (snd (snd (app (mdirs st uid) None))) < 0
         then Some (st\<lparr>mdirs := (mdirs st)(uid := fst (app (mdirs st uid) None))\<rparr>, - 1)
         else case update_mailsize_up env st fh name of
           None \<Rightarrow> None
         | Some (st1, ret) \<Rightarrow>
             let (dir, ex, rec, t) = app (mdirs st1 uid) (Some (\<lambda>r. (ret, r)))
             in Some (st1\<lparr>mdirs := (mdirs st1)(uid := dir),
                          mfiles := (\<lambda>p. if p \<in> ex \<and> p \<notin> existing then Some (Plain []) else mfiles st1 p)\<rparr>, t))"

definition mail_head :: "mail_env \<Rightarrow> cstr \<Rightarrow> cstr \<Rightarrow> byte list" where
  "mail_head env ttl sender =
     [0xBC, 0xC4, 0xD0, 0xC5, 0xC8, 0xCB, 58, 32] @ sender @ [10]
     @ [0xB1, 0xEA, 32, 32, 0xCC, 0xE2, 58, 32] @ ttl @ [10]
     @ [0xB7, 0xA2, 0xD0, 0xC5, 0xD5, 0xBE, 58, 32] @ bbs_name env @ lit '' ('' @ mtime env @ [41, 10, 10]"

text \<open>The part \<open>_mail_buf\<close> and the link branch of \<open>_mail_file\<close> share; \<open>f\<close> makes the file.\<close>

definition deliver ::
  "mail_env \<Rightarrow> mailst \<Rightarrow> cstr \<Rightarrow> cstr \<Rightarrow> cstr \<Rightarrow> int \<Rightarrow> bool \<Rightarrow> (cstr \<Rightarrow> mailst \<Rightarrow> mailst \<times> bool)
    \<Rightarrow> (mailst \<times> int) option" where
  "deliver env st name ttl sender sz sysmail f =
     (case getuser (mdb st) name of
        None \<Rightarrow> None
      | Some i \<Rightarrow>
          if i = 0 \<or> \<not> mdir_ok env then Some (st, - 1)
          else case get_mailsize env st i of
            None \<Rightarrow> None
          | Some (st1, c) \<Rightarrow>
              if c = - 2 then Some (st1, - 1)
              else case append_mail env st1 i name (new_mail ttl sender sz sysmail) of
                None \<Rightarrow> None
              | Some (st2, t) \<Rightarrow>
                  if t < 0 then Some (st2, - 1)
                  else let (st3, okf) = f (setmailfile (bbs_home env) (userid (urec st2 i))
                                             (lit ''M.'' @ dec t @ lit ''.A'')) st2
                       in Some (st3, if okf then t else - 1))"

definition mail_buf_sys ::
  "mail_env \<Rightarrow> mailst \<Rightarrow> byte list \<Rightarrow> cstr \<Rightarrow> cstr \<Rightarrow> cstr \<Rightarrow> bool \<Rightarrow> (mailst \<times> int) option" where
  "mail_buf_sys env st buf name ttl sender sysmail =
     deliver env st name ttl sender (int (length buf)) sysmail
       (\<lambda>path s. if \<not> mfile_open env then (s, False)
                 else (s\<lparr>mfiles := (mfiles s)(path \<mapsto> Plain (mail_head env ttl sender @ buf))\<rparr>, True))"

definition mail_file_sys ::
  "mail_env \<Rightarrow> mailst \<Rightarrow> cstr \<Rightarrow> cstr \<Rightarrow> cstr \<Rightarrow> cstr \<Rightarrow> bool \<Rightarrow> bool \<Rightarrow> (mailst \<times> int) option" where
  "mail_file_sys env st filename name ttl sender sysmail as_link =
     (if as_link
      then deliver env st name ttl sender 1024 sysmail
             (\<lambda>path s. if \<not> link_ok env \<or> \<not> linkname_ok env then (s, False)
                       else (s\<lparr>mfiles := (mfiles s)(path \<mapsto> Link filename)\<rparr>, True))
      else case mfiles st filename of
             Some (Plain b) \<Rightarrow> mail_buf_sys env st b name ttl sender sysmail
           | _ \<Rightarrow> Some (st, - 1))"

definition is_sysmail :: "cstr \<Rightarrow> bool" where
  "is_sysmail sender \<longleftrightarrow> sender = lit ''SYSOP'' \<or> sender = lit ''deliver''"

definition mail_buf where
  "mail_buf env st buf name ttl sender = mail_buf_sys env st buf name ttl sender (is_sysmail sender)"

definition mail_file where
  "mail_file env st filename name ttl sender =
     mail_file_sys env st filename name ttl sender (is_sysmail sender) False"

definition system_mail_buf where
  "system_mail_buf env st buf name ttl sender = mail_buf_sys env st buf name ttl sender True"

definition system_mail_file where
  "system_mail_file env st filename name ttl sender = mail_file_sys env st filename name ttl sender True False"

definition system_mail_link where
  "system_mail_link env st filename name ttl sender = mail_file_sys env st filename name ttl sender True True"

section \<open>The quota is the size of the mailbox\<close>

text \<open>User \<open>i\<close> goes by the name \<open>name\<close>, is limited, and the password file can be written.\<close>

definition box_user :: "mail_env \<Rightarrow> mailst \<Rightarrow> cstr \<Rightarrow> nat \<Rightarrow> bool" where
  "box_user env st name i \<longleftrightarrow> getuser (mdb st) name = Some i \<and> 0 < i \<and> i \<le> length (snd (mdb st))
     \<and> kickout (urec st i) = 0 \<and> userid (urec st i) \<notin> set mailsize_nolimit
     \<and> open_ok (pio env) \<and> seek_ok (pio env) \<and> write_ok (pio env)"

definition user_dir :: "mailst \<Rightarrow> nat \<Rightarrow> fileheader list" where
  "user_dir st i = (case mdirs st (userid (urec st i)) of None \<Rightarrow> [] | Some fs \<Rightarrow> fs)"

definition stored_size :: "int \<Rightarrow> int" where
  "stored_size n = (if n > SHRT_MAX then - 1 else n)"

definition quota_inv :: "mailst \<Rightarrow> nat \<Rightarrow> bool" where
  "quota_inv st i \<longleftrightarrow> mailsize (urec st i) = stored_size (dir_kilos (user_dir st i))"

lemma max_mailsize_le: "0 < max_mailsize u \<and> max_mailsize u \<le> SHRT_MAX"
  by (simp add: max_mailsize_def SHRT_MAX_def)

lemma tight_less: "tight t ts \<Longrightarrow> x \<in> set ts \<Longrightarrow> t < x"
  by (induction ts arbitrary: t) fastforce+

lemma bytenum_nonneg: "0 \<le> bytenum c"
proof (cases "c = 0")
  case False
  have "unat c < 256" using unsigned_less [of c] by simp
  then have "unat c - 1 < length numtable" using False by (simp add: length_numtable unat_gt_0)
  then have "numtable ! (unat c - 1) \<in> set numtable" by (rule nth_mem)
  then have "0 < numtable ! (unat c - 1)" by (rule tight_less [OF tight_numtable])
  then show ?thesis using False by (simp add: bytenum_def)
qed (simp add: bytenum_def)

lemma filekilo_pos: "1 \<le> filekilo sb"
  using bytenum_nonneg [of "of_nat sb"] pos_imp_zdiv_nonneg_iff [of 1024 "bytenum (of_nat sb)"]
  by (auto simp: filekilo_def Let_def)

lemma bytenum_le: "bytenum c \<le> 21196124"
proof (cases "c = 0")
  case False
  have "\<forall>x \<in> set numtable. x \<le> 21196124" unfolding numtable_def by simp
  moreover have "unat c < 256" using unsigned_less [of c] by simp
  then have "unat c - 1 < length numtable" using False by (simp add: length_numtable unat_gt_0)
  ultimately show ?thesis using False by (simp add: bytenum_def)
qed (simp add: bytenum_def)

lemma filekilo_le: "filekilo sb \<le> 20699"
  using zdiv_mono1 [OF bytenum_le, of 1024 "of_nat sb"] by (simp add: filekilo_def Let_def)

lemma dir_kilos_nonneg: "0 \<le> dir_kilos fs"
proof (induction fs)
  case (Cons fh fs)
  then show ?case using filekilo_pos [of "sizebyte fh"] by (simp add: dir_kilos_def)
qed (simp add: dir_kilos_def)

lemma dir_kilos_append [simp]: "dir_kilos (fs @ [fh]) = dir_kilos fs + filekilo (sizebyte fh)"
  by (simp add: dir_kilos_def)

lemma to_short_id: "- 32768 \<le> x \<Longrightarrow> x < 32768 \<Longrightarrow> to_short x = x"
  using to_signed_mod [of 16 x] by (simp add: to_short_def)

definition put_mailsize :: "mailst \<Rightarrow> nat \<Rightarrow> int \<Rightarrow> mailst" where
  "put_mailsize st i n = st\<lparr>mdb := db_write (mdb st) i ((urec st i)\<lparr>mailsize := n\<rparr>)\<rparr>"

lemma set_mailsize_ok:
  assumes "box_user env st name i"
  shows "set_mailsize env st ((urec st i)\<lparr>mailsize := n\<rparr>) (int i) = Some (put_mailsize st i n)"
proof -
  let ?x = "(urec st i)\<lparr>mailsize := n\<rparr>"
  have e: "?x\<lparr>kickout := 0\<rparr> = ?x"
    using assms by (cases "urec st i") (simp add: box_user_def)
  have "db_name (mdb st) i = userid ?x"
    using assms by (simp add: box_user_def urec_def db_name_def)
  then have "updateuserec (pio env) (mdb st) ?x (int i)
      = Some (db_write (mdb st) i (?x\<lparr>kickout := 0\<rparr>), 0)"
    using assms by (simp add: updateuserec_def box_user_def urec_def)
  then show ?thesis unfolding e by (simp add: set_mailsize_def put_mailsize_def)
qed

lemma put_mailsize_simps [simp]:
  "mdirs (put_mailsize st i n) = mdirs st" "mfiles (put_mailsize st i n) = mfiles st"
  "0 < i \<Longrightarrow> i \<le> length (snd (mdb st)) \<Longrightarrow> urec (put_mailsize st i n) i = (urec st i)\<lparr>mailsize := n\<rparr>"
  "0 < j \<Longrightarrow> i \<noteq> j \<Longrightarrow> 0 < i \<Longrightarrow> urec (put_mailsize st i n) j = urec st j"
  by (auto simp: put_mailsize_def urec_def db_write_def)

text \<open>What each of the two updates does to a box with an exact quota.\<close>

lemma mailsize_up_exact:
  fixes fh :: fileheader
  assumes u: "box_user env st name i" and q: "quota_inv st i"
  defines "n \<equiv> dir_kilos (user_dir st i)" and "k \<equiv> filekilo (sizebyte fh)"
  shows "update_mailsize_up env st fh name =
     (if n + k > max_mailsize (urec st i) \<and> accessed fh AND FH_SYSMAIL = 0 then Some (st, - 1)
      else Some (put_mailsize st i (stored_size (n + k)), 0))"
proof -
  have nk: "0 \<le> n" "1 \<le> k" using dir_kilos_nonneg filekilo_pos by (simp_all add: n_def k_def)
  have ms: "mailsize (urec st i) = stored_size n" using q by (simp add: quota_inv_def n_def)
  then have g: "get_mailsize env st i = Some (st, stored_size n)"
    using nk by (simp add: get_mailsize_def stored_size_def)
  have mx: "max_mailsize (urec st i) \<le> SHRT_MAX" using max_mailsize_le by blast
  have s: "set_mailsize env st ((urec st i)\<lparr>mailsize := m\<rparr>) (int i) = Some (put_mailsize st i m)" for m
    using set_mailsize_ok [OF u] .
  have sh: "to_short (n + k) = n + k" if "n + k \<le> SHRT_MAX"
    using that nk by (intro to_short_id) (auto simp: SHRT_MAX_def)
  show ?thesis
  proof (cases "n > SHRT_MAX")
    case True
    then show ?thesis using u g nk mx s
      by (simp add: update_mailsize_up_def box_user_def stored_size_def Let_def)
  next
    case False
    then show ?thesis using u g nk mx s sh ms
      by (auto simp: update_mailsize_up_def box_user_def stored_size_def Let_def k_def [symmetric]
          ac_simps)
  qed
qed

lemma mailsize_down_exact:
  fixes fh :: fileheader
  assumes u: "box_user env st name i" and q: "quota_inv st i"
  defines "n \<equiv> dir_kilos (user_dir st i)" and "k \<equiv> filekilo (sizebyte fh)"
  assumes small: "n \<le> SHRT_MAX"
  shows "update_mailsize_down env st fh name = Some (put_mailsize st i (if n < k then 0 else n - k), 0)"
proof -
  have nk: "0 \<le> n" "1 \<le> k" using dir_kilos_nonneg filekilo_pos by (simp_all add: n_def k_def)
  have ms: "mailsize (urec st i) = n" using q small by (simp add: quota_inv_def n_def stored_size_def)
  then have g: "get_mailsize env st i = Some (st, n)" using nk by (simp add: get_mailsize_def)
  have "to_short (n - k) = n - k" if "\<not> n < k"
    using that nk small by (intro to_short_id) (auto simp: SHRT_MAX_def)
  then show ?thesis
    using u g nk small ms set_mailsize_ok [OF u]
    by (auto simp: update_mailsize_down_def box_user_def Let_def k_def [symmetric])
qed

lemma append_cases:
  assumes "append_dir_callback openok ex dir pth fh 0 None now = (d, ex', rec, t)"
  shows "(t < 0 \<and> (d = dir \<or> (dir = None \<and> d = Some [])))
     \<or> (\<exists>p. 0 \<le> t \<and> p \<notin> ex \<and> rec = fh\<lparr>filetime := t, thread := t\<rparr>
         \<and> (\<forall>dir' f. append_dir_callback openok ex dir' pth fh 0 (Some f) now =
             (let fs = (case dir' of None \<Rightarrow> [] | Some fs \<Rightarrow> fs); (ret, r) = f rec
              in if ret < 0 then (Some fs, ex, r, - 1) else (Some (fs @ [r]), insert p ex, r, t))))"
proof -
  have nn: "trycreate_loop ex p fmt n j = Some (p', t') \<Longrightarrow> n \<le> t' \<and> p' \<notin> ex" for p fmt n j p' t'
    by (induction j arbitrary: n) (fastforce simp: Let_def split: if_splits)+
  show ?thesis
  proof (cases "trycreatefile ex (take (the (strrchr pth 47)) pth) (\<lambda>n. lit ''M.'' @ dec n @ lit ''.A'') now 100")
    case None
    then show ?thesis using assms
      by (auto simp: append_dir_callback_def Let_def split: if_splits option.splits)
  next
    case (Some a)
    obtain p t' where a: "a = (p, t')" by fastforce
    then have "0 \<le> t'" "p \<notin> ex"
      using Some nn by (fastforce simp: trycreatefile_def Let_def split: if_splits)+
    then show ?thesis using assms Some a
      by (auto simp: append_dir_callback_def Let_def split: if_splits option.splits prod.splits)
  qed
qed

lemma user_dir_mdirs:
  "user_dir (st\<lparr>mdirs := d\<rparr>) i = (case d (userid (urec st i)) of None \<Rightarrow> [] | Some fs \<Rightarrow> fs)"
  "user_dir (st\<lparr>mfiles := f\<rparr>) i = user_dir st i" "urec (st\<lparr>mdirs := d\<rparr>) i = urec st i"
  "urec (st\<lparr>mfiles := f\<rparr>) i = urec st i"
  by (simp_all add: user_dir_def urec_def)

text \<open>Appending a record to a box: refused without a trace, or charged and listed.\<close>

lemma append_mail_exact:
  assumes u: "box_user env st name i" and q: "quota_inv st i"
  shows "\<exists>st' t. append_mail env st i name fh = Some (st', t) \<and> quota_inv st' i
     \<and> userid (urec st' i) = userid (urec st i) \<and> (\<forall>j. 0 < j \<and> j \<noteq> i \<longrightarrow> urec st' j = urec st j)
     \<and> (if t < 0 then user_dir st' i = user_dir st i
        else user_dir st' i = user_dir st i @ [fh\<lparr>filetime := t, thread := t\<rparr>]
          \<and> (accessed fh AND FH_SYSMAIL = 0 \<longrightarrow> dir_kilos (user_dir st' i) \<le> max_mailsize (urec st i)))"
proof -
  let ?uid = "userid (urec st i)" and ?ex = "{p. mfiles st p \<noteq> None}"
  let ?app = "\<lambda>dir cb. append_dir_callback (dir_open env) ?ex dir
      (setmailfile (bbs_home env) ?uid (lit ''.DIR'')) fh 0 cb (mnow env)"
  have i: "0 < i" "i \<le> length (snd (mdb st))" using u by (auto simp: box_user_def)
  obtain d ex' rec t where a: "?app (mdirs st ?uid) None = (d, ex', rec, t)"
    by (metis prod_cases4)
  show ?thesis
  proof (cases "t < 0")
    case True
    then have d: "d = mdirs st ?uid \<or> (mdirs st ?uid = None \<and> d = Some [])"
      using append_cases [OF a] by auto
    let ?st = "st\<lparr>mdirs := (mdirs st)(?uid := d)\<rparr>"
    have "append_mail env st i name fh = Some (?st, - 1)" using a True by (simp add: append_mail_def Let_def)
    moreover have "user_dir ?st i = user_dir st i" using d by (auto simp: user_dir_def urec_def)
    moreover have "urec ?st j = urec st j" for j by (simp add: urec_def)
    ultimately show ?thesis using q by (intro exI [of _ ?st] exI [of _ "- 1"]) (simp add: quota_inv_def)
  next
    case False
    obtain p where p: "rec = fh\<lparr>filetime := t, thread := t\<rparr>"
      "\<forall>dir' f. ?app dir' (Some f) =
          (let fs = (case dir' of None \<Rightarrow> [] | Some fs \<Rightarrow> fs); (ret, r) = f rec
           in if ret < 0 then (Some fs, ?ex, r, - 1) else (Some (fs @ [r]), insert p ?ex, r, t))"
      using append_cases [OF a] False by auto
    let ?n = "dir_kilos (user_dir st i)" and ?k = "filekilo (sizebyte fh)"
    show ?thesis
    proof (cases "?n + ?k > max_mailsize (urec st i) \<and> accessed fh AND FH_SYSMAIL = 0")
      case True
      let ?st = "st\<lparr>mdirs := (mdirs st)(?uid \<mapsto> user_dir st i), mfiles := mfiles st\<rparr>"
      have same: "(\<lambda>p. if (\<exists>y. mfiles st p = Some y) \<and> mfiles st p = None then Some (Plain []) else mfiles st p)
          = mfiles st" by (rule ext) auto
      have "append_mail env st i name fh = Some (?st, - 1)"
        using mailsize_up_exact [OF u q, of fh] True a False p(2)
        by (simp add: append_mail_def Let_def user_dir_def same)
      moreover have "user_dir ?st i = user_dir st i" by (simp add: user_dir_def urec_def)
      moreover have "urec ?st j = urec st j" for j by (simp add: urec_def)
      ultimately show ?thesis using q by (intro exI [of _ ?st] exI [of _ "- 1"]) (simp add: quota_inv_def)
    next
      case ok: False
      let ?st1 = "put_mailsize st i (stored_size (?n + ?k))"
      let ?st = "?st1\<lparr>mdirs := (mdirs st)(?uid \<mapsto> user_dir st i @ [rec]),
          mfiles := (\<lambda>q. if q \<in> insert p ?ex \<and> q \<notin> ?ex then Some (Plain []) else mfiles st q)\<rparr>"
      have "append_mail env st i name fh = Some (?st, t)"
        using mailsize_up_exact [OF u q, of fh] ok a False p(2)
        by (simp add: append_mail_def Let_def user_dir_def cong: if_cong)
      moreover have r: "urec ?st j = urec ?st1 j" for j by (simp add: urec_def)
      moreover have "user_dir ?st i = user_dir st i @ [rec]"
        using i r [of i] by (simp add: user_dir_def)
      moreover have "sizebyte rec = sizebyte fh" using p(1) by simp
      ultimately show ?thesis using False ok p(1) i
        by (intro exI [of _ ?st] exI [of _ t]) (auto simp: quota_inv_def)
    qed
  qed
qed

text \<open>
  C16: The quota of a user is exact: when \<open>mailsize\<close> is the size of the mailbox in kilobytes (or -1 when
  that does not fit the field), it is so again after any attempt to send him a mail.  A mail that is
  accepted is appended to the mailbox, and its file holds the head lines and the text; one that is
  refused leaves the list of mails alone; only system mail makes the mailbox larger than its limit;
  nobody else's record changes.
\<close>

theorem mail_quota_exact:
  assumes "box_user env st name i" "quota_inv st i" "mdir_ok env" "mfile_open env"
  shows "\<exists>st' r. mail_buf_sys env st buf name ttl sender sysmail = Some (st', r) \<and> quota_inv st' i
     \<and> (\<forall>j. 0 < j \<and> j \<noteq> i \<longrightarrow> urec st' j = urec st j)
     \<and> (if r < 0 then user_dir st' i = user_dir st i
        else (\<exists>fh. filetime fh = r \<and> user_dir st' i = user_dir st i @ [fh])
          \<and> mfiles st' (setmailfile (bbs_home env) (userid (urec st i)) (lit ''M.'' @ dec r @ lit ''.A''))
              = Some (Plain (mail_head env ttl sender @ buf))
          \<and> (sysmail \<or> dir_kilos (user_dir st' i) \<le> max_mailsize (urec st i)))"
proof -
  let ?fh = "new_mail ttl sender (int (length buf)) sysmail"
  obtain st2 t where a: "append_mail env st i name ?fh = Some (st2, t)" "quota_inv st2 i"
    "userid (urec st2 i) = userid (urec st i)" "\<forall>j. 0 < j \<and> j \<noteq> i \<longrightarrow> urec st2 j = urec st j"
    "if t < 0 then user_dir st2 i = user_dir st i
     else user_dir st2 i = user_dir st i @ [?fh\<lparr>filetime := t, thread := t\<rparr>]
       \<and> (accessed ?fh AND FH_SYSMAIL = 0 \<longrightarrow> dir_kilos (user_dir st2 i) \<le> max_mailsize (urec st i))"
    using append_mail_exact [OF assms(1,2), of ?fh] by blast
  have sys: "sysmail \<or> accessed ?fh AND FH_SYSMAIL = 0"
    by (simp add: new_mail_def Let_def and.assoc)
  have g: "get_mailsize env st i = Some (st, mailsize (urec st i))" "mailsize (urec st i) \<noteq> - 2"
    using assms(2) dir_kilos_nonneg [of "user_dir st i"]
    by (auto simp: get_mailsize_def quota_inv_def stored_size_def)
  show ?thesis
  proof (cases "t < 0")
    case True
    then have "mail_buf_sys env st buf name ttl sender sysmail = Some (st2, - 1)"
      using assms a(1) g by (simp add: mail_buf_sys_def deliver_def box_user_def)
    then show ?thesis using a True by auto
  next
    case False
    let ?p = "setmailfile (bbs_home env) (userid (urec st i)) (lit ''M.'' @ dec t @ lit ''.A'')"
    let ?st = "st2\<lparr>mfiles := (mfiles st2)(?p \<mapsto> Plain (mail_head env ttl sender @ buf))\<rparr>"
    have "mail_buf_sys env st buf name ttl sender sysmail = Some (?st, t)"
      using assms a(1,3) g False by (simp add: mail_buf_sys_def deliver_def box_user_def)
    moreover have "quota_inv ?st i" using a(2) by (simp add: quota_inv_def user_dir_mdirs)
    moreover have "urec ?st j = urec st2 j" for j by (simp add: urec_def)
    ultimately show ?thesis using a(4,5) False sys
      by (intro exI [of _ ?st] exI [of _ t]) (auto simp: user_dir_mdirs)
  qed
qed

definition bob_pw :: "int \<Rightarrow> userec list" where
  "bob_pw n = [zero_userec\<lparr>userid := lit ''bob'', mailsize := n\<rparr>]"

definition mail_env0 :: mail_env where
  "mail_env0 = \<lparr>bbs_home = lit ''/h'', bbs_name = lit ''ytht'', mdir_ok = True, dir_open = True, mfile_open = True,
     link_ok = True, linkname_ok = True, pio = \<lparr>open_ok = True, seek_ok = True, write_ok = True\<rparr>,
     mnow = 1000, mtime = lit ''now''\<rparr>"

lemma bob_db:
  "\<exists>u. \<forall>d f. box_user mail_env0 \<lparr>mdb = (u, bob_pw n), mdirs = d, mfiles = f\<rparr> (lit ''bob'') 1
     \<and> db_find (u, bob_pw n) (lit ''bob'') = Some 1"
proof -
  have u: "slots_unique (bob_pw n) (length (bob_pw n))" "bob_pw n \<noteq> []" "length (bob_pw n) = 1"
    by (simp_all add: slots_unique_def bob_pw_def)
  then obtain u where l: "db_inv (u, bob_pw n) {1..1}" "db.unique (u, bob_pw n) {1..1}"
    using load_ucache_correct [OF sample_tab_wf u(2)] db_unique_slots [OF u(1)] by force
  have n: "db_name (u, bob_pw n) 1 = lit ''bob''" by (simp add: db_name_def bob_pw_def)
  then have "db_find (u, bob_pw n) (lit ''bob'') = Some (int 1)"
    by (intro db.find_unique [OF l]) (auto simp del: lit_Cons simp: lit_def)
  then have f: "db_find (u, bob_pw n) (lit ''bob'') = Some 1" by simp
  then have "getuser (u, bob_pw n) (lit ''bob'') = Some 1"
    using n by (simp add: getuser_def bob_pw_def zero_userec_def)
  then show ?thesis using f
    by (intro exI [of _ u]) (simp add: box_user_def bob_pw_def urec_def zero_userec_def
        mailsize_nolimit_def mail_env0_def)
qed

theorem mail_quota_exact_witness:
  "\<exists>u st' r. mail_buf_sys mail_env0 \<lparr>mdb = (u, bob_pw 0), mdirs = (\<lambda>_. None), mfiles = (\<lambda>_. None)\<rparr> (lit ''hi'')
     (lit ''bob'') (lit ''t'') (lit ''ann'') False = Some (st', r) \<and> quota_inv st' 1"
proof -
  obtain u where u: "box_user mail_env0 \<lparr>mdb = (u, bob_pw 0), mdirs = (\<lambda>_. None), mfiles = (\<lambda>_. None)\<rparr> (lit ''bob'') 1"
    using bob_db by blast
  have "quota_inv \<lparr>mdb = (u, bob_pw 0), mdirs = (\<lambda>_. None), mfiles = (\<lambda>_. None)\<rparr> 1"
    by (simp add: quota_inv_def urec_def bob_pw_def zero_userec_def user_dir_def dir_kilos_def
        stored_size_def SHRT_MAX_def)
  from mail_quota_exact [OF u this, of "lit ''hi''" "lit ''t''" "lit ''ann''" False] show ?thesis
    by (auto simp: mail_env0_def)
qed

text \<open>
  Deleting a mail takes its size off an exact quota.  But when the mailbox was too large for the field
  and fits again after the deletion, the size is taken off the marker -1 instead of the new total: the
  quota becomes negative, so the user's box counts as over its limit until a recount.
\<close>

theorem mailsize_down_result:
  fixes fh :: fileheader
  assumes "box_user env st name i" "quota_inv st i" "mdir_ok env" "dir_open env"
    "db_find (mdb st) (userid (urec st i)) = Some (int i)" "\<forall>x \<in> set (user_dir st i). sizebyte x \<noteq> 0"
  defines "n \<equiv> dir_kilos (user_dir st i)" and "k \<equiv> filekilo (sizebyte fh)"
  shows "\<exists>st'. update_mailsize_down env st fh name = Some (st', 0)
     \<and> (n \<le> SHRT_MAX \<longrightarrow> mailsize (urec st' i) = max 0 (n - k))
     \<and> (n - k > SHRT_MAX \<longrightarrow> mailsize (urec st' i) = - 1)
     \<and> (n > SHRT_MAX \<and> n - k \<le> SHRT_MAX \<longrightarrow> mailsize (urec st' i) = - 1 - k)"
proof (cases "n \<le> SHRT_MAX")
  case True
  have i: "0 < i" "i \<le> length (snd (mdb st))" using assms(1) by (auto simp: box_user_def)
  have k: "1 \<le> k" using filekilo_pos by (simp add: k_def)
  have n: "0 \<le> n" using dir_kilos_nonneg by (simp add: n_def)
  show ?thesis
    using mailsize_down_exact [OF assms(1,2), of fh] True i k n
    by (auto simp: n_def [symmetric] k_def [symmetric] max_def)
next
  case False
  let ?uid = "userid (urec st i)" and ?u = "urec st i"
  have i: "0 < i" "i \<le> length (snd (mdb st))" using assms(1) by (auto simp: box_user_def)
  have k: "1 \<le> k" "k \<le> 20699"
  proof -
    show "1 \<le> k" using filekilo_pos by (simp add: k_def)
    show "k \<le> 20699" using filekilo_le by (simp add: k_def)
  qed
  have ms: "mailsize ?u = - 1" using assms(2) False by (simp add: quota_inv_def n_def stored_size_def)
  let ?st1 = "st\<lparr>mdirs := (mdirs st)(?uid \<mapsto> user_dir st i)\<rparr>"
  have e: "map (calc_entry st (bbs_home env) ?uid) (user_dir st i) = user_dir st i"
    using assms(6) by (intro map_idI) (auto simp: calc_entry_def)
  have r: "urec ?st1 i = ?u" "box_user env ?st1 name i" using assms(1) by (simp_all add: urec_def box_user_def)
  have same: "?u\<lparr>mailsize := - 1\<rparr> = ?u" using ms by (cases ?u) simp
  have "set_mailsize env ?st1 (?u\<lparr>mailsize := - 1\<rparr>) 0 = set_mailsize env ?st1 (?u\<lparr>mailsize := - 1\<rparr>) (int i)"
    using assms(5) i by (simp add: set_mailsize_def updateuserec_def)
  also have "\<dots> = Some (put_mailsize ?st1 i (- 1))"
    using set_mailsize_ok [OF r(2), of "- 1"] unfolding r(1) .
  finally have s: "set_mailsize env ?st1 (?u\<lparr>mailsize := - 1\<rparr>) 0 = Some (put_mailsize ?st1 i (- 1))" .
  have n2: "(if n > SHRT_MAX \<or> n < 0 then - 1 else n) = - 1" using False by simp
  have c: "calc_mailsize env st i = Some (put_mailsize ?st1 i (- 1), n)"
    using assms(3,4) e s False n2
    by (simp add: calc_mailsize_def Let_def user_dir_def [symmetric] n_def [symmetric])
  let ?st2 = "put_mailsize ?st1 i (- 1)"
  have b2: "box_user env ?st2 name i"
    using assms(1) i same by (simp add: box_user_def urec_def put_mailsize_def db_write_def)
  have u2: "urec ?st2 i = ?u" using i same r(1) by simp
  let ?new = "if n < k then 0 else if n - k > SHRT_MAX then - 1 else to_short (mailsize ?u - k)"
  have s2: "set_mailsize env ?st2 (?u\<lparr>mailsize := m\<rparr>) (int i) = Some (put_mailsize ?st2 i m)" for m
    using set_mailsize_ok [OF b2, of m] unfolding u2 .
  have "update_mailsize_down env st fh name = Some (put_mailsize ?st2 i ?new, 0)"
    using assms(1) c ms u2 s2
    by (simp add: update_mailsize_down_def box_user_def get_mailsize_def Let_def k_def [symmetric])
  moreover have "mailsize (urec (put_mailsize ?st2 i ?new) i) = ?new"
    using b2 by (simp add: box_user_def)
  moreover have "to_short (- 1 - k) = - 1 - k" using k by (intro to_short_id) auto
  ultimately show ?thesis using False ms k by (auto simp: SHRT_MAX_def)
qed

text \<open>Two mails of the largest size do not fit the field; deleting one of them leaves -20700.\<close>

theorem mailsize_down_result_witness:
  "\<exists>u st'. update_mailsize_down mail_env0 \<lparr>mdb = (u, bob_pw (- 1)),
       mdirs = (\<lambda>_. Some [zero_fileheader\<lparr>sizebyte := 255\<rparr>, zero_fileheader\<lparr>sizebyte := 255\<rparr>]),
       mfiles = (\<lambda>_. None)\<rparr> (zero_fileheader\<lparr>sizebyte := 255\<rparr>) (lit ''bob'') = Some (st', 0)
     \<and> mailsize (urec st' 1) = - 20700"
proof -
  let ?fs = "[zero_fileheader\<lparr>sizebyte := 255\<rparr>, zero_fileheader\<lparr>sizebyte := 255\<rparr>]"
  obtain u where u: "box_user mail_env0 \<lparr>mdb = (u, bob_pw (- 1)), mdirs = (\<lambda>_. Some ?fs), mfiles = (\<lambda>_. None)\<rparr>
      (lit ''bob'') 1" "db_find (u, bob_pw (- 1)) (lit ''bob'') = Some 1"
    using bob_db by blast
  let ?st = "\<lparr>mdb = (u, bob_pw (- 1)), mdirs = (\<lambda>_. Some ?fs), mfiles = (\<lambda>_. None)\<rparr>"
  have "bytenum 255 = 21196124" using numtable_last by (simp add: bytenum_def)
  then have k: "filekilo 255 = 20699" by (simp add: filekilo_def)
  then have d: "dir_kilos (user_dir ?st 1) = 41398" by (simp add: user_dir_def dir_kilos_def)
  then have q: "quota_inv ?st 1"
    by (simp add: quota_inv_def stored_size_def SHRT_MAX_def) (simp add: urec_def bob_pw_def)
  have "db_find (mdb ?st) (userid (urec ?st 1)) = Some (int 1)" using u(2) by (simp add: urec_def bob_pw_def)
  moreover have "\<forall>x \<in> set (user_dir ?st 1). sizebyte x \<noteq> 0" by (simp add: user_dir_def)
  ultimately show ?thesis
    using mailsize_down_result [OF u(1) q, of "zero_fileheader\<lparr>sizebyte := 255\<rparr>"] d k
    by (auto simp: mail_env0_def SHRT_MAX_def)
qed

end
