(* ===== verification/Regular.thy ===== *)
theory Regular
  imports CLib
begin

text \<open>
  The query language for choosing articles, \<open>src/regular.c\<close>: conditions \<open>name argument\<close> joined by the
  words for and, or and not, with brackets.  The program parses and evaluates in one pass over the
  global variables \<open>exp\<close>, \<open>start\<close> and \<open>end\<close>; here the position is an argument and a result.  The
  recursion is cut off by a fuel argument, which is shown to be enough for every input.
\<close>

section \<open>The evaluator\<close>

definition And_word :: cstr where "And_word = [0xC7, 0xD2]"
definition Or_word :: cstr where "Or_word = [0xBB, 0xF2]"
definition Not_word :: cstr where "Not_word = [0xB7, 0xC7]"

definition LeftBracket :: byte where "LeftBracket = 40"
definition RightBracket :: byte where "RightBracket = 41"

definition is_sep :: "byte \<Rightarrow> bool" where
  "is_sep c \<longleftrightarrow> c = 32 \<or> c = 9"

definition tok_char :: "byte \<Rightarrow> bool" where
  "tok_char c \<longleftrightarrow> \<not> is_sep c \<and> c \<noteq> LeftBracket \<and> c \<noteq> RightBracket"

text \<open>The character at a position of the string, which ends with a NUL.\<close>

definition char_at :: "cstr \<Rightarrow> nat \<Rightarrow> byte" where
  "char_at s i = (if i < length s then s ! i else 0)"

text \<open>\<open>next_token\<close>: the new \<open>start\<close> and the position behind the token (the result of the code plus 1).\<close>

definition next_token :: "cstr \<Rightarrow> nat \<Rightarrow> nat \<times> nat" where
  "next_token s start =
     (let st = start + length (takeWhile is_sep (drop start s))
      in (st, st + length (takeWhile tok_char (drop st s))))"

definition is_str :: "cstr \<Rightarrow> nat \<Rightarrow> nat \<Rightarrow> cstr \<Rightarrow> bool" where
  "is_str s start i w \<longleftrightarrow> i = start + length w \<and> take (length w) (drop start s) = w"

text \<open>The table of conditions: the test, its name and the name of its negation.\<close>

type_synonym ext = "(cstr \<Rightarrow> int) \<times> cstr \<times> cstr"

fun extf_loop :: "ext list \<Rightarrow> cstr \<Rightarrow> nat \<Rightarrow> nat \<Rightarrow> nat \<times> int" where
  "extf_loop [] s st i = (st, - int st - 1)"
| "extf_loop ((f, w1, w2) # es) s st i =
     (if is_str s st i w1
      then let (st', i') = next_token s i in (i', f (take (i' - st') (drop st' s)))
      else if is_str s st i w2
      then let (st', i') = next_token s i in (i', 1 - f (take (i' - st') (drop st' s)))
      else extf_loop es s st i)"

definition do_extf :: "ext list \<Rightarrow> cstr \<Rightarrow> nat \<Rightarrow> nat \<times> int" where
  "do_extf es s start = (let (st, i) = next_token s start in extf_loop es s st i)"

text \<open>\<open>result |= t\<close> on the values a test may return.\<close>

definition int_or :: "int \<Rightarrow> int \<Rightarrow> int" where
  "int_or a b = or a b"

text \<open>
  The bodies of \<open>do_term\<close> and of the loops of \<open>do_and\<close> and \<open>do_or\<close>; \<open>call\<close> makes the recursive calls and
  goes round the loops, whose variable \<open>result\<close> is an argument.
\<close>

datatype rule = Term | AndLoop int | OrLoop int

type_synonym calls = "rule \<Rightarrow> nat \<Rightarrow> (nat \<times> int) option"

definition term_body :: "calls \<Rightarrow> ext list \<Rightarrow> cstr \<Rightarrow> nat \<Rightarrow> (nat \<times> int) option" where
  "term_body call es s start =
     (let (st, i) = next_token s start in
      if is_str s st i Not_word
      then (case call Term i of
              None \<Rightarrow> None
            | Some (st', t) \<Rightarrow> Some (st', if t < 0 then t else 1 - t))
      else if char_at s st = LeftBracket
      then (case call (OrLoop (- int (st + 1) - 1)) (st + 1) of
              None \<Rightarrow> None
            | Some (st', t) \<Rightarrow>
                if char_at s st' \<noteq> RightBracket then Some (st', - int st' - 1) else Some (st' + 1, t))
      else Some (do_extf es s st))"

definition and_body :: "calls \<Rightarrow> cstr \<Rightarrow> int \<Rightarrow> nat \<Rightarrow> (nat \<times> int) option" where
  "and_body call s result start =
     (if length s \<le> start then Some (start, result)
      else case call Term start of
             None \<Rightarrow> None
           | Some (st, t) \<Rightarrow>
               if t < 0 then Some (st, t)
               else let result' = (if result < 0 then t else result * t);
                        (st', i) = next_token s st
                    in if is_str s st' i And_word then call (AndLoop result') i else Some (st', result'))"

definition or_body :: "calls \<Rightarrow> cstr \<Rightarrow> int \<Rightarrow> nat \<Rightarrow> (nat \<times> int) option" where
  "or_body call s result start =
     (if length s \<le> start then Some (start, result)
      else case call (AndLoop (- int start - 1)) start of
             None \<Rightarrow> None
           | Some (st, t) \<Rightarrow>
               if t < 0 then Some (st, t)
               else let result' = (if result < 0 then t else int_or result t);
                        (st', i) = next_token s st
                    in if is_str s st' i Or_word then call (OrLoop result') i else Some (st', result'))"

primrec run_rule :: "nat \<Rightarrow> ext list \<Rightarrow> cstr \<Rightarrow> calls" where
  "run_rule 0 es s r start = None"
| "run_rule (Suc n) es s r start =
     (case r of
        Term \<Rightarrow> term_body (run_rule n es s) es s start
      | AndLoop result \<Rightarrow> and_body (run_rule n es s) s result start
      | OrLoop result \<Rightarrow> or_body (run_rule n es s) s result start)"

definition do_term :: "nat \<Rightarrow> ext list \<Rightarrow> cstr \<Rightarrow> nat \<Rightarrow> (nat \<times> int) option" where
  "do_term n es s start = run_rule n es s Term start"

definition do_and :: "nat \<Rightarrow> ext list \<Rightarrow> cstr \<Rightarrow> nat \<Rightarrow> (nat \<times> int) option" where
  "do_and n es s start = run_rule n es s (AndLoop (- int start - 1)) start"

definition do_or :: "nat \<Rightarrow> ext list \<Rightarrow> cstr \<Rightarrow> nat \<Rightarrow> (nat \<times> int) option" where
  "do_or n es s start = run_rule n es s (OrLoop (- int start - 1)) start"

definition checkf_fuel :: "nat \<Rightarrow> ext list \<Rightarrow> cstr \<Rightarrow> int option" where
  "checkf_fuel n es s =
     map_option (\<lambda>(st, r). if st \<ge> length s then r else - int st - 1) (do_or n es s 0)"

definition checkf :: "ext list \<Rightarrow> cstr \<Rightarrow> int option" where
  "checkf es s = checkf_fuel (3 * length s + 3) es s"

section \<open>It always ends, with a truth value or an error position\<close>

lemma next_token_bounds:
  "next_token s start = (st, i) \<Longrightarrow> start \<le> length s \<Longrightarrow> start \<le> st \<and> st \<le> i \<and> i \<le> length s"
proof -
  assume a: "next_token s start = (st, i)" "start \<le> length s"
  have t: "length (takeWhile P xs) \<le> length xs" for P and xs :: "byte list" by (rule length_takeWhile_le)
  show ?thesis
    using a t [of is_sep "drop start s"] t [of tok_char "drop st s"]
    by (auto simp: next_token_def Let_def)
qed

definition ext_bool :: "ext list \<Rightarrow> bool" where
  "ext_bool es \<longleftrightarrow> (\<forall>(f, w1, w2) \<in> set es. \<forall>x. f x = 0 \<or> f x = 1)"

text \<open>Truth values and error positions, counted from 1.\<close>

definition truth :: "int \<Rightarrow> bool" where
  "truth t \<longleftrightarrow> t = 0 \<or> t = 1"

definition verdict :: "cstr \<Rightarrow> int \<Rightarrow> bool" where
  "verdict s t \<longleftrightarrow> truth t \<or> (- int (length s) - 1 \<le> t \<and> t < 0)"

lemma verdict_nonneg: "verdict s t \<Longrightarrow> \<not> t < 0 \<Longrightarrow> truth t"
  by (auto simp: verdict_def)

lemma truth_ops [intro]: "truth a \<Longrightarrow> truth b \<Longrightarrow> truth (a * b)" "truth a \<Longrightarrow> truth b \<Longrightarrow> truth (int_or a b)"
  "truth a \<Longrightarrow> truth (1 - a)"
  by (auto simp: truth_def int_or_def)

lemma verdict_pos: "st \<le> length s \<Longrightarrow> verdict s (- int st - 1)"
  by (auto simp: verdict_def)

lemma extf_loop_ok:
  "ext_bool es \<Longrightarrow> st \<le> i \<Longrightarrow> i \<le> length s \<Longrightarrow>
   \<exists>st' t. extf_loop es s st i = (st', t) \<and> st \<le> st' \<and> st' \<le> length s \<and> verdict s t"
proof (induction es)
  case (Cons e es)
  obtain f w1 w2 where e: "e = (f, w1, w2)" by (cases e)
  obtain st' i' where n: "next_token s i = (st', i')" by fastforce
  note b = next_token_bounds [OF n Cons.prems(3)]
  have f: "truth (f x)" "truth (1 - f x)" for x using Cons.prems(1) e by (auto simp: ext_bool_def truth_def)
  show ?case
    using Cons.IH Cons.prems b n f unfolding e by (auto simp: ext_bool_def verdict_def)
qed (simp add: verdict_pos)

fun rule_need :: "cstr \<Rightarrow> rule \<Rightarrow> nat \<Rightarrow> nat" where
  "rule_need s Term start = 3 * (length s - start) + 1"
| "rule_need s (AndLoop r) start = 3 * (length s - start) + 2"
| "rule_need s (OrLoop r) start = 3 * (length s - start) + 3"

fun rule_ok :: "cstr \<Rightarrow> rule \<Rightarrow> bool" where
  "rule_ok s Term = True"
| "rule_ok s (AndLoop r) = verdict s r"
| "rule_ok s (OrLoop r) = verdict s r"

text \<open>What the calls must give for the bodies to go through.\<close>

definition call_ok :: "cstr \<Rightarrow> calls \<Rightarrow> rule \<Rightarrow> nat \<Rightarrow> bool" where
  "call_ok s call r start \<longleftrightarrow>
     (\<exists>st t. call r start = Some (st, t) \<and> start \<le> st \<and> st \<le> length s \<and> verdict s t)"

text \<open>Skipping blanks twice.\<close>

lemma next_token_again: "next_token s start = (st, i) \<Longrightarrow> next_token s st = (st, i)"
proof -
  assume a: "next_token s start = (st, i)"
  then have "drop st s = dropWhile is_sep (drop start s)"
    by (auto simp: next_token_def Let_def dropWhile_eq_drop add.commute)
  then have "takeWhile is_sep (drop st s) = []"
    using hd_dropWhile [of is_sep "drop start s"] by (cases "dropWhile is_sep (drop start s)") auto
  then show ?thesis using a by (auto simp: next_token_def Let_def)
qed

lemma is_str_bounds: "is_str s st i w \<Longrightarrow> i \<le> length s \<Longrightarrow> 0 < length w \<Longrightarrow> st < i"
  by (auto simp: is_str_def)

lemma word_lengths [simp]: "length And_word = 2" "length Or_word = 2" "length Not_word = 2"
  by (simp_all add: And_word_def Or_word_def Not_word_def)

lemma term_body_ok:
  assumes "ext_bool es" "start \<le> length s"
    "\<And>r i. start < i \<Longrightarrow> i \<le> length s \<Longrightarrow> rule_ok s r \<Longrightarrow> call_ok s call r i"
  shows "\<exists>st t. term_body call es s start = Some (st, t) \<and> start \<le> st \<and> st \<le> length s \<and> verdict s t"
proof -
  obtain st i where n: "next_token s start = (st, i)" by fastforce
  note b = next_token_bounds [OF n assms(2)]
  consider (notw) "is_str s st i Not_word"
    | (br) "\<not> is_str s st i Not_word" "char_at s st = LeftBracket"
    | (ext) "\<not> is_str s st i Not_word" "char_at s st \<noteq> LeftBracket" by blast
  then show ?thesis
  proof cases
    case notw
    then have "start < i" using is_str_bounds [OF notw] b by simp
    then obtain st' t where c: "call Term i = Some (st', t)" "i \<le> st'" "st' \<le> length s" "verdict s t"
      using assms(3) [of i Term] b by (auto simp: call_ok_def)
    have "verdict s (if t < 0 then t else 1 - t)"
      using c(4) verdict_nonneg by (auto simp: verdict_def)
    then show ?thesis using notw n b c by (auto simp: term_body_def)
  next
    case br
    then have st: "st < length s" by (auto simp: char_at_def LeftBracket_def split: if_splits)
    then have "verdict s (- int (st + 1) - 1)" by (intro verdict_pos) simp
    then obtain st' t where c: "call (OrLoop (- int (st + 1) - 1)) (st + 1) = Some (st', t)" "st + 1 \<le> st'"
      "st' \<le> length s" "verdict s t"
      using assms(3) [of "st + 1" "OrLoop (- int (st + 1) - 1)"] st b by (auto simp: call_ok_def)
    have "st' < length s" if "char_at s st' = RightBracket"
      using that by (auto simp: char_at_def RightBracket_def split: if_splits)
    then show ?thesis using br n b c verdict_pos [OF c(3)] by (auto simp: term_body_def)
  next
    case ext
    obtain st' t where e: "extf_loop es s st i = (st', t)" "st \<le> st'" "st' \<le> length s" "verdict s t"
      using extf_loop_ok [OF assms(1), of st i s] b by blast
    have "do_extf es s st = (st', t)"
    proof -
      show ?thesis using e(1) next_token_again [OF n] by (simp add: do_extf_def)
    qed
    then show ?thesis using ext n b e by (auto simp: term_body_def)
  qed
qed


lemma and_body_ok:
  assumes "verdict s result" "start \<le> length s" "call_ok s call Term start"
    "\<And>r i. start < i \<Longrightarrow> i \<le> length s \<Longrightarrow> verdict s r \<Longrightarrow> call_ok s call (AndLoop r) i"
  shows "\<exists>st t. and_body call s result start = Some (st, t) \<and> start \<le> st \<and> st \<le> length s \<and> verdict s t"
proof (cases "length s \<le> start")
  case False
  obtain st t where c: "call Term start = Some (st, t)" "start \<le> st" "st \<le> length s" "verdict s t"
    using assms(3) by (auto simp: call_ok_def)
  define result' where "result' = (if result < 0 then t else result * t)"
  obtain st' i where n: "next_token s st = (st', i)" by fastforce
  note b = next_token_bounds [OF n c(3)]
  show ?thesis
  proof (cases "t < 0")
    case nonneg: False
    have "truth t" "\<not> result < 0 \<Longrightarrow> truth result"
      using verdict_nonneg [OF c(4) nonneg] verdict_nonneg [OF assms(1)] by auto
    then have r: "verdict s result'" by (auto simp: result'_def verdict_def truth_ops)
    have "call_ok s call (AndLoop result') i" if "is_str s st' i And_word"
      using is_str_bounds [OF that] b c(2) assms(4) [OF _ _ r] by simp
    then show ?thesis
      using False c n b r nonneg by (auto simp: and_body_def call_ok_def Let_def simp flip: result'_def)
  qed (use False c in \<open>auto simp: and_body_def\<close>)
qed (use assms in \<open>auto simp: and_body_def\<close>)

lemma or_body_ok:
  assumes "verdict s result" "start \<le> length s" "\<And>r. verdict s r \<Longrightarrow> call_ok s call (AndLoop r) start"
    "\<And>r i. start < i \<Longrightarrow> i \<le> length s \<Longrightarrow> verdict s r \<Longrightarrow> call_ok s call (OrLoop r) i"
  shows "\<exists>st t. or_body call s result start = Some (st, t) \<and> start \<le> st \<and> st \<le> length s \<and> verdict s t"
proof (cases "length s \<le> start")
  case False
  obtain st t where c: "call (AndLoop (- int start - 1)) start = Some (st, t)" "start \<le> st" "st \<le> length s"
    "verdict s t"
    using assms(3) [OF verdict_pos [OF assms(2)]] by (auto simp: call_ok_def)
  define result' where "result' = (if result < 0 then t else int_or result t)"
  obtain st' i where n: "next_token s st = (st', i)" by fastforce
  note b = next_token_bounds [OF n c(3)]
  show ?thesis
  proof (cases "t < 0")
    case nonneg: False
    have "truth t" "\<not> result < 0 \<Longrightarrow> truth result"
      using verdict_nonneg [OF c(4) nonneg] verdict_nonneg [OF assms(1)] by auto
    then have r: "verdict s result'" by (auto simp: result'_def verdict_def truth_ops)
    have "call_ok s call (OrLoop result') i" if "is_str s st' i Or_word"
      using is_str_bounds [OF that] b c(2) assms(4) [OF _ _ r] by simp
    then show ?thesis
      using False c n b r nonneg by (auto simp: or_body_def call_ok_def Let_def simp flip: result'_def)
  qed (use False c in \<open>auto simp: or_body_def\<close>)
qed (use assms in \<open>auto simp: or_body_def\<close>)

lemma run_rule_ok:
  "ext_bool es \<Longrightarrow> start \<le> length s \<Longrightarrow> rule_ok s r \<Longrightarrow> rule_need s r start \<le> n \<Longrightarrow>
   call_ok s (run_rule n es s) r start"
proof (induction n arbitrary: r start)
  case 0
  then show ?case by (cases r) auto
next
  case (Suc n)
  have later: "call_ok s (run_rule n es s) r' i" if "start < i" "i \<le> length s" "rule_ok s r'" for r' i
    using that Suc by (intro Suc.IH) (cases r; cases r'; simp)+
  show ?case
  proof (cases r)
    case Term
    then show ?thesis using term_body_ok [OF Suc.prems(1,2) later] by (simp add: call_ok_def)
  next
    case (AndLoop a)
    have "call_ok s (run_rule n es s) Term start" using Suc AndLoop by (intro Suc.IH) simp_all
    then show ?thesis
      using and_body_ok [of s a start "run_rule n es s"] later Suc.prems AndLoop by (simp add: call_ok_def)
  next
    case (OrLoop a)
    have "call_ok s (run_rule n es s) (AndLoop r') start" if "verdict s r'" for r'
      using Suc OrLoop that by (intro Suc.IH) simp_all
    then show ?thesis
      using or_body_ok [of s a start "run_rule n es s"] later Suc.prems OrLoop by (simp add: call_ok_def)
  qed
qed

text \<open>
  C19: evaluation always ends.  When the tests return 0 or 1, \<open>checkf\<close> gives, for every string,
  a truth value or minus the position, counted from 1 and at most one behind the end, of the error.
\<close>

theorem checkf_total:
  assumes "ext_bool es"
  shows "\<exists>r. checkf es s = Some r \<and> (r = 0 \<or> r = 1 \<or> (- int (length s) - 1 \<le> r \<and> r < 0))"
proof -
  have "verdict s (- int 0 - 1)" by (rule verdict_pos) simp
  then have "call_ok s (run_rule (3 * length s + 3) es s) (OrLoop (- int 0 - 1)) 0"
    using assms by (intro run_rule_ok) simp_all
  then obtain st t where "do_or (3 * length s + 3) es s 0 = Some (st, t)" "st \<le> length s" "verdict s t"
    by (auto simp: call_ok_def do_or_def)
  then show ?thesis by (auto simp: checkf_def checkf_fuel_def verdict_def truth_def)
qed


section \<open>It computes what the query means\<close>

text \<open>
  Queries as trees: the alternatives of a bracket are conjunctions of terms.  The text of a query puts
  one blank in front of every word.
\<close>

datatype query = Atom cstr cstr | Neg query | Paren "query list list"

fun joined :: "cstr \<Rightarrow> cstr list \<Rightarrow> cstr" where
  "joined w [] = []"
| "joined w [x] = x"
| "joined w (x # y # ys) = x @ 32 # w @ joined w (y # ys)"

definition shown_list :: "cstr list list \<Rightarrow> cstr" where
  "shown_list cs = joined Or_word (List.map (joined And_word) cs)"

primrec shown :: "query \<Rightarrow> cstr" where
  "shown (Atom n a) = 32 # n @ 32 # a"
| "shown (Neg q) = 32 # Not_word @ shown q"
| "shown (Paren css) = LeftBracket # shown_list (List.map (List.map shown) css) @ [RightBracket]"

fun atom_val :: "ext list \<Rightarrow> cstr \<Rightarrow> cstr \<Rightarrow> int option" where
  "atom_val [] n a = None"
| "atom_val ((f, w1, w2) # es) n a =
     (if n = w1 then Some (f a) else if n = w2 then Some (1 - f a) else atom_val es n a)"

primrec meaning :: "ext list \<Rightarrow> query \<Rightarrow> bool" where
  "meaning es (Atom n a) = (atom_val es n a = Some 1)"
| "meaning es (Neg q) = (\<not> meaning es q)"
| "meaning es (Paren css) = list_ex (list_all id) (List.map (List.map (meaning es)) css)"

text \<open>Names must be in the table and not be the word for not; brackets hold at least one term each.\<close>

definition plain_word :: "cstr \<Rightarrow> bool" where
  "plain_word w \<longleftrightarrow> w \<noteq> [] \<and> list_all tok_char w"

primrec query_ok :: "ext list \<Rightarrow> query \<Rightarrow> bool" where
  "query_ok es (Atom n a) =
     (plain_word n \<and> plain_word a \<and> n \<noteq> Not_word \<and> list_ex (\<lambda>(f, w1, w2). n = w1 \<or> n = w2) es)"
| "query_ok es (Neg q) = query_ok es q"
| "query_ok es (Paren css) =
     (css \<noteq> [] \<and> list_all (\<lambda>c. c \<noteq> [] \<and> list_all id c) (List.map (List.map (query_ok es)) css))"

subsection \<open>Tokens\<close>

definition blanks :: "cstr \<Rightarrow> nat" where
  "blanks r = length (takeWhile is_sep r)"

definition word_of :: "cstr \<Rightarrow> cstr" where
  "word_of r = takeWhile tok_char (dropWhile is_sep r)"

lemma drop_blanks: "drop (start + blanks (drop start s)) s = dropWhile is_sep (drop start s)"
  by (simp add: blanks_def dropWhile_eq_drop add.commute)

lemma next_token_eq:
  "next_token s start =
     (start + blanks (drop start s), start + blanks (drop start s) + length (word_of (drop start s)))"
  using drop_blanks [of start s] by (simp add: next_token_def word_of_def blanks_def Let_def)

lemma word_of_take: "take (length (word_of r)) (dropWhile is_sep r) = word_of r"
  by (simp add: word_of_def takeWhile_eq_take [symmetric])

lemma is_str_word:
  "is_str s (start + blanks (drop start s))
     (start + blanks (drop start s) + length (word_of (drop start s))) w \<longleftrightarrow> word_of (drop start s) = w"
proof -
  have "take (length (word_of (drop start s))) (drop (start + blanks (drop start s)) s) = word_of (drop start s)"
    using word_of_take [of "drop start s"] drop_blanks [of start s] by simp
  then show ?thesis by (auto simp: is_str_def)
qed

text \<open>What may follow a term: nothing, a blank or a bracket.\<close>

definition stops :: "cstr \<Rightarrow> bool" where
  "stops r \<longleftrightarrow> r = [] \<or> \<not> tok_char (r ! 0)"

lemma sep_facts [simp]: "is_sep 32" "\<not> is_sep LeftBracket" "\<not> is_sep RightBracket"
  "\<not> tok_char 32" "\<not> tok_char LeftBracket" "\<not> tok_char RightBracket"
  by (simp_all add: is_sep_def tok_char_def LeftBracket_def RightBracket_def)

lemma plain_words [simp]: "plain_word And_word" "plain_word Or_word" "plain_word Not_word"
  by (simp_all add: plain_word_def And_word_def Or_word_def Not_word_def tok_char_def is_sep_def
      LeftBracket_def RightBracket_def)

lemma tok_not_sep: "tok_char c \<Longrightarrow> \<not> is_sep c"
  by (simp add: tok_char_def)

lemma word_of_plain:
  assumes "plain_word w" "stops r"
  shows "word_of (32 # w @ r) = w" "blanks (32 # w @ r) = 1"
proof -
  have w: "\<forall>c \<in> set w. tok_char c" "w \<noteq> []" using assms(1) by (auto simp: plain_word_def list_all_iff)
  have r: "takeWhile tok_char r = []" using assms(2) by (cases r) (auto simp: stops_def)
  obtain c cs where c: "w = c # cs" "\<not> is_sep c" using w tok_not_sep by (cases w) auto
  show "word_of (32 # w @ r) = w" "blanks (32 # w @ r) = 1"
    using w r c takeWhile_append2 [of w tok_char r] by (auto simp: word_of_def blanks_def)
qed

lemma stops_simps [simp]: "stops []" "stops (32 # r)" "stops (LeftBracket # r)" "stops (RightBracket # r)"
  by (simp_all add: stops_def)

lemma shown_stops: "stops (shown q @ r)"
  by (cases q) simp_all

lemma word_of_bracket [simp]: "word_of (LeftBracket # r) = []" "word_of (RightBracket # r) = []"
  "blanks (LeftBracket # r) = 0" "blanks (RightBracket # r) = 0" "word_of [] = []" "blanks [] = 0"
  by (simp_all add: word_of_def blanks_def)

lemma drop_prefix: "drop start s = x @ r \<Longrightarrow> drop (start + length x) s = r"
  by (metis add.commute append_eq_conv_conj drop_drop)

subsection \<open>Terms\<close>

definition value_of :: "ext list \<Rightarrow> query \<Rightarrow> int" where
  "value_of es q = (if meaning es q then 1 else 0)"

definition term_good :: "ext list \<Rightarrow> cstr \<Rightarrow> calls \<Rightarrow> nat \<Rightarrow> bool" where
  "term_good es s call n \<longleftrightarrow>
     (\<forall>q start r. query_ok es q \<longrightarrow> drop start s = shown q @ r \<longrightarrow> stops r \<longrightarrow>
        rule_need s Term start \<le> n \<longrightarrow> call Term start = Some (start + length (shown q), value_of es q))"

definition conj_value :: "ext list \<Rightarrow> int \<Rightarrow> query list \<Rightarrow> int" where
  "conj_value es a c = (if (a < 0 \<or> a = 1) \<and> list_all (meaning es) c then 1 else 0)"

definition disj_value :: "ext list \<Rightarrow> int \<Rightarrow> query list list \<Rightarrow> int" where
  "disj_value es a d = (if a = 1 \<or> list_ex (list_all (meaning es)) d then 1 else 0)"

definition shown_conj :: "query list \<Rightarrow> cstr" where
  "shown_conj c = joined And_word (List.map shown c)"

definition shown_disj :: "query list list \<Rightarrow> cstr" where
  "shown_disj d = joined Or_word (List.map shown_conj d)"

definition conj_good :: "ext list \<Rightarrow> cstr \<Rightarrow> calls \<Rightarrow> nat \<Rightarrow> bool" where
  "conj_good es s call n \<longleftrightarrow>
     (\<forall>c a start r. c \<noteq> [] \<longrightarrow> list_all (query_ok es) c \<longrightarrow> drop start s = shown_conj c @ r \<longrightarrow> stops r \<longrightarrow>
        word_of r \<noteq> And_word \<longrightarrow> a < 0 \<or> truth a \<longrightarrow> rule_need s (AndLoop a) start \<le> n \<longrightarrow>
        call (AndLoop a) start = Some (start + length (shown_conj c) + blanks r, conj_value es a c))"

definition disj_good :: "ext list \<Rightarrow> cstr \<Rightarrow> calls \<Rightarrow> nat \<Rightarrow> bool" where
  "disj_good es s call n \<longleftrightarrow>
     (\<forall>d a start r. d \<noteq> [] \<longrightarrow> list_all (\<lambda>c. c \<noteq> [] \<and> list_all (query_ok es) c) d \<longrightarrow>
        drop start s = shown_disj d @ r \<longrightarrow> stops r \<longrightarrow> word_of r \<notin> {And_word, Or_word} \<longrightarrow> a < 0 \<or> truth a \<longrightarrow>
        rule_need s (OrLoop a) start \<le> n \<longrightarrow>
        call (OrLoop a) start = Some (start + length (shown_disj d) + blanks r, disj_value es a d))"

lemma shown_paren: "shown (Paren d) = LeftBracket # shown_disj d @ [RightBracket]"
  by (simp add: shown_list_def shown_disj_def shown_conj_def [abs_def] comp_def)

lemma value_paren: "a < 0 \<Longrightarrow> disj_value es a d = value_of es (Paren d)"
  by (auto simp: disj_value_def value_of_def list_ex_iff list_all_iff)

lemma value_neg: "1 - value_of es q = value_of es (Neg q)"
  by (simp add: value_of_def)

lemma query_ok_paren:
  "query_ok es (Paren d) \<longleftrightarrow> d \<noteq> [] \<and> list_all (\<lambda>c. c \<noteq> [] \<and> list_all (query_ok es) c) d"
  by (auto simp: list_all_iff)

lemma extf_loop_atom:
  assumes "ext_bool es" "is_str s st i n" "\<And>w. is_str s st i w \<Longrightarrow> w = n"
    "drop i s = 32 # a @ r" "plain_word a" "stops r" "list_ex (\<lambda>(f, w1, w2). n = w1 \<or> n = w2) es"
  shows "extf_loop es s st i = (i + 1 + length a, value_of es (Atom n a))"
  using assms(1,7)
proof (induction es)
  case (Cons e es)
  obtain f w1 w2 where e: "e = (f, w1, w2)" by (cases e)
  have t: "next_token s i = (i + 1, i + 1 + length a)"
    using word_of_plain [OF assms(5,6)] by (simp add: next_token_eq assms(4))
  have d: "take (length a) (drop (i + 1) s) = a"
    using drop_prefix [of i s "[32]" "a @ r"] assms(4) by simp
  have w: "is_str s st i w \<longleftrightarrow> w = n" for w using assms(2,3) by blast
  have f: "f a = 0 \<or> f a = 1" using Cons.prems e by (auto simp: ext_bool_def)
  show ?case
  proof (cases "n = w1 \<or> n = w2")
    case True
    have "extf_loop (e # es) s st i = (i + 1 + length a, if n = w1 then f a else 1 - f a)"
    proof -
      have "take (i + 1 + length a - (i + 1)) (drop (i + 1) s) = a" using d by simp
      then show ?thesis using True unfolding e extf_loop.simps w t by (cases "n = w1") simp_all
    qed
    moreover have "value_of (e # es) (Atom n a) = (if n = w1 then f a else 1 - f a)"
    proof -
      have "atom_val (e # es) n a = Some (if n = w1 then f a else 1 - f a)" using True e by auto
      then show ?thesis using f by (auto simp: value_of_def)
    qed
    ultimately show ?thesis by simp
  next
    case False
    have "ext_bool es" "list_ex (\<lambda>(f, w1, w2). n = w1 \<or> n = w2) es"
      using Cons.prems e False by (auto simp: ext_bool_def)
    then show ?thesis using Cons.IH e w False by (auto simp: value_of_def)
  qed
qed simp

lemma do_extf_atom:
  assumes "ext_bool es" "query_ok es (Atom n a)" "drop st s = n @ 32 # a @ r" "stops r"
  shows "do_extf es s st = (st + length n + 1 + length a, value_of es (Atom n a))"
proof -
  have n: "plain_word n" "plain_word a" "list_ex (\<lambda>(f, w1, w2). n = w1 \<or> n = w2) es" using assms(2) by auto
  have h: "\<not> is_sep ((n @ x) ! 0)" "n \<noteq> []" for x
    using n(1) tok_not_sep by (cases n; auto simp: plain_word_def)+
  then have b: "blanks (drop st s) = 0" using assms(3) by (cases n) (auto simp: blanks_def)
  have wo: "word_of (drop st s) = n"
    using word_of_plain(1) [OF n(1), of "32 # a @ r"] assms(3) by (simp add: word_of_def)
  have i: "is_str s st (st + length n) w \<longleftrightarrow> w = n" for w
    using is_str_word [of s st w] b wo by auto
  have "next_token s st = (st, st + length n)" using b wo by (simp add: next_token_eq)
  moreover have "extf_loop es s st (st + length n) = (st + length n + 1 + length a, value_of es (Atom n a))"
    using i drop_prefix [OF assms(3)] n assms(1,4) by (intro extf_loop_atom) auto
  ultimately show ?thesis by (simp add: do_extf_def)
qed

subsection \<open>The three rules\<close>

lemma word_of_dropWhile [simp]: "word_of (dropWhile is_sep r) = word_of r" "blanks (dropWhile is_sep r) = 0"
proof -
  have "dropWhile is_sep (dropWhile is_sep r) = dropWhile is_sep r" by (induction r) auto
  then show "word_of (dropWhile is_sep r) = word_of r" by (simp add: word_of_def)
  show "blanks (dropWhile is_sep r) = 0"
    using hd_dropWhile [of is_sep r] by (cases "dropWhile is_sep r") (auto simp: blanks_def simp del: dropWhile_eq_Nil_conv)
qed

lemma char_at_drop: "drop st s = c # r \<Longrightarrow> char_at s st = c"
  by (metis char_at_def drop_all hd_drop_conv_nth leI list.discI list.sel(1))

lemma drop_less: "drop start s = x @ r \<Longrightarrow> x \<noteq> [] \<Longrightarrow> start < length s"
  by (metis append_is_Nil_conv drop_all leI)

lemma shown_not_Nil [simp]: "shown q \<noteq> []"
  by (cases q) simp_all

lemma joined_not_Nil: "xs \<noteq> [] \<Longrightarrow> \<forall>x \<in> set xs. x \<noteq> [] \<Longrightarrow> joined w xs \<noteq> []"
  by (induction w xs rule: joined.induct) auto

lemma shown_conj_not_Nil: "c \<noteq> [] \<Longrightarrow> shown_conj c \<noteq> []"
  unfolding shown_conj_def by (rule joined_not_Nil) auto

lemma shown_disj_not_Nil: "d \<noteq> [] \<Longrightarrow> list_all (\<lambda>c. c \<noteq> [] \<and> P c) d \<Longrightarrow> shown_disj d \<noteq> []"
  unfolding shown_disj_def by (rule joined_not_Nil) (auto simp: list_all_iff shown_conj_not_Nil)

lemma term_step:
  assumes es: "ext_bool es" and T: "term_good es s (run_rule n es s) n" and D: "disj_good es s (run_rule n es s) n"
  shows "term_good es s (run_rule (Suc n) es s) (Suc n)"
  unfolding term_good_def
proof (intro allI impI)
  fix q start r
  assume q: "query_ok es q" "drop start s = shown q @ r" "stops r" "rule_need s Term start \<le> Suc n"
  have less: "start < length s" using q(2) drop_less by fastforce
  show "run_rule (Suc n) es s Term start = Some (start + length (shown q), value_of es q)"
  proof (cases q)
    case (Atom na a)
    have w: "word_of (drop start s) = na" "blanks (drop start s) = 1"
      using word_of_plain [of na "32 # a @ r"] q Atom by simp_all
    have st: "drop (start + 1) s = na @ 32 # a @ r"
      using drop_prefix [of start s "[32]" "na @ 32 # a @ r"] q Atom by simp
    have "na \<noteq> Not_word" "plain_word na" using q(1) Atom by auto
    moreover have "char_at s (start + 1) \<noteq> LeftBracket"
      using char_at_drop [of "start + 1" s] st \<open>plain_word na\<close> by (cases na) (auto simp: plain_word_def)
    ultimately have "term_body (run_rule n es s) es s start = Some (do_extf es s (start + 1))"
      using is_str_word [of s start Not_word] w by (simp add: term_body_def next_token_eq)
    then show ?thesis using do_extf_atom [OF es _ st q(3)] q(1) Atom by simp
  next
    case (Neg q')
    have w: "word_of (drop start s) = Not_word" "blanks (drop start s) = 1"
      using word_of_plain [of Not_word "shown q' @ r"] q Neg shown_stops by simp_all
    have st: "drop (start + 3) s = shown q' @ r"
      using drop_prefix [of start s "32 # Not_word" "shown q' @ r"] q Neg
      by (simp add: Not_word_def eval_nat_numeral)
    have "run_rule n es s Term (start + 3) = Some (start + 3 + length (shown q'), value_of es q')"
      using T q st Neg less by (auto simp: term_good_def)
    then show ?thesis
      using is_str_word [of s start Not_word] w Neg value_neg [of es q']
      by (simp add: term_body_def next_token_eq value_of_def eval_nat_numeral)
  next
    case (Paren d)
    have s1: "drop start s = LeftBracket # shown_disj d @ RightBracket # r" using q(2) Paren by (simp only: shown_paren) simp
    then have w: "word_of (drop start s) = []" "blanks (drop start s) = 0" by simp_all
    have st: "drop (start + 1) s = shown_disj d @ RightBracket # r"
      using drop_prefix [of start s "[LeftBracket]" "shown_disj d @ RightBracket # r"] s1 by simp
    have en: "drop (start + 1 + length (shown_disj d)) s = RightBracket # r" using drop_prefix [OF st] .
    define a where "a = - int (start + 1) - 1"
    have "run_rule n es s (OrLoop a) (start + 1) = Some (start + 1 + length (shown_disj d), disj_value es a d)"
      using D st q(1,4) less Paren query_ok_paren [of es d]
      by (auto simp: disj_good_def a_def And_word_def Or_word_def simp del: query_ok.simps)
    moreover have "disj_value es a d = value_of es q" using value_paren [of a es d] Paren by (simp add: a_def)
    moreover have "length (shown q) = length (shown_disj d) + 2" using Paren by (simp only: shown_paren) simp
    ultimately show ?thesis
      using is_str_word [of s start Not_word] w char_at_drop [OF s1] char_at_drop [OF en]
      by (simp add: term_body_def next_token_eq a_def Not_word_def)
  qed
qed

lemma shown_conj_Cons: "c \<noteq> [] \<Longrightarrow> shown_conj (q # c) = shown q @ 32 # And_word @ shown_conj c"
  by (cases c) (simp_all add: shown_conj_def)

lemma shown_disj_Cons: "d \<noteq> [] \<Longrightarrow> shown_disj (c # d) = shown_conj c @ 32 # Or_word @ shown_disj d"
  by (cases d) (simp_all add: shown_disj_def)

lemma shown_conj_stops: "c \<noteq> [] \<Longrightarrow> stops (shown_conj c @ r)"
  using shown_stops by (cases c; cases "tl c") (auto simp: shown_conj_def)

lemma shown_disj_stops: "d \<noteq> [] \<Longrightarrow> list_all (\<lambda>c. c \<noteq> [] \<and> P c) d \<Longrightarrow> stops (shown_disj d @ r)"
  using shown_conj_stops by (cases d; cases "tl d") (auto simp: shown_disj_def)

lemma stops_blank: "stops (32 # r)" by simp

text \<open>Behind an item at \<open>st\<close> the loops look at the next word.\<close>

lemma after_word:
  assumes "drop st s = 32 # w @ x @ r" "plain_word w" "stops (x @ r)"
  shows "next_token s st = (st + 1, st + 1 + length w)" "is_str s (st + 1) (st + 1 + length w) w"
    "drop (st + 1 + length w) s = x @ r" "word_of (drop st s) = w"
proof -
  have w: "word_of (drop st s) = w" "blanks (drop st s) = 1" using word_of_plain [OF assms(2,3)] assms(1) by simp_all
  then show "next_token s st = (st + 1, st + 1 + length w)" "word_of (drop st s) = w" by (simp_all add: next_token_eq)
  show "is_str s (st + 1) (st + 1 + length w) w" using is_str_word [of s st w] w by simp
  show "drop (st + 1 + length w) s = x @ r" using drop_prefix [of st s "32 # w" "x @ r"] assms(1) by simp
qed

lemma conj_step:
  assumes T: "term_good es s (run_rule n es s) n" and C: "conj_good es s (run_rule n es s) n"
  shows "conj_good es s (run_rule (Suc n) es s) (Suc n)"
  unfolding conj_good_def
proof (intro allI impI)
  fix c a start r
  assume c: "c \<noteq> []" "list_all (query_ok es) c" "drop start s = shown_conj c @ r" "stops r" "word_of r \<noteq> And_word"
    "a < 0 \<or> truth a" "rule_need s (AndLoop a) start \<le> Suc n"
  have less: "start < length s" by (rule drop_less [OF c(3) shown_conj_not_Nil [OF c(1)]])
  obtain q c' where q: "c = q # c'" using c(1) by (cases c) auto
  define a' where "a' = (if a < 0 then value_of es q else a * value_of es q)"
  have tr: "truth a'" "\<not> value_of es q < 0" using c(6) by (auto simp: a'_def truth_def value_of_def)
  define st where "st = start + length (shown q)"
  show "run_rule (Suc n) es s (AndLoop a) start = Some (start + length (shown_conj c) + blanks r, conj_value es a c)"
  proof (cases "c' = []")
    case True
    have "drop start s = shown q @ r" using c(3) q True by (simp add: shown_conj_def)
    moreover from this have "drop st s = r" unfolding st_def by (rule drop_prefix)
    ultimately have "run_rule n es s Term start = Some (st, value_of es q)"
      "\<not> is_str s (st + blanks r) (st + blanks r + length (word_of r)) And_word"
      using T c q is_str_word [of s st And_word] by (auto simp: term_good_def st_def)
    moreover have "a' = conj_value es a c"
      using c(6) q True by (auto simp: a'_def conj_value_def value_of_def truth_def)
    ultimately show ?thesis
      using less tr q True \<open>drop st s = r\<close>
      by (simp add: and_body_def next_token_eq Let_def shown_conj_def st_def flip: a'_def)
  next
    case False
    have s1: "drop start s = shown q @ 32 # And_word @ shown_conj c' @ r" using c(3) q False by (simp add: shown_conj_Cons)
    then have s2: "drop st s = 32 # And_word @ shown_conj c' @ r" unfolding st_def by (rule drop_prefix)
    note w = after_word [OF s2 plain_words(1) shown_conj_stops [OF False]]
    have t: "run_rule n es s Term start = Some (st, value_of es q)"
      using T c q s1 by (auto simp: term_good_def st_def)
    have need: "rule_need s (AndLoop a') (st + 1 + length And_word) \<le> n" using c(7) less by (simp add: st_def)
    have "run_rule n es s (AndLoop a') (st + 1 + length And_word) =
        Some (st + 1 + length And_word + length (shown_conj c') + blanks r, conj_value es a' c')"
      using C False c(2,4,5) q w(3) tr need unfolding conj_good_def by simp
    moreover have "conj_value es a' c' = conj_value es a c"
      using c(6) q by (auto simp: a'_def conj_value_def value_of_def truth_def)
    ultimately show ?thesis
      using less tr t w(1,2) q False
      by (simp add: and_body_def Let_def shown_conj_Cons st_def flip: a'_def)
  qed
qed

lemma conj_value_fresh: "a < 0 \<Longrightarrow> conj_value es a c = (if list_all (meaning es) c then 1 else 0)"
  by (simp add: conj_value_def)

lemma disj_step:
  assumes C: "conj_good es s (run_rule n es s) n" and D: "disj_good es s (run_rule n es s) n"
  shows "disj_good es s (run_rule (Suc n) es s) (Suc n)"
  unfolding disj_good_def
proof (intro allI impI)
  fix d a start r
  assume d: "d \<noteq> []" "list_all (\<lambda>c. c \<noteq> [] \<and> list_all (query_ok es) c) d" "drop start s = shown_disj d @ r" "stops r"
    "word_of r \<notin> {And_word, Or_word}" "a < 0 \<or> truth a" "rule_need s (OrLoop a) start \<le> Suc n"
  have less: "start < length s" by (rule drop_less [OF d(3) shown_disj_not_Nil [OF d(1,2)]])
  obtain c d' where c: "d = c # d'" using d(1) by (cases d) auto
  define b where "b = - int start - 1"
  define t where "t = conj_value es b c"
  define a' where "a' = (if a < 0 then t else int_or a t)"
  have t: "t = (if list_all (meaning es) c then 1 else 0)" unfolding t_def b_def by (rule conj_value_fresh) simp
  have tr: "truth a'" "\<not> t < 0" using d(6) t by (auto simp: a'_def truth_def int_or_def)
  define st where "st = start + length (shown_conj c)"
  have need: "rule_need s (AndLoop b) start \<le> n" using d(7) by simp
  have first: "run_rule n es s (AndLoop b) start = Some (st + blanks x, t)"
    if "drop start s = shown_conj c @ x" "stops x" "word_of x \<noteq> And_word" for x
  proof -
    have "c \<noteq> []" "list_all (query_ok es) c" "b < 0" using d(2) c by (simp_all add: b_def)
    then show ?thesis using C that need unfolding conj_good_def st_def t_def by blast
  qed
  show "run_rule (Suc n) es s (OrLoop a) start = Some (start + length (shown_disj d) + blanks r, disj_value es a d)"
  proof (cases "d' = []")
    case True
    have s1: "drop start s = shown_conj c @ r" using d(3) c True by (simp add: shown_disj_def)
    then have s2: "drop st s = r" unfolding st_def by (rule drop_prefix)
    then have s3: "drop (st + blanks r) s = dropWhile is_sep r" using drop_blanks [of st s] by simp
    have "run_rule n es s (AndLoop b) start = Some (st + blanks r, t)"
      using first [OF s1 d(4)] d(5) by simp
    moreover have "\<not> is_str s (st + blanks r) (st + blanks r + length (word_of r)) Or_word"
      using d(5) is_str_word [of s "st + blanks r" Or_word] s3 by simp
    moreover have "a' = disj_value es a d"
      using d(6) t c True by (auto simp: a'_def disj_value_def truth_def int_or_def)
    ultimately show ?thesis
      using less tr c True s3
      by (simp add: or_body_def next_token_eq Let_def shown_disj_def st_def b_def flip: a'_def)
  next
    case False
    have ok: "list_all (\<lambda>c. c \<noteq> [] \<and> list_all (query_ok es) c) d'" using d(2) c by simp
    have s1: "drop start s = shown_conj c @ 32 # Or_word @ shown_disj d' @ r" using d(3) c False by (simp add: shown_disj_Cons)
    then have s2: "drop st s = 32 # Or_word @ shown_disj d' @ r" unfolding st_def by (rule drop_prefix)
    note w = after_word [OF s2 plain_words(2) shown_disj_stops [OF False ok]]
    have r: "stops (32 # Or_word @ shown_disj d' @ r)" "word_of (32 # Or_word @ shown_disj d' @ r) = Or_word"
      "blanks (32 # Or_word @ shown_disj d' @ r) = 1"
      using word_of_plain [OF plain_words(2) shown_disj_stops [OF False ok]] by simp_all
    have "Or_word \<noteq> And_word" by (simp add: And_word_def Or_word_def)
    then have t1: "run_rule n es s (AndLoop b) start = Some (st + 1, t)"
      using first [OF s1 r(1)] r by simp
    have s3: "drop (st + 1) s = Or_word @ shown_disj d' @ r"
      using drop_prefix [of st s "[32]" "Or_word @ shown_disj d' @ r"] s2 by simp
    have t2: "next_token s (st + 1) = (st + 1, st + 1 + length Or_word)" using w(1) by (rule next_token_again)
    have "rule_need s (OrLoop a') (st + 1 + length Or_word) \<le> n" using d(7) less by (simp add: st_def)
    then have "run_rule n es s (OrLoop a') (st + 1 + length Or_word) =
        Some (st + 1 + length Or_word + length (shown_disj d') + blanks r, disj_value es a' d')"
      using D False ok d(4,5) w(3) tr unfolding disj_good_def by simp
    moreover have "disj_value es a' d' = disj_value es a d"
      using d(6) c t by (auto simp: a'_def disj_value_def truth_def int_or_def)
    ultimately show ?thesis
      using less tr t1 t2 w(2) c False
      by (simp add: or_body_def Let_def shown_disj_Cons st_def b_def flip: a'_def)
  qed
qed

lemma run_rule_good:
  "ext_bool es \<Longrightarrow> term_good es s (run_rule n es s) n \<and> conj_good es s (run_rule n es s) n
     \<and> disj_good es s (run_rule n es s) n"
proof (induction n)
  case 0
  then show ?case by (simp add: term_good_def conj_good_def disj_good_def)
next
  case (Suc n)
  then show ?case using term_step conj_step disj_step by blast
qed

lemma checkf_shown:
  assumes "ext_bool es" "query_ok es (Paren css)"
  shows "checkf es (shown_list (List.map (List.map shown) css)) = Some (if meaning es (Paren css) then 1 else 0)"
proof -
  define s where "s = shown_disj css"
  have s: "s = shown_list (List.map (List.map shown) css)"
    by (simp add: s_def shown_list_def shown_disj_def shown_conj_def [abs_def] comp_def)
  have "disj_good es s (run_rule (3 * length s + 3) es s) (3 * length s + 3)" using run_rule_good [OF assms(1)] by blast
  then have "do_or (3 * length s + 3) es s 0 = Some (length s, disj_value es (- 1) css)"
    using assms(2) query_ok_paren [of es css] unfolding disj_good_def do_or_def
    by (auto simp: s_def And_word_def Or_word_def simp del: query_ok.simps)
  then have "checkf es s = Some (disj_value es (- 1) css)" by (simp add: checkf_def checkf_fuel_def)
  then show ?thesis using value_paren [of "- 1" es css] s by (simp add: value_of_def)
qed

text \<open>
  C18: the evaluator is correct on the language.  For every query tree whose names are in the table,
  \<open>checkf\<close> of its text is 1 when the query holds and 0 when it does not: conjunction binds tighter
  than disjunction, negation applies to one term, and brackets group.
\<close>

theorem checkf_means:
  assumes "ext_bool es" "query_ok es (Paren css)"
  shows "checkf es (shown_list (List.map (List.map shown) css)) = Some (if meaning es (Paren css) then 1 else 0)"
  using assms by (rule checkf_shown)

lemma checkf_total_witness:
  "ext_bool [(\<lambda>x. if x = [65] then 1 else 0, [78], [77])] \<and>
   (\<exists>r. checkf [(\<lambda>x. if x = [65] then 1 else 0, [78], [77])] [40, 78, 32, 65] = Some r
     \<and> (r = 0 \<or> r = 1 \<or> (- int (length [40, 78, 32, 65 :: byte]) - 1 \<le> r \<and> r < 0)))"
proof -
  have e: "ext_bool [(\<lambda>x. if x = [65] then 1 else 0, [78], [77])]" by (simp add: ext_bool_def)
  show ?thesis using e checkf_total [OF e, of "[40, 78, 32, 65]"] by blast
qed

text \<open>Not (N B) or M A and N A, over the test that the argument is A, whose name is N and whose negation is M.\<close>

lemma checkf_means_witness:
  "checkf [(\<lambda>x. if x = [65] then 1 else 0, [78], [77])]
     (shown_list (List.map (List.map shown)
        [[Neg (Paren [[Atom [78] [66]]])], [Atom [77] [65], Atom [78] [65]]])) = Some 1"
proof -
  have e: "ext_bool [(\<lambda>x. if x = [65] then 1 else 0, [78], [77])]" by (simp add: ext_bool_def)
  have q: "query_ok [(\<lambda>x. if x = [65] then 1 else 0, [78], [77])]
     (Paren [[Neg (Paren [[Atom [78] [66]]])], [Atom [77] [65], Atom [78] [65]]])"
    by (simp add: plain_word_def tok_char_def is_sep_def LeftBracket_def RightBracket_def Not_word_def)
  show ?thesis using checkf_means [OF e q] by simp
qed

text \<open>A connective at the end of the text is accepted and ignored.\<close>

lemma trailing_and_accepted:
  "checkf [(\<lambda>x. if x = [65] then 1 else 0, [78], [77])] ([78, 32, 65, 32] @ And_word) = Some 1"
  by code_simp

end
