(* ===== verification/StrLib.thy ===== *)
theory StrLib
  imports CLib
begin

text \<open>
  Searching in memory and walking over its lines, \<open>src/ythtlib/strlib.c\<close>.  A block of memory is the
  list of its bytes, a position in it a natural number, NULL the result \<open>None\<close>.  The loop of
  \<open>__boyer_moore\<close> is cut off by a fuel argument, which is shown to be enough.
\<close>

section \<open>Boyer and Moore's search\<close>

definition bm_index :: "bool \<Rightarrow> byte \<Rightarrow> byte" where
  "bm_index icase c = (if icase then tolower c else c)"

definition bm_equal :: "bool \<Rightarrow> byte \<Rightarrow> byte \<Rightarrow> bool" where
  "bm_equal icase a b \<longleftrightarrow> bm_index icase a = bm_index icase b"

definition bm_optimal :: "nat \<Rightarrow> nat \<Rightarrow> bool" where
  "bm_optimal hlen nlen \<longleftrightarrow> (if hlen \<noteq> 0 then hlen > 20 else True) \<and> nlen > 10"

text \<open>The skip table; every character of the needle but the last enters its distance from the end.\<close>

fun fill_skip :: "bool \<Rightarrow> cstr \<Rightarrow> (byte \<Rightarrow> nat) \<Rightarrow> (byte \<Rightarrow> nat)" where
  "fill_skip icase (c # d # cs) t = fill_skip icase (d # cs) (t(bm_index icase c := length (d # cs)))"
| "fill_skip icase cs t = t"

definition skiptable :: "bool \<Rightarrow> cstr \<Rightarrow> byte \<Rightarrow> nat" where
  "skiptable icase needle = fill_skip icase needle (\<lambda>c. length needle)"

text \<open>The comparison from the back: where it stops in the needle, and the number of characters that agreed.\<close>

fun bm_compare :: "bool \<Rightarrow> cstr \<Rightarrow> byte list \<Rightarrow> nat \<Rightarrow> nat \<Rightarrow> nat \<times> nat" where
  "bm_compare icase needle h 0 i = (0, i)"
| "bm_compare icase needle h (Suc k) i =
     (if \<not> bm_equal icase (needle ! Suc k) (h ! Suc k) then (Suc k, i)
      else bm_compare icase needle h k (Suc i))"

definition bm_skip :: "bool \<Rightarrow> cstr \<Rightarrow> byte \<Rightarrow> nat \<Rightarrow> nat" where
  "bm_skip icase needle c i =
     (let n = skiptable icase needle c
      in if n = length needle \<and> i \<noteq> 0 \<and> bm_equal icase (last needle) (needle ! 0) then n - 1 else n)"

primrec bm_loop :: "nat \<Rightarrow> bool \<Rightarrow> cstr \<Rightarrow> byte list \<Rightarrow> nat \<Rightarrow> nat option option" where
  "bm_loop 0 icase needle h off = None"
| "bm_loop (Suc f) icase needle h off =
     (if length h < length needle then Some None
      else let (k, i) = bm_compare icase needle h (length needle - 1) 0
           in if \<not> bm_equal icase (needle ! k) (h ! k)
              then let n = bm_skip icase needle (bm_index icase (h ! k)) i
                   in bm_loop f icase needle (drop n h) (off + n)
              else Some (Some off))"

definition boyer_moore :: "byte list \<Rightarrow> cstr \<Rightarrow> bool \<Rightarrow> nat option option" where
  "boyer_moore haystack needle icase = bm_loop (length haystack + 1) icase needle haystack 0"

section \<open>\<open>strnstr\<close> and \<open>strncasestr\<close>\<close>

fun same_start :: "bool \<Rightarrow> cstr \<Rightarrow> byte list \<Rightarrow> bool" where
  "same_start icase [] h = True"
| "same_start icase (n # ns) [] = False"
| "same_start icase (n # ns) (c # cs) = (bm_equal icase c n \<and> same_start icase ns cs)"

fun naive_loop :: "bool \<Rightarrow> cstr \<Rightarrow> byte list \<Rightarrow> nat \<Rightarrow> nat option" where
  "naive_loop icase needle [] off = None"
| "naive_loop icase needle (c # cs) off =
     (if length (c # cs) < length needle then None
      else if same_start icase needle (c # cs) then Some off
      else naive_loop icase needle cs (off + 1))"

definition strnstr :: "byte list \<Rightarrow> cstr \<Rightarrow> nat option option" where
  "strnstr haystack needle =
     (if length haystack < length needle then Some None
      else if length needle = 0 then Some (Some 0)
      else if length needle = 1 then Some (strchr haystack (needle ! 0))
      else if bm_optimal (length haystack) (length needle) then boyer_moore haystack needle False
      else Some (naive_loop False needle haystack 0))"

definition strncasestr :: "byte list \<Rightarrow> cstr \<Rightarrow> nat option option" where
  "strncasestr haystack needle =
     (if length haystack < length needle then Some None
      else if length needle = 0 then Some (Some 0)
      else if bm_optimal (length haystack) (length needle) then boyer_moore haystack needle True
      else Some (naive_loop True needle haystack 0))"

section \<open>Lines of a block of memory\<close>

text \<open>\<open>struct memline\<close>: the \<open>size\<close> bytes from \<open>text\<close> on, and the length of the current line.\<close>

record memline =
  ml_rest :: "byte list"
  ml_len :: nat

definition ml_line :: "memline \<Rightarrow> byte list" where
  "ml_line m = take (ml_len m) (ml_rest m)"

definition memlineinit :: "byte list \<Rightarrow> memline" where
  "memlineinit block = \<lparr>ml_rest = block, ml_len = 0\<rparr>"

definition memlinenext :: "memline \<Rightarrow> nat \<times> memline" where
  "memlinenext m =
     (let r = drop (ml_len m) (ml_rest m)
      in if r = [] then (0, \<lparr>ml_rest = r, ml_len = 0\<rparr>)
         else let n = (case strchr r 10 of None \<Rightarrow> length r | Some i \<Rightarrow> i + 1)
              in (n, \<lparr>ml_rest = r, ml_len = n\<rparr>))"

section \<open>What the searches find\<close>

definition occurs :: "bool \<Rightarrow> cstr \<Rightarrow> byte list \<Rightarrow> nat \<Rightarrow> bool" where
  "occurs icase needle h k \<longleftrightarrow>
     k + length needle \<le> length h \<and> (\<forall>j < length needle. bm_equal icase (needle ! j) (h ! (k + j)))"

text \<open>The last character of the needle is not found in front of its end.\<close>

definition last_unique :: "bool \<Rightarrow> cstr \<Rightarrow> bool" where
  "last_unique icase needle \<longleftrightarrow> (\<forall>c \<in> set (butlast needle). \<not> bm_equal icase c (last needle))"

lemma fill_skip_cases:
  "fill_skip icase cs t c = t c \<or> (1 \<le> fill_skip icase cs t c \<and> fill_skip icase cs t c \<le> length cs - 1)"
proof (induction icase cs t rule: fill_skip.induct)
  case (1 icase c' d cs t)
  define t' where "t' = t(bm_index icase c' := length (d # cs))"
  have "t' c = t c \<or> t' c = length (d # cs)" by (simp add: t'_def)
  moreover have "fill_skip icase (d # cs) t' c = t' c \<or>
      (1 \<le> fill_skip icase (d # cs) t' c \<and> fill_skip icase (d # cs) t' c \<le> length (d # cs) - 1)"
    using 1 unfolding t'_def .
  ultimately show ?case unfolding fill_skip.simps t'_def [symmetric] by auto
qed simp_all

lemma fill_skip_le:
  "j + 1 < length cs \<Longrightarrow> bm_index icase (cs ! j) = c \<Longrightarrow> fill_skip icase cs t c \<le> length cs - 1 - j"
proof (induction icase cs t arbitrary: j rule: fill_skip.induct)
  case (1 icase c' d cs t)
  define t' where "t' = t(bm_index icase c' := length (d # cs))"
  have "fill_skip icase (d # cs) t' c \<le> length (c' # d # cs) - 1 - j"
  proof (cases j)
    case 0
    then have "t' c = length (d # cs)" using 1 by (simp add: t'_def)
    then show ?thesis using 0 fill_skip_cases [of icase "d # cs" t' c] by auto
  next
    case (Suc j')
    then have "fill_skip icase (d # cs) t' c \<le> length (d # cs) - 1 - j'"
      using 1(1) [of j'] 1(2,3) unfolding t'_def [symmetric] by simp
    then show ?thesis using Suc by simp
  qed
  then show ?case unfolding fill_skip.simps t'_def [symmetric] .
qed simp_all

lemma skip_bounds: "needle \<noteq> [] \<Longrightarrow> 1 \<le> skiptable icase needle c \<and> skiptable icase needle c \<le> length needle"
  using fill_skip_cases [of icase needle "\<lambda>c. length needle" c]
  by (auto simp: skiptable_def Suc_le_eq)

lemma bm_skip_bounds:
  "needle \<noteq> [] \<Longrightarrow> i < length needle \<Longrightarrow> 1 \<le> bm_skip icase needle c i \<and> bm_skip icase needle c i \<le> length needle"
  using skip_bounds [of needle icase c] by (auto simp: bm_skip_def Let_def)

lemma bm_compare_spec:
  "bm_compare icase needle h k i = (k', i') \<Longrightarrow>
   k' \<le> k \<and> i' = i + (k - k') \<and> (\<forall>j. k' < j \<and> j \<le> k \<longrightarrow> bm_equal icase (needle ! j) (h ! j))
     \<and> (k' = 0 \<or> \<not> bm_equal icase (needle ! k') (h ! k'))"
proof (induction k arbitrary: i)
  case (Suc k)
  show ?case
  proof (cases "bm_equal icase (needle ! Suc k) (h ! Suc k)")
    case True
    have "k' \<le> k \<and> i' = Suc i + (k - k') \<and> (\<forall>j. k' < j \<and> j \<le> k \<longrightarrow> bm_equal icase (needle ! j) (h ! j))
        \<and> (k' = 0 \<or> \<not> bm_equal icase (needle ! k') (h ! k'))"
      using Suc.IH [of "Suc i"] Suc.prems True by simp
    then show ?thesis using True le_Suc_eq by auto
  qed (use Suc.prems in auto)
qed auto

lemma occurs_drop: "n \<le> length h \<Longrightarrow> occurs icase needle (drop n h) k \<longleftrightarrow> occurs icase needle h (n + k)"
  by (auto simp: occurs_def add.assoc)

lemma not_unique:
  assumes "last_unique icase needle" "j < length needle - 1"
  shows "\<not> bm_equal icase (needle ! j) (needle ! (length needle - 1))"
proof -
  have "needle \<noteq> []" using assms(2) by auto
  moreover have "needle ! j \<in> set (butlast needle)" using assms(2) by (metis length_butlast nth_butlast nth_mem)
  ultimately show ?thesis using assms(1) by (auto simp: last_unique_def last_conv_nth)
qed

text \<open>A shift skips no occurrence when the last character is unique.\<close>

lemma shift_safe:
  assumes "needle \<noteq> []" "last_unique icase needle" "k + i + 1 = length needle" "length needle \<le> length h"
    "\<forall>j. k < j \<and> j < length needle \<longrightarrow> bm_equal icase (needle ! j) (h ! j)"
    "0 < d" "d < bm_skip icase needle (bm_index icase (h ! k)) i"
  shows "\<not> occurs icase needle h d"
proof
  assume o: "occurs icase needle h d"
  define m where "m = length needle - 1"
  have d: "d \<le> m" using assms(1,3,7) bm_skip_bounds [of needle i icase "bm_index icase (h ! k)"] by (auto simp: m_def)
  have j: "m - d < m" "d + (m - d) = m" "m < length needle" using d assms(1,6) by (auto simp: m_def)
  then have h: "bm_equal icase (needle ! (m - d)) (h ! m)"
    using o unfolding occurs_def by (metis less_trans)
  show False
  proof (cases "i = 0")
    case True
    then have "k = m" using assms(3) by (simp add: m_def)
    then have "skiptable icase needle (bm_index icase (h ! k)) \<le> length needle - 1 - (m - d)"
      using h j assms(1) unfolding skiptable_def by (intro fill_skip_le) (auto simp: bm_equal_def m_def)
    then show False using assms(1,7) True d by (auto simp: bm_skip_def Let_def m_def)
  next
    case False
    then have "bm_equal icase (needle ! m) (h ! m)" using assms(3,5) j by (auto simp: m_def)
    then show False using not_unique [OF assms(2), of "m - d"] h j by (auto simp: bm_equal_def m_def)
  qed
qed

text \<open>The result of a search in \<open>h\<close>: an occurrence, the first when \<open>exact\<close>, or none at all.\<close>

definition search_ok :: "bool \<Rightarrow> bool \<Rightarrow> cstr \<Rightarrow> byte list \<Rightarrow> nat option \<Rightarrow> bool" where
  "search_ok exact icase needle h r \<longleftrightarrow>
     (case r of
        None \<Rightarrow> exact \<longrightarrow> (\<forall>k \<le> length h. \<not> occurs icase needle h k)
      | Some p \<Rightarrow> occurs icase needle h p \<and> (exact \<longrightarrow> (\<forall>k < p. \<not> occurs icase needle h k)))"

lemma search_ok_drop:
  assumes "search_ok e icase needle (drop n h) r" "n \<le> length h" "e \<Longrightarrow> \<forall>d < n. \<not> occurs icase needle h d"
  shows "search_ok e icase needle h (map_option ((+) n) r)"
proof -
  have a: "\<not> occurs icase needle h k" if "e" "\<forall>j < b. \<not> occurs icase needle (drop n h) j" "k < n + b" for k b
  proof (cases "k < n")
    case False
    then have "k - n < b" using that(3) by linarith
    then have "\<not> occurs icase needle (drop n h) (k - n)" using that(2) by blast
    then show ?thesis using occurs_drop [OF assms(2), of icase needle "k - n"] False by simp
  qed (use assms(3) that(1) in blast)
  show ?thesis
  proof (cases r)
    case None
    then have "e \<Longrightarrow> \<forall>j < length h - n + 1. \<not> occurs icase needle (drop n h) j"
      using assms(1) by (simp add: search_ok_def)
    then show ?thesis using a [of "length h - n + 1"] assms(2) None by (simp add: search_ok_def)
  next
    case (Some p)
    then show ?thesis using a [of p] occurs_drop [OF assms(2)] assms(1) by (auto simp: search_ok_def)
  qed
qed

lemma bm_loop_ok:
  assumes "needle \<noteq> []"
  shows "length h < f \<Longrightarrow>
    \<exists>r. bm_loop f icase needle h off = Some (map_option ((+) off) r) \<and> search_ok (last_unique icase needle) icase needle h r"
proof (induction f arbitrary: h off)
  case (Suc f)
  show ?case
  proof (cases "length h < length needle")
    case True
    then show ?thesis using assms by (intro exI [of _ None]) (auto simp: search_ok_def occurs_def)
  next
    case False
    obtain k i where c: "bm_compare icase needle h (length needle - 1) 0 = (k, i)" by fastforce
    note k = bm_compare_spec [OF c]
    have ki: "k + i + 1 = length needle" using k assms by (cases needle) auto
    show ?thesis
    proof (cases "bm_equal icase (needle ! k) (h ! k)")
      case True
      then have "k = 0" using k by blast
      have "bm_equal icase (needle ! j) (h ! j)" if "j < length needle" for j
        using that k True \<open>k = 0\<close> by (cases j) auto
      then have "search_ok e icase needle h (Some 0)" for e using False by (simp add: search_ok_def occurs_def)
      then show ?thesis using False c True by (intro exI [of _ "Some 0"]) simp
    next
      case diff: False
      define n where "n = bm_skip icase needle (bm_index icase (h ! k)) i"
      have n: "1 \<le> n" "n \<le> length needle" using bm_skip_bounds [of needle i] assms ki by (auto simp: n_def)
      then have "length (drop n h) < f" using Suc.prems False assms by simp
      then obtain r where r: "bm_loop f icase needle (drop n h) (off + n) = Some (map_option ((+) (off + n)) r)"
        "search_ok (last_unique icase needle) icase needle (drop n h) r" using Suc.IH by blast
      have "k < length needle" using ki by simp
      then have "\<not> occurs icase needle h 0" using diff by (auto simp: occurs_def)
      moreover have "\<not> occurs icase needle h d" if "last_unique icase needle" "0 < d" "d < n" for d
      proof (rule shift_safe [OF assms that(1) ki _ _ that(2)])
        show "\<forall>j. k < j \<and> j < length needle \<longrightarrow> bm_equal icase (needle ! j) (h ! j)" using k by auto
      qed (use that False in \<open>auto simp: n_def\<close>)
      ultimately have "\<forall>d < n. \<not> occurs icase needle h d" if "last_unique icase needle"
        using that by (metis neq0_conv)
      then have "search_ok (last_unique icase needle) icase needle h (map_option ((+) n) r)"
        using search_ok_drop [OF r(2)] n False by simp
      moreover have "bm_loop (Suc f) icase needle h off = Some (map_option ((+) off) (map_option ((+) n) r))"
        using c diff False r(1) by (cases r) (simp_all add: n_def Let_def add.assoc)
      ultimately show ?thesis by blast
    qed
  qed
qed simp

lemma bm_equal_sym: "bm_equal icase a b \<longleftrightarrow> bm_equal icase b a"
  by (auto simp: bm_equal_def)

lemma same_start_occurs: "same_start icase needle h \<longleftrightarrow> occurs icase needle h 0"
proof (induction icase needle h rule: same_start.induct)
  case (3 icase n ns c cs)
  then show ?case by (auto simp: occurs_def bm_equal_sym [of icase c n] less_Suc_eq_0_disj)
qed (simp_all add: occurs_def)

lemma naive_loop_ok:
  "needle \<noteq> [] \<Longrightarrow>
   \<exists>r. naive_loop icase needle h off = map_option ((+) off) r \<and> search_ok True icase needle h r"
proof (induction icase needle h off rule: naive_loop.induct)
  case (2 icase needle c cs off)
  show ?case
  proof (cases "length (c # cs) < length needle")
    case True
    then show ?thesis by (intro exI [of _ None]) (auto simp: search_ok_def occurs_def)
  next
    case False
    show ?thesis
    proof (cases "same_start icase needle (c # cs)")
      case True
      then show ?thesis
        using False by (intro exI [of _ "Some 0"]) (simp add: search_ok_def same_start_occurs)
    next
      case no: False
      obtain r where r: "naive_loop icase needle cs (off + 1) = map_option ((+) (off + 1)) r"
        "search_ok True icase needle cs r" using 2 False no by blast
      have "search_ok True icase needle (c # cs) (map_option ((+) 1) r)"
        using search_ok_drop [of True icase needle 1 "c # cs" r] r(2) no by (simp add: same_start_occurs)
      moreover have "naive_loop icase needle (c # cs) off = map_option ((+) off) (map_option ((+) 1) r)"
        using False no r(1) by (cases r) simp_all
      ultimately show ?thesis by blast
    qed
  qed
qed (auto simp: search_ok_def occurs_def intro: exI [of _ None])

lemma search_ok_weaken: "search_ok True icase needle h r \<Longrightarrow> search_ok e icase needle h r"
  by (auto simp: search_ok_def split: option.splits)

lemma add_zero_option [simp]: "map_option ((+) (0 :: nat)) r = r"
  by (cases r) simp_all

lemma memchr_ok: "search_ok True False [c] h (strchr h c)"
proof (cases "strchr h c")
  case None
  then have "h ! k \<noteq> c" if "k < length h" for k using that by (auto simp: strchr_None)
  then have "\<not> occurs False [c] h k" for k
    by (simp add: occurs_def bm_equal_def bm_index_def) (metis Suc_le_lessD)
  then show ?thesis by (simp add: None search_ok_def)
next
  case (Some i)
  note s = strchr_Some [OF this]
  have "h ! k \<noteq> c" if "k < i" for k using s that by (auto simp: in_set_conv_nth)
  then have "\<not> occurs False [c] h k" if "k < i" for k
    using that by (simp add: occurs_def bm_equal_def bm_index_def) metis
  moreover have "occurs False [c] h i" using s by (simp add: occurs_def bm_equal_def bm_index_def)
  ultimately show ?thesis using Some by (simp add: search_ok_def)
qed

text \<open>
  The condition for an exact search: the blocks are small, or the needle's last character is unique.
\<close>

definition exact_search :: "bool \<Rightarrow> byte list \<Rightarrow> cstr \<Rightarrow> bool" where
  "exact_search icase h needle \<longleftrightarrow> length needle \<le> 10 \<or> length h \<le> 20 \<or> last_unique icase needle"

lemma boyer_moore_ok:
  "needle \<noteq> [] \<Longrightarrow>
   \<exists>r. boyer_moore h needle icase = Some r \<and> search_ok (last_unique icase needle) icase needle h r"
  using bm_loop_ok [of needle h "length h + 1" icase 0] unfolding boyer_moore_def by simp

lemma short_haystack: "length h < length needle \<Longrightarrow> search_ok e icase needle h None"
  by (simp add: search_ok_def occurs_def)

lemma empty_needle: "search_ok e icase [] h (Some 0)"
  by (simp add: search_ok_def occurs_def)

lemma long_search:
  assumes "needle \<noteq> []" "\<not> length h < length needle"
  shows "\<exists>r. (if bm_optimal (length h) (length needle) then boyer_moore h needle icase
              else Some (naive_loop icase needle h 0)) = Some r
           \<and> search_ok (exact_search icase h needle) icase needle h r"
proof (cases "bm_optimal (length h) (length needle)")
  case True
  have "exact_search icase h needle \<longleftrightarrow> last_unique icase needle"
    using True assms by (cases "h = []") (auto simp: exact_search_def bm_optimal_def)
  then show ?thesis using boyer_moore_ok [OF assms(1), of h icase] True by simp
next
  case False
  obtain r where "naive_loop icase needle h 0 = map_option ((+) 0) r" "search_ok True icase needle h r"
    using naive_loop_ok [OF assms(1)] by blast
  then show ?thesis using False search_ok_weaken by auto
qed

lemma strnstr_ok: "\<exists>r. strnstr h needle = Some r \<and> search_ok (exact_search False h needle) False needle h r"
proof -
  consider "length h < length needle" | "needle = []" "\<not> length h < length needle"
    | c where "needle = [c]" "\<not> length h < length needle"
    | "length needle > 1" "\<not> length h < length needle"
    by (cases needle; cases "tl needle"; fastforce)
  then show ?thesis
  proof cases
    case 1
    then show ?thesis by (simp add: strnstr_def short_haystack)
  next
    case 2
    then show ?thesis by (simp add: strnstr_def empty_needle)
  next
    case 3
    then show ?thesis using search_ok_weaken [OF memchr_ok] by (simp add: strnstr_def)
  next
    case 4
    then have "needle \<noteq> []" by auto
    moreover have "strnstr h needle = (if bm_optimal (length h) (length needle) then boyer_moore h needle False
        else Some (naive_loop False needle h 0))"
      using 4 by (cases "needle = []") (simp_all add: strnstr_def)
    ultimately show ?thesis using long_search [of needle h False] 4 by simp
  qed
qed

lemma strncasestr_ok:
  "\<exists>r. strncasestr h needle = Some r \<and> search_ok (exact_search True h needle) True needle h r"
proof -
  consider "length h < length needle" | "needle = []" "\<not> length h < length needle"
    | "needle \<noteq> []" "\<not> length h < length needle" by blast
  then show ?thesis
  proof cases
    case 1
    then show ?thesis by (simp add: strncasestr_def short_haystack)
  next
    case 2
    then show ?thesis by (simp add: strncasestr_def empty_needle)
  next
    case 3
    then have "strncasestr h needle = (if bm_optimal (length h) (length needle) then boyer_moore h needle True
        else Some (naive_loop True needle h 0))"
      by (simp add: strncasestr_def)
    then show ?thesis using long_search [of needle h True] 3 by simp
  qed
qed

text \<open>The needle \<open>akcdefghijk\<close> stands at position 9 of the block and is not found.\<close>

definition missed_needle :: cstr where
  "missed_needle = [97, 107, 99, 100, 101, 102, 103, 104, 105, 106, 107]"

definition missed_block :: "byte list" where
  "missed_block = replicate 9 120 @ missed_needle @ [120]"

lemma strnstr_misses: "strnstr missed_block missed_needle = Some None" "occurs False missed_needle missed_block 9"
  by code_simp+

text \<open>
  C20: both searches end; what they find is an occurrence.  When the needle has at most 10
  characters, the block at most 20, or the last character of the needle is not found in front of its
  end, they find the first occurrence whenever there is one.  Without the condition the
  search may miss one: the shift of the table is made from the start of the comparison although the
  character that selects it stands in front of its end.
\<close>

theorem strnstr_finds:
  "(\<exists>r. strnstr h needle = Some r \<and> search_ok (exact_search False h needle) False needle h r)
   \<and> (\<exists>r. strncasestr h needle = Some r \<and> search_ok (exact_search True h needle) True needle h r)
   \<and> strnstr missed_block missed_needle = Some None \<and> occurs False missed_needle missed_block 9"
  using strnstr_ok strncasestr_ok strnstr_misses by blast

section \<open>The walk over the lines\<close>

lemma memlinenext_end: "drop (ml_len m) (ml_rest m) = [] \<Longrightarrow> fst (memlinenext m) = 0"
  by (simp add: memlinenext_def)

text \<open>A line is not empty, ends with its only newline unless it is the last, and what follows is the rest.\<close>

lemma memlinenext_line:
  assumes "drop (ml_len m) (ml_rest m) \<noteq> []" "memlinenext m = (n, m')"
  shows "ml_line m' @ drop (ml_len m') (ml_rest m') = drop (ml_len m) (ml_rest m)"
    "0 < n" "n = ml_len m'" "length (ml_line m') = n"
    "10 \<notin> set (butlast (ml_line m'))"
    "drop (ml_len m') (ml_rest m') \<noteq> [] \<longrightarrow> last (ml_line m') = 10"
proof -
  define r where "r = drop (ml_len m) (ml_rest m)"
  have r: "r \<noteq> []" using assms(1) by (simp add: r_def)
  have m: "m' = \<lparr>ml_rest = r, ml_len = n\<rparr>" "n = (case strchr r 10 of None \<Rightarrow> length r | Some i \<Rightarrow> i + 1)"
    using assms(2) r unfolding memlinenext_def by (auto simp only: Let_def r_def [symmetric] if_False prod.inject)
  have n: "0 < n \<and> n \<le> length r \<and> 10 \<notin> set (butlast (take n r)) \<and> (n < length r \<longrightarrow> last (take n r) = 10)"
  proof (cases "strchr r 10")
    case None
    then show ?thesis using m(2) r strchr_None [of r 10] by (auto dest: in_set_butlastD)
  next
    case (Some i)
    note s = strchr_Some [OF Some]
    then have "take n r = take i r @ [10]" using m(2) Some by (simp add: take_Suc_conv_app_nth)
    then show ?thesis using s m(2) Some by simp
  qed
  show "ml_line m' @ drop (ml_len m') (ml_rest m') = drop (ml_len m) (ml_rest m)"
    by (simp only: m(1) ml_line_def memline.simps append_take_drop_id r_def)
  show "0 < n" "n = ml_len m'" "length (ml_line m') = n" "10 \<notin> set (butlast (ml_line m'))"
    "drop (ml_len m') (ml_rest m') \<noteq> [] \<longrightarrow> last (ml_line m') = 10"
    using n by (auto simp: m(1) ml_line_def r_def)
qed

lemma memlinenext_shorter:
  assumes "drop (ml_len m) (ml_rest m) \<noteq> []" "memlinenext m = (n, m')"
  shows "length (drop (ml_len m') (ml_rest m')) < length (drop (ml_len m) (ml_rest m))"
proof -
  note l = memlinenext_line [OF assms]
  have "length (ml_line m') + length (drop (ml_len m') (ml_rest m')) = length (drop (ml_len m) (ml_rest m))"
    using l(1) by (metis length_append)
  then show ?thesis using l(2,4) by linarith
qed

end
