(* ===== verification/DocUtil.thy ===== *)
theory DocUtil
  imports StrLib StrOp
begin

text \<open>
  The text of an article, \<open>src/libythtbbs/docutil.c\<close>: its effective size, the author named in its head,
  and keeping its head while the body is edited.  The pattern for junk in \<open>mem_eff_size\<close> only sets
  \<open>eff_size_isjunk\<close>, which the function resets to 0 before it returns, so it is left out.
\<close>

section \<open>The effective size\<close>

text \<open>\<open>strchr(" \t\n\r", c)\<close>, which also finds the NUL.\<close>

definition blank0 :: "byte \<Rightarrow> bool" where
  "blank0 c \<longleftrightarrow> c \<in> {32, 9, 10, 13, 0}"

definition In_prefix :: cstr where "In_prefix = [0xA1, 0xBE, 32, 0xD4, 0xDA]"
definition Quoted_tail :: cstr where
  "Quoted_tail = [0xB5, 0xC4, 0xB4, 0xF3, 0xD7, 0xF7, 0xD6, 0xD0, 0xCC, 0xE1, 0xB5, 0xBD, 58, 32, 0xA1, 0xBF]"
definition Source_mark :: cstr where "Source_mark = [0xA1, 0xF9, 32, 0xC0, 0xB4, 0xD4, 0xB4, 58, 0xA3, 0xAE]"
definition Changed_mark :: cstr where "Changed_mark = [0xA1, 0xF9, 32, 0xD0, 0xDE, 0xB8, 0xC4, 58, 0xA3, 0xAE]"

text \<open>\<open>memmem(text, len, pattern, n)\<close>\<close>

definition memmem :: "byte list \<Rightarrow> cstr \<Rightarrow> bool" where
  "memmem block pat \<longleftrightarrow> strstr block pat \<noteq> None"

text \<open>The head of the article: at most ten lines, up to and with the first blank one.\<close>

fun skip_head :: "nat \<Rightarrow> memline \<Rightarrow> memline" where
  "skip_head 0 m = m"
| "skip_head (Suc i) m =
     (let (n, m') = memlinenext m
      in if n = 0 then m' else if list_all blank0 (ml_line m') then m' else skip_head i m')"

definition signature_line :: "byte list \<Rightarrow> bool" where
  "signature_line l \<longleftrightarrow> length l > 2 \<and> (take 3 l = [45, 45, 10] \<or> take 3 l = [45, 45, 13])"

definition quoted_line :: "byte list \<Rightarrow> bool" where
  "quoted_line l \<longleftrightarrow>
     (length l > 2 \<and> take 2 l = [58, 32])
     \<or> (length l > 4 \<and> take 5 l = In_prefix \<and> memmem l Quoted_tail)
     \<or> memmem l Source_mark \<or> memmem l Changed_mark"

text \<open>What the characters of a line add to \<open>size2\<close>, the double of the part that does not count.\<close>

definition char_waste :: "byte \<Rightarrow> int" where
  "char_waste c = (if 128 \<le> c then 1 else 0) + (if blank0 c then 2 else 0)"

definition line_waste :: "byte list \<Rightarrow> int" where
  "line_waste l = sum_list (map char_waste l)"

function eff_loop :: "memline \<Rightarrow> int \<Rightarrow> int \<Rightarrow> int \<times> int" where
  "eff_loop m sz sz2 =
     (if drop (ml_len m) (ml_rest m) = [] then (sz, sz2)
      else let (n, m') = memlinenext m; l = ml_line m'
           in if signature_line l then (sz, sz2)
              else if quoted_line l then eff_loop m' sz sz2
              else eff_loop m' (sz + int n) (sz2 + line_waste l))"
  by pat_completeness auto

termination
proof (relation "measure (\<lambda>(m, sz, sz2). length (drop (ml_len m) (ml_rest m)))", goal_cases)
  case (2 m sz sz2 a n m' l)
  then show ?case using memlinenext_shorter [of m n m'] by simp
next
  case (3 m sz sz2 a n m' l)
  then show ?case using memlinenext_shorter [of m n m'] by simp
qed simp

declare eff_loop.simps [simp del]

definition mem_eff_size :: "byte list \<Rightarrow> int" where
  "mem_eff_size block =
     (let (sz, sz2) =
            (if length block > 3000 \<or> length block = 0 then (int (length block), 0)
             else eff_loop (skip_head 10 (memlineinit block)) 0 0);
          s = sz - sz2 div 2
      in if s \<le> 0 then 1 else s)"

text \<open>\<open>None\<close> stands for a file that cannot be mapped.\<close>

definition eff_size :: "byte list option \<Rightarrow> int" where
  "eff_size file = (case file of None \<Rightarrow> 1 | Some block \<Rightarrow> mem_eff_size block)"

section \<open>The author in the head\<close>

definition strsep :: "cstr option \<Rightarrow> byte set \<Rightarrow> cstr option \<times> cstr option" where
  "strsep p delim =
     (case p of
        None \<Rightarrow> (None, None)
      | Some s \<Rightarrow>
          (let t = takeWhile (\<lambda>c. c \<notin> delim) s
           in (Some t, if length t < length s then Some (drop (length t + 1) s) else None)))"

definition Mail_from :: cstr where "Mail_from = [0xBC, 0xC4, 0xD0, 0xC5, 0xC8, 0xCB, 58, 32]"
definition Post_from :: cstr where "Post_from = [0xB7, 0xA2, 0xD0, 0xC5, 0xC8, 0xCB, 58, 32]"
definition Title_mark :: cstr where "Title_mark = [0xB1, 0xEA, 32, 32, 0xCC, 0xE2, 58, 32]"

definition from_line :: "cstr \<Rightarrow> bool" where
  "from_line l \<longleftrightarrow> take 8 l = Mail_from \<or> take 8 l = Post_from"

text \<open>\<open>" ,\n\r\t"\<close> and \<open>"();:!#$\"'"\<close>\<close>

definition seps :: "byte set" where "seps = {32, 44, 10, 13, 9}"
definition bad_chars :: "byte set" where "bad_chars = {40, 41, 59, 58, 33, 35, 36, 34, 39}"

definition author_of :: "cstr \<Rightarrow> int \<Rightarrow> cstr" where
  "author_of l n =
     (let (f1, p) = strsep (Some (drop 8 l)) seps;
          a1 = (case f1 of None \<Rightarrow> [] | Some f \<Rightarrow> strsncpy f n);
          (f2, p') = strsep p seps;
          a2 = (case f2 of
                  None \<Rightarrow> a1
                | Some f \<Rightarrow>
                    if f \<noteq> [] \<and> f ! 0 = 60 \<and> last f = 62 \<and> 64 \<in> set f then strsncpy (tl (butlast f)) n
                    else a1)
      in takeWhile (\<lambda>c. c \<notin> bad_chars) a2)"

fun getdocauthor :: "byte list \<Rightarrow> int \<Rightarrow> nat \<Rightarrow> cstr" where
  "getdocauthor m n 0 = []"
| "getdocauthor m n (Suc i) =
     (case fgets 256 m of
        None \<Rightarrow> []
      | Some (l, r) \<Rightarrow> if from_line (zstr l) then author_of (zstr l) n else getdocauthor r n i)"

section \<open>The old head\<close>

text \<open>The static variables of \<open>keepoldheader\<close>: the lines kept (\<open>tmpbuf\<close>) and their number (\<open>hash\<close>).\<close>

record oldheader =
  tmpbuf :: "cstr list option"
  hashn :: nat

fun head_lines :: "nat \<Rightarrow> byte list \<Rightarrow> byte list list \<times> byte list" where
  "head_lines 0 m = ([], m)"
| "head_lines (Suc i) m =
     (case fgets 80 m of
        None \<Rightarrow> ([], m)
      | Some (l, r) \<Rightarrow>
          if zstr l = [10] \<or> zstr l = [13, 10] then ([l], r)
          else let (ls, r') = head_lines i r in (l # ls, r'))"

datatype dowhat = KEEPHEADER | RESTOREHEADER | SKIPHEADER

text \<open>
  The file as its bytes and the position in it; the result is the new state, the position, what is
  written (for \<open>RESTOREHEADER\<close>) and the return value.  Memory is assumed to be available.
\<close>

definition keepoldheader ::
  "oldheader \<Rightarrow> byte list \<Rightarrow> nat \<Rightarrow> dowhat \<Rightarrow> oldheader \<times> nat \<times> byte list \<times> int" where
  "keepoldheader h file p dowhat =
     (if dowhat = RESTOREHEADER
      then (case tmpbuf h of
              None \<Rightarrow> (h, p, [], - 2)
            | Some ls \<Rightarrow>
                (\<lparr>tmpbuf = None, hashn = 0\<rparr>, p, concat (take (hashn h) ls), 0))
      else let (ls, r) = head_lines 5 (drop p file);
               i = length ls;
               zs = map zstr ls;
               bad = (i < 4 \<or> \<not> from_line (zs ! 0) \<or> take 8 (zs ! 1) \<noteq> Title_mark);
               p' = (if bad then 0 else length file - length r);
               i' = (if bad then 0 else i)
           in (\<lparr>tmpbuf = (if dowhat = SKIPHEADER then None else Some zs), hashn = i'\<rparr>, p', [], 0))"

section \<open>Facts\<close>

lemma line_waste_bounds: "0 \<le> line_waste l" "line_waste l \<le> 2 * int (length l)"
  by (induction l) (auto simp: line_waste_def char_waste_def blank0_def)

lemma eff_loop_bounds:
  "eff_loop m a b = (x, y) \<Longrightarrow>
   a \<le> x \<and> x \<le> a + int (length (drop (ml_len m) (ml_rest m))) \<and> b \<le> y \<and> y - b \<le> 2 * (x - a)"
proof (induction m a b rule: eff_loop.induct)
  case (1 m a b)
  show ?case
  proof (cases "drop (ml_len m) (ml_rest m) = []")
    case True
    then show ?thesis using 1(3) by (subst (asm) eff_loop.simps) simp
  next
    case False
    obtain n m' where s: "memlinenext m = (n, m')" by fastforce
    note l = memlinenext_line [OF False s]
    have len: "int n + int (length (drop (ml_len m') (ml_rest m'))) = int (length (drop (ml_len m) (ml_rest m)))"
      using l(1,4) by (metis length_append of_nat_add)
    have w: "0 \<le> line_waste (ml_line m')" "line_waste (ml_line m') \<le> 2 * int n"
      using line_waste_bounds [of "ml_line m'"] l(4) by simp_all
    have e: "eff_loop m a b = (if signature_line (ml_line m') then (a, b)
        else if quoted_line (ml_line m') then eff_loop m' a b
        else eff_loop m' (a + int n) (b + line_waste (ml_line m')))"
      using False s by (subst eff_loop.simps) simp
    consider (sig) "signature_line (ml_line m')" | (quote) "\<not> signature_line (ml_line m')" "quoted_line (ml_line m')"
      | (plain) "\<not> signature_line (ml_line m')" "\<not> quoted_line (ml_line m')" by blast
    then show ?thesis
    proof cases
      case sig
      then show ?thesis using 1(3) e by simp
    next
      case quote
      then show ?thesis using 1(1) [OF False s [symmetric] refl refl quote] 1(3) e len by simp
    next
      case plain
      then show ?thesis using 1(2) [OF False s [symmetric] refl refl plain] 1(3) e len w by simp
    qed
  qed
qed

lemma skip_head_rest: "length (drop (ml_len (skip_head i m)) (ml_rest (skip_head i m))) \<le> length (drop (ml_len m) (ml_rest m))"
proof (induction i m rule: skip_head.induct)
  case (2 i m)
  obtain n m' where s: "memlinenext m = (n, m')" by fastforce
  show ?case
  proof (cases "drop (ml_len m) (ml_rest m) = []")
    case True
    then show ?thesis using s by (auto simp: memlinenext_def)
  next
    case False
    note l = memlinenext_line [OF False s] and sh = memlinenext_shorter [OF False s]
    show ?thesis
    proof (cases "list_all blank0 (ml_line m')")
      case True
      then show ?thesis using s sh by simp
    next
      case no: False
      have "n \<noteq> 0" using l(2) by simp
      then show ?thesis using s sh no 2 [OF s [symmetric] refl _ no] by simp
    qed
  qed
qed simp

text \<open>The effective size is positive and no larger than the text, unless that is empty.\<close>

lemma mem_eff_size_bounds: "1 \<le> mem_eff_size block" "mem_eff_size block \<le> max 1 (int (length block))"
proof -
  define m where "m = skip_head 10 (memlineinit block)"
  obtain x y where e: "eff_loop m 0 0 = (x, y)" by fastforce
  have "length (drop (ml_len m) (ml_rest m)) \<le> length block"
    using skip_head_rest [of 10 "memlineinit block"] by (simp add: m_def memlineinit_def)
  then have "0 \<le> x" "x \<le> int (length block)" "0 \<le> y" using eff_loop_bounds [OF e] by simp_all
  then show "1 \<le> mem_eff_size block" "mem_eff_size block \<le> max 1 (int (length block))"
    using e by (auto simp: mem_eff_size_def Let_def simp flip: m_def)
qed

lemma head_lines_split: "head_lines i m = (ls, r) \<Longrightarrow> m = concat ls @ r \<and> length ls \<le> i"
proof (induction i m arbitrary: ls r rule: head_lines.induct)
  case (2 i m)
  show ?case
  proof (cases "fgets 80 m")
    case None
    then show ?thesis using 2 by simp
  next
    case (Some p)
    obtain l r' where p: "p = (l, r')" by fastforce
    have m: "m = l @ r'" using Some p line_take_split [of 79 m l r'] by (auto simp: fgets_def split: if_splits)
    show ?thesis
    proof (cases "zstr l = [10] \<or> zstr l = [13, 10]")
      case True
      then show ?thesis using 2(2) Some p m by auto
    next
      case False
      obtain ls' r'' where h: "head_lines i r' = (ls', r'')" by fastforce
      then have "r' = concat ls' @ r'' \<and> length ls' \<le> i" using 2(1) Some p False by simp
      then show ?thesis using 2(2) Some p m False h by auto
    qed
  qed
qed simp

text \<open>
  Keeping the head of a file that has no NUL and restoring it writes exactly the bytes that were
  skipped; a file without a head is left at its start and nothing is written.
\<close>

lemma keep_then_restore:
  assumes "0 \<notin> set file" "keepoldheader h file 0 KEEPHEADER = (h1, p, w, r)"
  shows "r = 0 \<and> w = [] \<and> keepoldheader h1 x q RESTOREHEADER = (\<lparr>tmpbuf = None, hashn = 0\<rparr>, q, take p file, 0)"
proof -
  obtain ls rest where hl: "head_lines 5 file = (ls, rest)" by fastforce
  note s = head_lines_split [OF hl]
  have "map zstr ls = ls"
  proof (rule map_idI)
    fix l assume "l \<in> set ls"
    then have "0 \<notin> set l" using s assms(1) by auto
    then show "zstr l = l" by (rule zstr_id)
  qed
  moreover have "take (length file - length rest) file = concat ls" using s by simp
  ultimately show ?thesis
    using assms(2) hl by (auto simp: keepoldheader_def Let_def split: if_splits)
qed

text \<open>An address in angle brackets wins over the name in front of it.\<close>

lemma author_of_address:
  "author_of (Post_from @ lit ''ann <ann@x.org>'') 20 = lit ''ann@x.org''"
  "author_of (Post_from @ lit ''ann (Ann)'') 20 = lit ''ann''"
  by code_simp+

end
