(* ===== verification/UUCode.thy ===== *)
theory UUCode
  imports CLib
begin

text \<open>
  Attachments in the text of an article: \<open>src/ythtlib/uuencode.c\<close> and \<open>src/ythtlib/uudecode.c\<close>.  A
  stream open for reading is the list of the bytes not read yet, a stream open for writing the list of
  the bytes written; writing to it is assumed to succeed.
\<close>

section \<open>Encoding\<close>

definition uu_std :: "byte list" where
  "uu_std = 96 # map of_nat [33..<96]"

definition ENC :: "byte \<Rightarrow> byte" where
  "ENC c = uu_std ! unat (c AND 63)"

fun enc_groups :: "byte list \<Rightarrow> byte list \<times> byte list" where
  "enc_groups (a # b # c # r) =
     (let (gs, p) = enc_groups r
      in (ENC (drop_bit 2 a) # ENC ((push_bit 4 a AND 48) OR (drop_bit 4 b AND 15))
          # ENC ((push_bit 2 b AND 60) OR (drop_bit 6 c AND 3)) # ENC (c AND 63) # gs, p))"
| "enc_groups p = ([], p)"

text \<open>The loop over the lines: what it writes, and the bytes of the last group if that is short.\<close>

function uu_lines :: "byte list \<Rightarrow> nat \<Rightarrow> byte list \<times> byte list" where
  "uu_lines fr left =
     (if left = 0 then ([], [])
      else let toread = min 45 left;
               buf = take toread fr;
               n = length buf;
               left' = (if n < toread then 0 else left - n);
               (gs, p) = enc_groups buf;
               line = ENC (of_nat n) # gs
           in if p \<noteq> [] then (line, p)
              else let (t, p') = uu_lines (drop toread fr) left' in (line @ 10 # t, p'))"
  by pat_completeness auto
termination by (relation "measure snd") (auto simp: min_def)

declare uu_lines.simps [simp del]

fun uu_tail :: "byte list \<Rightarrow> byte list" where
  "uu_tail [] = []"
| "uu_tail (c1 # r) =
     (let c2 = (case r of [] \<Rightarrow> 0 | b # _ \<Rightarrow> b)
      in [ENC (drop_bit 2 c1), ENC ((push_bit 4 c1 AND 48) OR (drop_bit 4 c2 AND 15)),
          if r = [] then ENC 0 else ENC (push_bit 2 c2 AND 60), ENC 0, 10])"

definition uuencode :: "byte list \<Rightarrow> nat \<Rightarrow> cstr \<Rightarrow> byte list" where
  "uuencode fr len filename =
     (let (t, p) = uu_lines fr len
      in lit ''begin 644 '' @ filename @ 10 # t @ uu_tail p @ [ENC 0, 10] @ lit ''end'' @ [10])"

section \<open>Decoding\<close>

definition DEC :: "byte \<Rightarrow> byte" where
  "DEC c = (c - 32) AND 63"

text \<open>
  The groups of one line of length \<open>n\<close>; \<open>p\<close> holds what is behind the first character, with the NUL of
  \<open>fgets\<close>.  \<open>None\<close>: the line is too short, and the code decodes what an earlier line left in the buffer.
\<close>

fun dec_groups :: "byte list \<Rightarrow> nat \<Rightarrow> byte list list option" where
  "dec_groups p n =
     (if n = 0 then Some []
      else if n \<ge> 3
      then (case p of
              a # b # c # d # r \<Rightarrow>
                map_option ((#) [push_bit 2 (DEC a) OR drop_bit 4 (DEC b),
                                 push_bit 4 (DEC b) OR drop_bit 2 (DEC c),
                                 push_bit 6 (DEC c) OR DEC d]) (dec_groups r (n - 3))
            | _ \<Rightarrow> None)
      else if n = 2
      then (case p of
              a # b # c # r \<Rightarrow> Some [[push_bit 2 (DEC a) OR drop_bit 4 (DEC b),
                                      push_bit 4 (DEC b) OR drop_bit 2 (DEC c)]]
            | _ \<Rightarrow> None)
      else (case p of
              a # b # r \<Rightarrow> Some [[push_bit 2 (DEC a) OR drop_bit 4 (DEC b)]]
            | _ \<Rightarrow> None))"

declare dec_groups.simps [simp del]

text \<open>\<open>wbuf\<close> goes out when it holds \<open>sizeof (wbuf) - 2\<close> bytes.\<close>

definition WBUF :: nat where "WBUF = 16384"

fun put_groups :: "byte list \<times> byte list \<Rightarrow> byte list list \<Rightarrow> byte list \<times> byte list" where
  "put_groups (written, wbuf) [] = (written, wbuf)"
| "put_groups (written, wbuf) (g # gs) =
     (if length (wbuf @ g) \<ge> WBUF then put_groups (written @ wbuf @ g, []) gs
      else put_groups (written, wbuf @ g) gs)"

text \<open>The loop: the file written, the rest of the stream, and whether the end line was reached.\<close>

function uu_loop :: "byte list \<Rightarrow> byte list \<times> byte list \<Rightarrow> (byte list \<times> byte list \<times> bool) option" where
  "uu_loop fp w =
     (case fgets 16384 fp of
        None \<Rightarrow> Some (fst w, fp, False)
      | Some (l, r) \<Rightarrow>
          let n = unat (DEC (l ! 0))
          in if n = 0 then Some (fst w @ snd w, r, True)
             else case dec_groups (tl l @ [0]) n of
                    None \<Rightarrow> None
                  | Some gs \<Rightarrow> uu_loop r (put_groups w gs))"
  by pat_completeness auto
termination
proof (relation "measure (\<lambda>(m, w). length m)", goal_cases)
  case (2 fp w x l r n gs)
  then show ?case using line_take_progress [of 16383 fp] by (auto simp: fgets_def split: if_splits)
qed simp

declare uu_loop.simps [simp del]

definition end_line :: "cstr \<Rightarrow> bool" where
  "end_line s \<longleftrightarrow> s = lit ''end'' @ [10] \<or> s = lit ''end'' @ [13, 10]"

function fakedecode :: "byte list \<Rightarrow> byte list \<times> int" where
  "fakedecode fp =
     (case fgets 256 fp of
        None \<Rightarrow> (fp, - 1)
      | Some (l, r) \<Rightarrow> if end_line (zstr l) then (r, 0) else fakedecode r)"
  by pat_completeness auto
termination
proof (relation "measure length", goal_cases)
  case (2 fp x l r)
  then show ?case using line_take_progress [of 255 fp] by (auto simp: fgets_def split: if_splits)
qed simp

declare fakedecode.simps [simp del]

text \<open>\<open>uudecode\<close> over the files that exist: the files, the rest of the stream, the result.\<close>

definition uudecode ::
  "bool \<Rightarrow> (cstr \<Rightarrow> byte list option) \<Rightarrow> byte list \<Rightarrow> cstr
     \<Rightarrow> ((cstr \<Rightarrow> byte list option) \<times> byte list \<times> int) option" where
  "uudecode can_create files fp outname =
     (if strstr outname (lit ''..'') \<noteq> None then Some (files, fp, - 999)
      else if files outname \<noteq> None \<or> \<not> can_create then Some (files, fst (fakedecode fp), - 1)
      else case uu_loop fp ([], []) of
             None \<Rightarrow> None
           | Some (w, r, False) \<Rightarrow> Some (files(outname \<mapsto> w), r, - 3)
           | Some (w, r, True) \<Rightarrow>
               (case fgets 16384 r of
                  None \<Rightarrow> Some (files(outname \<mapsto> w), r, - 4)
                | Some (l, r') \<Rightarrow>
                    Some (files(outname \<mapsto> w), r', if end_line (zstr l) then 0 else - 4)))"

text \<open>\<open>attachdecode\<close>: the name in the cache, and the file decoded unless it is there.\<close>

definition attach_path :: "cstr \<Rightarrow> cstr \<Rightarrow> cstr \<Rightarrow> cstr" where
  "attach_path cache articlename filename =
     (let ano = (if length articlename > 2 then drop 2 articlename else articlename);
          decodefile = take 254 (ano @ [58] @ filename)
      in take 4095 (cache @ [47] @ decodefile))"

definition attachdecode ::
  "bool \<Rightarrow> cstr \<Rightarrow> (cstr \<Rightarrow> byte list option) \<Rightarrow> byte list \<Rightarrow> cstr \<Rightarrow> cstr
     \<Rightarrow> ((cstr \<Rightarrow> byte list option) \<times> byte list \<times> cstr option) option" where
  "attachdecode can_create cache files fp articlename filename =
     (let path = attach_path cache articlename filename
      in if files path = None
         then map_option (\<lambda>(fs, r, k). (fs, r, if k \<noteq> 0 then None else Some path))
                (uudecode can_create files fp path)
         else Some (files, fst (fakedecode fp), Some path))"

section \<open>Decoding undoes encoding\<close>

lemma and_63: "(c :: byte) AND 63 = take_bit 6 c"
  by (simp only: take_bit_eq_mask) (simp add: mask_eq_exp_minus_1)

lemma uu_std_nth: "k < 64 \<Longrightarrow> uu_std ! k = (if k = 0 then 96 else of_nat (32 + k))"
  by (cases k) (simp_all add: uu_std_def nth_map del: upt_Suc upt_rec_numeral list.map)

lemma ENC_facts: "ENC c \<noteq> 10" "DEC (ENC c) = c AND 63"
proof -
  define k where "k = unat (c AND 63)"
  have "k < 2 ^ 6" unfolding k_def and_63 unsigned_take_bit_eq by (rule take_bit_nat_less_exp)
  then have k: "k < 64" by simp
  have "uu_std ! k \<noteq> 10"
  proof
    assume "uu_std ! k = 10"
    then have "of_nat (32 + k) = (10 :: byte)" using uu_std_nth [OF k] by (simp split: if_splits)
    then have "unat (of_nat (32 + k) :: byte) = unat (10 :: byte)" by (rule arg_cong)
    then show False using k by (simp only: unat_of_nat take_bit_eq_mod) simp
  qed
  moreover have "DEC (uu_std ! k) = of_nat k"
  proof (cases "k = 0")
    case False
    have "take_bit 6 (of_nat k :: byte) = of_nat (take_bit 6 k)" by (rule take_bit_of_nat)
    then show ?thesis using k False uu_std_nth [OF k] by (simp add: DEC_def and_63 take_bit_eq_mod)
  qed (simp add: uu_std_def DEC_def)
  ultimately show "ENC c \<noteq> 10" "DEC (ENC c) = c AND 63" by (simp_all add: ENC_def k_def)
qed

lemma less_8: "(n :: nat) < 8 \<longleftrightarrow> n = 0 \<or> n = 1 \<or> n = 2 \<or> n = 3 \<or> n = 4 \<or> n = 5 \<or> n = 6 \<or> n = 7"
  by linarith

lemma byte_eqI: "(\<And>n. n \<in> {0, 1, 2, 3, 4, 5, 6, 7} \<Longrightarrow> bit a n \<longleftrightarrow> bit b n) \<Longrightarrow> a = (b :: byte)"
  by (rule bit_word_eqI) (auto simp: less_8)

lemma group_bytes:
  fixes a b c :: byte
  shows "push_bit 2 (drop_bit 2 a AND 63) OR drop_bit 4 (((push_bit 4 a AND 48) OR (drop_bit 4 b AND 15)) AND 63) = a"
    "push_bit 4 (((push_bit 4 a AND 48) OR (drop_bit 4 b AND 15)) AND 63) OR
       drop_bit 2 (((push_bit 2 b AND 60) OR (drop_bit 6 c AND 3)) AND 63) = b"
    "push_bit 4 (((push_bit 4 a AND 48) OR (drop_bit 4 b AND 15)) AND 63) OR
       drop_bit 2 ((push_bit 2 b AND 60) AND 63) = b"
    "push_bit 6 (((push_bit 2 b AND 60) OR (drop_bit 6 c AND 3)) AND 63) OR ((c AND 63) AND 63) = c"
  by (rule byte_eqI; elim insertE emptyE; simp add: bit_simps)+

lemma enc_groups_facts:
  "enc_groups buf = (gs, p) \<Longrightarrow> 10 \<notin> set gs \<and> length gs = 4 * (length buf div 3) \<and> length p = length buf mod 3"
proof (induction buf arbitrary: gs rule: enc_groups.induct)
  case (1 a b c r)
  obtain gs' where g: "enc_groups r = (gs', p)" using 1(2) by (cases "enc_groups r") (auto simp: Let_def)
  have "gs = ENC (drop_bit 2 a) # ENC ((push_bit 4 a AND 48) OR (drop_bit 4 b AND 15))
      # ENC ((push_bit 2 b AND 60) OR (drop_bit 6 c AND 3)) # ENC (c AND 63) # gs'"
    using 1(2) g by simp
  moreover have "(3 + n) div 3 = Suc (n div 3)" for n :: nat by simp
  ultimately show ?case using 1(1) [OF g] ENC_facts(1) by (auto simp: eq_commute [of 10])
qed auto

lemma dec_short:
  "\<exists>out. dec_groups (uu_tail [v] @ y) (Suc 0) = Some out \<and> concat out = [v]"
  "\<exists>out. dec_groups (uu_tail [v, w] @ y) (Suc (Suc 0)) = Some out \<and> concat out = [v, w]"
  using group_bytes(1) [of v 0] group_bytes(1) [of v w] group_bytes(3) [of v w]
  by (simp_all add: dec_groups.simps [of _ "Suc 0"] dec_groups.simps [of _ "Suc (Suc 0)"] ENC_facts(2) del: push_bit_and)

lemma dec_groups_enc:
  "enc_groups buf = (gs, p) \<Longrightarrow>
   \<exists>out. dec_groups (gs @ uu_tail p @ y) (length buf) = Some out \<and> concat out = buf"
proof (induction buf arbitrary: gs rule: enc_groups.induct)
  case (1 a b c r)
  obtain gs' where g: "enc_groups r = (gs', p)" using 1(2) by (cases "enc_groups r") (auto simp: Let_def)
  obtain out where o: "dec_groups (gs' @ uu_tail p @ y) (length r) = Some out" "concat out = r"
    using 1(1) [OF g] by blast
  have "gs = ENC (drop_bit 2 a) # ENC ((push_bit 4 a AND 48) OR (drop_bit 4 b AND 15))
      # ENC ((push_bit 2 b AND 60) OR (drop_bit 6 c AND 3)) # ENC (c AND 63) # gs'"
    using 1(2) g by simp
  moreover have "3 \<le> length (a # b # c # r)" "length (a # b # c # r) \<noteq> 0" "length (a # b # c # r) - 3 = length r" by simp_all
  ultimately have "dec_groups (gs @ uu_tail p @ y) (length (a # b # c # r)) = Some ([a, b, c] # out)"
    by (subst dec_groups.simps) (simp only: append_Cons list.case if_True if_False o(1) ENC_facts(2) group_bytes option.map)
  then show ?case using o(2) by auto
qed (use dec_short in \<open>auto simp: dec_groups.simps [of _ 0]\<close>)

lemma put_groups_concat: "put_groups w gs = (o', w') \<Longrightarrow> o' @ w' = fst w @ snd w @ concat gs"
  by (induction w gs arbitrary: o' w' rule: put_groups.induct) (auto split: if_splits)

lemma ENC_of_nat: "n \<le> 45 \<Longrightarrow> unat (DEC (ENC (of_nat n))) = n"
proof -
  assume "n \<le> 45"
  moreover have "take_bit 6 (of_nat n :: byte) = of_nat (take_bit 6 n)" by (rule take_bit_of_nat)
  ultimately show ?thesis by (simp add: ENC_facts(2) and_63 take_bit_eq_mod unat_of_nat)
qed

lemma uu_tail_line: "p \<noteq> [] \<Longrightarrow> \<exists>s. uu_tail p = s @ [10] \<and> 10 \<notin> set s \<and> length s = 4"
  using ENC_facts(1) by (cases p) (auto simp: Let_def eq_commute [of 10])

text \<open>One line and the rest of the stream.\<close>

lemma uu_loop_line:
  assumes "buf \<noteq> []" "length buf \<le> 45" "enc_groups buf = (gs, p)" "uu_tail p = s @ t" "10 \<notin> set s"
    "length s \<le> 4" "p = [] \<longleftrightarrow> t = []" "p \<noteq> [] \<longrightarrow> t = [10]"
  shows "\<exists>w'. uu_loop (ENC (of_nat (length buf)) # gs @ s @ 10 # r) w = uu_loop r w'
           \<and> fst w' @ snd w' = fst w @ snd w @ buf"
proof -
  let ?line = "ENC (of_nat (length buf)) # gs @ s"
  note g = enc_groups_facts [OF assms(3)]
  have l: "10 \<notin> set ?line" "Suc (length ?line) < 16384"
    using g assms(2,5,6) ENC_facts(1) by (auto simp: eq_commute [of 10])
  have f: "fgets 16384 (?line @ 10 # r) = Some (?line @ [10], r)" by (rule fgets_line [OF l])
  have n: "unat (DEC ((?line @ [10]) ! 0)) = length buf" using ENC_of_nat [OF assms(2)] by simp
  define y where "y = (if p = [] then [10, 0] else [0 :: byte])"
  have "tl (?line @ [10]) @ [0] = gs @ uu_tail p @ y"
    using assms(4,7,8) by (cases "p = []") (auto simp: y_def)
  then obtain out where o: "dec_groups (tl (?line @ [10]) @ [0]) (length buf) = Some out" "concat out = buf"
    using dec_groups_enc [OF assms(3), of y] by auto
  obtain o' w' where p: "put_groups w out = (o', w')" by fastforce
  have "uu_loop (?line @ 10 # r) w = uu_loop r (o', w')"
    using f n o(1) assms(1) p by (subst uu_loop.simps) (simp del: append_Cons)
  moreover have "o' @ w' = fst w @ snd w @ buf" using put_groups_concat [OF p] o(2) by simp
  ultimately show ?thesis by (intro exI [of _ "(o', w')"]) simp
qed

lemma uu_loop_end: "uu_loop (ENC 0 # 10 # r) w = Some (fst w @ snd w, r, True)"
proof -
  have "fgets 16384 ([ENC 0] @ 10 # r) = Some ([ENC 0] @ [10], r)"
    using ENC_facts(1) by (intro fgets_line) (simp_all add: eq_commute [of 10])
  then show ?thesis using ENC_of_nat [of 0] by (subst uu_loop.simps) simp
qed

lemma uu_loop_lines:
  "uu_lines fr (length fr) = (t, p) \<Longrightarrow>
   uu_loop (t @ uu_tail p @ ENC 0 # 10 # r) w = Some (fst w @ snd w @ fr, r, True)"
proof (induction fr arbitrary: t p w rule: length_induct)
  case (1 fr)
  show ?case
  proof (cases "fr = []")
    case True
    then show ?thesis using 1(2) uu_loop_end by (simp add: uu_lines.simps [of "[]"])
  next
    case False
    define buf where "buf = take (min 45 (length fr)) fr"
    have buf: "buf \<noteq> []" "length buf \<le> 45" "length buf = min 45 (length fr)" using False by (auto simp: buf_def)
    obtain gs q where g: "enc_groups buf = (gs, q)" by fastforce
    note gf = enc_groups_facts [OF g]
    have eq: "uu_lines fr (length fr) =
        (if q \<noteq> [] then (ENC (of_nat (length buf)) # gs, q)
         else let (t, p') = uu_lines (drop (min 45 (length fr)) fr) (length fr - length buf)
              in (ENC (of_nat (length buf)) # gs @ 10 # t, p'))"
      using False buf(3) g by (subst uu_lines.simps) (simp add: Let_def flip: buf_def)
    show ?thesis
    proof (cases "q = []")
      case False
      then have "length buf \<noteq> 45" using gf by (auto simp del: length_0_conv)
      then have "fr = buf" using buf(3) by (auto simp: buf_def min_def split: if_splits)
      obtain s where s: "uu_tail q = s @ [10]" "10 \<notin> set s" "length s = 4" using uu_tail_line [OF False] by blast
      obtain w' where w': "uu_loop (ENC (of_nat (length buf)) # gs @ s @ 10 # ENC 0 # 10 # r) w = uu_loop (ENC 0 # 10 # r) w'"
        "fst w' @ snd w' = fst w @ snd w @ buf"
        using uu_loop_line [OF buf(1,2) g s(1,2) eq_refl [OF s(3)], of "ENC 0 # 10 # r" w] False by blast
      have "t = ENC (of_nat (length buf)) # gs" "p = q" using 1(2) eq False by simp_all
      then show ?thesis using w' uu_loop_end s(1) \<open>fr = buf\<close> by simp
    next
      case True
      define fr' where "fr' = drop (min 45 (length fr)) fr"
      have l: "length fr - length buf = length fr'" using buf(3) by (simp add: fr'_def)
      obtain t' p' where u: "uu_lines fr' (length fr') = (t', p')" by fastforce
      obtain w' where w': "uu_loop (ENC (of_nat (length buf)) # gs @ [] @ 10 # t' @ uu_tail p' @ ENC 0 # 10 # r) w =
          uu_loop (t' @ uu_tail p' @ ENC 0 # 10 # r) w'" "fst w' @ snd w' = fst w @ snd w @ buf"
      proof -
        have "uu_tail q = [] @ []" "10 \<notin> set []" "length [] \<le> 4" "q = [] \<longleftrightarrow> [] = []" "q \<noteq> [] \<longrightarrow> [] = [10]"
          using True by simp_all
        from uu_loop_line [OF buf(1,2) g this] show ?thesis using that by blast
      qed
      have "t = ENC (of_nat (length buf)) # gs @ 10 # t'" "p = p'"
        using 1(2) eq True u l by (simp_all add: fr'_def)
      moreover have "uu_loop (t' @ uu_tail p' @ ENC 0 # 10 # r) w' = Some (fst w' @ snd w' @ fr', r, True)"
      proof -
        have "length fr' < length fr" using False by (simp add: fr'_def)
        then show ?thesis using 1(1) u by blast
      qed
      moreover have "fst w' @ snd w' @ fr' = fst w @ snd w @ fr"
        by (metis append.assoc append_take_drop_id buf_def fr'_def w'(2))
      ultimately show ?thesis using w'(1) by simp
    qed
  qed
qed

text \<open>
  C22: decoding what was encoded gives the file back, whatever its bytes and its length, leaves the
  stream behind the end line and reports success, when the name is free and has no \<open>..\<close>; the first line of the
  encoding is read by the callers.
\<close>

theorem uu_roundtrip:
  assumes "files outname = None" "strstr outname (lit ''..'') = None"
    "uuencode fr (length fr) filename = lit ''begin 644 '' @ filename @ 10 # code"
  shows "uudecode True files (code @ r) outname = Some (files(outname \<mapsto> fr), r, 0)"
proof -
  obtain t p where u: "uu_lines fr (length fr) = (t, p)" by fastforce
  then have code: "code @ r = t @ uu_tail p @ ENC 0 # 10 # (lit ''end'' @ 10 # r)"
    using assms(3) by (simp add: uuencode_def)
  have loop: "uu_loop (code @ r) ([], []) = Some (fr, lit ''end'' @ 10 # r, True)"
    using uu_loop_lines [OF u, of "lit ''end'' @ 10 # r" "([], [])"] code by simp
  have "fgets 16384 (lit ''end'' @ 10 # r) = Some (lit ''end'' @ [10], r)" by (rule fgets_line) simp_all
  moreover have "zstr (lit ''end'' @ [10]) = lit ''end'' @ [10]" by (rule zstr_id) simp
  ultimately show ?thesis using assms(1,2) loop by (simp add: uudecode_def end_line_def)
qed

lemma uu_roundtrip_witness:
  "\<exists>code. uuencode [1, 2, 3, 255] (length [1, 2, 3, 255 :: byte]) [97] = lit ''begin 644 '' @ [97] @ 10 # code
     \<and> uudecode True (\<lambda>f. None) (code @ [66]) [98] = Some ((\<lambda>f. None)([98] \<mapsto> [1, 2, 3, 255]), [66], 0)"
proof -
  obtain code where c: "uuencode [1, 2, 3, 255] (length [1, 2, 3, 255 :: byte]) [97] = lit ''begin 644 '' @ [97] @ 10 # code"
    by (simp add: uuencode_def case_prod_beta)
  have "strstr [98] (lit ''..'') = None" by simp
  then show ?thesis using uu_roundtrip [OF _ _ c, of "\<lambda>f. None" "[98]" "[66]"] c by blast
qed

text \<open>
  A length beyond the end of a file that fills its lines gives one line too many in front of the end
  line: the file decodes, but the result is -4.
\<close>

lemma uuencode_overlong: "uuencode [] 1 [97] = lit ''begin 644 a'' @ [10, ENC 0, 10, ENC 0, 10] @ lit ''end'' @ [10]"
  by (simp add: uuencode_def uu_lines.simps [of "[]"])

end
