(* ===== verification/PowerSelect.thy ===== *)
theory PowerSelect
  imports Regular DocUtil UUCode Article MailQuota BrcList
begin

text \<open>
  Choosing articles by a condition and acting on them: \<open>src/power_select.c\<close> over the evaluator of
  \<open>src/regular.c\<close> and \<open>change_dir\<close> of \<open>libythtbbs/article.c\<close>, with \<open>searchpattern\<close> of \<open>src/read.c\<close>.
\<close>

section \<open>Searching the text of an article\<close>

text \<open>
  \<open>searchpattern\<close> on the bytes of the file.  A long file is read by lines and its attachments are
  skipped; the length of a binary attachment is an \<open>unsigned int\<close> that \<open>fseek\<close> takes as a 32-bit
  \<open>long\<close>, so that it may lead backwards: the loop is cut off by fuel.  \<open>None\<close> is also the result when
  the length field is cut short and the code seeks by what is in the variable.
\<close>

primrec big_search :: "nat \<Rightarrow> byte list \<Rightarrow> cstr \<Rightarrow> nat \<Rightarrow> int option" where
  "big_search 0 file query p = None"
| "big_search (Suc f) file query p =
     (case fgets 256 (drop p file) of
        None \<Rightarrow> Some 0
      | Some (l, r) \<Rightarrow>
          if strstr (zstr l) query \<noteq> None then Some 1
          else if take 10 (zstr l) = lit ''begin 644 ''
          then big_search f file query (length file - length (fst (fakedecode r)))
          else if take 18 (zstr l) = lit ''beginbinaryattach ''
          then (case r of
                  [] \<Rightarrow> Some 0
                | ch # r' \<Rightarrow>
                    if ch \<noteq> 0 then big_search f file query (length file - length r)
                    else if length r' < 4 then None
                    else let q = int (length file - length r' + 4);
                             q' = q + be32 (take 4 r')
                         in big_search f file query (nat (if q' < 0 then q else q')))
          else big_search f file query (length file - length r))"

definition SKIP_ATTACH_LIMIT :: nat where "SKIP_ATTACH_LIMIT = 65536"

definition searchpattern :: "nat \<Rightarrow> byte list option \<Rightarrow> cstr \<Rightarrow> int option" where
  "searchpattern fuel file query =
     (case file of
        None \<Rightarrow> Some 0
      | Some m \<Rightarrow>
          if m = [] then Some 0
          else if length m \<ge> SKIP_ATTACH_LIMIT then big_search fuel m query 0
          else map_option (\<lambda>r. if r \<noteq> None then 1 else 0) (strncasestr m query))"

section \<open>The conditions\<close>

text \<open>
  What the tests look at besides the record: the board, its files, the user's read marks (the cursor
  that a query moves does not change later answers), and the outcome of \<open>searchpattern\<close> for a file
  and a word.
\<close>

record power_env =
  currboard :: cstr
  files :: "cstr \<Rightarrow> byte list option"
  brc :: onebrc
  found_in :: "byte list option \<Rightarrow> cstr \<Rightarrow> int"

definition article_path :: "power_env \<Rightarrow> fileheader \<Rightarrow> cstr" where
  "article_path e fh = take 255 (lit ''boards/'' @ currboard e @ lit ''/'' @ fh2fname fh)"

text \<open>\<open>atoi\<close>, which saturates at the ends of the 32-bit \<open>long\<close>.\<close>

definition atoi :: "cstr \<Rightarrow> int" where
  "atoi s =
     (let t = dropWhile (\<lambda>c. c = 32 \<or> (9 \<le> c \<and> c \<le> 13)) s;
          neg = (t \<noteq> [] \<and> t ! 0 = 45);
          u = (if t \<noteq> [] \<and> (t ! 0 = 45 \<or> t ! 0 = 43) then tl t else t);
          v = int (digits_val 0 (takeWhile isdigit u))
      in max (- 2147483648) (min 2147483647 (if neg then - v else v)))"

definition titlehas :: "fileheader \<Rightarrow> cstr \<Rightarrow> int" where
  "titlehas fh buf = (if strstr (zstr (title fh)) buf \<noteq> None then 1 else 0)"

definition idis :: "fileheader \<Rightarrow> cstr \<Rightarrow> int" where
  "idis fh buf = (if strcaseeq (zstr (owner fh)) buf then 1 else 0)"

definition idhas :: "fileheader \<Rightarrow> cstr \<Rightarrow> int" where
  "idhas fh buf = (if strstr (map tolower (zstr (owner fh))) (map tolower buf) \<noteq> None then 1 else 0)"

definition checkmark :: "fileheader \<Rightarrow> cstr \<Rightarrow> int" where
  "checkmark fh buf =
     (if strcaseeq buf (lit ''m'') then (if accessed fh AND FH_MARKED \<noteq> 0 then 1 else 0)
      else if strcaseeq buf (lit ''g'') then (if accessed fh AND FH_DIGEST \<noteq> 0 then 1 else 0)
      else if strcaseeq buf (lit ''@'') then (if accessed fh AND FH_ATTACHED \<noteq> 0 then 1 else 0)
      else 0)"

definition counttextlt :: "power_env \<Rightarrow> fileheader \<Rightarrow> cstr \<Rightarrow> int" where
  "counttextlt e fh buf =
     (let sz = (if sizebyte fh \<noteq> 0 then bytenum (of_nat (sizebyte fh))
                else eff_size (files e (article_path e fh)))
      in if sz < atoi buf then 1 else 0)"

definition checktext :: "power_env \<Rightarrow> fileheader \<Rightarrow> cstr \<Rightarrow> int" where
  "checktext e fh query = found_in e (files e (article_path e fh)) query"

definition Unread_word :: cstr where "Unread_word = [0xCE, 0xB4, 0xB6, 0xC1]"
definition Original_word :: cstr where "Original_word = [0xD4, 0xAD, 0xD7, 0xF7]"

definition checkattr :: "power_env \<Rightarrow> fileheader \<Rightarrow> cstr \<Rightarrow> int" where
  "checkattr e fh buf =
     (if buf = Unread_word
      then (if snd (brc_unreadt (brc e) (if edittime fh \<noteq> 0 then edittime fh else filetime fh)) then 1 else 0)
      else if buf = Original_word
      then (if take 4 (zstr (title fh)) \<noteq> lit ''Re: '' then 1 else 0)
      else 0)"

definition checkstar :: "fileheader \<Rightarrow> cstr \<Rightarrow> int" where
  "checkstar fh buf = (if int (staravg50 fh) \<ge> to_int32 (atoi buf * 50) then 1 else 0)"

definition checkevas :: "fileheader \<Rightarrow> cstr \<Rightarrow> int" where
  "checkevas fh buf = (if int (hasvoted fh) \<ge> atoi buf then 1 else 0)"

definition Pair_words :: "cstr \<Rightarrow> cstr \<Rightarrow> cstr \<times> cstr" where
  "Pair_words a b = (a @ b, a @ [0xB2, 0xBB] @ b)"

definition Has_word :: cstr where "Has_word = [0xBA, 0xAC]"
definition Is_word :: cstr where "Is_word = [0xCA, 0xC7]"
definition Above_word :: cstr where "Above_word = [0xB8, 0xDF, 0xD3, 0xDA]"
definition Below_word :: cstr where "Below_word = [0xC9, 0xD9, 0xD3, 0xDA]"

definition myextstru :: "power_env \<Rightarrow> fileheader \<Rightarrow> ext list" where
  "myextstru e fh =
     [(titlehas fh, Pair_words [0xB1, 0xEA, 0xCC, 0xE2] Has_word),
      (idis fh, Pair_words [0xD7, 0xF7, 0xD5, 0xDF] Is_word),
      (idhas fh, Pair_words [0xD7, 0xF7, 0xD5, 0xDF] Has_word),
      (counttextlt e fh, Pair_words [0xB9, 0xE0, 0xCB, 0xAE, 0xD7, 0xD6, 0xCA, 0xFD] Below_word),
      (checkmark fh, Pair_words [0xB1, 0xEA, 0xBC, 0xC7] Has_word),
      (checktext e fh, Pair_words [0xC4, 0xDA, 0xC8, 0xDD] Has_word),
      (checkattr e fh, Pair_words [0xCA, 0xF4, 0xD0, 0xD4] Is_word),
      (checkstar fh, Pair_words [0xCD, 0xC6, 0xBC, 0xF6, 0xD0, 0xC7, 0xBC, 0xB6] Above_word),
      (checkevas fh, Pair_words [0xCD, 0xC6, 0xBC, 0xF6, 0xC8, 0xCB, 0xCA, 0xFD] Above_word)]"

section \<open>Acting on the articles chosen\<close>

text \<open>The index of the board and the index of the articles collected for reading.\<close>

record power_dirs =
  dir :: "fileheader list option"
  powerdir :: "fileheader list"

type_synonym power_dofunc = "power_dirs \<Rightarrow> int \<Rightarrow> fileheader \<Rightarrow> power_dirs option"

definition mark_with :: "dir_op \<Rightarrow> dir_io \<Rightarrow> fileheader \<Rightarrow> bool \<Rightarrow> power_dofunc" where
  "mark_with f io junk digestmode d ent fh =
     (if owner fh ! 0 = 45 then Some d
      else map_option (\<lambda>(d', info, r). d\<lparr>dir := d'\<rparr>)
             (change_dir io junk (dir d) fh (dir_callback f) ent digestmode False))"

definition sure_markdel :: "dir_io \<Rightarrow> fileheader \<Rightarrow> bool \<Rightarrow> power_dofunc" where
  "sure_markdel = mark_with DIR_do_suremarkdel"

definition sure_unmarkdel :: "dir_io \<Rightarrow> fileheader \<Rightarrow> bool \<Rightarrow> power_dofunc" where
  "sure_unmarkdel = mark_with DIR_do_sureunmarkdel"

text \<open>The part of a deleted article's title that names who deleted it is hidden.\<close>

definition power_dir :: power_dofunc where
  "power_dir d ent fh =
     (let fh' = (if take 2 (drop 33 (title fh)) = [45, 32] then fh\<lparr>title := (title fh)[33 := 0]\<rparr> else fh)
      in Some (d\<lparr>powerdir := powerdir d @ [fh']\<rparr>))"

fun range_loop ::
  "power_dofunc \<Rightarrow> (fileheader \<Rightarrow> ext list) \<Rightarrow> cstr \<Rightarrow> int \<Rightarrow> fileheader list \<Rightarrow> power_dirs \<Rightarrow> int
     \<Rightarrow> (power_dirs \<times> int \<times> int) option" where
  "range_loop f tab sel i [] d shoot = Some (d, shoot, 0)"
| "range_loop f tab sel i (r # rs) d shoot =
     (case checkf (tab r) sel of
        None \<Rightarrow> None
      | Some ret \<Rightarrow>
          if ret > 0
          then (case f d i r of
                  None \<Rightarrow> None
                | Some d' \<Rightarrow> range_loop f tab sel (i + 1) rs d' (shoot + 1))
          else if ret < 0 then Some (d, shoot, - ret)
          else range_loop f tab sel (i + 1) rs d shoot)"

text \<open>
  \<open>power_range\<close>: the directories, the number of articles chosen and the result.  The buffer is a
  snapshot of the records \<open>id1\<close> to \<open>id2\<close>; a negative size is taken by \<open>malloc\<close> as a huge one.
\<close>

definition power_range ::
  "power_dofunc \<Rightarrow> (fileheader \<Rightarrow> ext list) \<Rightarrow> cstr \<Rightarrow> nat \<Rightarrow> int \<Rightarrow> power_dirs
     \<Rightarrow> (power_dirs \<times> int \<times> int) option" where
  "power_range f tab sel id1 id2 d =
     (case dir d of
        None \<Rightarrow> Some (d, 0, - 1)
      | Some fs \<Rightarrow>
          let id2' = (if id2 = - 1 then int (length fs) else id2);
              n = id2' + 1 - int id1
          in if n < 0 then Some (d, 0, - 4)
             else range_loop f tab sel (int id1) (take (nat n) (drop (id1 - 1) fs)) d 0)"

text \<open>The part of \<open>power_action\<close> in front of the screen output: the function for an answer.\<close>

definition power_function :: "int \<Rightarrow> dir_io \<Rightarrow> fileheader \<Rightarrow> power_dofunc option" where
  "power_function action io junk =
     (if action = 1 then Some (sure_markdel io junk False)
      else if action = 2 then Some (sure_unmarkdel io junk False)
      else if action = 9 then Some power_dir
      else None)"

definition power_action ::
  "int \<Rightarrow> dir_io \<Rightarrow> fileheader \<Rightarrow> power_env \<Rightarrow> cstr \<Rightarrow> nat \<Rightarrow> int \<Rightarrow> power_dirs
     \<Rightarrow> (power_dirs \<times> int \<times> int) option" where
  "power_action action io junk e sel id1 id2 d =
     (case power_function action io junk of
        None \<Rightarrow> Some (d, 0, 0)
      | Some f \<Rightarrow>
          power_range f (myextstru e) sel id1 id2 (if action = 9 then d\<lparr>powerdir := []\<rparr> else d))"

section \<open>What is done to the board\<close>

definition selected :: "power_env \<Rightarrow> query list list \<Rightarrow> fileheader \<Rightarrow> bool" where
  "selected e css r \<longleftrightarrow> meaning (myextstru e r) (Paren css)"

text \<open>The condition as it is typed, its words in the table whatever the record.\<close>

definition typed :: "query list list \<Rightarrow> cstr" where
  "typed css = shown_list (List.map (List.map shown) css)"

definition typed_ok :: "query list list \<Rightarrow> bool" where
  "typed_ok css \<longleftrightarrow> (\<forall>e r. query_ok (myextstru e r) (Paren css))"

definition search_bool :: "power_env \<Rightarrow> bool" where
  "search_bool e \<longleftrightarrow> (\<forall>m w. found_in e m w = 0 \<or> found_in e m w = 1)"

lemma test_values:
  "titlehas r x = 0 \<or> titlehas r x = 1" "idis r x = 0 \<or> idis r x = 1" "idhas r x = 0 \<or> idhas r x = 1"
  "counttextlt e r x = 0 \<or> counttextlt e r x = 1" "checkmark r x = 0 \<or> checkmark r x = 1"
  "checkattr e r x = 0 \<or> checkattr e r x = 1" "checkstar r x = 0 \<or> checkstar r x = 1"
  "checkevas r x = 0 \<or> checkevas r x = 1"
  by (simp_all add: titlehas_def idis_def idhas_def counttextlt_def Let_def checkmark_def checkattr_def checkstar_def
      checkevas_def)

lemma tests_bool: "search_bool e \<Longrightarrow> ext_bool (myextstru e r)"
proof -
  assume "search_bool e"
  then have "checktext e r x = 0 \<or> checktext e r x = 1" for x unfolding checktext_def search_bool_def by blast
  then show ?thesis
    using test_values unfolding ext_bool_def myextstru_def Pair_words_def by (simp only: list.set ball_simps split_conv) blast
qed

lemma checkf_typed:
  "search_bool e \<Longrightarrow> typed_ok css \<Longrightarrow> checkf (myextstru e r) (typed css) = Some (if selected e css r then 1 else 0)"
  unfolding typed_def selected_def typed_ok_def using checkf_shown [OF tests_bool] by blast

text \<open>The words of the table do not depend on the record, so one record decides.\<close>

lemma names_same:
  "list_ex (\<lambda>(f, w1, w2). n = w1 \<or> n = w2) (myextstru e r) = list_ex (\<lambda>(f, w1, w2). n = w1 \<or> n = w2) (myextstru e' r')"
  by (simp add: myextstru_def)

lemma query_ok_same: "query_ok (myextstru e r) q = query_ok (myextstru e' r') q"
proof (induction q)
  case (Atom n a)
  show ?case using names_same [of n e r e' r'] by simp
next
  case (Paren css)
  then show ?case by (auto simp: list_all_iff)
qed simp

lemma typed_okI: "query_ok (myextstru e r) (Paren css) \<Longrightarrow> typed_ok css"
  unfolding typed_ok_def using query_ok_same by blast

definition dir_ok :: "dir_io \<Rightarrow> fileheader list \<Rightarrow> bool" where
  "dir_ok io fs \<longleftrightarrow> flock_ok io \<and> lseek_ok io \<and> dwrite_ok io \<and> distinct_dir fs \<and> (\<forall>r \<in> set fs. filetime r \<noteq> 0)"

lemma change_one:
  assumes "dir_ok io fs" "i < length fs"
  shows "change_dir io junk (Some fs) (fs ! i) (dir_callback f) (int i + 1) False False
    = Some (Some (fs[i := f (fs ! i) junk]), f (fs ! i) junk, 0)"
proof -
  have "get_records (Some fs) (filetime (fs ! i)) (int i) True 0 1 None = Some (Some [(fs ! i, int i)])"
    using assms by (intro get_one_record) (auto simp: dir_ok_def)
  then show ?thesis using assms(1) by (simp add: change_dir_def dir_callback_def dir_ok_def)
qed

definition marked :: "dir_op \<Rightarrow> fileheader \<Rightarrow> fileheader \<Rightarrow> fileheader" where
  "marked f junk r = (if owner r ! 0 = 45 then r else f r junk)"

lemma dir_ok_update:
  assumes "dir_ok io fs" "i < length fs" "filetime x = filetime (fs ! i)"
  shows "dir_ok io (fs[i := x])"
proof -
  have "map filetime (fs[i := x]) = map filetime fs" using assms(2,3) by (simp add: map_update list_update_same_conv)
  moreover from this have "set (map filetime (fs[i := x])) = set (map filetime fs)" by simp
  ultimately show ?thesis using assms(1) unfolding dir_ok_def distinct_dir_def set_map
    by (metis image_iff)
qed

lemma range_loop_marks:
  assumes f: "\<And>r. filetime (f r junk) = filetime r"
    and t: "\<And>r. checkf (tab r) sel = Some (if P r then 1 else 0)"
  shows "dir d = Some fs \<Longrightarrow> dir_ok io fs \<Longrightarrow> drop k fs = rs @ rest \<Longrightarrow>
    range_loop (mark_with f io junk False) tab sel (int k + 1) rs d shoot =
      Some (d\<lparr>dir := Some (take k fs @ map (\<lambda>r. if P r then marked f junk r else r) rs @ rest)\<rparr>,
            shoot + int (length (filter P rs)), 0)"
proof (induction rs arbitrary: d fs k shoot)
  case Nil
  then have "fs = take k fs @ rest" by (metis append_Nil append_take_drop_id)
  then show ?case using Nil by simp
next
  case (Cons r rs)
  have k: "k < length fs" "fs ! k = r" "drop (Suc k) fs = rs @ rest"
  proof -
    show "k < length fs" using Cons.prems(3) by (metis append_Cons drop_all leI list.discI)
    then show "fs ! k = r" using Cons.prems(3) by (metis append_Cons hd_drop_conv_nth list.sel(1))
    show "drop (Suc k) fs = rs @ rest" using Cons.prems(3) by (metis append_Cons drop_Suc list.sel(3) tl_drop)
  qed
  have i: "int k + 1 + 1 = int (Suc k) + 1" by simp
  define r' where "r' = (if P r then marked f junk r else r)"
  define d' where "d' = d\<lparr>dir := Some (fs[k := r'])\<rparr>"
  have "filetime r' = filetime r" using f by (simp add: r'_def marked_def)
  then have ok: "dir_ok io (fs[k := r'])" using dir_ok_update [OF Cons.prems(2) k(1)] k(2) by simp
  have same: "fs[k := r] = fs" "d\<lparr>dir := Some fs\<rparr> = d"
    using k(2) list_update_id [of fs k] Cons.prems(1) by simp_all
  have "range_loop (mark_with f io junk False) tab sel (int k + 1) (r # rs) d shoot =
      range_loop (mark_with f io junk False) tab sel (int (Suc k) + 1) rs d' (shoot + (if P r then 1 else 0))"
  proof (cases "P r")
    case True
    have "mark_with f io junk False d (int k + 1) r = Some d'"
      using True change_one [OF Cons.prems(2) k(1), of junk f] k(2) Cons.prems(1) same
      by (simp add: mark_with_def d'_def r'_def marked_def)
    then show ?thesis using True t by (simp add: i)
  next
    case False
    then show ?thesis using t same by (simp add: i d'_def r'_def)
  qed
  also have "\<dots> = Some (d'\<lparr>dir := Some (take (Suc k) (fs[k := r']) @
        map (\<lambda>r. if P r then marked f junk r else r) rs @ rest)\<rparr>,
      shoot + (if P r then 1 else 0) + int (length (filter P rs)), 0)"
    using k(3) by (intro Cons.IH [OF _ ok]) (simp_all add: d'_def)
  also have "take (Suc k) (fs[k := r']) = take k fs @ [r']" using k(1) by (simp add: take_Suc_conv_app_nth)
  finally show ?case by (simp add: d'_def r'_def)
qed

definition hidden :: "fileheader \<Rightarrow> fileheader" where
  "hidden r = (if take 2 (drop 33 (title r)) = [45, 32] then r\<lparr>title := (title r)[33 := 0]\<rparr> else r)"

lemma range_loop_collects:
  assumes "\<And>r. checkf (tab r) sel = Some (if P r then 1 else 0)"
  shows "range_loop power_dir tab sel i rs d shoot =
    Some (d\<lparr>powerdir := powerdir d @ map hidden (filter P rs)\<rparr>, shoot + int (length (filter P rs)), 0)"
  using assms by (induction rs arbitrary: i d shoot) (simp_all add: power_dir_def hidden_def Let_def)

definition in_range :: "nat \<Rightarrow> int \<Rightarrow> nat \<Rightarrow> bool" where
  "in_range id1 id2 i \<longleftrightarrow> id1 \<le> i + 1 \<and> int i + 1 \<le> id2"

lemma nth_range:
  assumes "i < length fs" "1 \<le> id1" "int id1 \<le> id2 + 1"
  shows "(take (id1 - 1) fs @ map g (take (nat (id2 + 1 - int id1)) (drop (id1 - 1) fs)) @
      drop (nat (id2 + 1 - int id1)) (drop (id1 - 1) fs)) ! i = (if in_range id1 id2 i then g (fs ! i) else fs ! i)"
proof -
  define k m where "k = id1 - 1" and "m = nat (id2 + 1 - int id1)"
  have r: "in_range id1 id2 i \<longleftrightarrow> k \<le> i \<and> i < k + m" using assms by (auto simp: in_range_def k_def m_def)
  have "(take k fs @ map g (take m (drop k fs)) @ drop m (drop k fs)) ! i = (if k \<le> i \<and> i < k + m then g (fs ! i) else fs ! i)"
  proof (cases "i < k")
    case False
    then have i: "i = k + (i - k)" "length (take k fs) = k" using assms(1) by auto
    show ?thesis
      using assms(1) False i(2) by (auto simp: nth_append min_def)
  qed (use assms(1) in \<open>auto simp: nth_append\<close>)
  then show ?thesis using r by (simp add: k_def m_def)
qed

text \<open>
  C21: for a condition typed as in the examples of the menu, over a sorted index, the actions do
  what they say.  Marking for deletion changes exactly the records of the range that satisfy the
  condition and do not belong to the system (owner \<open>-\<close>); unmarking does the opposite to the same records;
  reading collects exactly the records chosen, in order, with the name of a deleter hidden.  The count
  is the number of records chosen.
\<close>

theorem power_action_exact:
  assumes "search_bool e" "typed_ok css" "dir d = Some fs" "dir_ok io fs" "1 \<le> id1" "int id1 \<le> id2 + 1"
  shows "let n = int (length (filter (selected e css) (take (nat (id2 + 1 - int id1)) (drop (id1 - 1) fs)))) in
    (\<exists>ds. power_action 1 io junk e (typed css) id1 id2 d = Some (d\<lparr>dir := Some ds\<rparr>, n, 0) \<and> length ds = length fs \<and>
       (\<forall>i < length fs. ds ! i = (if in_range id1 id2 i \<and> selected e css (fs ! i) \<and> owner (fs ! i) ! 0 \<noteq> 45
          then (fs ! i)\<lparr>accessed := accessed (fs ! i) OR FH_DEL\<rparr> else fs ! i)))
    \<and> (\<exists>ds. power_action 2 io junk e (typed css) id1 id2 d = Some (d\<lparr>dir := Some ds\<rparr>, n, 0) \<and> length ds = length fs \<and>
       (\<forall>i < length fs. ds ! i = (if in_range id1 id2 i \<and> selected e css (fs ! i) \<and> owner (fs ! i) ! 0 \<noteq> 45
          then (fs ! i)\<lparr>accessed := accessed (fs ! i) AND NOT FH_DEL\<rparr> else fs ! i)))
    \<and> power_action 9 io junk e (typed css) id1 id2 d =
        Some (d\<lparr>powerdir := map hidden (filter (selected e css)
                 (take (nat (id2 + 1 - int id1)) (drop (id1 - 1) fs)))\<rparr>, n, 0)"
proof -
  define m where "m = nat (id2 + 1 - int id1)"
  define rs where "rs = take m (drop (id1 - 1) fs)"
  define rest where "rest = drop m (drop (id1 - 1) fs)"
  have split: "drop (id1 - 1) fs = rs @ rest" unfolding rs_def rest_def by (rule append_take_drop_id [symmetric])
  have i: "int id1 = int (id1 - 1) + 1" using assms(5) by simp
  have range: "power_range f (myextstru e) (typed css) id1 id2 d' =
      range_loop f (myextstru e) (typed css) (int id1) rs d' 0" if "dir d' = Some fs" for f d'
    using that assms(5,6) by (simp add: power_range_def Let_def rs_def m_def)
  define out where "out f = take (id1 - 1) fs @ map (\<lambda>r. if selected e css r then marked f junk r else r) rs @ rest" for f
  have mark: "range_loop (mark_with f io junk False) (myextstru e) (typed css) (int id1) rs d 0 =
      Some (d\<lparr>dir := Some (out f)\<rparr>, int (length (filter (selected e css) rs)), 0)"
    if "\<And>r. filetime (f r junk) = filetime r" for f
    using range_loop_marks [where tab = "myextstru e" and f = f and junk = junk and P = "selected e css" and
        k = "id1 - 1" and shoot = 0, OF that checkf_typed [OF assms(1,2)] assms(3,4) split]
    by (simp only: i out_def) simp
  have nth: "out f ! i = (if in_range id1 id2 i then (if selected e css (fs ! i) then marked f junk (fs ! i) else fs ! i)
      else fs ! i)" if "i < length fs" for f i
    unfolding out_def rs_def rest_def m_def by (rule nth_range [OF that assms(5,6)])
  have len: "length (out f) = length fs" for f
    using arg_cong [OF split, of length] by (auto simp: out_def)
  have "range_loop power_dir (myextstru e) (typed css) (int id1) rs (d\<lparr>powerdir := []\<rparr>) 0 =
      Some (d\<lparr>powerdir := map hidden (filter (selected e css) rs)\<rparr>, int (length (filter (selected e css) rs)), 0)"
    using range_loop_collects [where tab = "myextstru e" and P = "selected e css", OF checkf_typed [OF assms(1,2)]] by simp
  then show ?thesis
    unfolding Let_def m_def [symmetric] rs_def [symmetric]
    using mark [of DIR_do_suremarkdel] mark [of DIR_do_sureunmarkdel] nth len range assms(3)
    by (auto simp: power_action_def power_function_def sure_markdel_def sure_unmarkdel_def marked_def
        DIR_do_suremarkdel_def DIR_do_sureunmarkdel_def)
qed

definition sample_env :: power_env where
  "sample_env = \<lparr>currboard = lit ''test'', files = (\<lambda>f. None),
     brc = \<lparr>num = 0, cur = 0, changed = False, board = [], blist = replicate BRC_MAXNUM 0, notetime = 0\<rparr>,
     found_in = (\<lambda>m w. 0)\<rparr>"

definition sample_query :: "query list list" where
  "sample_query = [[Neg (Atom (fst (Pair_words [0xD7, 0xF7, 0xD5, 0xDF] Is_word)) [65])]]"

lemma sample_query_ok: "typed_ok sample_query"
  by (rule typed_okI [of sample_env zero_fileheader])
    (simp add: sample_query_def myextstru_def Pair_words_def Is_word_def plain_word_def tok_char_def is_sep_def
      LeftBracket_def RightBracket_def Not_word_def Has_word_def)

lemma power_action_exact_witness:
  "\<exists>ds. power_action 1 \<lparr>flock_ok = True, lseek_ok = True, dwrite_ok = True\<rparr> zero_fileheader sample_env
       (typed sample_query) 2 3 \<lparr>dir = Some sample_dir, powerdir = []\<rparr>
     = Some (\<lparr>dir = Some ds, powerdir = []\<rparr>, 2, 0) \<and> ds ! 0 = sample_dir ! 0
       \<and> ds ! 2 = (sample_dir ! 2)\<lparr>accessed := accessed (sample_dir ! 2) OR FH_DEL\<rparr>"
proof -
  let ?io = "\<lparr>flock_ok = True, lseek_ok = True, dwrite_ok = True\<rparr>"
  have e: "search_bool sample_env" by (simp add: search_bool_def sample_env_def)
  have ok: "dir_ok ?io sample_dir"
    using sample_dir_distinct by (simp add: dir_ok_def) (simp add: sample_dir_def)
  have own: "owner r = replicate 14 0" if "r \<in> set sample_dir" for r
    using that by (auto simp: sample_dir_def zero_fileheader_def)
  have sel: "selected sample_env sample_query r" if "r \<in> set sample_dir" for r
    using own [OF that]
    by (simp add: selected_def sample_query_def myextstru_def Pair_words_def Is_word_def Has_word_def idis_def
        strcaseeq_def zstr_def tolower_def isupper_def)
  have len: "length sample_dir = 3" by (simp add: sample_dir_def)
  have "filter (selected sample_env sample_query) (take 2 (drop 1 sample_dir)) = take 2 (drop 1 sample_dir)"
    using sel by (intro filter_True) (meson in_set_dropD in_set_takeD)
  then have n: "int (length (filter (selected sample_env sample_query)
      (take (nat (3 + 1 - int 2)) (drop (2 - 1) sample_dir)))) = 2"
    using len by simp
  have i: "sample_dir ! 0 \<in> set sample_dir" "sample_dir ! 2 \<in> set sample_dir" using len by simp_all
  obtain ds where "power_action 1 ?io zero_fileheader sample_env (typed sample_query) 2 3
      \<lparr>dir = Some sample_dir, powerdir = []\<rparr> = Some (\<lparr>dir = Some sample_dir, powerdir = []\<rparr>\<lparr>dir := Some ds\<rparr>, 2, 0)"
    "\<forall>i < length sample_dir. ds ! i = (if in_range 2 3 i \<and> selected sample_env sample_query (sample_dir ! i)
        \<and> owner (sample_dir ! i) ! 0 \<noteq> 45
      then (sample_dir ! i)\<lparr>accessed := accessed (sample_dir ! i) OR FH_DEL\<rparr> else sample_dir ! i)"
    using power_action_exact [OF e sample_query_ok _ ok, of "\<lparr>dir = Some sample_dir, powerdir = []\<rparr>" 2 3 zero_fileheader] n
    by (auto simp: Let_def)
  then show ?thesis
    using own [OF i(2)] sel [OF i(2)] len by (intro exI [of _ ds]) (simp add: in_range_def)
qed

section \<open>Searching long files\<close>

text \<open>A file below the limit is searched at once; then \<open>searchpattern\<close> always answers 0 or 1.\<close>

lemma searchpattern_short:
  assumes "length m < SKIP_ATTACH_LIMIT"
  shows "searchpattern fuel (Some m) query = Some 0 \<or> searchpattern fuel (Some m) query = Some 1"
  using strncasestr_ok [of m query] assms by (auto simp: searchpattern_def)

text \<open>
  A binary attachment whose length field reads \<open>- 24\<close> as a \<open>long\<close> sends \<open>searchpattern\<close> back to the
  start of the line that announces it: no number of rounds is enough, whatever follows in the file.
\<close>

definition looping_file :: "byte list \<Rightarrow> byte list" where
  "looping_file pad = lit ''beginbinaryattach '' @ 10 # [0, 255, 255, 255, 232] @ pad"

lemma big_search_loops: "big_search fuel (looping_file pad) [97, 98] 0 = None"
proof (induction fuel)
  case (Suc fuel)
  have "fgets 256 (drop 0 (looping_file pad)) = Some (lit ''beginbinaryattach '' @ [10], [0, 255, 255, 255, 232] @ pad)"
    unfolding looping_file_def drop_0 by (rule fgets_line) simp_all
  moreover have "zstr (lit ''beginbinaryattach '' @ [10]) = lit ''beginbinaryattach '' @ [10]" by (rule zstr_id) simp
  moreover have "be32 [255, 255, 255, 232] = - 24" by (simp add: be32_def to_int32_def to_signed_def)
  moreover have "length (looping_file pad) = 24 + length pad" by (simp add: looping_file_def)
  ultimately show ?case using Suc by simp
qed simp

lemma searchpattern_loops:
  "65536 \<le> length pad \<Longrightarrow> searchpattern fuel (Some (looping_file pad)) [97, 98] = None"
  using big_search_loops [of fuel pad] by (simp add: searchpattern_def SKIP_ATTACH_LIMIT_def looping_file_def)

end
