(* ===== verification/Base64.thy ===== *)
theory Base64
  imports CLib
begin

text \<open>
  The streaming encoder of \<open>src/ythtlib/base64.c\<close>, which the mail gateway feeds a file in pieces.  The
  bytes left over from a piece (\<open>tailbuf\<close>, \<open>taillen\<close>) and the length of the current line (\<open>outlen\<close>) are
  kept between the calls; the text written is a list of bytes.
\<close>

section \<open>The encoder\<close>

definition Base64_chars :: "byte list" where
  "Base64_chars = lit ''ABCDEFGHIJKLMNOPQRSTUVWXYZabcdefghijklmnopqrstuvwxyz0123456789+/''"

definition b64 :: "byte \<Rightarrow> byte" where
  "b64 k = Base64_chars ! unat k"

definition Pad64 :: byte where "Pad64 = 61"

record b64_state =
  tailbuf :: "byte list"
  outlen :: nat

definition out0 :: "byte \<Rightarrow> byte" where "out0 a = b64 (drop_bit 2 a)"
definition out1 :: "byte \<Rightarrow> byte \<Rightarrow> byte" where "out1 a b = b64 (push_bit 4 (a AND 3) + drop_bit 4 b)"
definition out2 :: "byte \<Rightarrow> byte \<Rightarrow> byte" where "out2 b c = b64 (push_bit 2 (b AND 15) + drop_bit 6 c)"
definition out3 :: "byte \<Rightarrow> byte" where "out3 c = b64 (c AND 63)"

text \<open>Four characters, and a new line when 60 are full.\<close>

definition put4 :: "byte \<Rightarrow> byte \<Rightarrow> byte \<Rightarrow> nat \<Rightarrow> byte list \<times> nat" where
  "put4 a b c ol =
     (let t = [out0 a, out1 a b, out2 b c, out3 c]
      in if ol + 4 \<ge> 60 then (t @ [13, 10], 0) else (t, ol + 4))"

fun b64_loop :: "byte list \<Rightarrow> nat \<Rightarrow> byte list \<times> b64_state" where
  "b64_loop (a # b # c # src) ol =
     (let (t, ol') = put4 a b c ol; (t', st) = b64_loop src ol' in (t @ t', st))"
| "b64_loop src ol = ([], \<lparr>tailbuf = src, outlen = ol\<rparr>)"

definition f_b64_ntop_init :: b64_state where
  "f_b64_ntop_init = \<lparr>tailbuf = [], outlen = 0\<rparr>"

definition f_b64_ntop :: "b64_state \<Rightarrow> byte list \<Rightarrow> byte list \<times> b64_state" where
  "f_b64_ntop st data =
     (let k = length (tailbuf st) in
      if k > 0
      then if length data + k < 3 then ([], st\<lparr>tailbuf := tailbuf st @ data\<rparr>)
           else let input = tailbuf st @ take (3 - k) data;
                    (t, ol') = put4 (input ! 0) (input ! 1) (input ! 2) (outlen st);
                    (t', st') = b64_loop (drop (3 - k) data) ol'
                in (t @ t', st')
      else b64_loop data (outlen st))"

definition f_b64_ntop_fini :: "b64_state \<Rightarrow> byte list \<times> b64_state" where
  "f_b64_ntop_fini st =
     (let k = length (tailbuf st);
          input = tailbuf st @ replicate (3 - k) 0;
          t = (if k \<noteq> 0
               then [out0 (input ! 0), out1 (input ! 0) (input ! 1),
                     if k = 1 then Pad64 else out2 (input ! 1) (input ! 2), Pad64]
               else [])
      in (t, st\<lparr>tailbuf := []\<rparr>))"

text \<open>A file fed in pieces.\<close>

fun b64_pieces :: "b64_state \<Rightarrow> byte list list \<Rightarrow> byte list" where
  "b64_pieces st [] = fst (f_b64_ntop_fini st)"
| "b64_pieces st (d # ds) = (let (t, st') = f_b64_ntop st d in t @ b64_pieces st' ds)"

section \<open>The pieces do not matter\<close>

lemma b64_loop_tail: "b64_loop src ol = (t, st) \<Longrightarrow> length (tailbuf st) < 3"
  by (induction src ol arbitrary: t rule: b64_loop.induct) (auto simp: Let_def split: prod.splits)

lemma b64_loop_append:
  "b64_loop (x @ y) ol = (let (t, st) = b64_loop x ol; (t', st') = b64_loop (tailbuf st @ y) (outlen st) in (t @ t', st'))"
  by (induction x ol rule: b64_loop.induct) (auto simp: Let_def split: prod.splits)

lemma f_b64_ntop_loop:
  assumes "length (tailbuf st) < 3"
  shows "f_b64_ntop st data = b64_loop (tailbuf st @ data) (outlen st)"
proof -
  consider "tailbuf st = []" | a where "tailbuf st = [a]" | a b where "tailbuf st = [a, b]"
    using assms by (cases "tailbuf st"; cases "tl (tailbuf st)"; cases "tl (tl (tailbuf st))") auto
  then show ?thesis
  proof cases
    case 1
    then show ?thesis by (simp add: f_b64_ntop_def)
  next
    case 2
    then show ?thesis
      by (cases data; cases "tl data") (auto simp: f_b64_ntop_def Let_def)
  next
    case 3
    then show ?thesis
      by (cases data) (auto simp: f_b64_ntop_def Let_def)
  qed
qed

lemma b64_pieces_loop:
  "length (tailbuf st) < 3 \<Longrightarrow>
   b64_pieces st ds = (let (t, st') = b64_loop (tailbuf st @ concat ds) (outlen st) in t @ fst (f_b64_ntop_fini st'))"
proof (induction ds arbitrary: st)
  case Nil
  have "b64_loop (tailbuf st) (outlen st) = ([], st)"
    using Nil by (cases "tailbuf st"; cases "tl (tailbuf st)"; cases "tl (tl (tailbuf st))") auto
  then show ?case by simp
next
  case (Cons d ds)
  obtain t st1 where l: "b64_loop (tailbuf st @ d) (outlen st) = (t, st1)" by fastforce
  have "b64_loop (tailbuf st @ concat (d # ds)) (outlen st) =
      (let (t', st') = b64_loop (tailbuf st1 @ concat ds) (outlen st1) in (t @ t', st'))"
    using b64_loop_append [of "tailbuf st @ d" "concat ds" "outlen st"] l by simp
  then show ?case
    using Cons.IH [OF b64_loop_tail [OF l]] f_b64_ntop_loop [OF Cons.prems] l
    by (simp add: case_prod_beta Let_def)
qed

text \<open>
  However a file is cut into pieces, the text written is that of the file fed at once: the same
  characters, line ends and padding.
\<close>

lemma b64_pieces_eq:
  "concat ds = concat ds' \<Longrightarrow> b64_pieces f_b64_ntop_init ds = b64_pieces f_b64_ntop_init ds'"
  using b64_pieces_loop [of f_b64_ntop_init] by (simp add: f_b64_ntop_init_def)

lemma b64_sample:
  "b64_pieces f_b64_ntop_init [lit ''Ma'', lit ''n''] = lit ''TWFu''"
  "b64_pieces f_b64_ntop_init [lit ''M'', lit ''a''] = lit ''TWE=''"
  by code_simp+

end
