(* ===== verification/Boards.thy ===== *)
theory Boards
  imports Article UserHash StrOp
begin

text \<open>
  Boards: \<open>src/libythtbbs/board.c\<close> and \<open>board.h\<close>.  The board managers of a board header, the bits that show
  which of them are online, the newest post of a board, and the articles pinned to its top, which live
  in the file \<open>.BOARDAUX\<close> of one record per board.
\<close>

section \<open>Board managers\<close>

definition BMNUM :: nat where "BMNUM = 16"

text \<open>The header, with \<open>bm\<close> as the ids up to the NUL.\<close>

record boardheader =
  bh_filename :: "byte list"
  bh_title :: "byte list"
  bm :: "cstr list"
  hiretime :: "int list"
  clubnum :: int
  level :: "32 word"
  flag :: byte
  sec1 :: cstr
  board_ctime :: int

text \<open>The names up to the first free place; \<open>sbm2str\<close> puts a blank in front of its first name too.\<close>

fun join_bm :: "cstr list \<Rightarrow> bool \<Rightarrow> cstr" where
  "join_bm [] first = []"
| "join_bm (b # bs) first = (if b = [] then [] else (if first then b else 32 # b) @ join_bm bs False)"

definition bm2str :: "boardheader \<Rightarrow> cstr" where
  "bm2str bh = join_bm (take 4 (bm bh)) True"

definition sbm2str :: "boardheader \<Rightarrow> cstr" where
  "sbm2str bh = join_bm (take (BMNUM - 4) (drop 4 (bm bh))) False"

text \<open>One loop of \<open>chk_BM\<close>, over the places from \<open>i\<close> to \<open>n\<close>.\<close>

fun bm_scan :: "userec \<Rightarrow> boardheader \<Rightarrow> nat \<Rightarrow> nat \<Rightarrow> nat option" where
  "bm_scan user bh i 0 = None"
| "bm_scan user bh i (Suc n) =
     (if bm bh ! i = [] then None
      else if bm bh ! i = userid user \<and> hiretime bh ! i \<ge> firstlogin user then Some (i + 1)
      else bm_scan user bh (i + 1) n)"

definition chk_BM :: "userec \<Rightarrow> boardheader \<Rightarrow> bool \<Rightarrow> nat" where
  "chk_BM user bh isbig =
     (case bm_scan user bh 0 4 of
        Some p \<Rightarrow> p
      | None \<Rightarrow>
          if isbig then 0
          else case bm_scan user bh 4 (BMNUM - 4) of Some p \<Rightarrow> p | None \<Rightarrow> 0)"

text \<open>\<open>chk_BM_id\<close>: a free place among the first four sends the loop on to place 4.\<close>

function id_scan :: "cstr \<Rightarrow> boardheader \<Rightarrow> nat \<Rightarrow> nat" where
  "id_scan user bh i =
     (if i \<ge> BMNUM then 0
      else if bm bh ! i = [] then (if i < 4 then id_scan user bh 4 else 0)
      else if bm bh ! i = user then i + 1
      else id_scan user bh (i + 1))"
  by pat_completeness auto
termination by (relation "measure (\<lambda>(u, b, i). BMNUM - i)") (auto simp: BMNUM_def)

declare id_scan.simps [simp del]

definition chk_BM_id :: "cstr \<Rightarrow> boardheader \<Rightarrow> nat" where
  "chk_BM_id user bh = id_scan user bh 0"

text \<open>\<open>struct boardmanager\<close> and the list of the boards of a user.\<close>

record boardmanager =
  bmg_board :: "byte list"
  bmpos :: int
  bmg_bid :: int

definition fillmboard :: "userec \<Rightarrow> boardheader \<Rightarrow> int \<Rightarrow> boardmanager list" where
  "fillmboard user bh bid =
     (let i = chk_BM user bh False
      in if i \<noteq> 0 then [\<lparr>bmg_board = pad0 24 (take 24 (zstr (bh_filename bh))), bmpos = int i - 1, bmg_bid = bid\<rparr>] else [])"

fun fill_all :: "userec \<Rightarrow> boardheader list \<Rightarrow> int \<Rightarrow> boardmanager list" where
  "fill_all user [] bid = []"
| "fill_all user (bh # bhs) bid = fillmboard user bh bid @ fill_all user bhs (to_signed 16 ((bid + 1) mod 65536))"

text \<open>The list file of the user, which is left alone while it is newer than \<open>.BOARDS\<close>.\<close>

definition bmfilesync ::
  "int \<Rightarrow> int \<Rightarrow> bool \<Rightarrow> userec \<Rightarrow> boardheader list \<Rightarrow> boardmanager list option \<Rightarrow> boardmanager list option \<times> int" where
  "bmfilesync path_time boards_time can_open user boards old =
     (if path_time > boards_time then (old, 0)
      else if \<not> can_open then (old, - 1)
      else (Some (fill_all user boards 0), 0))"

section \<open>Managers online\<close>

record boardmem =
  header :: boardheader
  lastpost :: int
  total_posts :: int
  inboard :: int
  bmonline :: "16 word"
  bmcloak :: "16 word"
  score :: int

definition setbmhat :: "boardmem \<Rightarrow> cstr \<Rightarrow> bool \<Rightarrow> bool \<Rightarrow> boardmem \<times> int" where
  "setbmhat bmem user online invisible =
     (let p = chk_BM_id user (header bmem)
      in if p = 0 then (bmem, - 1)
         else let b = push_bit (p - 1) 1
              in (if online
                  then bmem\<lparr>bmonline := bmonline bmem OR b,
                            bmcloak := (if invisible then bmcloak bmem OR b else bmcloak bmem AND NOT b)\<rparr>
                  else bmem\<lparr>bmonline := bmonline bmem AND NOT b, bmcloak := bmcloak bmem AND NOT b\<rparr>, 0))"

text \<open>\<open>None\<close> is the table that is not attached.\<close>

definition dosetbmstatus :: "boardmem list option \<Rightarrow> cstr \<Rightarrow> bool \<Rightarrow> bool \<Rightarrow> boardmem list option \<times> int" where
  "dosetbmstatus bcache user online invisible =
     (case bcache of
        None \<Rightarrow> (None, - 1)
      | Some bs \<Rightarrow> (Some (map (\<lambda>b. fst (setbmhat b user online invisible)) bs), 0))"

section \<open>The newest post\<close>

text \<open>The index of the board; the result is \<open>*lastpost\<close> and \<open>*total\<close>.\<close>

definition getlastpost :: "fileheader list option \<Rightarrow> int \<times> int" where
  "getlastpost dir =
     (case dir of
        None \<Rightarrow> (0, 0)
      | Some fs \<Rightarrow>
          if fs = [] then (0, 0)
          else let fh = fs ! (length fs - 1)
               in (if edittime fh = 0 then filetime fh else edittime fh, int (length fs)))"

section \<open>Articles on top\<close>

definition MAXTOPFILE :: nat where "MAXTOPFILE = 5"
definition FH_ISTOP :: "32 word" where "FH_ISTOP = 0x10000"

text \<open>\<open>struct boardaux\<close>: the articles on top, the introduction, and the other bytes of the record.\<close>

record boardaux =
  ntopfile :: int
  topfile :: "fileheader list"
  intro :: "byte list"
  aux_rest :: "byte list"

definition zero_aux :: boardaux where
  "zero_aux = \<lparr>ntopfile = 0, topfile = replicate MAXTOPFILE zero_fileheader, intro = replicate 200 0,
     aux_rest = replicate 3252 0\<rparr>"

text \<open>
  The file is the list of its records.  Reading and writing the record of a board: behind the end of the
  file zeros are read and the gap is filled with zeros.  A negative board makes \<open>lseek\<close> fail, so the
  first record is read and the position is behind it when the record is written.
\<close>

definition read_aux :: "boardaux list \<Rightarrow> int \<Rightarrow> boardaux" where
  "read_aux fs bnum = (if nat bnum < length fs then fs ! nat bnum else zero_aux)"

definition write_aux :: "boardaux list \<Rightarrow> int \<Rightarrow> boardaux \<Rightarrow> boardaux list" where
  "write_aux fs bnum b =
     (let k = (if bnum < 0 then (if fs = [] then 0 else 1) else nat bnum)
      in (fs @ replicate (k + 1 - length fs) zero_aux)[k := b])"

text \<open>\<open>None\<close> as the file stands for an \<open>open\<close> that fails; a stored count below 0 would be an index outside.\<close>

definition addtopfile :: "boardaux list option \<Rightarrow> int \<Rightarrow> fileheader \<Rightarrow> (boardaux list option \<times> fileheader \<times> int) option" where
  "addtopfile file bnum fh =
     (let fh' = fh\<lparr>accessed := accessed fh OR FH_ISTOP\<rparr>
      in case file of
           None \<Rightarrow> Some (None, fh', - 1)
         | Some fs \<Rightarrow>
             let baux = read_aux fs bnum
             in if ntopfile baux \<ge> min 5 (int MAXTOPFILE) then Some (Some fs, fh', - 1)
                else if ntopfile baux < 0 then None
                else Some (Some (write_aux fs bnum
                       (baux\<lparr>topfile := (topfile baux)[nat (ntopfile baux) := fh'], ntopfile := ntopfile baux + 1\<rparr>)),
                       fh', 0))"

fun shift_top :: "fileheader list \<Rightarrow> nat \<Rightarrow> nat \<Rightarrow> fileheader list" where
  "shift_top ts i 0 = ts"
| "shift_top ts i (Suc n) = shift_top (ts[i := ts ! (i + 1)]) (i + 1) n"

definition deltopfile :: "boardaux list option \<Rightarrow> int \<Rightarrow> int \<Rightarrow> (boardaux list option \<times> int) option" where
  "deltopfile file bnum n =
     (if bnum < 0 \<or> n < 0 then Some (file, - 1)
      else case file of
             None \<Rightarrow> Some (None, - 1)
           | Some fs \<Rightarrow>
               let baux = read_aux fs bnum
               in if ntopfile baux \<le> n then Some (Some fs, - 1)
                  else if ntopfile baux > int MAXTOPFILE then None
                  else Some (Some (write_aux fs bnum
                         (baux\<lparr>topfile := shift_top (topfile baux) (nat n) (nat (ntopfile baux - 1 - n)),
                               ntopfile := ntopfile baux - 1\<rparr>)), 0))"

text \<open>\<open>getboardaux\<close> on the mapped file; a board behind its end is an access outside the mapping.\<close>

definition getboardaux :: "nat \<Rightarrow> boardaux list option \<Rightarrow> int \<Rightarrow> boardaux option option" where
  "getboardaux MAXBOARD file bnum =
     (case file of
        None \<Rightarrow> Some None
      | Some fs \<Rightarrow>
          if bnum < 0 \<or> bnum \<ge> int MAXBOARD then Some None
          else if nat bnum < length fs then Some (Some (fs ! nat bnum)) else None)"

text \<open>\<open>updateintro\<close>; the text is the file named, up to 199 bytes of it.\<close>

definition updateintro ::
  "nat \<Rightarrow> boardaux list option \<Rightarrow> int \<Rightarrow> byte list option \<Rightarrow> boardaux list option \<times> int" where
  "updateintro MAXBOARD file bnum source =
     (if bnum < 0 \<or> bnum \<ge> int MAXBOARD then (file, - 1)
      else let buf = (case source of None \<Rightarrow> [] | Some m \<Rightarrow> zstr (take 199 m))
           in case file of
                None \<Rightarrow> (None, - 1)
              | Some fs \<Rightarrow>
                  let baux = read_aux fs bnum;
                      s = strsncpy buf 200
                  in (Some (write_aux fs bnum (baux\<lparr>intro := s @ 0 # drop (length s + 1) (intro baux)\<rparr>)), 0))"

section \<open>Who is a manager\<close>

text \<open>The loop finds the first place, before any free one, that names the user hired after his registration.\<close>

definition hired :: "userec \<Rightarrow> boardheader \<Rightarrow> nat \<Rightarrow> bool" where
  "hired user bh i \<longleftrightarrow> bm bh ! i = userid user \<and> hiretime bh ! i \<ge> firstlogin user"

lemma bm_scan_Some:
  "bm_scan user bh i n = Some p \<Longrightarrow>
   i < p \<and> p \<le> i + n \<and> hired user bh (p - 1) \<and> bm bh ! (p - 1) \<noteq> []
     \<and> (\<forall>j. i \<le> j \<and> j < p - 1 \<longrightarrow> bm bh ! j \<noteq> [] \<and> \<not> hired user bh j)"
proof (induction user bh i n rule: bm_scan.induct)
  case (2 user bh i n)
  show ?case
  proof (cases "bm bh ! i = [] \<or> hired user bh i")
    case False
    then have s: "bm_scan user bh (i + 1) n = Some p" "bm bh ! i \<noteq> []" "\<not> hired user bh i"
      "\<not> (bm bh ! i = userid user \<and> firstlogin user \<le> hiretime bh ! i)"
      using 2(2) by (auto simp: hired_def split: if_splits)
    have ih: "i + 1 < p" "p \<le> i + 1 + n" "hired user bh (p - 1)" "bm bh ! (p - 1) \<noteq> []"
      "\<And>j. i + 1 \<le> j \<Longrightarrow> j < p - 1 \<Longrightarrow> bm bh ! j \<noteq> [] \<and> \<not> hired user bh j"
      using 2(1) [OF s(2,4,1)] by auto
    have "bm bh ! j \<noteq> [] \<and> \<not> hired user bh j" if "i \<le> j" "j < p - 1" for j
      using that ih(5) s(2,3) by (cases "j = i") auto
    then show ?thesis using ih(1-4) by auto
  qed (use 2(2) in \<open>auto simp: hired_def split: if_splits\<close>)
qed simp

lemma chk_BM_place:
  "chk_BM user bh isbig = p \<Longrightarrow> p \<noteq> 0 \<Longrightarrow>
   p \<le> BMNUM \<and> hired user bh (p - 1) \<and> bm bh ! (p - 1) \<noteq> [] \<and> (isbig \<longrightarrow> p \<le> 4)"
  using bm_scan_Some [of user bh 0 4] bm_scan_Some [of user bh 4 "BMNUM - 4"]
  by (auto simp: chk_BM_def BMNUM_def split: option.splits if_splits)

lemma id_scan_place: "id_scan user bh i = p \<Longrightarrow> p \<noteq> 0 \<Longrightarrow> i < p \<and> p \<le> BMNUM \<and> bm bh ! (p - 1) = user"
proof (induction user bh i rule: id_scan.induct)
  case (1 user bh i)
  have "p = (if i \<ge> BMNUM then 0
      else if bm bh ! i = [] then (if i < 4 then id_scan user bh 4 else 0)
      else if bm bh ! i = user then i + 1 else id_scan user bh (i + 1))"
    using 1(3) by (subst (asm) id_scan.simps) simp
  then show ?case using 1(1,2,4) by (auto split: if_splits simp: Suc_le_eq)
qed

text \<open>A manager who counts by his hiring time counts by his name; the place may be another one.\<close>

section \<open>Managers online\<close>

lemma setbmhat_cases:
  "setbmhat m u online hid = (m, - 1) \<and> chk_BM_id u (header m) = 0 \<or>
   (\<exists>p. 0 < p \<and> p \<le> 16 \<and> bm (header m) ! (p - 1) = u \<and> chk_BM_id u (header m) = p \<and>
      snd (setbmhat m u online hid) = 0)"
  using id_scan_place [of u "header m" 0 "chk_BM_id u (header m)"]
  by (cases "chk_BM_id u (header m)") (auto simp: setbmhat_def chk_BM_id_def BMNUM_def Let_def)

text \<open>
  The bit of the user's place shows what was reported and no other bit changes; on a board where he is
  no manager nothing changes.
\<close>

lemma setbmhat_bits:
  assumes "chk_BM_id u (header m) = p" "0 < p" "p \<le> 16" "j < 16"
  shows "bit (bmonline (fst (setbmhat m u online hid))) j = (if j = p - 1 then online else bit (bmonline m) j)"
    "bit (bmcloak (fst (setbmhat m u online hid))) j = (if j = p - 1 then online \<and> hid else bit (bmcloak m) j)"
  using assms by (auto simp: setbmhat_def Let_def bit_simps)

text \<open>Nobody is hidden who is not online: kept by every report.\<close>

definition cloak_ok :: "boardmem \<Rightarrow> bool" where
  "cloak_ok m \<longleftrightarrow> bmcloak m AND NOT (bmonline m) = 0"

lemma cloak_bits: "cloak_ok m \<longleftrightarrow> (\<forall>j < 16. bit (bmcloak m) j \<longrightarrow> bit (bmonline m) j)"
proof -
  have "(\<forall>j < 16. \<not> bit (bmcloak m AND NOT (bmonline m)) j) \<longleftrightarrow> bmcloak m AND NOT (bmonline m) = 0"
    by (auto intro!: bit_word_eqI)
  then show ?thesis by (auto simp: cloak_ok_def bit_simps)
qed

lemma setbmhat_cloak: "cloak_ok m \<Longrightarrow> cloak_ok (fst (setbmhat m u online hid))"
proof -
  assume c: "cloak_ok m"
  consider "setbmhat m u online hid = (m, - 1)"
    | p where "chk_BM_id u (header m) = p" "0 < p" "p \<le> 16"
    using setbmhat_cases [of m u online hid] by blast
  then show ?thesis
  proof cases
    case 2
    show ?thesis using c setbmhat_bits [OF 2] unfolding cloak_bits by simp
  qed (use c in simp)
qed

lemma dosetbmstatus_cloak:
  "list_all cloak_ok bs \<Longrightarrow> dosetbmstatus (Some bs) u online hid = (Some bs', r) \<Longrightarrow> list_all cloak_ok bs' \<and> r = 0"
  using setbmhat_cloak by (auto simp: dosetbmstatus_def list_all_iff)

section \<open>The articles on top are a bounded list\<close>

definition aux_ok :: "boardaux \<Rightarrow> bool" where
  "aux_ok b \<longleftrightarrow> 0 \<le> ntopfile b \<and> ntopfile b \<le> int MAXTOPFILE \<and> length (topfile b) = MAXTOPFILE"

definition top_list :: "boardaux list \<Rightarrow> int \<Rightarrow> fileheader list" where
  "top_list fs bnum = take (nat (ntopfile (read_aux fs bnum))) (topfile (read_aux fs bnum))"

definition file_ok :: "boardaux list \<Rightarrow> bool" where
  "file_ok fs \<longleftrightarrow> list_all aux_ok fs"

lemma zero_aux_ok: "aux_ok zero_aux"
  by (simp add: aux_ok_def zero_aux_def)

lemma read_aux_ok: "file_ok fs \<Longrightarrow> aux_ok (read_aux fs bnum)"
  using zero_aux_ok by (auto simp: read_aux_def file_ok_def list_all_length)

lemma read_write_aux:
  assumes "0 \<le> bnum" "0 \<le> k"
  shows "read_aux (write_aux fs bnum b) k = (if k = bnum then b else read_aux fs k)"
proof -
  have e: "nat k = nat bnum \<longleftrightarrow> k = bnum" using assms by auto
  show ?thesis
    using assms e by (auto simp: read_aux_def write_aux_def Let_def nth_append nth_list_update)
qed

lemma write_aux_ok: "file_ok fs \<Longrightarrow> aux_ok b \<Longrightarrow> file_ok (write_aux fs bnum b)"
  using zero_aux_ok set_update_subset_insert [of "fs @ replicate (k + 1 - length fs) zero_aux" k b for k]
  by (fastforce simp: file_ok_def write_aux_def Let_def list_all_iff split: if_splits)

lemma shift_top_nth:
  "i + n < length ts \<Longrightarrow> length (shift_top ts i n) = length ts \<and>
   (\<forall>j. shift_top ts i n ! j = (if i \<le> j \<and> j < i + n then ts ! (j + 1) else ts ! j))"
  by (induction ts i n rule: shift_top.induct) (auto simp: nth_list_update)

lemma shift_top_take:
  assumes "k < n" "n \<le> length ts"
  shows "take (n - 1) (shift_top ts k (n - 1 - k)) = take k ts @ drop (k + 1) (take n ts)"
proof (rule nth_equalityI)
  have b: "k + (n - 1 - k) < length ts" using assms by simp
  note s = shift_top_nth [OF b]
  show len: "length (take (n - 1) (shift_top ts k (n - 1 - k))) = length (take k ts @ drop (k + 1) (take n ts))"
    using s assms by simp
  fix j assume "j < length (take (n - 1) (shift_top ts k (n - 1 - k)))"
  then have j: "j < n - 1" "j < length ts" using s assms by simp_all
  show "take (n - 1) (shift_top ts k (n - 1 - k)) ! j = (take k ts @ drop (k + 1) (take n ts)) ! j"
    using j s assms by (cases "j < k") (simp_all add: nth_append)
qed

lemma top_length: "file_ok fs \<Longrightarrow> length (top_list fs bnum) = nat (ntopfile (read_aux fs bnum))"
  using read_aux_ok [of fs bnum] by (auto simp: top_list_def aux_ok_def)

lemma add_top_record:
  assumes "aux_ok b" "ntopfile b < 5"
  shows "aux_ok (b\<lparr>topfile := (topfile b)[nat (ntopfile b) := x], ntopfile := ntopfile b + 1\<rparr>)"
    "take (nat (ntopfile b + 1)) ((topfile b)[nat (ntopfile b) := x]) = take (nat (ntopfile b)) (topfile b) @ [x]"
proof -
  have "nat (ntopfile b + 1) = Suc (nat (ntopfile b))" "nat (ntopfile b) < length (topfile b)"
    using assms by (auto simp: aux_ok_def MAXTOPFILE_def)
  then show "take (nat (ntopfile b + 1)) ((topfile b)[nat (ntopfile b) := x]) = take (nat (ntopfile b)) (topfile b) @ [x]"
    by (simp add: take_Suc_conv_app_nth)
  show "aux_ok (b\<lparr>topfile := (topfile b)[nat (ntopfile b) := x], ntopfile := ntopfile b + 1\<rparr>)"
    using assms by (simp add: aux_ok_def MAXTOPFILE_def)
qed

lemma del_top_record:
  assumes "aux_ok b" "0 \<le> n" "n < ntopfile b"
  shows "aux_ok (b\<lparr>topfile := shift_top (topfile b) (nat n) (nat (ntopfile b - 1 - n)), ntopfile := ntopfile b - 1\<rparr>)"
    "take (nat (ntopfile b - 1)) (shift_top (topfile b) (nat n) (nat (ntopfile b - 1 - n))) =
       take (nat n) (take (nat (ntopfile b)) (topfile b)) @ drop (nat n + 1) (take (nat (ntopfile b)) (topfile b))"
proof -
  have e: "nat (ntopfile b - 1 - n) = nat (ntopfile b) - 1 - nat n" "nat (ntopfile b - 1) = nat (ntopfile b) - 1"
    using assms by auto
  have le: "nat n < nat (ntopfile b)" "nat (ntopfile b) \<le> length (topfile b)" using assms by (auto simp: aux_ok_def)
  show "take (nat (ntopfile b - 1)) (shift_top (topfile b) (nat n) (nat (ntopfile b - 1 - n))) =
      take (nat n) (take (nat (ntopfile b)) (topfile b)) @ drop (nat n + 1) (take (nat (ntopfile b)) (topfile b))"
    unfolding e take_take min.absorb1 [OF less_imp_le [OF le(1)]] by (rule shift_top_take [OF le])
  have "nat n + (nat (ntopfile b) - 1 - nat n) < length (topfile b)" using le by linarith
  then show "aux_ok (b\<lparr>topfile := shift_top (topfile b) (nat n) (nat (ntopfile b - 1 - n)), ntopfile := ntopfile b - 1\<rparr>)"
    unfolding e using shift_top_nth assms by (simp add: aux_ok_def)
qed



text \<open>
  \<open>addtopfile\<close> does not check the board number: with a negative one it takes the articles on top of the
  first board, adds the new one and stores them as the record of the second board.
\<close>

lemma addtopfile_negative:
  assumes "bnum < 0" "fs \<noteq> []" "0 \<le> ntopfile (fs ! 0)" "ntopfile (fs ! 0) < 5"
  shows "\<exists>fs' x. addtopfile (Some fs) bnum fh = Some (Some fs', x, 0) \<and> read_aux fs' 0 = fs ! 0 \<and>
    read_aux fs' 1 = (fs ! 0)\<lparr>topfile := (topfile (fs ! 0))[nat (ntopfile (fs ! 0)) := x],
                             ntopfile := ntopfile (fs ! 0) + 1\<rparr>"
proof -
  have "read_aux fs bnum = fs ! 0" using assms(1,2) by (simp add: read_aux_def)
  then show ?thesis
    using assms by (auto simp: addtopfile_def MAXTOPFILE_def write_aux_def read_aux_def Let_def nth_append)
qed

end
