(* ===== verification/SecTree.thy ===== *)
theory SecTree
  imports DocUtil
begin

text \<open>
  The tree of board sections: \<open>src/libythtbbs/gensectree.c\<close>, which builds it from a list of codes and
  titles, and \<open>src/libythtbbs/sectreeop.c\<close>, which walks it and finds the managers of a section.
\<close>

section \<open>Reading the list\<close>

definition MAXPAIRS :: nat where "MAXPAIRS = 500"
definition MAXSUBSEC :: nat where "MAXSUBSEC = 64"
definition MAXSECM :: nat where "MAXSECM = 10"

record sec_pair =
  seccode :: cstr
  pair_title :: cstr

definition zero_pair :: sec_pair where
  "zero_pair = \<lparr>seccode = [], pair_title = []\<rparr>"

text \<open>One line; a line without a title keeps its code and an empty title.\<close>

definition read_pair :: "cstr \<Rightarrow> sec_pair" where
  "read_pair l =
     (if l \<noteq> [] \<and> l ! 0 = 37 then zero_pair
      else let (t, p) = strtok (Some l) {32, 9, 13, 10}
           in case t of
                None \<Rightarrow> zero_pair
              | Some c \<Rightarrow>
                  (let (t2, p2) = strtok p {9, 13, 10}
                   in \<lparr>seccode = strsncpy c 20,
                       pair_title = (case t2 of None \<Rightarrow> [] | Some x \<Rightarrow> strsncpy x 30)\<rparr>))"

definition readseclist :: "byte list option \<Rightarrow> sec_pair list \<times> int" where
  "readseclist file =
     (case file of
        None \<Rightarrow> ([], - 1)
      | Some m \<Rightarrow> (map read_pair (take MAXPAIRS (file_lines 256 m)), 0))"

section \<open>The tree\<close>

datatype sectree = Sec (st_title: cstr) (basestr: cstr) (introstr: cstr) (des: cstr) (seccodes: cstr)
  (subsec: "sectree list")

definition named :: "byte \<Rightarrow> sec_pair list \<Rightarrow> cstr \<Rightarrow> cstr" where
  "named c pairs base =
     (case filter (\<lambda>p. seccode p = c # base) pairs of [] \<Rightarrow> [] | p # ps \<Rightarrow> pair_title p)"

definition getintrostr :: "sec_pair list \<Rightarrow> cstr \<Rightarrow> cstr" where
  "getintrostr = named 42"

definition getdes :: "sec_pair list \<Rightarrow> cstr \<Rightarrow> cstr" where
  "getdes = named 64"

text \<open>The pairs that become subsections of \<open>base\<close>.\<close>

definition is_child :: "cstr \<Rightarrow> sec_pair \<Rightarrow> bool" where
  "is_child base p \<longleftrightarrow>
     \<not> (seccode p \<noteq> [] \<and> seccode p ! 0 = 42) \<and> length (seccode p) = length base + 1
     \<and> take (length base) (seccode p) = base"

definition children :: "sec_pair list \<Rightarrow> cstr \<Rightarrow> sec_pair list" where
  "children pairs base = filter (is_child base) pairs"

definition max_code :: "sec_pair list \<Rightarrow> nat" where
  "max_code pairs = foldr (\<lambda>p n. max (length (seccode p)) n) pairs 0"

lemma max_code_le: "p \<in> set pairs \<Longrightarrow> length (seccode p) \<le> max_code pairs"
  by (induction pairs) (auto simp: max_code_def max_def)

text \<open>
  \<open>gentree\<close>; a section with more than \<open>MAXSUBSEC\<close> subsections overflows the arrays (\<open>None\<close>), because
  the loop goes on while \<open>nsubsec <= MAXSUBSEC\<close>.
\<close>

function gentree :: "sec_pair list \<Rightarrow> cstr \<Rightarrow> cstr \<Rightarrow> sectree option" where
  "gentree pairs ttl base =
     (let cs = children pairs base in
      if length cs > MAXSUBSEC then None
      else map_option
             (Sec ttl (strsncpy base 20) (strsncpy (getintrostr pairs base) 65) (strsncpy (getdes pairs base) 30)
                (map (\<lambda>p. seccode p ! length base) cs))
             (those (map (\<lambda>p. gentree pairs (strsncpy (pair_title p) 30) (seccode p)) cs)))"
  by pat_completeness auto
termination
proof (relation "measure (\<lambda>(pairs, t, base). Suc (max_code pairs) - length base)", goal_cases)
  case (2 pairs ttl base cs p)
  then have "p \<in> set pairs" "length (seccode p) = length base + 1" by (auto simp: children_def is_child_def)
  then show ?case using max_code_le [of p pairs] by simp
qed simp

declare gentree.simps [simp del]

text \<open>\<open>getsectree\<close>; with all 64 codes in use the array has no NUL and \<open>strchr\<close> runs on behind it.\<close>

fun getsectree :: "sectree \<Rightarrow> cstr \<Rightarrow> sectree option" where
  "getsectree sec [] = Some sec"
| "getsectree sec (c # str) =
     (case strchr (seccodes sec) c of
        Some i \<Rightarrow> getsectree (subsec sec ! i) str
      | None \<Rightarrow> if length (seccodes sec) \<ge> MAXSUBSEC then None else Some sec)"

section \<open>Section managers\<close>

record secmanager =
  secstr :: cstr
  secm :: "cstr list"

text \<open>\<open>bzero(&secm, sizeof (secm))\<close>\<close>

definition zero_secm :: secmanager where
  "zero_secm = \<lparr>secstr = [], secm = []\<rparr>"

definition secm_delim :: "byte set" where
  "secm_delim = {9, 13, 10, 32}"

text \<open>The names on the rest of a line: at most \<open>n\<close>, empty tokens left out.\<close>

function take_names :: "cstr option \<Rightarrow> nat \<Rightarrow> cstr list" where
  "take_names p n =
     (if n = 0 then []
      else case strsep p secm_delim of
             (None, p') \<Rightarrow> []
           | (Some t, p') \<Rightarrow>
               if t = [] then take_names p' n
               else strsncpy t 20 # take_names p' (n - 1))"
  by pat_completeness auto
termination
proof (relation "measure (\<lambda>(p, n). case p of None \<Rightarrow> 0 | Some s \<Rightarrow> Suc (length s))", goal_cases)
  case (2 p n t p' x)
  then show ?case by (cases p) (auto simp: strsep_def Let_def split: option.splits if_splits)
next
  case (3 p n t p' x)
  then show ?case by (cases p) (auto simp: strsep_def Let_def split: option.splits if_splits)
qed simp

declare take_names.simps [simp del]

definition secm_line :: "cstr \<Rightarrow> secmanager option" where
  "secm_line l =
     (if l \<noteq> [] \<and> l ! 0 = 35 then None
      else case strsep (Some l) secm_delim of
             (None, p) \<Rightarrow> None
           | (Some c, p) \<Rightarrow>
               (let ns = take_names p MAXSECM
                in if ns = [] then None else Some \<lparr>secstr = strsncpy c 20, secm = ns\<rparr>))"

text \<open>
  \<open>gensecm\<close>: the records written over the old file, followed by at least one empty record and enough of
  them to make twenty; an older and longer file keeps its tail.
\<close>

definition gensecm :: "byte list option \<Rightarrow> bool \<Rightarrow> secmanager list \<Rightarrow> secmanager list \<times> int" where
  "gensecm txt can_open old =
     (case txt of
        None \<Rightarrow> (old, - 1)
      | Some m \<Rightarrow>
          if \<not> can_open then (old, - 1)
          else let rs = List.map_filter secm_line (file_lines 256 m);
                   new = rs @ replicate (max 1 (20 - length rs)) zero_secm
               in (new @ drop (length new) old, 0))"

text \<open>\<open>getsecm\<close> stops at the first record without a section.\<close>

fun getsecm :: "secmanager list \<Rightarrow> cstr \<Rightarrow> secmanager option" where
  "getsecm [] str = None"
| "getsecm (s # ss) str =
     (if secstr s = [] then None else if str = secstr s then Some s else getsecm ss str)"

definition issecm_strict :: "secmanager list \<Rightarrow> cstr \<Rightarrow> cstr \<Rightarrow> bool" where
  "issecm_strict data str user =
     (case getsecm data str of
        None \<Rightarrow> False
      | Some s \<Rightarrow> list_ex (\<lambda>m. strcaseeq user m) (secm s))"

text \<open>\<open>issecm\<close> copies the section into ten bytes (\<open>None\<close> when it does not fit) and shortens it step by step.\<close>

function secm_up :: "secmanager list \<Rightarrow> cstr \<Rightarrow> cstr \<Rightarrow> bool" where
  "secm_up data tocheck user =
     (if tocheck = [] then False
      else if issecm_strict data tocheck user then True
      else secm_up data (butlast tocheck) user)"
  by pat_completeness auto
termination by (relation "measure (\<lambda>(d, t, u). length t)") auto

declare secm_up.simps [simp del]

definition issecm :: "secmanager list \<Rightarrow> cstr \<Rightarrow> cstr \<Rightarrow> bool option" where
  "issecm data str user = (if length str \<ge> 10 then None else Some (secm_up data str user))"

section \<open>What a walk finds\<close>

definition codes :: "sec_pair list \<Rightarrow> cstr set" where
  "codes pairs = set (map seccode (filter (\<lambda>p. \<not> (seccode p \<noteq> [] \<and> seccode p ! 0 = 42)) pairs))"

definition list_ok :: "sec_pair list \<Rightarrow> bool" where
  "list_ok pairs \<longleftrightarrow> (\<forall>p \<in> set pairs. length (seccode p) \<le> 19) \<and> (\<forall>p \<in> set pairs. length (children pairs (seccode p)) < MAXSUBSEC)
     \<and> length (children pairs []) < MAXSUBSEC"

lemma those_Some: "those xs = Some ys \<Longrightarrow> length ys = length xs \<and> (\<forall>i < length xs. xs ! i = Some (ys ! i))"
proof (induction xs arbitrary: ys)
  case (Cons x xs)
  then show ?case by (auto split: option.splits simp: nth_Cons split: nat.splits)
qed simp

lemma child_code:
  assumes "i < length (children pairs base)"
  shows "seccode (children pairs base ! i) = base @ [seccode (children pairs base ! i) ! length base]"
    "children pairs base ! i \<in> set pairs"
proof -
  have "children pairs base ! i \<in> set (children pairs base)" using assms by simp
  then have c: "length (seccode (children pairs base ! i)) = length base + 1"
    "take (length base) (seccode (children pairs base ! i)) = base" "children pairs base ! i \<in> set pairs"
    by (auto simp: children_def is_child_def)
  then show "children pairs base ! i \<in> set pairs" by simp
  show "seccode (children pairs base ! i) = base @ [seccode (children pairs base ! i) ! length base]"
    using c(1,2) by (metis id_take_nth_drop le_add1 le_eq_less_or_eq less_add_one drop_all append_Nil2 take_all take_Suc_conv_app_nth Suc_eq_plus1 le_refl)
qed

lemma child_exists: "base @ [c] \<in> codes pairs \<longleftrightarrow> c \<in> set (map (\<lambda>p. seccode p ! length base) (children pairs base))"
proof
  assume "base @ [c] \<in> codes pairs"
  then obtain p where "p \<in> set pairs" "seccode p = base @ [c]" "\<not> (seccode p \<noteq> [] \<and> seccode p ! 0 = 42)"
    by (auto simp: codes_def)
  then have "p \<in> set (children pairs base)" by (simp add: children_def is_child_def)
  moreover have "seccode p ! length base = c" using \<open>seccode p = base @ [c]\<close> by simp
  ultimately show "c \<in> set (map (\<lambda>p. seccode p ! length base) (children pairs base))" by force
next
  assume "c \<in> set (map (\<lambda>p. seccode p ! length base) (children pairs base))"
  then obtain i where i: "i < length (children pairs base)" "seccode (children pairs base ! i) ! length base = c"
    by (auto simp: in_set_conv_nth)
  have "is_child base (children pairs base ! i)" using i(1) nth_mem by (fastforce simp: children_def)
  then have "seccode (children pairs base ! i) \<in> codes pairs"
    using child_code(2) [OF i(1)] unfolding codes_def is_child_def by simp
  then show "base @ [c] \<in> codes pairs" using child_code(1) [OF i(1)] i(2) by simp
qed

lemma gentree_node:
  assumes "gentree pairs ttl base = Some t" "length base \<le> 19"
  shows "basestr t = base" "seccodes t = map (\<lambda>p. seccode p ! length base) (children pairs base)"
    "\<forall>i < length (children pairs base). \<exists>ttl'. gentree pairs ttl' (seccode (children pairs base ! i)) = Some (subsec t ! i)"
proof -
  obtain ts where t: "those (map (\<lambda>p. gentree pairs (strsncpy (pair_title p) 30) (seccode p)) (children pairs base)) = Some ts"
    "t = Sec ttl (strsncpy base 20) (strsncpy (getintrostr pairs base) 65) (strsncpy (getdes pairs base) 30)
      (map (\<lambda>p. seccode p ! length base) (children pairs base)) ts"
    using assms(1) by (subst (asm) gentree.simps) (auto simp: Let_def split: if_splits)
  show "basestr t = base" "seccodes t = map (\<lambda>p. seccode p ! length base) (children pairs base)"
    using assms(2) t(2) by (simp_all add: strsncpy_take)
  show "\<forall>i < length (children pairs base). \<exists>ttl'. gentree pairs ttl' (seccode (children pairs base ! i)) = Some (subsec t ! i)"
    using those_Some [OF t(1)] t(2) by auto
qed

lemma walk:
  "gentree pairs ttl base = Some t \<Longrightarrow> list_ok pairs \<Longrightarrow> length base \<le> 19 \<Longrightarrow> length (children pairs base) < MAXSUBSEC \<Longrightarrow>
   \<exists>n t'. n \<le> length str \<and> getsectree t str = Some t' \<and> basestr t' = base @ take n str
     \<and> (\<forall>k. 1 \<le> k \<and> k \<le> n \<longrightarrow> base @ take k str \<in> codes pairs)
     \<and> (n < length str \<longrightarrow> base @ take (n + 1) str \<notin> codes pairs)"
proof (induction str arbitrary: t ttl base)
  case Nil
  then show ?case using gentree_node(1) by fastforce
next
  case (Cons c str)
  note g = gentree_node [OF Cons.prems(1,3)]
  show ?case
  proof (cases "strchr (seccodes t) c")
    case None
    then have "base @ [c] \<notin> codes pairs" using g(2) child_exists strchr_None by metis
    moreover have "length (seccodes t) < MAXSUBSEC" using g(2) Cons.prems(4) by simp
    ultimately show ?thesis using None g(1) by (intro exI [of _ 0] exI [of _ t]) simp
  next
    case (Some i)
    note s = strchr_Some [OF Some]
    have i: "i < length (children pairs base)" "seccode (children pairs base ! i) ! length base = c"
      using s g(2) by auto
    have code: "seccode (children pairs base ! i) = base @ [c]" using child_code(1) [OF i(1)] i(2) by simp
    have p: "children pairs base ! i \<in> set pairs" by (rule child_code(2) [OF i(1)])
    obtain ttl' where sub: "gentree pairs ttl' (base @ [c]) = Some (subsec t ! i)" using g(3) i(1) code by auto
    have len: "length (base @ [c]) \<le> 19" "length (children pairs (base @ [c])) < MAXSUBSEC"
      using Cons.prems(2) p code unfolding list_ok_def by metis+
    obtain n t' where n: "n \<le> length str" "getsectree (subsec t ! i) str = Some t'" "basestr t' = (base @ [c]) @ take n str"
      "\<forall>k. 1 \<le> k \<and> k \<le> n \<longrightarrow> (base @ [c]) @ take k str \<in> codes pairs"
      "n < length str \<longrightarrow> (base @ [c]) @ take (n + 1) str \<notin> codes pairs"
      using Cons.IH [OF sub Cons.prems(2) len] by blast
    have "base @ [c] \<in> codes pairs" using i child_exists by (metis in_set_conv_nth length_map nth_map)
    then have "base @ take k (c # str) \<in> codes pairs" if "1 \<le> k" "k \<le> n + 1" for k
      using that n(4) by (cases k; cases "k = 1") auto
    then show ?thesis using n Some by (intro exI [of _ "n + 1"] exI [of _ t']) auto
  qed
qed

text \<open>
  in the tree generated from a sound list, whatever its root is called, the walk for a string
  ends at the section with the longest prefix of the string all of whose beginnings are codes of the list.
\<close>

theorem getsectree_longest:
  assumes "list_ok pairs" "gentree pairs ttl [] = Some t"
  shows "\<exists>n t'. n \<le> length str \<and> getsectree t str = Some t' \<and> basestr t' = take n str
     \<and> (\<forall>k. 1 \<le> k \<and> k \<le> n \<longrightarrow> take k str \<in> codes pairs)
     \<and> (n < length str \<longrightarrow> take (n + 1) str \<notin> codes pairs)"
  using walk [OF assms(2,1)] assms(1) by (simp add: list_ok_def)

text \<open>The list of three sections A, AB and B, and the description of the root, which becomes a section too.\<close>

definition sample_pairs :: "sec_pair list" where
  "sample_pairs = [\<lparr>seccode = [65], pair_title = [97]\<rparr>, \<lparr>seccode = [65, 66], pair_title = [98]\<rparr>,
     \<lparr>seccode = [66], pair_title = [99]\<rparr>, \<lparr>seccode = [64], pair_title = [100]\<rparr>]"

lemma sample_list_ok: "list_ok sample_pairs"
  by (simp add: list_ok_def sample_pairs_def children_def is_child_def MAXSUBSEC_def)

lemma sample_children:
  "children sample_pairs [] = [\<lparr>seccode = [65], pair_title = [97]\<rparr>, \<lparr>seccode = [66], pair_title = [99]\<rparr>,
     \<lparr>seccode = [64], pair_title = [100]\<rparr>]"
  "children sample_pairs [65] = [\<lparr>seccode = [65, 66], pair_title = [98]\<rparr>]"
  "children sample_pairs [66] = []" "children sample_pairs [64] = []" "children sample_pairs [65, 66] = []"
  by (simp_all add: sample_pairs_def children_def is_child_def)

lemma sample_tree: "\<exists>t. gentree sample_pairs [] [] = Some t \<and> seccodes t = [65, 66, 64] \<and> des t = [100]"
proof -
  have leaf: "gentree sample_pairs x [66] \<noteq> None" "gentree sample_pairs x [64] \<noteq> None" "gentree sample_pairs x [65, 66] \<noteq> None" for x
    by (subst gentree.simps; simp add: sample_children MAXSUBSEC_def)+
  obtain x where x: "gentree sample_pairs (strsncpy [98] 30) [65, 66] = Some x" using leaf(3) by blast
  obtain y where y: "gentree sample_pairs (strsncpy [99] 30) [66] = Some y" using leaf(1) by blast
  obtain z where z: "gentree sample_pairs (strsncpy [100] 30) [64] = Some z" using leaf(2) by blast
  have "\<exists>t. gentree sample_pairs (strsncpy [97] 30) [65] = Some t"
    by (subst gentree.simps) (simp add: sample_children MAXSUBSEC_def x)
  then obtain w where w: "gentree sample_pairs (strsncpy [97] 30) [65] = Some w" by blast
  have "strsncpy (getdes sample_pairs []) 30 = [100]"
    by (simp add: getdes_def named_def sample_pairs_def strsncpy_take)
  then show ?thesis
    by (subst gentree.simps) (simp add: sample_children MAXSUBSEC_def w y z)
qed

lemma getsectree_longest_witness:
  "\<exists>t t'. gentree sample_pairs [] [] = Some t \<and> getsectree t [65, 66, 67] = Some t' \<and> basestr t' = [65, 66]"
proof -
  obtain t where t: "gentree sample_pairs [] [] = Some t" using sample_tree by blast
  have c: "[65] \<in> codes sample_pairs" "[65, 66] \<in> codes sample_pairs" "[65, 66, 67] \<notin> codes sample_pairs"
    by (auto simp: codes_def sample_pairs_def)
  obtain n t' where n: "n \<le> 3" "getsectree t [65, 66, 67] = Some t'" "basestr t' = take n [65, 66, 67]"
    "\<forall>k. 1 \<le> k \<and> k \<le> n \<longrightarrow> take k [65, 66, 67] \<in> codes sample_pairs"
    "n < 3 \<longrightarrow> take (n + 1) [65, 66, 67] \<notin> codes sample_pairs"
  proof -
    have l: "length [65, 66, 67 :: byte] = 3" by simp
    show ?thesis using that getsectree_longest [OF sample_list_ok t, of "[65, 66, 67]"] unfolding l by blast
  qed
  have "n \<noteq> 3"
  proof
    assume "n = 3"
    then have "take 3 [65, 66, 67] \<in> codes sample_pairs" using n(4) by auto
    then show False using c(3) by simp
  qed
  moreover have "n \<noteq> 0" using n(5) c(1) by (cases "n = 0") auto
  moreover have "n \<noteq> 1" using n(5) c(2) by (cases "n = 1") auto
  ultimately have "n = 2" using n(1) by auto
  then show ?thesis using t n(2,3) by auto
qed

section \<open>Managers of a section\<close>

text \<open>A manager of a section manages every section below it.\<close>

lemma secm_up_prefix:
  "secm_up data str user \<longleftrightarrow> (\<exists>k. 0 < k \<and> k \<le> length str \<and> issecm_strict data (take k str) user)"
proof (induction data str user rule: secm_up.induct)
  case (1 data str user)
  show ?case
  proof (cases "str = [] \<or> issecm_strict data str user")
    case True
    then show ?thesis by (subst secm_up.simps) (auto intro: exI [of _ "length str"])
  next
    case False
    have "(\<exists>k. 0 < k \<and> k \<le> length (butlast str) \<and> issecm_strict data (take k (butlast str)) user) \<longleftrightarrow>
        (\<exists>k. 0 < k \<and> k \<le> length str \<and> issecm_strict data (take k str) user)"
    proof
      assume "\<exists>k. 0 < k \<and> k \<le> length (butlast str) \<and> issecm_strict data (take k (butlast str)) user"
      then show "\<exists>k. 0 < k \<and> k \<le> length str \<and> issecm_strict data (take k str) user"
        by (metis diff_le_self le_trans length_butlast less_le_not_le linorder_not_le take_butlast False butlast_conv_take diff_less length_greater_0_conv take_take min.absorb1 less_numeral_extra(1))
    next
      assume "\<exists>k. 0 < k \<and> k \<le> length str \<and> issecm_strict data (take k str) user"
      then obtain k where k: "0 < k" "k \<le> length str" "issecm_strict data (take k str) user" by blast
      then have "k \<noteq> length str" using False by auto
      then have "k < length str" using k(2) by simp
      then show "\<exists>k. 0 < k \<and> k \<le> length (butlast str) \<and> issecm_strict data (take k (butlast str)) user"
        using k by (intro exI [of _ k]) (simp add: take_butlast)
    qed
    then show ?thesis using 1 False by (subst secm_up.simps) simp
  qed
qed

text \<open>A line that starts with a blank becomes a record without a section and hides all later ones.\<close>

lemma blank_line_hides:
  "issecm_strict (fst (gensecm (Some (lit ''A ann'' @ [10])) True [])) [65] (lit ''ann'')"
  "\<not> issecm_strict (fst (gensecm (Some (lit '' A ann'' @ 10 # lit ''A ann'' @ [10])) True [])) [65] (lit ''ann'')"
  by code_simp+

end
