(* ===== verification/Values.thy ===== *)
theory Values
  imports StrOp UserHash
begin

text \<open>
  Named values in a text file: \<open>readstrvalue\<close> and \<open>savestrvalue\<close> of \<open>src/ythtlib/fileop.c\<close> and, on top of
  them, \<open>readuservalue\<close> and \<open>saveuservalue\<close> of \<open>src/libythtbbs/user.c\<close>.  A line is a name, a blank and a
  value.  The locks decide only that one process at a time is inside.
\<close>

section \<open>Reading and saving\<close>

text \<open>The loop of \<open>readstrvalue\<close>: what is behind the name on its first line.\<close>

function read_value :: "byte list \<Rightarrow> cstr \<Rightarrow> cstr option" where
  "read_value m str =
     (case fgets 512 m of
        None \<Rightarrow> None
      | Some (l, r) \<Rightarrow>
          (case strchr (zstr l) 32 of
             None \<Rightarrow> read_value r str
           | Some i \<Rightarrow> if take i (zstr l) \<noteq> str then read_value r str else Some (drop (i + 1) (zstr l))))"
  by pat_completeness auto
termination
proof (relation "measure (\<lambda>(m, s). length m)", goal_cases)
  case (2 m str x l r)
  then show ?case using line_take_progress [of 511 m] by (auto simp: fgets_def split: if_splits)
next
  case (3 m str x l r i)
  then show ?case using line_take_progress [of 511 m] by (auto simp: fgets_def split: if_splits)
qed simp

declare read_value.simps [simp del]

definition readstrvalue :: "byte list option \<Rightarrow> cstr \<Rightarrow> int \<Rightarrow> cstr \<times> int" where
  "readstrvalue file str sz =
     (case file of
        None \<Rightarrow> ([], - 1)
      | Some m \<Rightarrow>
          (case read_value m str of
             None \<Rightarrow> ([], - 1)
           | Some v \<Rightarrow> (takeWhile (\<lambda>c. c \<noteq> 10) (strsncpy v sz), 0)))"

text \<open>
  The loop of \<open>savestrvalue\<close>: the position of the first line of the name (\<open>where\<close>) and the other lines
  behind it (\<open>tmp\<close>); a line without a blank behind it is dropped.
\<close>

function save_loop :: "byte list \<Rightarrow> nat \<Rightarrow> cstr \<Rightarrow> nat option \<Rightarrow> cstr \<Rightarrow> nat option \<times> cstr" where
  "save_loop m p str found tmp =
     (case fgets 256 m of
        None \<Rightarrow> (found, tmp)
      | Some (l, r) \<Rightarrow>
          let p' = p + length l; buf = zstr l
          in case strchr buf 32 of
               None \<Rightarrow> save_loop r p' str found tmp
             | Some i \<Rightarrow>
                 if take i buf = str
                 then save_loop r p' str (if found = None then Some (p' - length buf) else found) tmp
                 else if found = None then save_loop r p' str found tmp
                 else save_loop r p' str found (tmp @ buf))"
  by pat_completeness auto
termination
proof (relation "measure (\<lambda>(m, p, s, f, t). length m)", goal_cases)
  case (2 m p str found tmp x l r p' buf)
  then show ?case using line_take_progress [of 255 m] by (auto simp: fgets_def split: if_splits)
next
  case (3 m p str found tmp x l r p' buf i)
  then show ?case using line_take_progress [of 255 m] by (auto simp: fgets_def split: if_splits)
next
  case (4 m p str found tmp x l r p' buf i)
  then show ?case using line_take_progress [of 255 m] by (auto simp: fgets_def split: if_splits)
next
  case (5 m p str found tmp x l r p' buf i)
  then show ?case using line_take_progress [of 255 m] by (auto simp: fgets_def split: if_splits)
qed simp

declare save_loop.simps [simp del]

text \<open>\<open>can_open\<close>: the file can be opened or created for writing.  Memory is assumed to be available.\<close>

definition savestrvalue :: "bool \<Rightarrow> byte list option \<Rightarrow> cstr \<Rightarrow> cstr \<Rightarrow> byte list option \<times> int" where
  "savestrvalue can_open file str val =
     (if \<not> can_open then (file, - 2)
      else let m = (case file of None \<Rightarrow> [] | Some m \<Rightarrow> m);
               (found, tmp) = save_loop m 0 str None [];
               kept = (case found of None \<Rightarrow> m | Some w \<Rightarrow> take w m @ tmp)
           in (Some (kept @ str @ [32] @ take 200 val @ [10]), 0))"

text \<open>\<open>sethomefile\<close> and the values of a user.\<close>

definition sethomefile :: "cstr \<Rightarrow> cstr \<Rightarrow> cstr \<Rightarrow> cstr" where
  "sethomefile home user filename =
     home @ lit ''/home/'' @ [mytoupper (if user = [] then 0 else user ! 0)] @ lit ''/'' @ user @ lit ''/'' @ filename"

definition readuservalue :: "cstr \<Rightarrow> (cstr \<Rightarrow> byte list option) \<Rightarrow> cstr \<Rightarrow> cstr \<Rightarrow> int \<Rightarrow> cstr \<times> int" where
  "readuservalue home fs user key sz = readstrvalue (fs (sethomefile home user (lit ''values''))) key sz"

definition saveuservalue ::
  "cstr \<Rightarrow> bool \<Rightarrow> (cstr \<Rightarrow> byte list option) \<Rightarrow> cstr \<Rightarrow> cstr \<Rightarrow> cstr \<Rightarrow> (cstr \<Rightarrow> byte list option) \<times> int" where
  "saveuservalue home can_open fs user key val =
     (let path = sethomefile home user (lit ''values'');
          (f, r) = savestrvalue can_open (fs path) key val
      in (fs(path := f), r))"

section \<open>The contract of a store of values\<close>

text \<open>What a client may rely on: reading gives the value last saved under the name.\<close>

locale value_store =
  fixes ok :: "'s \<Rightarrow> bool"
    and get :: "'s \<Rightarrow> 'k \<Rightarrow> 'v option"
    and put :: "'s \<Rightarrow> 'k \<Rightarrow> 'v \<Rightarrow> 's"
    and key_ok :: "'k \<Rightarrow> bool"
    and fits :: "'k \<Rightarrow> 'v \<Rightarrow> bool"
  assumes put_ok: "ok s \<Longrightarrow> key_ok k \<Longrightarrow> fits k v \<Longrightarrow> ok (put s k v)"
    and get_put: "ok s \<Longrightarrow> key_ok k \<Longrightarrow> fits k v \<Longrightarrow> key_ok k' \<Longrightarrow>
          get (put s k v) k' = (if k' = k then Some v else get s k')"
begin

definition put_all :: "'s \<Rightarrow> ('k \<times> 'v) list \<Rightarrow> 's" where
  "put_all s kvs = foldl (\<lambda>s (k, v). put s k v) s kvs"

lemma put_all_ok: "ok s \<Longrightarrow> \<forall>(k, v) \<in> set kvs. key_ok k \<and> fits k v \<Longrightarrow> ok (put_all s kvs)"
  unfolding put_all_def by (induction kvs arbitrary: s) (auto simp: put_ok)

lemma get_put_all:
  "ok s \<Longrightarrow> \<forall>(k, v) \<in> set kvs. key_ok k \<and> fits k v \<Longrightarrow> key_ok k' \<Longrightarrow>
   get (put_all s kvs) k' = (case map_of (rev kvs) k' of Some v \<Rightarrow> Some v | None \<Rightarrow> get s k')"
proof (induction kvs rule: rev_induct)
  case (snoc kv kvs)
  obtain k v where kv: "kv = (k, v)" by fastforce
  have "ok (put_all s kvs)" using snoc.prems by (intro put_all_ok) auto
  then show ?case
    using snoc kv get_put [of "put_all s kvs" k v k'] by (simp add: put_all_def)
qed (simp add: put_all_def)

end

section \<open>The file as such a store\<close>

definition name_ok :: "cstr \<Rightarrow> bool" where
  "name_ok k \<longleftrightarrow> 32 \<notin> set k \<and> 10 \<notin> set k \<and> 0 \<notin> set k"

definition line_fits :: "cstr \<Rightarrow> cstr \<Rightarrow> bool" where
  "line_fits k v \<longleftrightarrow> 10 \<notin> set v \<and> 0 \<notin> set v \<and> length k + length v + 2 < 256 \<and> length v \<le> 200"

definition value_text :: "(cstr \<times> cstr) list \<Rightarrow> byte list" where
  "value_text kvs = concat (map (\<lambda>(k, v). k @ 32 # v @ [10]) kvs)"

definition lines_ok :: "(cstr \<times> cstr) list \<Rightarrow> bool" where
  "lines_ok kvs \<longleftrightarrow> (\<forall>(k, v) \<in> set kvs. name_ok k \<and> line_fits k v)"

lemma value_text_Cons: "value_text ((k, v) # kvs) = (k @ 32 # v) @ 10 # value_text kvs"
  by (simp add: value_text_def)

lemma value_line:
  assumes "name_ok k" "line_fits k v" "length k + length v + 2 < n"
  shows "fgets n (value_text ((k, v) # kvs)) = Some (k @ 32 # v @ [10], value_text kvs)"
    "zstr (k @ 32 # v @ [10]) = k @ 32 # v @ [10]" "strchr (k @ 32 # v @ [10]) 32 = Some (length k)"
proof -
  have "fgets n ((k @ 32 # v) @ 10 # value_text kvs) = Some ((k @ 32 # v) @ [10], value_text kvs)"
    using assms by (intro fgets_line) (auto simp: name_ok_def line_fits_def)
  then show "fgets n (value_text ((k, v) # kvs)) = Some (k @ 32 # v @ [10], value_text kvs)"
    by (simp add: value_text_Cons)
  show "zstr (k @ 32 # v @ [10]) = k @ 32 # v @ [10]"
    using assms by (intro zstr_id) (auto simp: name_ok_def line_fits_def)
  have "takeWhile (\<lambda>x. x \<noteq> 32) (k @ 32 # v @ [10]) = k"
    using assms(1) by (induction k) (auto simp: name_ok_def)
  then show "strchr (k @ 32 # v @ [10]) 32 = Some (length k)" by (simp add: strchr_def)
qed

lemma read_value_text:
  "lines_ok kvs \<Longrightarrow> read_value (value_text kvs) str = map_option (\<lambda>v. v @ [10]) (map_of kvs str)"
proof (induction kvs)
  case Nil
  then show ?case by (subst read_value.simps) (simp add: value_text_def fgets_def)
next
  case (Cons kv kvs)
  obtain k v where kv: "kv = (k, v)" by fastforce
  have ok: "name_ok k" "line_fits k v" "length k + length v + 2 < 512" "lines_ok kvs"
    using Cons.prems kv by (auto simp: lines_ok_def line_fits_def)
  show ?case
    using value_line(1) [OF ok(1-3), of kvs] value_line(2,3) [OF ok(1-3)] Cons.IH [OF ok(4)] kv
    by (cases "k = str"; subst read_value.simps) simp_all
qed

definition others :: "cstr \<Rightarrow> (cstr \<times> cstr) list \<Rightarrow> (cstr \<times> cstr) list" where
  "others str kvs = filter (\<lambda>kv. fst kv \<noteq> str) kvs"

lemma save_loop_found:
  "lines_ok kvs \<Longrightarrow> save_loop (value_text kvs) p str (Some w) tmp = (Some w, tmp @ value_text (others str kvs))"
proof (induction kvs arbitrary: p tmp)
  case Nil
  then show ?case by (subst save_loop.simps) (simp add: value_text_def fgets_def others_def)
next
  case (Cons kv kvs)
  obtain k v where kv: "kv = (k, v)" by fastforce
  have ok: "name_ok k" "line_fits k v" "length k + length v + 2 < 256" "lines_ok kvs"
    using Cons.prems kv by (auto simp: lines_ok_def line_fits_def)
  show ?case
    using value_line(1) [OF ok(1-3), of kvs] value_line(2,3) [OF ok(1-3)] Cons.IH [OF ok(4)] kv
    by (subst save_loop.simps) (simp add: others_def value_text_def Let_def)
qed

lemma save_loop_text:
  "lines_ok kvs \<Longrightarrow> save_loop (value_text kvs) p str None [] =
     (if str \<in> fst ` set kvs
      then (Some (p + length (value_text (takeWhile (\<lambda>kv. fst kv \<noteq> str) kvs))),
            value_text (others str (dropWhile (\<lambda>kv. fst kv \<noteq> str) kvs)))
      else (None, []))"
proof (induction kvs arbitrary: p)
  case Nil
  then show ?case by (subst save_loop.simps) (simp add: value_text_def fgets_def)
next
  case (Cons kv kvs)
  obtain k v where kv: "kv = (k, v)" by fastforce
  have ok: "name_ok k" "line_fits k v" "length k + length v + 2 < 256" "lines_ok kvs"
    using Cons.prems kv by (auto simp: lines_ok_def line_fits_def)
  show ?case
  proof (cases "k = str")
    case True
    then show ?thesis
      using value_line(1) [OF ok(1-3), of kvs] value_line(2,3) [OF ok(1-3)] save_loop_found [OF ok(4), of _ str p "[]"] kv
      by (subst save_loop.simps) (simp add: others_def value_text_def Let_def)
  next
    case False
    then show ?thesis
      using value_line(1) [OF ok(1-3), of kvs] value_line(2,3) [OF ok(1-3)] Cons.IH [OF ok(4)] kv
      by (subst save_loop.simps) (auto simp: value_text_def Let_def)
  qed
qed

lemma value_text_append: "value_text (a @ b) = value_text a @ value_text b"
  by (simp add: value_text_def)

text \<open>Saving removes the lines of the name and puts the new one at the end.\<close>

lemma savestrvalue_text:
  assumes "lines_ok kvs" "line_fits k v"
  shows "savestrvalue True (Some (value_text kvs)) k v = (Some (value_text (others k kvs @ [(k, v)])), 0)"
proof -
  define a where "a = takeWhile (\<lambda>kv. fst kv \<noteq> k) kvs"
  define b where "b = dropWhile (\<lambda>kv. fst kv \<noteq> k) kvs"
  have ab: "kvs = a @ b" by (simp add: a_def b_def)
  have oa: "others k a = a" unfolding others_def a_def by (rule filter_True) (auto dest: set_takeWhileD)
  have v: "take 200 v = v" using assms(2) by (simp add: line_fits_def)
  show ?thesis
  proof (cases "k \<in> fst ` set kvs")
    case True
    have "take (length (value_text a)) (value_text kvs) = value_text a" by (simp add: ab value_text_append)
    moreover have "others k kvs = a @ others k b" using ab oa by (simp add: others_def)
    ultimately show ?thesis
      using True save_loop_text [OF assms(1), of 0 k] v
      by (simp add: savestrvalue_def value_text_append flip: a_def b_def) (simp add: value_text_def)
  next
    case False
    then have "others k kvs = kvs" unfolding others_def by (intro filter_True) force
    then show ?thesis
      using False save_loop_text [OF assms(1), of 0 k] v
      by (simp add: savestrvalue_def value_text_append) (simp add: value_text_def)
  qed
qed

definition value_file :: "byte list option \<Rightarrow> bool" where
  "value_file f \<longleftrightarrow> f = None \<or> (\<exists>kvs. lines_ok kvs \<and> f = Some (value_text kvs))"

definition read_one :: "byte list option \<Rightarrow> cstr \<Rightarrow> cstr option" where
  "read_one f k = (let (v, r) = readstrvalue f k 256 in if r = 0 then Some v else None)"

lemma read_one_text:
  assumes "lines_ok kvs"
  shows "read_one (Some (value_text kvs)) k = map_of kvs k"
proof (cases "map_of kvs k")
  case (Some v)
  then have v: "10 \<notin> set v" "length v \<le> 200" using assms map_of_SomeD [OF Some] by (auto simp: lines_ok_def line_fits_def)
  then have "takeWhile (\<lambda>c. c \<noteq> 10) (v @ [10]) = v" by (induction v) auto
  then show ?thesis using read_value_text [OF assms, of k] Some v by (simp add: read_one_def readstrvalue_def strsncpy_take)
qed (use read_value_text [OF assms, of k] in \<open>simp add: read_one_def readstrvalue_def\<close>)

lemma map_of_others: "map_of (others k kvs) k' = (if k' = k then None else map_of kvs k')"
  by (induction kvs) (auto simp: others_def)

interpretation vals: value_store value_file read_one "\<lambda>f k v. fst (savestrvalue True f k v)" name_ok line_fits
proof
  fix f k v
  assume a: "value_file f" "name_ok k" "line_fits k v"
  obtain kvs where kvs: "lines_ok kvs" "fst (savestrvalue True f k v) = Some (value_text (others k kvs @ [(k, v)]))"
    "read_one f = map_of kvs"
  proof -
    consider "f = None" | kvs where "lines_ok kvs" "f = Some (value_text kvs)" using a(1) by (auto simp: value_file_def)
    then show ?thesis
    proof cases
      case 1
      have "savestrvalue True None k v = savestrvalue True (Some (value_text [])) k v"
        by (simp add: savestrvalue_def value_text_def)
      moreover have "lines_ok []" by (simp add: lines_ok_def)
      moreover have "read_one None = map_of []" by (rule ext) (simp add: read_one_def readstrvalue_def)
      ultimately show ?thesis using that [of "[]"] savestrvalue_text [of "[]" k v] a(3) 1 by simp
    next
      case 2
      have "read_one f = map_of kvs" unfolding 2(2) by (rule ext) (rule read_one_text [OF 2(1)])
      then show ?thesis using that [of kvs] savestrvalue_text [OF 2(1) a(3)] 2 by simp
    qed
  qed
  have ok: "lines_ok (others k kvs @ [(k, v)])" using kvs(1) a by (auto simp: lines_ok_def others_def)
  then show "value_file (fst (savestrvalue True f k v))" using kvs(2) by (auto simp: value_file_def)
  fix k' assume "name_ok k'"
  show "read_one (fst (savestrvalue True f k v)) k' = (if k' = k then Some v else read_one f k')"
    using read_one_text [OF ok] kvs(2,3) by (auto simp: map_of_others map_add_def split: option.splits)
qed

section \<open>The values of a user\<close>

lemma readstrvalue_one: "readstrvalue f k 256 = (case read_one f k of Some v \<Rightarrow> (v, 0) | None \<Rightarrow> ([], - 1))"
  by (auto simp: read_one_def readstrvalue_def Let_def split: option.splits)

definition save_all :: "cstr \<Rightarrow> cstr \<Rightarrow> (cstr \<Rightarrow> byte list option) \<Rightarrow> (cstr \<times> cstr) list \<Rightarrow> (cstr \<Rightarrow> byte list option)" where
  "save_all home user fs kvs = foldl (\<lambda>fs (k, v). fst (saveuservalue home True fs user k v)) fs kvs"

lemma save_all_file:
  "save_all home user fs kvs =
     fs(sethomefile home user (lit ''values'') := vals.put_all (fs (sethomefile home user (lit ''values''))) kvs)"
  unfolding save_all_def vals.put_all_def
  by (induction kvs arbitrary: fs) (auto simp: saveuservalue_def Let_def case_prod_beta)

text \<open>
  C24: the values of a user are a map.  After any sequence of saves into a sound file, or into none, reading a name
  gives the value last saved under it, and what was there before when it was not saved; the
  files of other users do not change.
\<close>

theorem uservalue_last_wins:
  assumes "value_file (fs (sethomefile home user (lit ''values'')))" "\<forall>(k, v) \<in> set kvs. name_ok k \<and> line_fits k v" "name_ok k"
  shows "readuservalue home (save_all home user fs kvs) user k 256 =
      (case map_of (rev kvs) k of Some v \<Rightarrow> (v, 0) | None \<Rightarrow> readuservalue home fs user k 256)
    \<and> (\<forall>f. f \<noteq> sethomefile home user (lit ''values'') \<longrightarrow> save_all home user fs kvs f = fs f)"
  using vals.get_put_all [OF assms]
  by (auto simp: save_all_file readuservalue_def readstrvalue_one split: option.splits)

lemma uservalue_last_wins_witness:
  "readuservalue [] (save_all [] [97] (\<lambda>f. None) [([107], [49]), ([120], [50]), ([107], [51])]) [97] [107] 256 = ([51], 0)
   \<and> readuservalue [] (save_all [] [97] (\<lambda>f. None) [([107], [49]), ([120], [50]), ([107], [51])]) [97] [120] 256 = ([50], 0)"
proof -
  have a: "value_file ((\<lambda>f. None) (sethomefile [] [97] (lit ''values'')))" by (simp add: value_file_def)
  have b: "\<forall>(k, v) \<in> set [([107], [49]), ([120], [50]), ([107], [51])]. name_ok k \<and> line_fits k v"
    by (simp add: name_ok_def line_fits_def)
  have k: "name_ok [107]" "name_ok [120]" by (simp_all add: name_ok_def)
  show ?thesis using uservalue_last_wins [OF a b k(1)] uservalue_last_wins [OF a b k(2)] by simp
qed

text \<open>A name with a blank in it is never found again, and every save adds a line.\<close>

lemma blank_name_lost:
  "readstrvalue (fst (savestrvalue True None (lit ''a b'') (lit ''1''))) (lit ''a b'') 256 = ([], - 1)"
  "fst (savestrvalue True (fst (savestrvalue True None (lit ''a b'') (lit ''1''))) (lit ''a b'') (lit ''2''))
     = Some (lit ''a b 1'' @ 10 # lit ''a b 2'' @ [10])"
  by code_simp+

end
