(* ===== verification/UserMisc.thy ===== *)
theory UserMisc
  imports StrOp UserHash Values
begin

text \<open>
  The rest of \<open>src/libythtbbs/user.c\<close>: the experience and the remaining life of a user, the lists of banned
  sites, the private data file, and the search for a registration form.
\<close>

section \<open>Experience and life\<close>

definition cuserexp :: "int \<Rightarrow> cstr" where
  "cuserexp e =
     (if e = - 9999 then [195, 187, 181, 200, 188, 182]
      else if e \<le> 100 then [208, 194, 202, 214, 201, 207, 194, 183]
      else if e \<le> 450 then [210, 187, 176, 227, 213, 190, 211, 209]
      else if e \<le> 850 then [214, 208, 188, 182, 213, 190, 211, 209]
      else if e \<le> 1500 then [184, 223, 188, 182, 213, 190, 211, 209]
      else if e \<le> 2500 then [192, 207, 213, 190, 211, 209]
      else if e \<le> 3000 then [179, 164, 192, 207, 188, 182]
      else if e \<le> 5000 then [177, 190, 213, 190, 212, 170, 192, 207]
      else [191, 170, 185, 250, 180, 243, 192, 207])"

definition cperf :: "int \<Rightarrow> cstr" where
  "cperf p =
     (if p = - 9999 then [195, 187, 181, 200, 188, 182]
      else if p \<le> 5 then [184, 207, 191, 236, 188, 211, 211, 205]
      else if p \<le> 12 then [197, 172, 193, 166, 214, 208]
      else if p \<le> 35 then [187, 185, 178, 187, 180, 237]
      else if p \<le> 50 then [186, 220, 186, 195]
      else if p \<le> 90 then [211, 197, 181, 200, 201, 250]
      else if p \<le> 140 then [204, 171, 211, 197, 208, 227, 193, 203]
      else if p \<le> 200 then [177, 190, 213, 190, 214, 167, 214, 249]
      else if p \<le> 500 then [201, 241, 161, 171, 161, 171]
      else [187, 250, 198, 247, 200, 203, 163, 161])"

text \<open>The counters are unsigned, so the sum wraps at 32 bits before it is an \<open>int\<close> again.\<close>

definition countexp :: "int \<Rightarrow> userec \<Rightarrow> int" where
  "countexp now urec =
     (if userid urec = lit ''guest'' then - 9999
      else let e = to_int32 (int (numposts urec) + int (numlogins urec div 5)
                      + cdiv (now - firstlogin urec) 86400 + cdiv (stay urec) 3600)
           in if e > 0 then e else 0)"

definition PERM_LOGINOK :: "32 word" where "PERM_LOGINOK = 16"
definition PERM_XEMPT :: "32 word" where "PERM_XEMPT = 256"

definition countlife :: "int \<Rightarrow> userec \<Rightarrow> int" where
  "countlife now urec =
     (if userlevel urec AND PERM_XEMPT \<noteq> 0 \<or> userid urec = lit ''guest'' then 999
      else let val = cdiv (now - lastlogin urec) 60
           in if numlogins urec \<le> 3
              then (if userlevel urec AND PERM_LOGINOK \<noteq> 0 then cdiv (30 * 1440 - val) 1440
                    else cdiv (15 * 1440 - val) 1440)
              else if userlevel urec AND PERM_LOGINOK = 0 then cdiv (30 * 1440 - val) 1440
              else min (cdiv (120 * 1440 - val) 1440 + min (int (numdays urec)) 800 + int (extralife5 urec) * 5) 998)"

section \<open>Banned sites\<close>

text \<open>\<open>strtok(temp, " \n")\<close>, for its effect on \<open>temp\<close>: the text up to the end of the first word.\<close>

definition cut_word :: "cstr \<Rightarrow> cstr" where
  "cut_word temp =
     (let u = dropWhile (\<lambda>c. c = 32 \<or> c = 10) temp; w = takeWhile (\<lambda>c. c \<noteq> 32 \<and> c \<noteq> 10) u
      in if w = [] then temp else take (length temp - length u + length w) temp)"

text \<open>One line: the address itself, the start of one (with a period at the end), or a part (with one in front).\<close>

definition site_match :: "cstr \<Rightarrow> cstr \<Rightarrow> bool" where
  "site_match addr temp \<longleftrightarrow>
     take 16 addr = take 16 temp
     \<or> (take (length temp) addr = temp \<and> last temp = 46)
     \<or> (temp ! 0 = 46 \<and> strstr addr temp \<noteq> None)"

text \<open>\<open>None\<close>: an empty string is compared, and the code looks at the byte in front of it.\<close>

fun ban_scan :: "cstr \<Rightarrow> cstr list \<Rightarrow> bool option" where
  "ban_scan addr [] = Some False"
| "ban_scan addr (l # ls) =
     (let temp = cut_word l
      in if temp = [] then (if addr = [] then Some True else None)
         else if site_match addr temp then Some True else ban_scan addr ls)"

definition checkbansitefile :: "cstr \<Rightarrow> byte list option \<Rightarrow> bool option" where
  "checkbansitefile addr file =
     (case file of None \<Rightarrow> Some False | Some m \<Rightarrow> ban_scan addr (file_lines 80 m))"

definition checkbansite :: "cstr \<Rightarrow> byte list option \<Rightarrow> byte list option \<Rightarrow> bool option" where
  "checkbansite addr f1 f2 =
     (case checkbansitefile addr f1 of
        None \<Rightarrow> None
      | Some True \<Rightarrow> Some True
      | Some False \<Rightarrow> checkbansitefile addr f2)"

text \<open>\<open>userbansite\<close>; \<open>inet_addr\<close> of the C library is an argument.\<close>

fun userban_scan :: "(cstr \<Rightarrow> 32 word) \<Rightarrow> 32 word \<Rightarrow> cstr list \<Rightarrow> bool" where
  "userban_scan inet_addr src [] = False"
| "userban_scan inet_addr src (l # ls) =
     (let tmp = mystrtok l 32 3;
          banaddr = inet_addr (tmp ! 0);
          banmask = (if length tmp = 1 then inet_addr (lit ''255.255.255.255'') else inet_addr (tmp ! 1));
          deny = (length tmp = 3 \<longrightarrow> tmp ! 2 = lit ''allow'')
      in if src AND banmask = banaddr AND banmask then deny else userban_scan inet_addr src ls)"

definition userbansite :: "(cstr \<Rightarrow> 32 word) \<Rightarrow> cstr \<Rightarrow> byte list option \<Rightarrow> bool" where
  "userbansite inet_addr fromhost file =
     (case file of None \<Rightarrow> False | Some m \<Rightarrow> userban_scan inet_addr (inet_addr fromhost) (file_lines 80 m))"

section \<open>The private data\<close>

definition USERDATA_SIZE :: nat where "USERDATA_SIZE = 256"

definition saveuserdata ::
  "cstr \<Rightarrow> bool \<Rightarrow> (cstr \<Rightarrow> byte list option) \<Rightarrow> cstr \<Rightarrow> byte list \<Rightarrow> (cstr \<Rightarrow> byte list option) \<times> int" where
  "saveuserdata home can_open fs user udata =
     (let newfname = sethomefile home user (lit ''newuserdata''); fname = sethomefile home user (lit ''userdata'')
      in if \<not> can_open then (fs, - 1)
         else let old = (case fs newfname of None \<Rightarrow> [] | Some m \<Rightarrow> m)
              in (fs(newfname := None, fname := Some (udata @ drop (length udata) old)), 0))"

text \<open>The 256 bytes of the structure, zero where the file is short.\<close>

definition loaduserdata :: "cstr \<Rightarrow> (cstr \<Rightarrow> byte list option) \<Rightarrow> cstr \<Rightarrow> byte list \<times> int" where
  "loaduserdata home fs user =
     (case fs (sethomefile home user (lit ''userdata'')) of
        None \<Rightarrow> (replicate USERDATA_SIZE 0, - 1)
      | Some m \<Rightarrow> (pad0 USERDATA_SIZE (take USERDATA_SIZE m), 0))"

section \<open>Registration forms\<close>

text \<open>The files of the scan directory in the order of \<open>readdir\<close>, then \<open>new_register\<close>.\<close>

definition form_line :: "cstr \<Rightarrow> cstr \<Rightarrow> bool" where
  "form_line user l \<longleftrightarrow>
     (let b = takeWhile (\<lambda>c. c \<noteq> 10) l in take 8 b = lit ''userid: '' \<and> drop 8 b = user)"

definition has_fill_form :: "byte list option list option \<Rightarrow> byte list option \<Rightarrow> cstr \<Rightarrow> bool" where
  "has_fill_form scandir new_register user =
     (case scandir of
        None \<Rightarrow> False
      | Some fs \<Rightarrow>
          list_ex (\<lambda>f. case f of None \<Rightarrow> False | Some m \<Rightarrow> list_ex (form_line user) (file_lines 256 m))
            (fs @ [new_register]))"

section \<open>Facts\<close>

lemma cdiv_le:
  assumes "0 < n" "0 \<le> k" "a \<le> k * n"
  shows "cdiv a n \<le> k"
proof (cases "0 \<le> a")
  case True
  have "a div n \<le> (k * n) div n" using assms by (intro zdiv_mono1) auto
  then show ?thesis using True assms by (simp add: cdiv_nonneg)
next
  case False
  then have "cdiv a n = - (\<bar>a\<bar> div \<bar>n\<bar>)" using assms(1) by (simp add: cdiv_def)
  moreover have "0 \<le> \<bar>a\<bar> div \<bar>n\<bar>" by (intro pos_imp_zdiv_nonneg_iff [THEN iffD2]) (use assms in auto)
  ultimately show ?thesis using assms(2) by linarith
qed

text \<open>Only those exempt reach 999; a user without the right to log in has at most 30 days, a newcomer 15.\<close>

lemma countlife_bounds:
  assumes "lastlogin u \<le> now" "userlevel u AND PERM_XEMPT = 0" "userid u \<noteq> lit ''guest''"
  shows "countlife now u \<le> 998" "userlevel u AND PERM_LOGINOK = 0 \<Longrightarrow> countlife now u \<le> 30"
    "userlevel u AND PERM_LOGINOK = 0 \<Longrightarrow> numlogins u \<le> 3 \<Longrightarrow> countlife now u \<le> 15"
proof -
  define v where "v = cdiv (now - lastlogin u) 60"
  have "0 \<le> v" using assms(1) by (simp add: v_def cdiv_nonneg)
  then have c: "cdiv (30 * 1440 - v) 1440 \<le> 30" "cdiv (15 * 1440 - v) 1440 \<le> 15" by (intro cdiv_le; simp)+
  show "countlife now u \<le> 998" "userlevel u AND PERM_LOGINOK = 0 \<Longrightarrow> countlife now u \<le> 30"
    "userlevel u AND PERM_LOGINOK = 0 \<Longrightarrow> numlogins u \<le> 3 \<Longrightarrow> countlife now u \<le> 15"
    using assms(2,3) c by (auto simp: countlife_def Let_def simp flip: v_def)
qed

text \<open>What was saved is loaded, whatever an interrupted save has left behind.\<close>

lemma userdata_roundtrip:
  assumes "length udata = USERDATA_SIZE"
  shows "loaduserdata home (fst (saveuserdata home True fs user udata)) user = (udata, 0)"
proof -
  define p where "p = sethomefile home user (lit ''userdata'')"
  define old where "old = (case fs (sethomefile home user (lit ''newuserdata'')) of None \<Rightarrow> [] | Some m \<Rightarrow> m)"
  have "fst (saveuserdata home True fs user udata) p = Some (udata @ drop (length udata) old)"
    by (simp only: saveuserdata_def Let_def if_False p_def old_def fst_conv fun_upd_same not_True_eq_False)
  then show ?thesis
    using assms unfolding loaduserdata_def p_def [symmetric] by (simp add: pad0_def)
qed

text \<open>
  The third word of a line turns it into a permission because the line end sticks to it: a line in the
  middle of the file permits with any third word, and a last line without line end that says
  \<open>allow\<close> denies.
\<close>

lemma allow_line:
  "userbansite (\<lambda>s. 0) (lit ''h'') (Some (lit ''a b allow'' @ [10])) = False"
  "userbansite (\<lambda>s. 0) (lit ''h'') (Some (lit ''a b deny'' @ [10])) = False"
  "userbansite (\<lambda>s. 0) (lit ''h'') (Some (lit ''a b allow'')) = True"
  by code_simp+

text \<open>A network, a domain and an address.\<close>

lemma ban_examples:
  "checkbansitefile (lit ''10.0.0.7'') (Some (lit ''10.0.0.'' @ [10])) = Some True"
  "checkbansitefile (lit ''a.edu.cn'') (Some (lit ''.edu'' @ [10])) = Some True"
  "checkbansitefile (lit ''10.0.0.70'') (Some (lit ''10.0.0.7'' @ [10])) = Some False"
  by code_simp+

end
