(* ===== verification/FileOp.thy ===== *)
theory FileOp
  imports CLib
begin

text \<open>
  Operations on whole files: \<open>src/ythtlib/fileop.c\<close>.  The file system is a map from paths to the bytes of
  the regular files; outcomes the code tests for are arguments.
\<close>

type_synonym fsys = "cstr \<Rightarrow> byte list option"

section \<open>Renaming across file systems\<close>

text \<open>What one round of the copying loop meets: a read error, a write error, or a write of so many bytes.\<close>

datatype copy_step = ReadErr | WriteErr | Wrote nat

definition COPYBUF :: nat where "COPYBUF = 4096"

text \<open>
  The loop of \<open>crossfs_rename\<close>; rounds beyond the list write what was read.  A read error ends the
  loop like the end of the file.
\<close>

function copy_loop :: "byte list \<Rightarrow> byte list \<Rightarrow> copy_step list \<Rightarrow> byte list option" where
  "copy_loop src acc steps =
     (if src = [] then Some acc
      else case steps of
             [] \<Rightarrow> copy_loop (drop COPYBUF src) (acc @ take COPYBUF src) []
           | s # ss \<Rightarrow>
               (case s of
                  ReadErr \<Rightarrow> Some acc
                | WriteErr \<Rightarrow> None
                | Wrote k \<Rightarrow> copy_loop (drop COPYBUF src) (acc @ take k (take COPYBUF src)) ss))"
  by pat_completeness auto
termination by (relation "measure (\<lambda>(s, a, t). length s)") (auto simp: COPYBUF_def)

declare copy_loop.simps [simp del]

datatype rename_result = Renamed | CrossDevice | RenameFailed

definition crossfs_rename ::
  "rename_result \<Rightarrow> bool \<Rightarrow> copy_step list \<Rightarrow> bool \<Rightarrow> fsys \<Rightarrow> cstr \<Rightarrow> cstr \<Rightarrow> fsys \<times> int" where
  "crossfs_rename ren can_create steps rename2_ok fs oldpath newpath =
     (case fs oldpath of
        None \<Rightarrow> (fs, - 1)
      | Some src \<Rightarrow>
          (case ren of
             Renamed \<Rightarrow> ((fs(oldpath := None))(newpath := Some src), 0)
           | RenameFailed \<Rightarrow> (fs, - 1)
           | CrossDevice \<Rightarrow>
               if \<not> can_create then (fs, - 1)
               else let tmpfn = newpath @ lit ''.new'';
                        old = (case fs tmpfn of None \<Rightarrow> [] | Some m \<Rightarrow> m)
                    in case copy_loop src [] steps of
                         None \<Rightarrow> (fs(tmpfn := None), - 1)
                       | Some acc \<Rightarrow>
                           if \<not> rename2_ok then (fs(tmpfn := None), - 1)
                           else ((fs(tmpfn := None, newpath := Some (acc @ drop (length acc) old)))(oldpath := None), 0)))"

section \<open>Copying and writing\<close>

text \<open>
  \<open>copyfile\<close>: for an empty source the seek to the last byte fails, a NUL is written at the start, and the
  mapping of no bytes is refused.
\<close>

definition copyfile :: "bool \<Rightarrow> bool \<Rightarrow> fsys \<Rightarrow> cstr \<Rightarrow> cstr \<Rightarrow> fsys \<times> int" where
  "copyfile can_create can_map fs src dst =
     (case fs src of
        None \<Rightarrow> (fs, - 1)
      | Some m \<Rightarrow>
          if \<not> can_create then (fs, - 1)
          else let m' = (if dst = src then [] else m)
               in if m' = [] then (fs(dst := Some [0]), - 1)
                  else if \<not> can_map then (fs(dst := Some (replicate (length m') 0)), - 1)
                  else (fs(dst := Some m'), 0))"

definition f_write :: "bool \<Rightarrow> fsys \<Rightarrow> cstr \<Rightarrow> cstr \<Rightarrow> fsys \<times> int" where
  "f_write can_open fs file buf =
     (if \<not> can_open then (fs, - 1)
      else let old = (case fs file of None \<Rightarrow> [] | Some m \<Rightarrow> m)
           in (fs(file := Some (buf @ drop (length buf) old)), 0))"

definition f_append :: "bool \<Rightarrow> fsys \<Rightarrow> cstr \<Rightarrow> cstr \<Rightarrow> fsys \<times> int" where
  "f_append can_open fs file buf =
     (if \<not> can_open then (fs, - 1)
      else let old = (case fs file of None \<Rightarrow> [] | Some m \<Rightarrow> m)
           in (fs(file := Some (old @ buf)), 0))"

section \<open>Clearing a directory\<close>

definition bad_name_chars :: "byte list" where
  "bad_name_chars = [92, 47, 126, 96, 33, 64, 35, 36, 37, 94, 38, 42, 40, 41, 124, 123, 125, 91, 93, 59, 58, 34, 39, 60,
     62, 44, 63]"

definition bad_char :: "byte \<Rightarrow> bool" where
  "bad_char c \<longleftrightarrow> (0 < c \<and> c < 32) \<or> c \<in> {32, 9, 10, 11, 12, 13} \<or> c \<in> set bad_name_chars"

definition checkfilename :: "cstr \<Rightarrow> int" where
  "checkfilename str =
     (if str = [] \<or> str = lit ''.'' \<or> str = lit ''..'' then - 1
      else if list_ex bad_char str then - 1 else 0)"

text \<open>
  \<open>clearpath\<close> over the names in the order of the directory; a name that makes the path too long ends the
  walk.  The check leaves no room for the slash, so that one length overflows the buffer (\<open>None\<close>).
\<close>

fun clear_loop :: "fsys \<Rightarrow> cstr \<Rightarrow> cstr list \<Rightarrow> fsys option" where
  "clear_loop fs path [] = Some fs"
| "clear_loop fs path (n # ns) =
     (if n = lit ''..'' \<or> n = lit ''.'' then clear_loop fs path ns
      else if checkfilename n \<noteq> 0 then clear_loop fs path ns
      else if length n + length path \<ge> 1024 then Some fs
      else if length n + length path + 2 > 1024 then None
      else clear_loop (fs(path @ 47 # n := None)) path ns)"

definition clearpath :: "fsys \<Rightarrow> cstr \<Rightarrow> cstr list option \<Rightarrow> (fsys \<times> int) option" where
  "clearpath fs path names =
     (case names of
        None \<Rightarrow> Some (fs, - 1)
      | Some ns \<Rightarrow> map_option (\<lambda>fs'. (fs', 0)) (clear_loop fs path ns))"

section \<open>Facts\<close>

lemma copy_loop_all: "copy_loop src acc [] = Some (acc @ src)"
proof (induction src arbitrary: acc rule: length_induct)
  case (1 src)
  show ?case
  proof (cases "src = []")
    case False
    then have "length (drop COPYBUF src) < length src" by (simp add: COPYBUF_def)
    then have "copy_loop (drop COPYBUF src) (acc @ take COPYBUF src) [] = Some ((acc @ take COPYBUF src) @ drop COPYBUF src)"
      using 1 by blast
    then show ?thesis using False by (subst copy_loop.simps) simp
  qed (simp add: copy_loop.simps)
qed

text \<open>Without errors the file moves, unless an interrupted copy has left a longer one behind.\<close>

lemma crossfs_moves:
  assumes "fs oldpath = Some src" "oldpath \<noteq> newpath" "oldpath \<noteq> newpath @ lit ''.new''"
    "case fs (newpath @ lit ''.new'') of None \<Rightarrow> True | Some m \<Rightarrow> length m \<le> length src"
  shows "\<exists>fs'. crossfs_rename CrossDevice True [] True fs oldpath newpath = (fs', 0)
     \<and> fs' newpath = Some src \<and> fs' oldpath = None \<and> fs' (newpath @ lit ''.new'') = None
     \<and> (\<forall>p. p \<notin> {oldpath, newpath, newpath @ lit ''.new''} \<longrightarrow> fs' p = fs p)"
  using assms copy_loop_all [of src "[]"]
  by (auto simp: crossfs_rename_def Let_def split: option.splits)

text \<open>
  A read error in the middle is taken for the end of the file: the start of the file is renamed to the
  new name, the source is removed, and the result is 0.
\<close>

lemma crossfs_read_error:
  assumes "fs oldpath = Some src" "src \<noteq> []" "fs (newpath @ lit ''.new'') = None" "oldpath \<noteq> newpath"
  shows "\<exists>fs'. crossfs_rename CrossDevice True [ReadErr] True fs oldpath newpath = (fs', 0)
     \<and> fs' newpath = Some [] \<and> fs' oldpath = None"
proof -
  have "copy_loop src [] [ReadErr] = Some []" using assms(2) by (subst copy_loop.simps) simp
  then show ?thesis using assms by (auto simp: crossfs_rename_def Let_def)
qed

lemma copyfile_ok: "fs src = Some m \<Longrightarrow> m \<noteq> [] \<Longrightarrow> dst \<noteq> src \<Longrightarrow> copyfile True True fs src dst = (fs(dst \<mapsto> m), 0)"
  by (simp add: copyfile_def Let_def)

lemma copyfile_empty: "fs src = Some [] \<Longrightarrow> copyfile True True fs src dst = (fs(dst \<mapsto> [0]), - 1)"
  by (simp add: copyfile_def Let_def)

text \<open>\<open>clearpath\<close> removes exactly the files with acceptable names when the paths are short.\<close>

lemma clear_loop_short:
  "\<forall>n \<in> set ns. length n + length path + 2 \<le> 1024 \<Longrightarrow>
   \<exists>fs'. clear_loop fs path ns = Some fs' \<and>
     (\<forall>p. fs' p = (if \<exists>n \<in> set ns. checkfilename n = 0 \<and> p = path @ 47 # n then None else fs p))"
proof (induction fs path ns rule: clear_loop.induct)
  case (2 fs path n ns)
  have dots: "checkfilename (lit ''..'') \<noteq> 0" "checkfilename (lit ''.'') \<noteq> 0" by (simp_all add: checkfilename_def)
  show ?case
  proof (cases "checkfilename n = 0")
    case True
    then have n: "n \<noteq> lit ''..''" "n \<noteq> lit ''.''" using dots by auto
    have len: "\<not> length n + length path \<ge> 1024" "\<not> length n + length path + 2 > 1024" using 2(4) by auto
    define fs1 where "fs1 = fs(path @ 47 # n := None)"
    have e: "clear_loop fs path (n # ns) = clear_loop fs1 path ns" using True n len by (simp add: fs1_def)
    have "\<exists>fs'. clear_loop fs1 path ns = Some fs' \<and>
        (\<forall>p. fs' p = (if \<exists>n \<in> set ns. checkfilename n = 0 \<and> p = path @ 47 # n then None else fs1 p))"
      unfolding fs1_def by (rule 2(3)) (use n True len 2(4) in auto)
    then obtain fs' where f: "clear_loop fs1 path ns = Some fs'"
      "\<And>p. fs' p = (if \<exists>n \<in> set ns. checkfilename n = 0 \<and> p = path @ 47 # n then None else fs1 p)" by blast
    show ?thesis unfolding e by (rule exI [of _ fs']) (use f True in \<open>auto simp: fs1_def\<close>)
  next
    case False
    have "clear_loop fs path (n # ns) = clear_loop fs path ns" using False by simp
    moreover have "\<exists>fs'. clear_loop fs path ns = Some fs' \<and>
        (\<forall>p. fs' p = (if \<exists>n \<in> set ns. checkfilename n = 0 \<and> p = path @ 47 # n then None else fs p))"
      using 2(1,2,4) False by (cases "n = lit ''..'' \<or> n = lit ''.''") auto
    ultimately show ?thesis using False by auto
  qed
qed simp

end
