(* ===== verification/Attach.thy ===== *)
theory Attach
  imports UUCode FileOp StrOp
begin

text \<open>
  Attachments behind the text of an article: \<open>src/libythtbbs/binaryattach.c\<close> writes and recognises them,
  \<open>src/libythtbbs/attach.c\<close> takes them out of an article or unpacks them.  A file open for reading is its
  bytes and a position.  The loops are cut off by fuel, because a length field read as a negative
  \<open>int\<close> moves the position back.
\<close>

section \<open>Writing\<close>

definition Mark :: cstr where "Mark = lit ''beginbinaryattach ''"

definition attach_bytes :: "cstr \<Rightarrow> byte list \<Rightarrow> byte list" where
  "attach_bytes name d = 10 # Mark @ name @ 10 # 0 # be32_bytes (length d) @ d"

text \<open>\<open>disk_ok\<close>: the size check behind the write succeeds.\<close>

definition appendonebinaryattach :: "bool \<Rightarrow> bool \<Rightarrow> fsys \<Rightarrow> cstr \<Rightarrow> cstr \<Rightarrow> cstr \<Rightarrow> fsys \<times> int" where
  "appendonebinaryattach can_open disk_ok fs filename attachname attachfname =
     (case fs attachfname of
        None \<Rightarrow> (fs, - 1)
      | Some d \<Rightarrow>
          if \<not> can_open then (fs, - 1)
          else let old = (case fs filename of None \<Rightarrow> [] | Some m \<Rightarrow> m)
               in if \<not> disk_ok then (fs(filename := Some old), - 1)
                  else ((fs(filename := Some (old @ attach_bytes attachname d)))(attachfname := None), 0))"

text \<open>\<open>appendbinaryattach\<close>: one file of the user's directory by name, or all of them in the order given.\<close>

fun append_all :: "bool \<Rightarrow> fsys \<Rightarrow> cstr \<Rightarrow> cstr \<Rightarrow> cstr list \<Rightarrow> int \<Rightarrow> fsys \<times> int" where
  "append_all disk_ok fs filename path [] count = (fs, count)"
| "append_all disk_ok fs filename path (n # ns) count =
     (if n = lit ''..'' \<or> n = lit ''.'' then append_all disk_ok fs filename path ns count
      else let (fs', r) = appendonebinaryattach True disk_ok fs filename n (take 1023 (path @ 47 # n))
           in append_all disk_ok fs' filename path ns (if r = 0 then count + 1 else count))"

definition appendbinaryattach ::
  "cstr \<Rightarrow> bool \<Rightarrow> fsys \<Rightarrow> cstr \<Rightarrow> cstr \<Rightarrow> cstr option \<Rightarrow> cstr list option \<Rightarrow> fsys \<times> int" where
  "appendbinaryattach PATHUSERATTACH disk_ok fs filename user attachname names =
     (let path = take 1023 (PATHUSERATTACH @ 47 # user) in
      case attachname of
        Some a \<Rightarrow>
          let attachfname = take 1023 (PATHUSERATTACH @ 47 # user @ 47 # a)
          in if strstr attachfname (lit ''/../'') \<noteq> None then (fs, - 1)
             else let (fs', r) = appendonebinaryattach True disk_ok fs filename a attachfname
                  in (fs', if r = 0 then 1 else 0)
      | None \<Rightarrow> (case names of None \<Rightarrow> (fs, - 1) | Some ns \<Rightarrow> append_all disk_ok fs filename path ns 0))"

section \<open>Recognising\<close>

text \<open>
  \<open>checkbinaryattach\<close> at a position behind the line \<open>buf\<close>: name and length of an attachment and the new
  position.  \<open>None\<close>: the file ends there, and the code goes on with a byte or a length it has not read.
\<close>

definition checkbinaryattach :: "byte list \<Rightarrow> nat \<Rightarrow> cstr \<Rightarrow> ((cstr \<times> int) option \<times> nat) option" where
  "checkbinaryattach file p buf =
     (if take 18 buf \<noteq> Mark then Some (None, p)
      else case drop p file of
             [] \<Rightarrow> None
           | ch # r \<Rightarrow>
               if ch \<noteq> 0 then Some (None, p)
               else if length r < 4 then None
               else Some (Some (drop 18 (takeWhile (\<lambda>c. c \<noteq> 10) (takeWhile (\<lambda>c. c \<noteq> 13) buf)), be32 (take 4 r)), p + 5))"

definition fseek_cur :: "nat \<Rightarrow> int \<Rightarrow> nat" where
  "fseek_cur p n = (if int p + n < 0 then p else nat (int p + n))"

section \<open>Taking attachments out\<close>

primrec filter_loop :: "nat \<Rightarrow> byte list \<Rightarrow> nat \<Rightarrow> byte list \<Rightarrow> bool \<Rightarrow> (byte list \<times> bool) option" where
  "filter_loop 0 file p tmp hasa = None"
| "filter_loop (Suc f) file p tmp hasa =
     (case fgets 2048 (drop p file) of
        None \<Rightarrow> Some (tmp, hasa)
      | Some (l, r) \<Rightarrow>
          if take 10 (zstr l) = lit ''begin 644 ''
          then filter_loop f file (length file - length (fst (fakedecode r))) tmp True
          else case checkbinaryattach file (length file - length r) (zstr l) of
                 None \<Rightarrow> None
               | Some (Some (n, len), p') \<Rightarrow> filter_loop f file (fseek_cur p' len) tmp True
               | Some (None, p') \<Rightarrow> filter_loop f file p' (tmp @ zstr l) hasa)"

definition filter_attach :: "nat \<Rightarrow> byte list \<Rightarrow> byte list option" where
  "filter_attach fuel file = map_option (\<lambda>(tmp, hasa). if hasa then tmp else file) (filter_loop fuel file 0 [] False)"

section \<open>Unpacking\<close>

text \<open>The stream behind the attachment and the result; writing and mapping succeed when the file can be created.\<close>

definition comfakedecode :: "byte list \<Rightarrow> nat \<Rightarrow> bool \<Rightarrow> int \<Rightarrow> nat \<times> int" where
  "comfakedecode file p base64 len =
     (if base64 then (let (r, k) = fakedecode (drop p file) in (length file - length r, k))
      else (fseek_cur p len, if int p + len < 0 then - 1 else 0))"

definition comdecode ::
  "bool \<Rightarrow> fsys \<Rightarrow> byte list \<Rightarrow> nat \<Rightarrow> cstr \<Rightarrow> bool \<Rightarrow> int \<Rightarrow> (fsys \<times> nat \<times> int) option" where
  "comdecode can_create fs file p name base64 len =
     (if base64
      then map_option (\<lambda>(fs', r, k). (fs', length file - length r, k)) (uudecode can_create fs (drop p file) name)
      else if \<not> can_create then Some (fs, p, - 1)
      else if len \<le> 0 then Some (fs(name := None), p, - 1)
      else let d = take (nat len) (drop p file)
           in Some (fs(name := Some (pad0 (nat len) d)), p + length d, 0))"

definition getattach ::
  "bool \<Rightarrow> bool \<Rightarrow> fsys \<Rightarrow> byte list \<Rightarrow> nat \<Rightarrow> cstr \<Rightarrow> cstr \<Rightarrow> bool \<Rightarrow> int \<Rightarrow> bool \<Rightarrow> (fsys \<times> nat \<times> int) option" where
  "getattach can_create dir_ok fs file p attachfile path base64 len fake =
     (let buf = take 4096 path in
      if strstr buf (lit ''..'') \<noteq> None \<or> \<not> dir_ok
      then (let (p', k) = comfakedecode file p base64 len in Some (fs, p', if k \<noteq> 0 then - 1 else - 11))
      else if attachfile = [] then None
      else let a = (if last attachfile = 10 then butlast attachfile else attachfile)
           in if length a > 255 \<or> length buf + length a + 1 > 4096
              then (let (p', k) = comfakedecode file p base64 len in Some (fs, p', if k \<noteq> 0 then - 2 else - 12))
              else if fake
              then (let (p', k) = comfakedecode file p base64 len in Some (fs, p', if k \<noteq> 0 then - 3 else 0))
              else map_option (\<lambda>(fs', p', k). (fs', p', if k \<noteq> 0 then - 3 else 0))
                     (comdecode can_create fs file p (buf @ 47 # a) base64 len))"

text \<open>
  The loops of \<open>decode_attach\<close> and \<open>copyfile_attach\<close>.  The test for a uuencoded attachment compares ten
  characters with a string of nine, so only a line that is this string and nothing else passes
  it, and then the name is taken from behind the end of the line (\<open>None\<close>).
\<close>

definition empty_line :: "cstr \<Rightarrow> bool" where
  "empty_line s \<longleftrightarrow> s = [13, 10] \<or> s = [10]"

definition uu_line :: "cstr \<Rightarrow> bool" where
  "uu_line s \<longleftrightarrow> s = lit ''begin 644''"

primrec decode_loop :: "nat \<Rightarrow> bool \<Rightarrow> bool \<Rightarrow> fsys \<Rightarrow> byte list \<Rightarrow> nat \<Rightarrow> cstr \<Rightarrow> bool \<Rightarrow> fsys option" where
  "decode_loop 0 can_create dir_ok fs file p path isa = None"
| "decode_loop (Suc f) can_create dir_ok fs file p path isa =
     (case fgets 500 (drop p file) of
        None \<Rightarrow> Some fs
      | Some (l, r) \<Rightarrow>
          let p1 = length file - length r in
          if isa \<and> empty_line (zstr l) then decode_loop f can_create dir_ok fs file p1 path isa
          else if uu_line (zstr l) then None
          else case checkbinaryattach file p1 (zstr l) of
                 None \<Rightarrow> None
               | Some (None, p') \<Rightarrow> decode_loop f can_create dir_ok fs file p' path False
               | Some (Some (n, len), p') \<Rightarrow>
                   (case getattach can_create dir_ok fs file p' n path False len False of
                      None \<Rightarrow> None
                    | Some (fs', p2, k) \<Rightarrow> decode_loop f can_create dir_ok fs' file p2 path True))"

definition decode_attach :: "nat \<Rightarrow> bool \<Rightarrow> bool \<Rightarrow> fsys \<Rightarrow> cstr \<Rightarrow> cstr \<Rightarrow> (fsys \<times> int) option" where
  "decode_attach fuel can_create dir_ok fs filename path =
     (case fs filename of
        None \<Rightarrow> Some (fs, - 1)
      | Some file \<Rightarrow> map_option (\<lambda>fs'. (fs', 0)) (decode_loop fuel can_create dir_ok fs file 0 path False))"

section \<open>What was appended is recognised and unpacked\<close>

definition text_bytes :: "cstr list \<Rightarrow> byte list" where
  "text_bytes ss = concat (map (\<lambda>s. s @ [10]) ss)"

definition atts_bytes :: "(cstr \<times> byte list) list \<Rightarrow> byte list" where
  "atts_bytes as = concat (map (\<lambda>(n, d). attach_bytes n d) as)"

text \<open>A line that is not taken for an attachment, and an attachment that can be unpacked.\<close>

definition text_line :: "cstr \<Rightarrow> bool" where
  "text_line s \<longleftrightarrow> 0 \<notin> set s \<and> 10 \<notin> set s \<and> length s < 498 \<and> take 9 s \<noteq> lit ''begin 644'' \<and> take 18 s \<noteq> Mark"

definition att_ok :: "cstr \<times> byte list \<Rightarrow> bool" where
  "att_ok a \<longleftrightarrow> fst a \<noteq> [] \<and> length (fst a) \<le> 255 \<and> 0 \<notin> set (fst a) \<and> 10 \<notin> set (fst a) \<and> 13 \<notin> set (fst a)
     \<and> snd a \<noteq> [] \<and> length (snd a) < 2147483648"

definition path_ok :: "cstr \<Rightarrow> bool" where
  "path_ok p \<longleftrightarrow> strstr p (lit ''..'') = None \<and> length p \<le> 3840"

lemma length_Mark [simp]: "length Mark = 18"
  by (simp add: Mark_def lit_def)

lemma Mark_chars: "0 \<notin> set Mark" "10 \<notin> set Mark" "13 \<notin> set Mark"
  by (simp_all add: Mark_def lit_def)

lemma take_line_ne:
  assumes "c \<notin> set k" "take (length k) s \<noteq> k"
  shows "take (length k) (s @ c # t) \<noteq> k"
proof
  assume a: "take (length k) (s @ c # t) = k"
  show False
  proof (cases "length k \<le> length s")
    case True
    then show ?thesis using a assms(2) by simp
  next
    case False
    then have "c \<in> set (take (length k) (s @ c # t))" by (cases "length k - length s") auto
    then show ?thesis using a assms(1) by (simp del: take_append)
  qed
qed

lemma drop_at: "xs = ys @ zs \<Longrightarrow> n = length ys \<Longrightarrow> drop n xs = zs"
  by simp

lemma text_line_no_mark:
  assumes "text_line s"
  shows "take 18 (s @ [10]) \<noteq> Mark" "take 10 (s @ [10]) \<noteq> lit ''begin 644 ''" "\<not> uu_line (s @ [10])"
proof -
  have s: "take 9 s \<noteq> lit ''begin 644''" "take (length Mark) s \<noteq> Mark" using assms by (simp_all add: text_line_def)
  show "take 18 (s @ [10]) \<noteq> Mark" using take_line_ne [OF Mark_chars(2) s(2), of "[]"] by simp
  have "take 9 (s @ [10]) \<noteq> lit ''begin 644''"
  proof -
    have "length (lit ''begin 644'') = 9" "10 \<notin> set (lit ''begin 644'')" by (simp_all add: lit_def)
    then show ?thesis using take_line_ne [of 10 "lit ''begin 644''" s "[]"] s(1) by metis
  qed
  moreover have "take 9 (take 10 (s @ [10])) = take 9 (s @ [10])" by (simp del: take_append)
  moreover have "take 9 (lit ''begin 644 '') = lit ''begin 644''" by (simp add: lit_def)
  ultimately show "take 10 (s @ [10]) \<noteq> lit ''begin 644 ''" by metis
  have "last (s @ [10]) \<noteq> last (lit ''begin 644'')" by (simp add: lit_def)
  then show "\<not> uu_line (s @ [10])" unfolding uu_line_def by metis
qed

lemma fgets_text:
  assumes "0 \<notin> set s" "10 \<notin> set s" "length s < 498" "500 \<le> n"
  shows "fgets n (s @ 10 # r) = Some (s @ [10], r)" "zstr (s @ [10]) = s @ [10]"
  using assms by (auto intro!: fgets_line zstr_id)

lemma text_line_fgets:
  assumes "text_line s" "500 \<le> n"
  shows "fgets n (s @ 10 # r) = Some (s @ [10], r)" "zstr (s @ [10]) = s @ [10]"
  using assms fgets_text by (auto simp: text_line_def)

lemma check_text: "text_line s \<Longrightarrow> checkbinaryattach file p (s @ [10]) = Some (None, p)"
  using text_line_no_mark(1) by (simp add: checkbinaryattach_def)

lemma text_line_Nil [simp]: "text_line []"
  by (simp add: text_line_def Mark_def lit_def)

lemma att_line:
  assumes "att_ok (n, d)" "500 \<le> k"
  shows "fgets k (Mark @ n @ 10 # r) = Some (Mark @ n @ [10], r)" "zstr (Mark @ n @ [10]) = Mark @ n @ [10]"
  using fgets_text [of "Mark @ n"] assms Mark_chars by (auto simp: att_ok_def)

lemma att_line_no_uu: "take 10 (Mark @ n) \<noteq> lit ''begin 644 ''" "\<not> uu_line (Mark @ n)"
  by (simp_all add: uu_line_def Mark_def lit_def)

lemma check_att:
  assumes "att_ok (n, d)" "drop p file = 0 # be32_bytes (length d) @ r"
  shows "checkbinaryattach file p (Mark @ n @ [10]) = Some (Some (n, int (length d)), p + 5)"
proof -
  have "takeWhile (\<lambda>c. c \<noteq> 13) (Mark @ n @ [10]) = Mark @ n @ [10]" "takeWhile (\<lambda>c. c \<noteq> 10) (Mark @ n @ [10]) = Mark @ n"
    using assms(1) Mark_chars by (auto simp: att_ok_def takeWhile_eq_all_conv takeWhile_append)
  then show ?thesis using assms by (simp add: checkbinaryattach_def be32_roundtrip att_ok_def)
qed


lemmas attach_step = text_line_fgets check_text text_line_no_mark att_line att_line_no_uu check_att

lemma filter_line:
  assumes "text_line s"
  shows "filter_loop (Suc f) (pre @ s @ 10 # r) (length pre) tmp h
    = filter_loop f (pre @ s @ 10 # r) (length (pre @ s @ [10])) (tmp @ s @ [10]) h"
  using text_line_fgets(1) [OF assms, of 2048 r] text_line_fgets(2) [OF assms, of 2048] text_line_no_mark [OF assms] check_text [OF assms] by simp

lemma filter_text:
  assumes "\<forall>s \<in> set ss. text_line s"
  shows "filter_loop (length ss + f) (pre @ text_bytes ss @ r) (length pre) tmp h
    = filter_loop f (pre @ text_bytes ss @ r) (length (pre @ text_bytes ss)) (tmp @ text_bytes ss) h"
  using assms
proof (induction ss arbitrary: pre tmp)
  case (Cons s ss)
  then show ?case
    using filter_line [of s "length ss + f" pre "text_bytes ss @ r" tmp h] Cons.IH [of "pre @ s @ [10]" "tmp @ s @ [10]"]
    by (simp add: text_bytes_def)
qed (simp add: text_bytes_def)

lemma filter_att:
  assumes "att_ok (n, d)"
  shows "filter_loop (Suc (Suc f)) (pre @ attach_bytes n d @ r) (length pre) tmp h
    = filter_loop f (pre @ attach_bytes n d @ r) (length (pre @ attach_bytes n d)) (tmp @ [10]) True"
proof -
  let ?q = "0 # be32_bytes (length d) @ d @ r"
  have "filter_loop (Suc (Suc f)) (pre @ attach_bytes n d @ r) (length pre) tmp h
      = filter_loop (Suc f) ((pre @ [10]) @ Mark @ n @ 10 # ?q) (length (pre @ [10])) (tmp @ [10]) h"
    using filter_line [of "[]" "Suc f" pre "Mark @ n @ 10 # ?q" tmp h] by (simp add: attach_bytes_def)
  also have "\<dots> = filter_loop f ((pre @ [10]) @ Mark @ n @ 10 # ?q) (length (pre @ attach_bytes n d)) (tmp @ [10]) True"
  proof -
    have p: "drop (20 + (length pre + length n)) (pre @ 10 # Mark @ n @ 10 # ?q) = ?q"
      by (rule drop_at [of _ "pre @ 10 # Mark @ n @ [10]"]) simp_all
    show ?thesis
      using att_line(1) [OF assms, of 2048 ?q] att_line(2) [OF assms, of 2048] att_line_no_uu(1) [of "n @ [10]"] check_att [OF assms p]
      by (simp add: fseek_cur_def attach_bytes_def nat_add_distrib add_ac)
  qed
  finally show ?thesis by (simp add: attach_bytes_def)
qed

lemma filter_atts:
  assumes "\<forall>a \<in> set as. att_ok a"
  shows "filter_loop (2 * length as + Suc f) (pre @ atts_bytes as) (length pre) tmp h
    = Some (tmp @ replicate (length as) 10, h \<or> as \<noteq> [])"
  using assms
proof (induction as arbitrary: pre tmp h)
  case Nil
  then show ?case by (simp add: atts_bytes_def fgets_def)
next
  case (Cons a as)
  obtain n d where a: "a = (n, d)" by (cases a)
  show ?case
    using filter_att [of n d "2 * length as + Suc f" pre "atts_bytes as" tmp h]
      Cons.IH [of "pre @ attach_bytes n d" "tmp @ [10]" True] Cons.prems a
    by (simp add: atts_bytes_def replicate_append_same)
qed


lemma filter_keeps_text:
  assumes "\<forall>s \<in> set ss. text_line s" "\<forall>a \<in> set as. att_ok a"
  shows "filter_attach (length ss + (2 * length as + Suc f)) (text_bytes ss @ atts_bytes as)
    = Some (text_bytes ss @ replicate (length as) 10)"
  using filter_text [OF assms(1), of "2 * length as + Suc f" "[]" "atts_bytes as" "[]" False]
    filter_atts [OF assms(2), of f "text_bytes ss" "text_bytes ss" False]
  by (cases "as = []") (simp_all add: filter_attach_def atts_bytes_def)

lemma decode_line:
  assumes "text_line s"
  shows "\<exists>isa'. decode_loop (Suc f) cc ok fs (pre @ s @ 10 # r) (length pre) path isa
    = decode_loop f cc ok fs (pre @ s @ 10 # r) (length (pre @ s @ [10])) path isa'"
  using text_line_fgets(1) [OF assms, of 500 r] text_line_fgets(2) [OF assms, of 500] text_line_no_mark [OF assms]
    check_text [OF assms] by auto

lemma decode_text:
  assumes "\<forall>s \<in> set ss. text_line s"
  shows "\<exists>isa'. decode_loop (length ss + f) cc ok fs (pre @ text_bytes ss @ r) (length pre) path isa
    = decode_loop f cc ok fs (pre @ text_bytes ss @ r) (length (pre @ text_bytes ss)) path isa'"
  using assms
proof (induction ss arbitrary: pre isa)
  case (Cons s ss)
  obtain isa' where "decode_loop (length (s # ss) + f) cc ok fs (pre @ text_bytes (s # ss) @ r) (length pre) path isa
      = decode_loop (length ss + f) cc ok fs ((pre @ s @ [10]) @ text_bytes ss @ r) (length (pre @ s @ [10])) path isa'"
    using decode_line [of s "length ss + f" cc ok fs pre "text_bytes ss @ r" path isa] Cons.prems
    by (auto simp: text_bytes_def)
  then show ?case using Cons.IH [of "pre @ s @ [10]" isa'] Cons.prems by (auto simp: text_bytes_def)
qed (auto simp: text_bytes_def)

lemma getattach_att:
  assumes "att_ok (n, d)" "path_ok path" "drop p file = d @ r"
  shows "getattach True True fs file p n path False (int (length d)) False
    = Some (fs(path @ 47 # n := Some d), p + length d, 0)"
proof -
  have n: "n \<noteq> []" "last n \<noteq> 10" using assms(1) last_in_set [of n] unfolding att_ok_def fst_conv by metis+
  have "take 4096 path = path" using assms(2) by (simp add: path_ok_def)
  then show ?thesis using assms n by (simp add: getattach_def comdecode_def att_ok_def path_ok_def pad0_def Let_def)
qed

lemma decode_att:
  assumes "att_ok (n, d)" "path_ok path"
  shows "decode_loop (Suc (Suc f)) True True fs (pre @ attach_bytes n d @ r) (length pre) path isa
    = decode_loop f True True (fs(path @ 47 # n := Some d)) (pre @ attach_bytes n d @ r)
        (length (pre @ attach_bytes n d)) path True"
proof -
  let ?q = "0 # be32_bytes (length d) @ d @ r"
  let ?file = "pre @ 10 # Mark @ n @ 10 # ?q"
  obtain isa' where 1: "decode_loop (Suc (Suc f)) True True fs ?file (length pre) path isa
      = decode_loop (Suc f) True True fs ((pre @ [10]) @ Mark @ n @ 10 # ?q) (length (pre @ [10])) path isa'"
    using decode_line [of "[]" "Suc f" True True fs pre "Mark @ n @ 10 # ?q" path isa] by auto
  have p: "drop (20 + (length pre + length n)) ?file = ?q"
    by (rule drop_at [of _ "pre @ 10 # Mark @ n @ [10]"]) simp_all
  have p2: "drop (25 + (length pre + length n)) ?file = d @ r"
    by (rule drop_at [of _ "pre @ 10 # Mark @ n @ 10 # 0 # be32_bytes (length d)"]) simp_all
  have e: "\<not> empty_line (Mark @ n @ [10])" by (simp add: empty_line_def Mark_def lit_def)
  have 2: "decode_loop (Suc f) True True fs ((pre @ [10]) @ Mark @ n @ 10 # ?q) (length (pre @ [10])) path isa'
      = decode_loop f True True (fs(path @ 47 # n := Some d)) ?file (length (pre @ attach_bytes n d)) path True"
    using att_line(1) [OF assms(1), of 500 ?q] att_line(2) [OF assms(1), of 500] att_line_no_uu(2) [of "n @ [10]"]
      check_att [OF assms(1) p] getattach_att [OF assms p2] e
    by (simp add: attach_bytes_def add_ac)
  show ?thesis using 1 2 by (simp add: attach_bytes_def)
qed

definition unpacked :: "fsys \<Rightarrow> cstr \<Rightarrow> (cstr \<times> byte list) list \<Rightarrow> fsys" where
  "unpacked fs path as = foldl (\<lambda>s (n, d). s(path @ 47 # n := Some d)) fs as"

lemma decode_atts:
  assumes "\<forall>a \<in> set as. att_ok a" "path_ok path"
  shows "decode_loop (2 * length as + Suc f) True True fs (pre @ atts_bytes as) (length pre) path isa
    = Some (unpacked fs path as)"
  using assms(1)
proof (induction as arbitrary: pre fs isa)
  case Nil
  then show ?case by (simp add: atts_bytes_def unpacked_def fgets_def)
next
  case (Cons a as)
  obtain n d where a: "a = (n, d)" by (cases a)
  show ?case
    using decode_att [of n d path "2 * length as + Suc f" fs pre "atts_bytes as" isa]
      Cons.IH [where pre = "pre @ attach_bytes n d" and fs = "fs(path @ 47 # n := Some d)" and isa = True] Cons.prems assms(2) a
    by (simp add: atts_bytes_def unpacked_def fun_upd_def del: decode_loop.simps)
qed

lemma decode_unpacks:
  assumes "\<forall>s \<in> set ss. text_line s" "\<forall>a \<in> set as. att_ok a" "path_ok path"
    "fs f = Some (text_bytes ss @ atts_bytes as)"
  shows "decode_attach (length ss + (2 * length as + Suc k)) True True fs f path = Some (unpacked fs path as, 0)"
  using decode_text [OF assms(1), of "2 * length as + Suc k" True True fs "[]" "atts_bytes as" path False]
    decode_atts [OF assms(2,3), of k fs "text_bytes ss"] assms(4)
  by (auto simp: decode_attach_def)

end
