(* ===== verification/AttachEdit.thy ===== *)
theory AttachEdit
  imports Attach
begin

text \<open>
  Attachments across an edit of an article: \<open>copyfile_attach\<close> and the two functions of
  \<open>src/libythtbbs/attach.c\<close> that put attachments back behind an edited text, in the order in which
  \<open>edit_post\<close> of \<open>src/src/bbs.c\<close> calls them.
\<close>

section \<open>The text with its list of attachments\<close>

text \<open>\<open>copyfile_attach\<close>: the text with one line \<open>#attach\<close> for every attachment.\<close>

primrec copy_attach_loop :: "nat \<Rightarrow> byte list \<Rightarrow> nat \<Rightarrow> bool \<Rightarrow> byte list \<Rightarrow> byte list option" where
  "copy_attach_loop 0 file p isa out = None"
| "copy_attach_loop (Suc f) file p isa out =
     (case fgets 500 (drop p file) of
        None \<Rightarrow> Some out
      | Some (l, r) \<Rightarrow>
          let p1 = length file - length r in
          if isa \<and> empty_line (zstr l) then copy_attach_loop f file p1 isa out
          else if uu_line (zstr l) then None
          else case checkbinaryattach file p1 (zstr l) of
                 None \<Rightarrow> None
               | Some (None, p') \<Rightarrow> copy_attach_loop f file p' False (out @ zstr l)
               | Some (Some (n, len), p') \<Rightarrow>
                   (case getattach True True Map.empty file p' n (lit ''/tmp'') False len True of
                      None \<Rightarrow> None
                    | Some (fs', p2, k) \<Rightarrow>
                        copy_attach_loop f file p2 True
                          (if k = 0 then out @ lit ''#attach '' @ n @ [10] else out)))"

definition copyfile_attach :: "nat \<Rightarrow> bool \<Rightarrow> fsys \<Rightarrow> cstr \<Rightarrow> cstr \<Rightarrow> (fsys \<times> int) option" where
  "copyfile_attach fuel can_create fs source target =
     (case fs source of
        None \<Rightarrow> Some (fs, - 1)
      | Some file \<Rightarrow>
          if \<not> can_create then Some (fs, - 1)
          else map_option (\<lambda>res. (fs(target := Some res), 0)) (copy_attach_loop fuel file 0 False []))"

section \<open>Putting attachments behind a text\<close>

definition app_file :: "fsys \<Rightarrow> cstr \<Rightarrow> byte list \<Rightarrow> fsys" where
  "app_file fs f b = fs(f := Some ((case fs f of None \<Rightarrow> [] | Some m \<Rightarrow> m) @ b))"

text \<open>
  \<open>insertattachments\<close> over the pieces \<open>strsep\<close> finds; \<open>first\<close>: the piece is the start of the content.
\<close>

fun strsep_lines :: "cstr \<Rightarrow> cstr list" where
  "strsep_lines [] = [[]]"
| "strsep_lines (c # s) =
     (if c = 10 then [] # strsep_lines s
      else case strsep_lines s of [] \<Rightarrow> [[c]] | l # ls \<Rightarrow> (c # l) # ls)"

definition attach_name :: "cstr \<Rightarrow> cstr" where
  "attach_name l =
     (let s = takeWhile (\<lambda>c. c \<noteq> 47) (takeWhile (\<lambda>c. c \<noteq> 13) l)
      in case strrchr s 32 of None \<Rightarrow> [] | Some i \<Rightarrow> dropWhile (\<lambda>c. c = 32 \<or> c = 9) (drop i s))"

fun insert_pieces :: "cstr \<Rightarrow> bool \<Rightarrow> fsys \<Rightarrow> cstr \<Rightarrow> cstr \<Rightarrow> bool \<Rightarrow> cstr list \<Rightarrow> int \<Rightarrow> fsys \<times> int" where
  "insert_pieces U disk_ok fs filename user first [] retv = (fs, retv)"
| "insert_pieces U disk_ok fs filename user first (l # ls) retv =
     (if take 8 l \<noteq> lit ''#attach ''
      then insert_pieces U disk_ok (app_file fs filename ((if first then [] else [10]) @ l)) filename user False ls retv
      else if attach_name l = [] then insert_pieces U disk_ok fs filename user False ls retv
      else let (fs', k) = appendbinaryattach U disk_ok fs filename user (Some (attach_name l)) None
           in insert_pieces U disk_ok fs' filename user False ls (if k \<noteq> 0 then 1 else retv))"

text \<open>\<open>scan\<close>: the names \<open>scandir\<close> finds in a directory.\<close>

definition insertattachments ::
  "cstr \<Rightarrow> bool \<Rightarrow> bool \<Rightarrow> (fsys \<Rightarrow> cstr list option) \<Rightarrow> fsys \<Rightarrow> cstr \<Rightarrow> cstr \<Rightarrow> cstr \<Rightarrow> fsys \<times> int" where
  "insertattachments U disk_ok can_open scan fs filename content user =
     (let fs0 = fs(filename := None)
      in if \<not> can_open then (fs0, 0)
         else let (fs1, retv) =
                    insert_pieces U disk_ok (fs0(filename := Some [])) filename user True (strsep_lines content) 0;
                  (fs2, k) = appendbinaryattach U disk_ok fs1 filename user None (scan fs1)
              in (fs2, if k > 0 then 1 else retv))"

text \<open>
  \<open>insertattachments_byfile\<close> reads pieces of at most 255 characters; \<open>put_line\<close> is its inner loop, which
  copies the rest of a long line without looking at it.
\<close>

fun put_line :: "cstr list \<Rightarrow> byte list \<times> bool \<times> cstr list" where
  "put_line [] = ([], False, [])"
| "put_line (l # ls) =
     (case strchr l 10 of
        Some i \<Rightarrow> (take i l, True, ls)
      | None \<Rightarrow> let (b, br, r) = put_line ls in (l @ b, br, r))"

lemma put_line_length: "length (snd (snd (put_line ls))) \<le> length ls - 1"
  by (induction ls rule: put_line.induct) (auto simp: Let_def split: option.splits prod.splits)

lemma put_line_shorter: "(b, br, r) = put_line (l # ls) \<Longrightarrow> length r < Suc (length ls)"
  using put_line_length [of "l # ls"] by (metis One_nat_def diff_Suc_1' le_imp_less_Suc length_Cons snd_conv)

function insert_lines ::
  "cstr \<Rightarrow> bool \<Rightarrow> fsys \<Rightarrow> cstr \<Rightarrow> cstr \<Rightarrow> cstr list \<Rightarrow> bool \<Rightarrow> int \<Rightarrow> (fsys \<times> bool \<times> int) option" where
  "insert_lines U disk_ok fs filename user [] savebr retv = Some (fs, savebr, retv)"
| "insert_lines U disk_ok fs filename user (l # ls) savebr retv =
     (if take 8 l \<noteq> lit ''#attach ''
      then let fs' = (if savebr then app_file fs filename [10] else fs);
               (b, br, r) = put_line (l # ls)
           in insert_lines U disk_ok (app_file fs' filename b) filename user r br retv
      else case strrtrim (takeWhile (\<lambda>c. c \<noteq> 47) l) of
             None \<Rightarrow> None
           | Some t \<Rightarrow>
               (case strrchr t 32 of
                  None \<Rightarrow> insert_lines U disk_ok fs filename user ls savebr retv
                | Some i \<Rightarrow>
                    let (fs', k) = appendbinaryattach U disk_ok fs filename user (Some (drop (i + 1) t)) None
                    in insert_lines U disk_ok fs' filename user ls savebr (if k \<noteq> 0 then 1 else retv)))"
  by pat_completeness auto
termination
proof (relation "measure (\<lambda>(U, d, fs, f, u, ls, s, r). length ls)")
qed (auto intro: put_line_shorter simp del: put_line.simps)

definition insertattachments_byfile ::
  "cstr \<Rightarrow> bool \<Rightarrow> bool \<Rightarrow> (fsys \<Rightarrow> cstr list option) \<Rightarrow> fsys \<Rightarrow> cstr \<Rightarrow> cstr \<Rightarrow> cstr \<Rightarrow> (fsys \<times> int) option" where
  "insertattachments_byfile U disk_ok can_open scan fs filename tmpfile user =
     (case fs tmpfile of
        None \<Rightarrow> Some (fs, 0)
      | Some m \<Rightarrow>
          let fs0 = fs(filename := None)
          in if \<not> can_open then Some (fs0, 0)
             else map_option (\<lambda>(fs1, br, retv).
                      let fs2 = (if br then app_file fs1 filename [10] else fs1);
                          (fs3, k) = appendbinaryattach U disk_ok fs2 filename user None (scan fs2)
                      in (fs3, if k > 0 then 1 else retv))
                    (insert_lines U disk_ok (fs0(filename := Some [])) filename user (file_lines 256 m) False 0))"

text \<open>
  The calls of \<open>edit_post\<close>: the text goes to a file, the editor changes it, the attachments go to the
  user's (emptied) directory, and the article is written anew.
\<close>

definition edit_with_attach ::
  "cstr \<Rightarrow> nat \<Rightarrow> (fsys \<Rightarrow> cstr list option) \<Rightarrow> (byte list \<Rightarrow> byte list) \<Rightarrow> fsys \<Rightarrow> cstr \<Rightarrow> cstr \<Rightarrow> cstr \<Rightarrow> (fsys \<times> int) option" where
  "edit_with_attach U fuel scan vedit fs filepath tmpfile user =
     (case copyfile_attach fuel True fs filepath tmpfile of
        None \<Rightarrow> None
      | Some (fs1, _) \<Rightarrow>
          (case decode_attach fuel True True (fs1(tmpfile := map_option vedit (fs1 tmpfile))) filepath
                  (U @ 47 # user) of
             None \<Rightarrow> None
           | Some (fs2, _) \<Rightarrow>
               map_option (\<lambda>(fs3, k). (fs3(tmpfile := None), k))
                 (insertattachments_byfile U True True scan fs2 filepath tmpfile user)))"

section \<open>An edit keeps the attachments\<close>

subsection \<open>The list\<close>

definition att_lines :: "(cstr \<times> byte list) list \<Rightarrow> byte list" where
  "att_lines as = concat (map (\<lambda>(n, d). lit ''#attach '' @ n @ [10]) as)"

lemma copy_line:
  assumes "text_line s"
  shows "copy_attach_loop (Suc f) (pre @ s @ 10 # r) (length pre) isa res
    = (if isa \<and> empty_line (s @ [10])
       then copy_attach_loop f (pre @ s @ 10 # r) (length (pre @ s @ [10])) True res
       else copy_attach_loop f (pre @ s @ 10 # r) (length (pre @ s @ [10])) False (res @ s @ [10]))"
  using text_line_fgets(1) [OF assms, of 500 r] text_line_fgets(2) [OF assms, of 500] text_line_no_mark [OF assms]
    check_text [OF assms] by simp

lemma copy_text:
  assumes "\<forall>s \<in> set ss. text_line s"
  shows "copy_attach_loop (length ss + f) (pre @ text_bytes ss @ r) (length pre) False res
    = copy_attach_loop f (pre @ text_bytes ss @ r) (length (pre @ text_bytes ss)) False (res @ text_bytes ss)"
  using assms
proof (induction ss arbitrary: pre res)
  case (Cons s ss)
  then show ?case
    using copy_line [of s "length ss + f" pre "text_bytes ss @ r" False res] Cons.IH [of "pre @ s @ [10]" "res @ s @ [10]"]
    by (simp add: text_bytes_def del: copy_attach_loop.simps)
qed (simp add: text_bytes_def)

lemma getattach_fake:
  assumes "att_ok (n, d)"
  shows "getattach True True Map.empty file p n (lit ''/tmp'') False (int (length d)) True
    = Some (Map.empty, p + length d, 0)"
proof -
  have n: "n \<noteq> []" "last n \<noteq> 10" using assms last_in_set [of n] unfolding att_ok_def fst_conv by metis+
  then show ?thesis using assms by (simp add: getattach_def comfakedecode_def att_ok_def fseek_cur_def Let_def lit_def)
qed

lemma empty_line_nl: "empty_line [10]" "\<not> empty_line (Mark @ n)"
  by (simp_all add: empty_line_def Mark_def lit_def)

lemma copy_att:
  assumes "att_ok (n, d)"
  shows "copy_attach_loop (Suc (Suc f)) (pre @ attach_bytes n d @ r) (length pre) isa res
    = copy_attach_loop f (pre @ attach_bytes n d @ r) (length (pre @ attach_bytes n d)) True
        (res @ (if isa then [] else [10]) @ lit ''#attach '' @ n @ [10])"
proof -
  let ?q = "0 # be32_bytes (length d) @ d @ r"
  let ?file = "pre @ 10 # Mark @ n @ 10 # ?q"
  have 1: "copy_attach_loop (Suc (Suc f)) ?file (length pre) isa res
      = copy_attach_loop (Suc f) ((pre @ [10]) @ Mark @ n @ 10 # ?q) (length (pre @ [10])) isa
          (res @ (if isa then [] else [10]))"
    using copy_line [of "[]" "Suc f" pre "Mark @ n @ 10 # ?q" isa res] empty_line_nl(1)
    by (simp del: copy_attach_loop.simps)
  have p: "drop (20 + (length pre + length n)) ?file = ?q"
    by (rule drop_at [of _ "pre @ 10 # Mark @ n @ [10]"]) simp_all
  have 2: "copy_attach_loop (Suc f) ((pre @ [10]) @ Mark @ n @ 10 # ?q) (length (pre @ [10])) isa res'
      = copy_attach_loop f ?file (length (pre @ attach_bytes n d)) True (res' @ lit ''#attach '' @ n @ [10])" for res'
    using att_line(1) [OF assms, of 500 ?q] att_line(2) [OF assms, of 500] att_line_no_uu(2) [of "n @ [10]"]
      check_att [OF assms p] getattach_fake [OF assms] empty_line_nl(2) [of "n @ [10]"]
    by (simp add: attach_bytes_def add_ac)
  show ?thesis unfolding attach_bytes_def using 1 2 by (simp add: attach_bytes_def del: copy_attach_loop.simps)
qed

lemma copy_atts:
  assumes "\<forall>a \<in> set as. att_ok a"
  shows "copy_attach_loop (2 * length as + Suc f) (pre @ atts_bytes as) (length pre) isa res
    = Some (res @ (if isa \<or> as = [] then [] else [10]) @ att_lines as)"
  using assms
proof (induction as arbitrary: pre isa res)
  case Nil
  then show ?case by (simp add: atts_bytes_def att_lines_def fgets_def)
next
  case (Cons a as)
  obtain n d where a: "a = (n, d)" by (cases a)
  show ?case
    using copy_att [of n d "2 * length as + Suc f" pre "atts_bytes as" isa res]
      Cons.IH [where pre = "pre @ attach_bytes n d" and isa = True] Cons.prems a
    by (simp add: atts_bytes_def att_lines_def del: copy_attach_loop.simps)
qed

lemma copyfile_attach_list:
  assumes "\<forall>s \<in> set ss. text_line s" "\<forall>a \<in> set as. att_ok a" "fs f = Some (text_bytes ss @ atts_bytes as)"
  shows "copyfile_attach (length ss + (2 * length as + Suc k)) True fs f t
    = Some (fs(t := Some (text_bytes ss @ (if as = [] then [] else [10]) @ att_lines as)), 0)"
  using copy_text [OF assms(1), of "2 * length as + Suc k" "[]" "atts_bytes as" "[]"]
    copy_atts [OF assms(2), of k "text_bytes ss" False] assms(3)
  by (simp add: copyfile_attach_def)

subsection \<open>The text goes back\<close>

lemma line_take_long: "10 \<notin> set (take k s) \<Longrightarrow> k \<le> length s \<Longrightarrow> line_take k s = (take k s, drop k s)"
proof (induction k arbitrary: s)
  case (Suc k)
  then show ?case by (cases s) auto
qed simp

lemma pieces_line:
  assumes "0 \<notin> set s" "10 \<notin> set s"
  shows "put_line (file_lines 256 (s @ 10 # r)) = (s, True, file_lines 256 r)
    \<and> (\<exists>l ls. file_lines 256 (s @ 10 # r) = l # ls \<and> take 8 l = take 8 (s @ [10]))"
  using assms
proof (induction s rule: length_induct)
  case (1 s)
  show ?case
  proof (cases "length s < 255")
    case True
    then have "strchr (s @ [10]) 10 = Some (length s)"
      using 1 by (simp add: strchr_def takeWhile_append)
    then show ?thesis using file_lines_line [of s 256 r] 1 True by simp
  next
    case False
    let ?t = "take 255 s" and ?u = "drop 255 s"
    have nl: "10 \<notin> set ?t" "0 \<notin> set ?t" "0 \<notin> set ?u" "10 \<notin> set ?u"
      using 1 by (auto dest: in_set_takeD in_set_dropD)
    have "fgets 256 (s @ 10 # r) = Some (?t, ?u @ 10 # r)"
      using line_take_long [of 255 "s @ 10 # r"] nl False by (simp add: fgets_def)
    then have f: "file_lines 256 (s @ 10 # r) = ?t # file_lines 256 (?u @ 10 # r)"
      using nl by (subst file_lines.simps) (simp add: zstr_id)
    have "length ?u < length s" using False by simp
    then have "put_line (file_lines 256 (?u @ 10 # r)) = (?u, True, file_lines 256 r)" using 1 nl by blast
    moreover have "strchr ?t 10 = None" using nl by (simp add: strchr_None)
    moreover have "take 8 ?t = take 8 (s @ [10])" using False by simp
    ultimately show ?thesis unfolding f by simp
  qed
qed

definition edit_line :: "cstr \<Rightarrow> bool" where
  "edit_line s \<longleftrightarrow> 0 \<notin> set s \<and> 10 \<notin> set s \<and> take 8 s \<noteq> lit ''#attach ''"

lemma insert_line:
  assumes "edit_line s"
  shows "insert_lines U ok fs f u (file_lines 256 (s @ 10 # r)) br k
    = insert_lines U ok (app_file (if br then app_file fs f [10] else fs) f s) f u (file_lines 256 r) True k"
proof -
  have s: "0 \<notin> set s" "10 \<notin> set s" "take 8 s \<noteq> lit ''#attach ''" using assms by (simp_all add: edit_line_def)
  have "length (lit ''#attach '') = 8" "10 \<notin> set (lit ''#attach '')" by (simp_all add: lit_def)
  then have n: "take 8 (s @ [10]) \<noteq> lit ''#attach ''" using take_line_ne [of 10 "lit ''#attach ''" s "[]"] s by metis
  obtain l ls where l: "file_lines 256 (s @ 10 # r) = l # ls" "take 8 l = take 8 (s @ [10])"
    "put_line (l # ls) = (s, True, file_lines 256 r)" using pieces_line [OF s(1,2), of r] by auto
  show ?thesis unfolding l(1) using l(2,3) n
    by (simp add: Let_def del: put_line.simps)
qed

definition pend :: "bool \<Rightarrow> byte list" where
  "pend br = (if br then [10] else [])"

lemma app_file_app: "fs f = Some c \<Longrightarrow> app_file fs f b = fs(f := Some (c @ b))"
  by (simp add: app_file_def)

lemma insert_text:
  assumes "\<forall>s \<in> set ss. edit_line s" "fs f = Some c"
  shows "\<exists>c' br'. insert_lines U ok fs f u (file_lines 256 (text_bytes ss @ r)) br k
      = insert_lines U ok (fs(f := Some c')) f u (file_lines 256 r) br' k
    \<and> c' @ pend br' = c @ pend br @ text_bytes ss \<and> (br' \<longleftrightarrow> br \<or> ss \<noteq> [])"
  using assms
proof (induction ss arbitrary: fs c br)
  case Nil
  then have "fs(f := Some c) = fs" by (metis fun_upd_triv)
  then show ?case by (intro exI [of _ c] exI [of _ br]) (simp add: text_bytes_def)
next
  case (Cons s ss)
  let ?c = "c @ pend br @ s"
  have 1: "insert_lines U ok fs f u (file_lines 256 (text_bytes (s # ss) @ r)) br k
      = insert_lines U ok (fs(f := Some ?c)) f u (file_lines 256 (text_bytes ss @ r)) True k"
    using insert_line [of s U ok fs f u "text_bytes ss @ r" br k] Cons.prems
    by (cases br) (simp_all add: text_bytes_def pend_def app_file_app)
  define fs1 where "fs1 = fs(f := Some ?c)"
  have "fs1 f = Some ?c" "\<forall>s \<in> set ss. edit_line s" using Cons.prems by (simp_all add: fs1_def)
  then obtain c' br' where 2: "insert_lines U ok fs1 f u (file_lines 256 (text_bytes ss @ r)) True k
      = insert_lines U ok (fs1(f := Some c')) f u (file_lines 256 r) br' k"
    "c' @ pend br' = ?c @ pend True @ text_bytes ss" "br'"
    using Cons.IH [of fs1 ?c True] by blast
  have 3: "fs1(f := Some c') = fs(f := Some c')" by (simp add: fs1_def)
  show ?case unfolding 1 fs1_def [symmetric] 2(1) 3
    by (rule exI [of _ c'], rule exI [of _ br']) (use 2 in \<open>simp add: pend_def text_bytes_def fun_upd_def\<close>)
qed

subsection \<open>The attachments go back\<close>

lemma dotdot_slash:
  assumes "strstr path (lit ''..'') = None" "47 \<notin> set n"
  shows "strstr (path @ 47 # n) (lit ''/../'') = None"
proof (cases "strstr (path @ 47 # n) (lit ''/../'')")
  case (Some i)
  let ?s = "path @ 47 # n"
  have t: "take 4 (drop i ?s) = [47, 46, 46, 47]" using strstr_Some_at [OF Some]
    by (simp add: lit_def numeral_eq_Suc del: take_append drop_append)
  then have "length (take 4 (drop i ?s)) = 4" by (simp only: list.size)
  then have l: "i + 3 < length ?s" unfolding length_take length_drop by linarith
  have c: "?s ! (i + j) = [47, 46, 46, 47] ! j" if "j < 4" for j
  proof -
    have "i \<le> length ?s" using l by linarith
    then have "?s ! (i + j) = take 4 (drop i ?s) ! j" using that by (simp only: nth_take nth_drop)
    then show ?thesis by (simp only: t)
  qed
  have "i + 3 \<le> length path"
  proof (rule ccontr)
    assume "\<not> i + 3 \<le> length path"
    then have "?s ! (i + 3) = n ! (i + 2 - length path)" by (simp add: nth_append)
    moreover have "n ! (i + 2 - length path) \<in> set n" using l \<open>\<not> i + 3 \<le> length path\<close> by (intro nth_mem) simp
    ultimately show False using c [of 3] assms(2) by simp
  qed
  then have "path ! (i + 1) = 46" "path ! (i + 2) = 46" "i + 2 < length path"
    using c [of 1] c [of 2] by (simp_all add: nth_append)
  then have "take 2 (drop (i + 1) path) = [46, 46]"
    by (simp add: take_Suc_conv_app_nth numeral_2_eq_2)
  then show ?thesis using strstr_None_at [OF assms(1), of "i + 1"] by (simp add: lit_def numeral_2_eq_2)
qed simp

definition att_name_ok :: "cstr \<Rightarrow> bool" where
  "att_name_ok n \<longleftrightarrow> length n \<le> 246 \<and> 32 \<notin> set n \<and> 9 \<notin> set n \<and> 47 \<notin> set n"

lemma strrtrim_nl:
  assumes "s \<noteq> []" "length s < 1023" "0 \<notin> set s" "\<not> blank (last s)"
  shows "strrtrim (s @ [10]) = Some s"
proof -
  have c: "strsncpy (s @ [10]) 1024 = s @ [10]" using assms(2) by (simp add: strsncpy_take)
  let ?t = "pad0 1024 (s @ [10])"
  have n: "?t ! length s = 10" "?t ! (length s - 1) = last s"
    using assms(1) by (simp_all add: pad0_def nth_append last_conv_nth)
  have l: "last s \<noteq> 0" using assms(1,3) last_in_set by metis
  obtain i where i: "length s = Suc i" using assms(1) by (cases s) auto
  have "rtrim_loop ?t (length s) = i"
    using n l assms(4) i by (cases i) (simp_all add: blank_def)
  moreover have "take (Suc i) ?t = s" using i assms(2) by (simp add: pad0_def)
  ultimately show ?thesis using c assms(2,3) i by (simp add: strrtrim_def zstr_id)
qed

lemma append_one:
  assumes "strstr path (lit ''..'') = None" "length path \<le> 700" "att_name_ok n" "path = U @ 47 # u"
    "fs (path @ 47 # n) = Some d" "fs f = Some c"
  shows "appendbinaryattach U True fs f u (Some n) None
    = ((fs(f := Some (c @ attach_bytes n d)))(path @ 47 # n := None), 1)"
proof -
  have "strstr (path @ 47 # n) (lit ''/../'') = None" "length (path @ 47 # n) \<le> 1023"
    using dotdot_slash [OF assms(1), of n] assms(2,3) by (simp_all add: att_name_ok_def)
  then show ?thesis using assms
    by (simp add: appendbinaryattach_def appendonebinaryattach_def Let_def)
qed

lemma att_line_parts:
  assumes "att_ok (n, d)" "att_name_ok n"
  shows "strrtrim (takeWhile (\<lambda>c. c \<noteq> 47) (lit ''#attach '' @ n @ [10])) = Some (lit ''#attach '' @ n)"
    "strrchr (lit ''#attach '' @ n) 32 = Some 7"
    "drop 8 (lit ''#attach '' @ n) = n" "take 8 (lit ''#attach '' @ n @ [10]) = lit ''#attach ''"
proof -
  have n: "n \<noteq> []" "length n \<le> 246" "32 \<notin> set n" "9 \<notin> set n" "47 \<notin> set n" "0 \<notin> set n" "10 \<notin> set n" "13 \<notin> set n"
    using assms by (simp_all add: att_ok_def att_name_ok_def)
  then have "\<not> blank (last n)" using last_in_set [of n] unfolding blank_def by fastforce
  then have "strrtrim ((lit ''#attach '' @ n) @ [10]) = Some (lit ''#attach '' @ n)"
    by (intro strrtrim_nl) (use n in \<open>simp_all add: lit_def\<close>)
  moreover have "takeWhile (\<lambda>c. c \<noteq> 47) (lit ''#attach '' @ n @ [10]) = lit ''#attach '' @ n @ [10]"
    using n by (intro takeWhile_eq_all_conv [THEN iffD2]) (auto simp: lit_def)
  ultimately show "strrtrim (takeWhile (\<lambda>c. c \<noteq> 47) (lit ''#attach '' @ n @ [10])) = Some (lit ''#attach '' @ n)"
    by simp
  have "lit ''#attach '' @ n = lit ''#attach'' @ 32 # n" "length (lit ''#attach'') = 7" by (simp_all add: lit_def)
  then show "strrchr (lit ''#attach '' @ n) 32 = Some 7" using strrchr_split [OF n(3), of "lit ''#attach''"] by metis
qed (simp_all add: lit_def)

lemma insert_att:
  assumes "strstr path (lit ''..'') = None" "length path \<le> 700" "att_ok (n, d)" "att_name_ok n" "path = U @ 47 # u"
    "fs (path @ 47 # n) = Some d" "fs f = Some c"
  shows "insert_lines U True fs f u ((lit ''#attach '' @ n @ [10]) # ls) br k
    = insert_lines U True ((fs(f := Some (c @ attach_bytes n d)))(path @ 47 # n := None)) f u ls br 1"
  using att_line_parts [OF assms(3,4)] append_one [OF assms(1,2,4-7)] by (simp del: put_line.simps)

lemma att_lines_pieces:
  assumes "\<forall>(n, d) \<in> set as. att_ok (n, d) \<and> att_name_ok n"
  shows "file_lines 256 (att_lines as) = map (\<lambda>(n, d). lit ''#attach '' @ n @ [10]) as"
  using assms
proof (induction as)
  case (Cons a as)
  obtain n d where a: "a = (n, d)" by (cases a)
  have "file_lines 256 ((lit ''#attach '' @ n) @ 10 # att_lines as)
      = ((lit ''#attach '' @ n) @ [10]) # file_lines 256 (att_lines as)"
    using Cons.prems a by (intro file_lines_line) (auto simp: att_ok_def att_name_ok_def lit_def)
  then show ?case using Cons a by (simp add: att_lines_def)
qed (simp add: att_lines_def)

lemma insert_atts:
  assumes "strstr path (lit ''..'') = None" "length path \<le> 700" "path = U @ 47 # u"
    "\<forall>(n, d) \<in> set as. att_ok (n, d) \<and> att_name_ok n \<and> fs (path @ 47 # n) = Some d \<and> path @ 47 # n \<noteq> f"
    "distinct (map fst as)" "fs f = Some c"
  shows "\<exists>fs'. insert_lines U True fs f u (map (\<lambda>(n, d). lit ''#attach '' @ n @ [10]) as) br k
      = Some (fs', br, if as = [] then k else 1)
    \<and> fs' f = Some (c @ atts_bytes as)
    \<and> (\<forall>p. p \<noteq> f \<longrightarrow> fs' p = (if \<exists>n \<in> fst ` set as. p = path @ 47 # n then None else fs p))"
  using assms(4-6)
proof (induction as arbitrary: fs c k)
  case Nil
  then show ?case by (simp add: atts_bytes_def)
next
  case (Cons a as)
  obtain n d where a: "a = (n, d)" by (cases a)
  define fs1 where "fs1 = (fs(f := Some (c @ attach_bytes n d)))(path @ 47 # n := None)"
  have nf: "path @ 47 # n \<noteq> f" and an: "att_ok (n, d)" "att_name_ok n" "fs (path @ 47 # n) = Some d"
    using Cons.prems a by auto
  have 1: "insert_lines U True fs f u (map (\<lambda>(n, d). lit ''#attach '' @ n @ [10]) (a # as)) br k
      = insert_lines U True fs1 f u (map (\<lambda>(n, d). lit ''#attach '' @ n @ [10]) as) br 1"
    using insert_att [OF assms(1,2) an(1,2) assms(3) an(3) Cons.prems(3)] a by (simp add: fs1_def)
  have "\<forall>(n', d') \<in> set as. att_ok (n', d') \<and> att_name_ok n' \<and> fs1 (path @ 47 # n') = Some d' \<and> path @ 47 # n' \<noteq> f"
    using Cons.prems a by (force simp: fs1_def)
  moreover have "distinct (map fst as)" "fs1 f = Some (c @ attach_bytes n d)"
    using Cons.prems nf by (auto simp: fs1_def)
  ultimately obtain fs' where "insert_lines U True fs1 f u (map (\<lambda>(n, d). lit ''#attach '' @ n @ [10]) as) br 1
      = Some (fs', br, 1)" "fs' f = Some ((c @ attach_bytes n d) @ atts_bytes as)"
    "\<And>p. p \<noteq> f \<Longrightarrow> fs' p = (if \<exists>n \<in> fst ` set as. p = path @ 47 # n then None else fs1 p)"
    using Cons.IH [of fs1 "c @ attach_bytes n d" 1] by auto
  then show ?case unfolding 1 using a by (intro exI [of _ fs']) (auto simp: fs1_def atts_bytes_def)
qed

lemma append_all_none:
  "\<forall>n. fs (take 1023 (path @ 47 # n)) = None \<Longrightarrow> append_all ok fs f path ns k = (fs, k)"
  by (induction ns) (simp_all add: appendonebinaryattach_def)

subsection \<open>Together\<close>

text \<open>Where an article with attachments can be edited: the paths involved are apart, the user's directory is empty.\<close>

definition edit_ok :: "cstr \<Rightarrow> cstr \<Rightarrow> fsys \<Rightarrow> cstr \<Rightarrow> cstr \<Rightarrow> (cstr \<times> byte list) list \<Rightarrow> bool" where
  "edit_ok U u fs f t as \<longleftrightarrow>
     (let path = U @ 47 # u in
        path_ok path \<and> length path \<le> 700 \<and> f \<noteq> t
        \<and> (\<forall>n. fs (path @ 47 # n) = None \<and> path @ 47 # n \<noteq> f \<and> path @ 47 # n \<noteq> t)
        \<and> (\<forall>a \<in> set as. att_ok a \<and> att_name_ok (fst a)) \<and> distinct (map fst as))"

lemma unpacked_other: "\<forall>n \<in> fst ` set as. p \<noteq> path @ 47 # n \<Longrightarrow> unpacked fs path as p = fs p"
  unfolding unpacked_def by (induction as arbitrary: fs) auto

lemma unpacked_at:
  "distinct (map fst as) \<Longrightarrow> (n, d) \<in> set as \<Longrightarrow> unpacked fs path as (path @ 47 # n) = Some d"
proof (induction as arbitrary: fs)
  case (Cons a as)
  then show ?case
  proof (cases "a = (n, d)")
    case True
    then have "\<forall>m \<in> fst ` set as. path @ 47 # n \<noteq> path @ 47 # m" using Cons.prems by auto
    from unpacked_other [OF this, of "fs(path @ 47 # n := Some d)"] show ?thesis
      using True by (simp add: unpacked_def)
  next
    case False
    then show ?thesis using Cons by (cases a) (auto simp: unpacked_def)
  qed
qed simp

lemma insert_back:
  assumes "strstr path (lit ''..'') = None" "length path \<le> 700" "path = U @ 47 # u"
    "\<forall>(n, d) \<in> set as. att_ok (n, d) \<and> att_name_ok n \<and> fs (path @ 47 # n) = Some d \<and> path @ 47 # n \<noteq> f"
    "distinct (map fst as)" "\<forall>s \<in> set ss. edit_line s" "fs f = Some []"
  shows "\<exists>fs' c br. insert_lines U True fs f u
        (file_lines 256 (text_bytes ss @ (if as = [] then [] else [10]) @ att_lines as)) False 0
      = Some (fs', br, if as = [] then 0 else 1)
    \<and> fs' f = Some c \<and> c @ pend br = text_bytes ss @ atts_bytes as @ (if as = [] then [] else [10])
    \<and> (\<forall>p. p \<noteq> f \<longrightarrow> fs' p = (if \<exists>n \<in> fst ` set as. p = path @ 47 # n then None else fs p))"
proof -
  define ss' where "ss' = (if as = [] then ss else ss @ [[]])"
  have t: "text_bytes ss @ (if as = [] then [] else [10]) @ att_lines as = text_bytes ss' @ att_lines as"
    by (simp add: ss'_def text_bytes_def)
  have "\<forall>s \<in> set ss'. edit_line s" using assms(6) by (auto simp: ss'_def edit_line_def lit_def)
  from insert_text [OF this, where fs = fs and f = f and c = "[]" and U = U and ok = True and u = u
      and r = "att_lines as" and br = False and k = 0] assms(7) obtain c br
    where 1: "insert_lines U True fs f u (file_lines 256 (text_bytes ss' @ att_lines as)) False 0
      = insert_lines U True (fs(f := Some c)) f u (file_lines 256 (att_lines as)) br 0"
    and c: "c @ pend br = text_bytes ss'" and br: "br \<longleftrightarrow> ss' \<noteq> []"
    by (auto simp: pend_def)
  define fs1 where "fs1 = fs(f := Some c)"
  have "\<forall>(n, d) \<in> set as. att_ok (n, d) \<and> att_name_ok n \<and> fs1 (path @ 47 # n) = Some d \<and> path @ 47 # n \<noteq> f"
    "fs1 f = Some c" using assms(4) by (auto simp: fs1_def)
  from insert_atts [OF assms(1-3) this(1) assms(5) this(2), of br 0] obtain fs'
    where 2: "insert_lines U True fs1 f u (map (\<lambda>(n, d). lit ''#attach '' @ n @ [10]) as) br 0
      = Some (fs', br, if as = [] then 0 else 1)" "fs' f = Some (c @ atts_bytes as)"
    "\<forall>p. p \<noteq> f \<longrightarrow> fs' p = (if \<exists>n \<in> fst ` set as. p = path @ 47 # n then None else fs1 p)" by blast
  have "file_lines 256 (att_lines as) = map (\<lambda>(n, d). lit ''#attach '' @ n @ [10]) as"
    using assms(4) by (intro att_lines_pieces) auto
  moreover have "(c @ atts_bytes as) @ pend br = text_bytes ss @ atts_bytes as @ (if as = [] then [] else [10])"
    using c br by (auto simp: ss'_def pend_def text_bytes_def atts_bytes_def split: if_splits)
  ultimately show ?thesis unfolding t 1 fs1_def [symmetric] using 2
    by (intro exI [of _ fs'] exI [of _ "c @ atts_bytes as"] exI [of _ br]) (auto simp: fs1_def)
qed

lemma byfile_back:
  assumes "path = U @ 47 # u" "strstr path (lit ''..'') = None" "length path \<le> 700" "distinct (map fst as)"
    "\<forall>s \<in> set ss. edit_line s"
    "fs t = Some (text_bytes ss @ (if as = [] then [] else [10]) @ att_lines as)"
    "\<forall>(n, d) \<in> set as. att_ok (n, d) \<and> att_name_ok n \<and> fs (path @ 47 # n) = Some d"
    "\<forall>n. path @ 47 # n \<noteq> f" "\<forall>n. n \<notin> fst ` set as \<longrightarrow> fs (path @ 47 # n) = None"
  shows "\<exists>fs'. insertattachments_byfile U True True scan fs f t u = Some (fs', if as = [] then 0 else 1)
    \<and> fs' f = Some (text_bytes ss @ atts_bytes as @ (if as = [] then [] else [10]))
    \<and> (\<forall>p. p \<noteq> f \<longrightarrow> fs' p = (if \<exists>n \<in> fst ` set as. p = path @ 47 # n then None else fs p))"
proof -
  let ?sep = "if as = [] then [] else [10 :: byte]"
  define fs3 where "fs3 = fs(f := Some [])"
  have at: "\<forall>(n, d) \<in> set as. att_ok (n, d) \<and> att_name_ok n \<and> fs3 (path @ 47 # n) = Some d \<and> path @ 47 # n \<noteq> f"
    "fs3 f = Some []" using assms(7,8) by (auto simp: fs3_def)
  obtain fs4 c br
    where ib: "insert_lines U True fs3 f u (file_lines 256 (text_bytes ss @ ?sep @ att_lines as)) False 0
        = Some (fs4, br, if as = [] then 0 else 1)"
      "fs4 f = Some c" "c @ pend br = text_bytes ss @ atts_bytes as @ ?sep"
      "\<And>p. p \<noteq> f \<Longrightarrow> fs4 p = (if \<exists>n \<in> fst ` set as. p = path @ 47 # n then None else fs3 p)"
    using insert_back [where fs = fs3 and f = f and as = as and ss = ss,
        OF assms(2,3,1) at(1) assms(4,5) at(2)] by blast
  define fs5 where "fs5 = (if br then app_file fs4 f [10] else fs4)"
  have f5: "fs5 f = Some (text_bytes ss @ atts_bytes as @ ?sep)"
    "\<And>p. p \<noteq> f \<Longrightarrow> fs5 p = (if \<exists>n \<in> fst ` set as. p = path @ 47 # n then None else fs p)"
    using ib(2,3,4) by (auto simp: fs5_def fs3_def app_file_def pend_def)
  have "take 1023 (path @ 47 # n) = path @ 47 # take (1022 - length path) n" for n
    using assms(3) by (simp add: take_Cons')
  then have "\<forall>n. fs5 (take 1023 (path @ 47 # n)) = None" using f5(2) assms(8,9) by auto
  from append_all_none [OF this] have ap: "fst (appendbinaryattach U True fs5 f u None (scan fs5)) = fs5"
    "snd (appendbinaryattach U True fs5 f u None (scan fs5)) \<le> 0"
    using assms(1,3) by (simp_all add: appendbinaryattach_def Let_def split: option.splits)
  have "insertattachments_byfile U True True scan fs f t u = Some (fs5, if as = [] then 0 else 1)"
    using ib(1) ap assms(6)
    by (cases br) (simp_all add: insertattachments_byfile_def fs3_def fs5_def Let_def case_prod_beta)
  then show ?thesis using f5 by blast
qed



end
