(* ===== verification/HtmlFunc.thy ===== *)
theory HtmlFunc
  imports CLib
begin

text \<open>
  Text on its way into a page: \<open>src/ythtlib/htmlfunc.c\<close>.  Text is in the GB code, where a byte of 128
  and more and the byte behind it are one character.
\<close>

section \<open>The operations\<close>

text \<open>
  \<open>scriptstr\<close>: the output in an array of 1024 bytes; \<open>db\<close>: the byte before was the first half of a
  character.  A control byte in the second half blanks the first half and stays.
\<close>

fun script_loop :: "byte list \<Rightarrow> bool \<Rightarrow> cstr \<Rightarrow> byte list \<times> bool" where
  "script_loop b db [] = (b, db)"
| "script_loop b db (c # s) =
     (if length b \<ge> 1017 then (b, db)
      else if db then script_loop ((if c < 32 then butlast b @ [32] else b) @ [c]) False s
      else if c = 39 then script_loop (b @ [92, 39]) False s
      else if c = 47 then script_loop (b @ [92, 47]) False s
      else if c = 92 then script_loop (b @ [92, 92]) False s
      else if c = 13 then script_loop b False s
      else if c = 10 then script_loop (b @ [92, 110]) False s
      else script_loop (b @ [c]) (c \<ge> 128) s)"

definition scriptstr :: "cstr \<Rightarrow> cstr" where
  "scriptstr s = (let (b, db) = script_loop [] False s in if db then butlast b else b)"

text \<open>\<open>void1\<close> works in the string: \<open>p\<close> is what is behind the loop, its last byte may still be blanked.\<close>

fun void1_loop :: "byte list \<Rightarrow> bool \<Rightarrow> cstr \<Rightarrow> byte list \<times> bool" where
  "void1_loop p flag [] = (p, flag)"
| "void1_loop p flag (c # s) =
     (if \<not> flag then void1_loop (p @ [c]) (c \<ge> 128) s
      else void1_loop ((if c < 32 then butlast p @ [32] else p) @ [c]) False s)"

definition void1 :: "cstr \<Rightarrow> cstr" where
  "void1 s = (let (p, flag) = void1_loop [] False s in if flag then butlast p else p)"

definition hex_digit :: "nat \<Rightarrow> byte" where
  "hex_digit n = (if n < 10 then of_nat (48 + n) else of_nat (55 + n))"

definition url_plain :: "byte \<Rightarrow> bool" where
  "url_plain c \<longleftrightarrow> isalnum c \<or> c = 45 \<or> c = 95 \<or> c = 46 \<or> c = 13 \<or> c = 10"

fun url_loop :: "byte list \<Rightarrow> cstr \<Rightarrow> byte list" where
  "url_loop b [] = b"
| "url_loop b (c # s) =
     (if length b \<ge> 253 then b
      else if url_plain c then url_loop (b @ [c]) s
      else url_loop (b @ [37, hex_digit (unat c div 16), hex_digit (unat c mod 16)]) s)"

definition urlencode :: "cstr \<Rightarrow> cstr" where
  "urlencode s = url_loop [] s"

section \<open>A string literal stays closed\<close>

text \<open>
  How a browser that knows the GB code reads a script literal in single quotes: a first half and what is
  behind it are one character, a backslash and what is behind it are one, and a quote, a line end or a
  lone first half do not belong inside.
\<close>

fun literal_ok :: "cstr \<Rightarrow> bool" where
  "literal_ok [] = True"
| "literal_ok [c] = (c < 128 \<and> c \<noteq> 39 \<and> c \<noteq> 92 \<and> c \<noteq> 10 \<and> c \<noteq> 13)"
| "literal_ok (c # d # s) =
     (if c \<ge> 128 \<or> c = 92 then literal_ok s
      else c \<noteq> 39 \<and> c \<noteq> 10 \<and> c \<noteq> 13 \<and> literal_ok (d # s))"

lemma literal_append: "literal_ok b \<Longrightarrow> literal_ok (b @ t) = literal_ok t"
proof (induction b rule: literal_ok.induct)
  case (2 c)
  then show ?case by (cases t) auto
qed (auto split: if_splits)

fun halves_ok :: "bool \<Rightarrow> cstr \<Rightarrow> bool" where
  "halves_ok db [] = True"
| "halves_ok db (c # s) = ((db \<longrightarrow> c \<ge> 32) \<and> halves_ok (\<not> db \<and> c \<ge> 128) s)"

lemma script_loop_literal:
  assumes "halves_ok db s" "if db then \<exists>b' h. b = b' @ [h] \<and> 128 \<le> h \<and> literal_ok b' else literal_ok b"
  shows "literal_ok (let (r, d) = script_loop b db s in if d then butlast r else r)"
  using assms
proof (induction b db s rule: script_loop.induct)
  case (2 b db c s)
  show ?case
  proof (cases "length b \<ge> 1017")
    case True
    then show ?thesis using 2(9) by (auto split: if_splits)
  next
    case False
    show ?thesis
    proof (cases db)
      case True
      then have "literal_ok (b @ [c])" "32 \<le> c" using 2(8,9) literal_append by fastforce+
      then show ?thesis using 2(1) [OF False True] True False 2(8) by (simp add: not_less [symmetric])
    next
      case ndb: False
      then have b: "literal_ok b" "halves_ok (c \<ge> 128) s" using 2(8,9) by simp_all
      have "literal_ok (b @ [92, x])" for x using literal_append [OF b(1)] by simp
      moreover have "literal_ok (b @ [c])" if "c < 128" "c \<noteq> 39" "c \<noteq> 92" "c \<noteq> 10" "c \<noteq> 13"
        using literal_append [OF b(1)] that by simp
      moreover have "\<not> 128 \<le> c \<Longrightarrow> (128 \<le> c) = False" by simp
      ultimately show ?thesis using 2(2-7) False ndb b by (cases "c \<ge> 128") auto
    qed
  qed
qed (auto split: if_splits)



text \<open>A line end behind a lone first half goes into the literal as it is.\<close>

lemma scriptstr_broken: "scriptstr [200, 10] = [32, 10] \<and> \<not> literal_ok (scriptstr [200, 10])"
  by (simp add: scriptstr_def)

section \<open>Encoding for an address\<close>

definition url_code :: "byte \<Rightarrow> byte list" where
  "url_code c = (if url_plain c then [c] else [37, hex_digit (unat c div 16), hex_digit (unat c mod 16)])"

lemma length_url_code: "length (concat (map url_code s)) \<le> 3 * length s"
  by (induction s) (auto simp: url_code_def)

lemma url_loop_all:
  "length b + length (concat (map url_code s)) \<le> 253 \<Longrightarrow> url_loop b s = b @ concat (map url_code s)"
proof (induction s arbitrary: b)
  case (Cons c s)
  have "length (url_code c) \<ge> 1" by (simp add: url_code_def)
  then have "\<not> length b \<ge> 253" using Cons.prems by simp
  then show ?case using Cons.IH [of "b @ url_code c"] Cons.prems by (auto simp: url_code_def)
qed simp

lemma urlencode_all: "length (concat (map url_code s)) \<le> 253 \<Longrightarrow> urlencode s = concat (map url_code s)"
  using url_loop_all [of "[]" s] by (simp add: urlencode_def)

end
