(* ===== verification/WebParm.thy ===== *)
theory WebParm
  imports HtmlFunc StrOp
begin

text \<open>
  The parameters of a request to the web front end, \<open>src/nju09/BBSLIB.c\<close>: pairs of a query or a cookie
  line, the parts of a form with files, and the table \<open>getparm\<close> searches.  A request that the code
  refuses with \<open>http_fatal\<close> is \<open>Fatal\<close>, an access outside an array \<open>Wild\<close>.
\<close>

datatype 'a http = Page 'a | Fatal | Wild

primrec http_bind :: "'a http \<Rightarrow> ('a \<Rightarrow> 'b http) \<Rightarrow> 'b http" where
  "http_bind (Page a) f = f a"
| "http_bind Fatal f = Fatal"
| "http_bind Wild f = Wild"

section \<open>The table\<close>

text \<open>An entry of \<open>parm_name\<close> with the same entry of \<open>parm_val\<close> or \<open>parm_valfile\<close>.\<close>

datatype parm = Value (parm_name: cstr) (parm_val: cstr) | File (parm_name: cstr) (filename: cstr) (content: "byte list")

type_synonym parms = "parm list"

definition parm_add :: "parms \<Rightarrow> cstr \<Rightarrow> cstr \<Rightarrow> parms http" where
  "parm_add ps name val = (if length ps \<ge> 255 then Fatal else Page (ps @ [Value (strsncpy name 78) val]))"

definition parm_addfile :: "parms \<Rightarrow> cstr \<Rightarrow> cstr \<Rightarrow> byte list \<Rightarrow> parms http" where
  "parm_addfile ps name fname d =
     (if fname = [] then Page ps
      else if length ps \<ge> 255 then Fatal
      else Page (ps @ [File (strsncpy name 78) fname d]))"

definition find_parm :: "parms \<Rightarrow> cstr \<Rightarrow> parm option" where
  "find_parm ps var = find (\<lambda>p. strcaseeq (parm_name p) var) (rev ps)"

text \<open>\<open>None\<close>: the null pointer, for a parameter that is a file.\<close>

definition getparm :: "parms \<Rightarrow> cstr \<Rightarrow> cstr option" where
  "getparm ps var =
     (case find_parm ps var of
        None \<Rightarrow> Some []
      | Some (Value n v) \<Rightarrow> Some v
      | Some (File n f d) \<Rightarrow> None)"

definition getparm2 :: "parms \<Rightarrow> cstr \<Rightarrow> cstr \<Rightarrow> cstr option http" where
  "getparm2 ps v1 v2 =
     (case getparm ps v1 of
        None \<Rightarrow> Wild
      | Some s \<Rightarrow> Page (if s = [] then getparm ps v2 else Some s))"

definition getparmfile :: "parms \<Rightarrow> cstr \<Rightarrow> (cstr \<times> byte list) option" where
  "getparmfile ps var =
     (case find_parm ps var of
        Some (File n f d) \<Rightarrow> Some (f, d)
      | _ \<Rightarrow> None)"

definition getparmboard :: "parms \<Rightarrow> int \<Rightarrow> cstr http" where
  "getparmboard ps sz =
     (if sz < 24 then Page []
      else http_bind (getparm2 ps (lit ''B'') (lit ''board''))
             (\<lambda>p. case p of None \<Rightarrow> Wild | Some s \<Rightarrow> Page (strsncpy s sz)))"

section \<open>Pairs\<close>

definition to16 :: "byte \<Rightarrow> nat" where
  "to16 c = (if 97 \<le> c \<and> c \<le> 102 then unat c - 87
             else if 65 \<le> c \<and> c \<le> 70 then unat c - 55
             else if 48 \<le> c \<and> c \<le> 57 then unat c - 48
             else 0)"

text \<open>\<open>__unhcode\<close> in place; a \<open>%00\<close> ends the string.\<close>

fun unh :: "cstr \<Rightarrow> byte list" where
  "unh [] = []"
| "unh (c # s) =
     (if c = 43 then 32 # unh s
      else if c = 37
      then (case s of a # b # r \<Rightarrow> of_nat (to16 a * 16 + to16 b) # unh r | _ \<Rightarrow> [])
      else c # unh s)"

definition unhcode :: "cstr \<Rightarrow> cstr" where
  "unhcode s = zstr (unh s)"

definition strtrim :: "cstr \<Rightarrow> cstr option" where
  "strtrim s = map_option strltrim (strrtrim s)"

definition parse_pair :: "parms \<Rightarrow> cstr \<Rightarrow> parms http" where
  "parse_pair ps t =
     (case strchr t 61 of
        None \<Rightarrow> Page ps
      | Some i \<Rightarrow>
          (case strtrim (take i t) of
             None \<Rightarrow> Wild
           | Some n \<Rightarrow> parm_add ps n (unhcode (drop (i + 1) t))))"

fun parse_pairs :: "parms \<Rightarrow> cstr list \<Rightarrow> parms http" where
  "parse_pairs ps [] = Page ps"
| "parse_pairs ps (t # ts) = http_bind (parse_pair ps t) (\<lambda>ps'. parse_pairs ps' ts)"

definition parm_init_parsestring :: "parms \<Rightarrow> cstr \<Rightarrow> byte \<Rightarrow> parms http" where
  "parm_init_parsestring ps buf delim = parse_pairs ps (strtok_all buf {delim})"

section \<open>Forms with files\<close>

text \<open>
  The buffer from the current position to its end, where a NUL follows; \<open>len\<close> is always its length.
\<close>

definition peek :: "byte list \<Rightarrow> byte" where
  "peek b = (if b = [] then 0 else hd b)"

definition skip1 :: "byte \<Rightarrow> byte list \<Rightarrow> byte list" where
  "skip1 c b = (if peek b = c then tl b else b)"

definition skipLine :: "byte list \<Rightarrow> byte list" where
  "skipLine b = skip1 10 (skip1 13 (dropWhile (\<lambda>c. c \<noteq> 0 \<and> c \<noteq> 13 \<and> c \<noteq> 10) b))"

lemma skip1_length: "length (skip1 c b) \<le> length b"
  by (simp add: skip1_def)

lemma skipLine_length: "length (skipLine b) \<le> length b"
  unfolding skipLine_def
  by (meson length_dropWhile_le order_trans skip1_length)

function skip_mime :: "byte list \<Rightarrow> byte list" where
  "skip_mime b = (if peek b \<noteq> 0 \<and> peek b \<noteq> 13 \<and> peek b \<noteq> 10 then skip_mime (skipLine b) else b)"
  by pat_completeness auto
termination
proof (relation "measure length")
  fix b
  assume "peek b \<noteq> 0 \<and> peek b \<noteq> 13 \<and> peek b \<noteq> 10"
  then obtain c s where b: "b = c # s" "c \<noteq> 0" "c \<noteq> 13" "c \<noteq> 10" by (cases b) (auto simp: peek_def)
  have "length (skipLine b) \<le> length (dropWhile (\<lambda>c. c \<noteq> 0 \<and> c \<noteq> 13 \<and> c \<noteq> 10) s)"
    using b by (simp add: skipLine_def) (meson order_trans skip1_length)
  also have "\<dots> \<le> length s" by (rule length_dropWhile_le)
  finally show "(skipLine b, b) \<in> measure length" using b by simp
qed simp

declare skip_mime.simps [simp del]

definition contentstr :: cstr where
  "contentstr = lit ''Content-Disposition: form-data; name='' @ [34]"

definition chop :: "byte \<Rightarrow> byte list \<Rightarrow> byte list" where
  "chop c d = (if d \<noteq> [] \<and> last d = c then butlast d else d)"

text \<open>
  What the \<open>Content-Disposition\<close> line says, from the name on: a value is kept as the code finds it, the
  bytes up to the next boundary without one line end.
\<close>

definition add_part :: "parms \<Rightarrow> cstr \<Rightarrow> byte list \<Rightarrow> parms http" where
  "add_part ps line d =
     (case strchr line 34 of
        None \<Rightarrow> Page ps
      | Some i \<Rightarrow>
          let name = take i line;
              p = dropWhile (\<lambda>c. \<not> isalpha c) (drop (i + 1) line)
          in if strncaseeq 10 p (lit ''filename='' @ [34])
             then (let f0 = drop 10 p;
                       f1 = (case strchr f0 34 of None \<Rightarrow> f0 | Some j \<Rightarrow> take j f0);
                       f2 = (case strrchr f1 92 of None \<Rightarrow> f1 | Some j \<Rightarrow> drop (j + 1) f1)
                   in case strtrim f2 of None \<Rightarrow> Wild | Some f \<Rightarrow> parm_addfile ps name f d)
             else parm_add ps name (unhcode (zstr d)))"

text \<open>One part: \<open>None\<close> when the loop ends there, otherwise the table and the rest of the buffer.\<close>

definition form_part :: "parms \<Rightarrow> cstr \<Rightarrow> byte list \<Rightarrow> (parms http \<times> byte list option)" where
  "form_part ps boundary b =
     (if take (length boundary) b \<noteq> boundary then (Page ps, None)
      else let b1 = skipLine (drop (length boundary) b)
           in if peek b1 = 0 \<or> take 2 b1 = lit ''--'' then (Page ps, None)
              else if \<not> strncaseeq (length contentstr) b1 contentstr then (Page ps, None)
              else let b2 = skipLine b1;
                       cdline = zstr (butlast (take (length b1 - length b2) b1));
                       b3 = skipLine (skip_mime b2)
                   in case strstr b3 boundary of
                        None \<Rightarrow> (Page ps, None)
                      | Some i \<Rightarrow>
                          let d = chop 13 (chop 10 (take i b3));
                              rest = (if length d = i then 0 # tl (drop i b3) else drop i b3);
                              line = drop (length contentstr) cdline
                          in if strchr line 34 = None then (Page ps, None)
                             else (add_part ps line d, Some rest))"

lemma skip_mime_length: "length (skip_mime b) \<le> length b"
proof (induction b rule: skip_mime.induct)
  case (1 b)
  then show ?case using skipLine_length [of b] by (subst skip_mime.simps) auto
qed

lemma form_part_shorter:
  assumes "form_part ps boundary b = (r, Some b')" "boundary \<noteq> []"
  shows "length b' < length b"
proof -
  define b1 where "b1 = skipLine (drop (length boundary) b)"
  define b3 where "b3 = skipLine (skip_mime (skipLine b1))"
  have h: "take (length boundary) b = boundary" using assms(1) by (simp add: form_part_def split: if_splits)
  then have "length boundary \<le> length b" by (metis length_take min_def nat_le_linear)
  moreover have "0 < length boundary" using assms(2) by simp
  ultimately have "length (drop (length boundary) b) < length b" unfolding length_drop by linarith
  then have 1: "length b1 < length b" using skipLine_length [of "drop (length boundary) b"] by (simp add: b1_def)
  have 3: "length b3 \<le> length b1"
    unfolding b3_def by (meson order_trans skipLine_length skip_mime_length)
  have "strstr b3 boundary = Some i \<Longrightarrow> i < length b3" for i
    using strstr_length [of b3 boundary i] assms(2) by (cases boundary) auto
  then have "length b' \<le> length b3"
    using assms(1) unfolding form_part_def b1_def [symmetric] Let_def b3_def [symmetric]
    by (fastforce split: if_splits option.splits)
  then show ?thesis using 1 3 by simp
qed

text \<open>\<open>parm_init_parseformdata\<close>; the boundary handed over starts with two hyphens.\<close>

function parm_init_parseformdata :: "parms \<Rightarrow> cstr \<Rightarrow> byte list \<Rightarrow> parms http" where
  "parm_init_parseformdata ps boundary b =
     (if boundary = [] then Wild
      else case form_part ps boundary b of
             (r, None) \<Rightarrow> r
           | (r, Some b') \<Rightarrow>
               (case r of Page ps' \<Rightarrow> parm_init_parseformdata ps' boundary b' | Fatal \<Rightarrow> Fatal | Wild \<Rightarrow> Wild))"
  by pat_completeness auto
termination
  by (relation "measure (\<lambda>(ps, boundary, b). length b)") (auto dest: sym intro: form_part_shorter)

declare parm_init_parseformdata.simps [simp del]

section \<open>A request\<close>

text \<open>
  \<open>http_parm_init\<close>: the environment as strings, the body as \<open>fread\<close> delivers it (at most \<open>n\<close> bytes).  A
  negative length passes the check, and \<open>fread\<close> gets it as a huge one for a buffer of \<open>n + 1\<close> bytes.
\<close>

definition http_parm_init :: "int \<Rightarrow> byte list \<Rightarrow> cstr \<Rightarrow> cstr \<Rightarrow> cstr \<Rightarrow> parms http" where
  "http_parm_init n stdin ctype query cookie =
     (if n > 5000000 then Fatal
      else if n < 0 then Wild
      else let buf = take (nat n) stdin;
               r = (if \<not> strncaseeq 30 ctype (lit ''multipart/form-data; boundary='')
                    then parm_init_parsestring [] (zstr buf) 38
                    else case strchr ctype 61 of
                           None \<Rightarrow> Fatal
                         | Some i \<Rightarrow>
                             parm_init_parseformdata [] (lit ''--'' @ strsncpy (drop (i + 1) ctype) 1022) buf)
           in http_bind r
                (\<lambda>ps. http_bind (parm_init_parsestring ps (strsncpy query 1024) 38)
                  (\<lambda>ps'. parm_init_parsestring ps' (strsncpy cookie 1024) 59)))"

section \<open>Pairs arrive as they were encoded\<close>

lemma to16_hex: "n < 16 \<Longrightarrow> to16 (hex_digit n) = n"
proof -
  have "\<forall>n \<in> set [0..<16]. to16 (hex_digit n) = n" by code_simp
  then show "n < 16 \<Longrightarrow> to16 (hex_digit n) = n" by simp
qed

lemma unh_code: "unh (url_code c @ s) = c # unh s"
proof (cases "url_plain c")
  case True
  then have "c \<noteq> 43" "c \<noteq> 37" by (auto simp: url_plain_def isalnum_def isalpha_def isupper_def islower_def isdigit_def)
  then show ?thesis using True by (simp add: url_code_def)
next
  case False
  have "unat c < 256" using unsigned_less [of c] by simp
  then have "to16 (hex_digit (unat c div 16)) = unat c div 16" "to16 (hex_digit (unat c mod 16)) = unat c mod 16"
    by (intro to16_hex; simp)+
  then show ?thesis using False by (simp add: url_code_def del: of_nat_add of_nat_mult)
qed

lemma unh_urlencoded: "unh (concat (map url_code s)) = s"
  by (induction s) (simp_all add: unh_code)

lemma hex_digit_alnum: "n < 16 \<Longrightarrow> isalnum (hex_digit n)"
proof -
  have "\<forall>n \<in> set [0..<16]. isalnum (hex_digit n)" by code_simp
  then show "n < 16 \<Longrightarrow> isalnum (hex_digit n)" by simp
qed

lemma url_code_chars:
  assumes "x \<in> set (url_code c)"
  shows "url_plain x \<or> x = 37"
proof -
  have "unat c < 256" using unsigned_less [of c] by simp
  then have "isalnum (hex_digit (unat c div 16))" "isalnum (hex_digit (unat c mod 16))"
    by (intro hex_digit_alnum; simp)+
  then show ?thesis using assms by (auto simp: url_code_def url_plain_def split: if_splits)
qed

lemma url_safe_chars:
  assumes "x \<in> set (concat (map url_code s))"
  shows "x \<noteq> 38 \<and> x \<noteq> 59 \<and> x \<noteq> 61 \<and> x \<noteq> 0"
proof -
  obtain c where "x \<in> set (url_code c)" using assms by auto
  from url_code_chars [OF this] show ?thesis
    by (auto simp: url_plain_def isalnum_def isalpha_def isupper_def islower_def isdigit_def)
qed

definition pair_text :: "cstr \<times> cstr \<Rightarrow> cstr" where
  "pair_text p = fst p @ 61 # concat (map url_code (snd p))"

text \<open>The names a form may have: \<open>parm_name\<close> holds 77 characters.\<close>

definition pair_ok :: "cstr \<times> cstr \<Rightarrow> bool" where
  "pair_ok p \<longleftrightarrow> fst p \<noteq> [] \<and> length (fst p) \<le> 77 \<and> 0 \<notin> set (snd p)
     \<and> (\<forall>c \<in> set (fst p). \<not> blank c \<and> c \<noteq> 0 \<and> c \<noteq> 61 \<and> c \<noteq> 38 \<and> c \<noteq> 59)"

lemma strtok_single:
  assumes "t \<noteq> []" "d \<notin> set t"
  shows "strtok_all t {d} = [t]" "strtok_all (t @ d # r) {d} = t # strtok_all r {d}"
proof -
  obtain c u where t: "t = c # u" "c \<noteq> d" using assms by (cases t) auto
  have w: "takeWhile (\<lambda>c. c \<noteq> d) t = t" using assms by (intro takeWhile_eq_all_conv [THEN iffD2]) auto
  have w2: "takeWhile (\<lambda>c. c \<noteq> d) (t @ d # r) = t" using assms by (subst takeWhile_append2) auto
  have "dropWhile (\<lambda>c. c = d) t = t" "dropWhile (\<lambda>c. c = d) (t @ d # r) = t @ d # r" using t by simp_all
  note dw = this
  have "strtok (Some t) {d} = (Some t, None)" using dw assms(1) by (simp add: strtok_def Let_def w)
  then show "strtok_all t {d} = [t]" by (subst strtok_all.simps) simp
  have "strtok (Some (t @ d # r)) {d} = (Some t, Some r)" using w2 dw assms(1) by (simp add: strtok_def Let_def)
  then show "strtok_all (t @ d # r) {d} = t # strtok_all r {d}" by (subst strtok_all.simps) simp
qed

fun join :: "byte \<Rightarrow> cstr list \<Rightarrow> cstr" where
  "join d [] = []"
| "join d [t] = t"
| "join d (t # ts) = t @ d # join d ts"

lemma strtok_join: "\<forall>t \<in> set ts. t \<noteq> [] \<and> d \<notin> set t \<Longrightarrow> strtok_all (join d ts) {d} = ts"
proof (induction d ts rule: join.induct)
  case (1 d)
  then show ?case by (subst strtok_all.simps) (simp add: strtok_def)
qed (simp_all add: strtok_single)

lemma strtrim_id:
  assumes "s \<noteq> []" "length s \<le> 1000" "0 \<notin> set s" "\<not> blank (hd s)" "\<not> blank (last s)"
  shows "strtrim s = Some s"
proof -
  have t: "pad0 1024 (strsncpy s 1024) = pad0 1024 s" using assms(2) by (simp add: strsncpy_take)
  have "last s \<noteq> 0" using assms(1,3) last_in_set by metis
  moreover have "pad0 1024 s ! (length s - 1) = last s" using assms(1) by (simp add: pad0_def nth_append last_conv_nth)
  ultimately have "rtrim_loop (pad0 1024 s) (length s - 1) = length s - 1"
    using assms(5) by (cases "length s - 1") auto
  moreover have "take (length s - 1 + 1) (pad0 1024 s) = s" using assms(1) by (simp add: pad0_def)
  ultimately have "strrtrim s = Some s" using assms(1-3) t by (simp add: strrtrim_def zstr_id)
  moreover have "strltrim s = s" using assms(1,4) by (cases s) (simp_all add: strltrim_def)
  ultimately show ?thesis by (simp add: strtrim_def)
qed

lemma parse_pair_text:
  assumes "pair_ok p" "length ps < 255"
  shows "parse_pair ps (pair_text p) = Page (ps @ [Value (fst p) (snd p)])"
proof -
  have "61 \<notin> set (fst p)" using assms(1) by (auto simp: pair_ok_def)
  then have "takeWhile (\<lambda>x. x \<noteq> 61) (pair_text p) = fst p" unfolding pair_text_def by (subst takeWhile_append2) auto
  then have "strchr (pair_text p) 61 = Some (length (fst p))" by (simp add: strchr_def pair_text_def)
  moreover have "strtrim (fst p) = Some (fst p)" using assms(1) by (intro strtrim_id) (auto simp: pair_ok_def)
  moreover have "strsncpy (fst p) 78 = fst p" using assms(1) by (simp add: strsncpy_take pair_ok_def)
  moreover have "unhcode (concat (map url_code (snd p))) = snd p"
    using assms(1) by (simp add: unhcode_def unh_urlencoded zstr_id pair_ok_def)
  ultimately show ?thesis using assms(2) by (simp add: parse_pair_def pair_text_def parm_add_def)
qed

lemma parse_pairs_texts:
  assumes "\<forall>p \<in> set kvs. pair_ok p" "length ps + length kvs \<le> 255"
  shows "parse_pairs ps (map pair_text kvs) = Page (ps @ map (\<lambda>(n, v). Value n v) kvs)"
  using assms
proof (induction kvs arbitrary: ps)
  case (Cons p kvs)
  then show ?case using parse_pair_text [of p ps] by (simp add: case_prod_beta)
qed simp

lemma query_parsed:
  assumes "\<forall>p \<in> set kvs. pair_ok p" "length ps + length kvs \<le> 255" "d = 38 \<or> d = 59"
  shows "parm_init_parsestring ps (join d (map pair_text kvs)) d = Page (ps @ map (\<lambda>(n, v). Value n v) kvs)"
proof -
  have "\<forall>t \<in> set (map pair_text kvs). t \<noteq> [] \<and> d \<notin> set t"
    using assms(1,3) url_safe_chars by (fastforce simp: pair_text_def pair_ok_def)
  then show ?thesis using parse_pairs_texts [OF assms(1,2)] by (simp add: parm_init_parsestring_def strtok_join)
qed

lemma find_parm_values:
  "find_parm (map (\<lambda>(n, v). Value n v) kvs) var
    = map_option (\<lambda>(n, v). Value n v) (find (\<lambda>p. strcaseeq (fst p) var) (rev kvs))"
proof -
  have "find (\<lambda>p. strcaseeq (parm_name p) var) (map (\<lambda>(n, v). Value n v) l)
      = map_option (\<lambda>(n, v). Value n v) (find (\<lambda>p. strcaseeq (fst p) var) l)" for l
    by (induction l) auto
  then show ?thesis by (simp add: find_parm_def rev_map)
qed

section \<open>Forms arrive as they were sent\<close>

lemma peek_simps [simp]: "peek [] = 0" "peek (c # s) = c"
  by (simp_all add: peek_def)

lemma skip_line_crlf:
  assumes "0 \<notin> set s" "10 \<notin> set s" "13 \<notin> set s"
  shows "skipLine (s @ 13 # 10 # r) = r"
proof -
  have "dropWhile (\<lambda>c. c \<noteq> 0 \<and> c \<noteq> 13 \<and> c \<noteq> 10) (s @ 13 # 10 # r) = 13 # 10 # r"
    using assms by (subst dropWhile_append2) auto
  then show ?thesis by (simp add: skipLine_def skip1_def)
qed

lemma skip_line_crlf0 [simp]: "skipLine (13 # 10 # r) = r"
  using skip_line_crlf [of "[]"] by simp

text \<open>A line of a part: no NUL and no line end inside.\<close>

definition line_ok :: "cstr \<Rightarrow> bool" where
  "line_ok s \<longleftrightarrow> 0 \<notin> set s \<and> 10 \<notin> set s \<and> 13 \<notin> set s"

definition mime_bytes :: "cstr list \<Rightarrow> byte list" where
  "mime_bytes ms = concat (map (\<lambda>s. s @ [13, 10]) ms)"

lemma skip_mime_lines: "\<forall>s \<in> set ms. s \<noteq> [] \<and> line_ok s \<Longrightarrow> skip_mime (mime_bytes ms @ 13 # 10 # r) = 13 # 10 # r"
proof (induction ms)
  case Nil
  then show ?case by (subst skip_mime.simps) (simp add: mime_bytes_def)
next
  case (Cons s ms)
  obtain c u where s: "s = c # u" "c \<noteq> 0" "c \<noteq> 13" "c \<noteq> 10" using Cons.prems by (cases s) (auto simp: line_ok_def)
  have "skipLine (s @ 13 # 10 # mime_bytes ms @ 13 # 10 # r) = mime_bytes ms @ 13 # 10 # r"
    using Cons.prems by (intro skip_line_crlf) (auto simp: line_ok_def)
  then show ?case using Cons s by (subst skip_mime.simps) (simp add: mime_bytes_def)
qed

text \<open>
  A part as a browser writes it: the boundary, the line with the name and what follows it, other lines, an
  empty line and the content; the next boundary follows behind another line end.
\<close>

definition part_bytes :: "cstr \<Rightarrow> cstr \<Rightarrow> cstr list \<Rightarrow> byte list \<Rightarrow> byte list" where
  "part_bytes boundary line ms d =
     boundary @ [13, 10] @ contentstr @ line @ [13, 10] @ mime_bytes ms @ [13, 10] @ d @ [13, 10]"

definition free_of :: "cstr \<Rightarrow> byte list \<Rightarrow> bool" where
  "free_of boundary d \<longleftrightarrow> strstr (d @ [13, 10] @ boundary) boundary = Some (length d + 2)"

lemma strstr_extend: "strstr s pat = Some i \<Longrightarrow> strstr (s @ r) pat = Some i"
proof (induction s pat arbitrary: i rule: strstr.induct)
  case (1 pat)
  then show ?case by (cases r) (auto split: if_splits)
next
  case (2 x s pat)
  show ?case
  proof (cases "take (length pat) (x # s) = pat")
    case True
    then have "length pat \<le> length (x # s)" by (metis length_take min.cobounded1)
    then have "take (length pat) ((x # s) @ r) = pat" using True by (simp del: append_Cons)
    then show ?thesis using 2 True by simp
  next
    case False
    then obtain j where j: "strstr s pat = Some j" "i = Suc j" using 2 by auto
    have l: "length pat \<le> length (x # s)" using strstr_length [OF j(1)] by simp
    then have "take (length pat) ((x # s) @ r) \<noteq> pat" using False by (simp del: append_Cons)
    then show ?thesis using 2(1) [OF False j(1)] j(2) by simp
  qed
qed

lemma contentstr_facts:
  "contentstr \<noteq> []" "line_ok contentstr" "hd contentstr = 67" "length contentstr = 38"
  by (simp_all add: contentstr_def line_ok_def lit_def)

lemma form_part_reads:
  assumes "boundary \<noteq> []" "line_ok line" "\<forall>s \<in> set ms. s \<noteq> [] \<and> line_ok s" "free_of boundary d" "34 \<in> set line"
  shows "form_part ps boundary (part_bytes boundary line ms d @ boundary @ r)
    = (add_part ps (line @ [13]) d, Some (boundary @ r))"
proof -
  let ?b3 = "d @ 13 # 10 # boundary @ r"
  let ?b2 = "mime_bytes ms @ 13 # 10 # ?b3"
  let ?b1 = "contentstr @ line @ 13 # 10 # ?b2"
  have b: "part_bytes boundary line ms d @ boundary @ r = boundary @ 13 # 10 # ?b1"
    by (simp add: part_bytes_def)
  have 2: "skipLine ?b1 = ?b2"
    using skip_line_crlf [of "contentstr @ line" ?b2] assms(2) contentstr_facts(2) by (simp add: line_ok_def)
  have 3: "skipLine (skip_mime ?b2) = ?b3" by (simp add: skip_mime_lines [OF assms(3)])
  obtain c where c: "contentstr = 67 # c" using contentstr_facts(1,3) by (metis list.collapse)
  have "hd (take 2 ?b1) = 67" "hd (lit ''--'') = 45" by (simp_all add: c lit_def)
  then have "take 2 ?b1 \<noteq> lit ''--''" by auto
  moreover have "peek ?b1 \<noteq> 0" by (simp add: c)
  ultimately have pk: "peek ?b1 \<noteq> 0" "take 2 ?b1 \<noteq> lit ''--''" by simp_all
  have sc: "strncaseeq (length contentstr) ?b1 contentstr" by (simp add: strncaseeq_def)
  have "0 \<notin> set (contentstr @ line @ [13])" using assms(2) contentstr_facts(2) by (auto simp: line_ok_def)
  then have cd: "zstr (butlast (take (length ?b1 - length ?b2) ?b1)) = contentstr @ line @ [13]"
    by (simp add: zstr_id butlast_append)
  have st: "strstr ?b3 boundary = Some (length d + 2)"
    using strstr_extend [of "d @ [13, 10] @ boundary" boundary "length d + 2" r] assms(4) by (simp add: free_of_def)
  have "take (length d + 2) ?b3 = d @ [13, 10]" by simp
  then have ch: "chop 13 (chop 10 (take (length d + 2) ?b3)) = d" by (simp add: chop_def butlast_append)
  have q: "strchr (line @ [13]) 34 \<noteq> None" using assms(5) by (simp add: strchr_None)
  show ?thesis
    unfolding b form_part_def Let_def using pk sc q cd ch st by (simp add: 2 3)
qed

primrec part_of :: "cstr \<Rightarrow> parm \<Rightarrow> byte list" where
  "part_of boundary (Value n v) = part_bytes boundary (n @ [34]) [] v"
| "part_of boundary (File n f d) =
     part_bytes boundary (n @ 34 # lit ''; filename='' @ 34 # f @ [34])
       [lit ''Content-Type: application/octet-stream''] d"

text \<open>What the code makes of a part: a value is decoded like a pair of a query.\<close>

primrec received :: "parm \<Rightarrow> parm" where
  "received (Value n v) = Value n (unhcode v)"
| "received (File n f d) = File n f d"

definition name_line :: "cstr \<Rightarrow> bool" where
  "name_line n \<longleftrightarrow> line_ok n \<and> 34 \<notin> set n \<and> length n \<le> 77"

primrec part_ok :: "cstr \<Rightarrow> parm \<Rightarrow> bool" where
  "part_ok boundary (Value n v) \<longleftrightarrow> name_line n \<and> 0 \<notin> set v \<and> free_of boundary v"
| "part_ok boundary (File n f d) \<longleftrightarrow>
     name_line n \<and> line_ok f \<and> 34 \<notin> set f \<and> 92 \<notin> set f \<and> f \<noteq> [] \<and> length f \<le> 1000
     \<and> \<not> blank (hd f) \<and> \<not> blank (last f) \<and> free_of boundary d"

lemma strchr_at: "c \<notin> set s \<Longrightarrow> strchr (s @ c # t) c = Some (length s)"
  by (simp add: strchr_def takeWhile_append)

lemma add_value:
  assumes "name_line n" "0 \<notin> set v" "length ps < 255"
  shows "add_part ps ((n @ [34]) @ [13]) v = Page (ps @ [Value n (unhcode v)])"
proof -
  have "strchr (n @ 34 # [13]) 34 = Some (length n)" using assms(1) by (intro strchr_at) (simp add: name_line_def)
  moreover have "\<not> strncaseeq 10 [] (lit ''filename='' @ [34])" by (simp add: strncaseeq_def lit_def)
  moreover have "\<not> isalpha 13" by (simp add: isalpha_def isupper_def islower_def)
  moreover have "strsncpy n 78 = n" using assms(1) by (simp add: strsncpy_take name_line_def)
  ultimately show ?thesis using assms(2,3) by (simp add: add_part_def parm_add_def zstr_id Let_def)
qed

lemma add_file:
  assumes "part_ok boundary (File n f d)" "length ps < 255"
  shows "add_part ps ((n @ 34 # lit ''; filename='' @ 34 # f @ [34]) @ [13]) d = Page (ps @ [File n f d])"
proof -
  define q where "q = lit ''filename='' @ [34]"
  define sep where "sep = lit ''; filename='' @ [34]"
  have x: "sep = 59 # 32 # q" "q = 102 # tl q" "length q = 10" by (simp_all add: lit_def q_def sep_def)
  have y: "\<not> isalpha 59" "\<not> isalpha 32" "isalpha 102" by (simp_all add: isalpha_def isupper_def islower_def)
  have "dropWhile (\<lambda>c. \<not> isalpha c) (102 # z) = 102 # z" for z using y by simp
  then have "dropWhile (\<lambda>c. \<not> isalpha c) (q @ z) = q @ z" for z using x(2) by (metis append_Cons)
  then have p: "dropWhile (\<lambda>c. \<not> isalpha c) (sep @ f @ [34, 13]) = q @ f @ [34, 13]"
    unfolding x(1) using y by simp
  have c: "strncaseeq 10 (q @ z) q" "drop 10 (q @ z) = z" for z using x(3) by (simp_all add: strncaseeq_def)
  have n: "strchr (n @ 34 # sep @ f @ [34, 13]) 34 = Some (length n)"
    using assms(1) by (intro strchr_at) (simp add: name_line_def)
  have f: "strchr (f @ [34, 13]) 34 = Some (length f)" "strrchr f 92 = None" "strtrim f = Some f"
    using assms(1) by (auto intro!: strchr_at strtrim_id simp: strrchr_None line_ok_def)
  have m: "strsncpy n 78 = n" using assms(1) by (simp add: strsncpy_take name_line_def)
  have "f \<noteq> []" using assms(1) by simp
  then have "add_part ps (n @ 34 # sep @ f @ [34, 13]) d = Page (ps @ [File n f d])"
    unfolding add_part_def q_def [symmetric] n using m f assms(2) by (simp add: p c x(3) parm_addfile_def Let_def)
  then show ?thesis by (simp add: sep_def)
qed

lemma part_read:
  assumes "part_ok boundary p" "boundary \<noteq> []" "length ps < 255"
  shows "form_part ps boundary (part_of boundary p @ boundary @ r)
    = (Page (ps @ [received p]), Some (boundary @ r))"
proof (cases p)
  case (Value n v)
  then show ?thesis
    using form_part_reads [of boundary "n @ [34]" "[]" v ps r] add_value [of n v ps] assms
    by (simp add: name_line_def line_ok_def)
next
  case (File n f d)
  have "line_ok (n @ 34 # lit ''; filename='' @ 34 # f @ [34])"
    using File assms(1) by (auto simp: name_line_def line_ok_def lit_def)
  moreover have "line_ok (lit ''Content-Type: application/octet-stream'')" by (simp add: line_ok_def lit_def)
  moreover have "lit ''Content-Type: application/octet-stream'' \<noteq> []" by (simp add: lit_def)
  ultimately show ?thesis
    using form_part_reads [of boundary "n @ 34 # lit ''; filename='' @ 34 # f @ [34]"
        "[lit ''Content-Type: application/octet-stream'']" d ps r]
      add_file [of boundary n f d ps] assms File by simp
qed

lemma part_starts: "\<exists>x. part_of boundary p = boundary @ x"
  by (cases p) (simp_all add: part_bytes_def)

lemma form_read:
  assumes "\<forall>p \<in> set ps. part_ok boundary p" "boundary \<noteq> []" "length acc + length ps \<le> 255"
  shows "parm_init_parseformdata acc boundary (concat (map (part_of boundary) ps) @ boundary @ lit ''--'' @ [13, 10])
    = Page (acc @ map received ps)"
  using assms
proof (induction ps arbitrary: acc)
  case Nil
  have "skipLine (lit ''--'' @ [13, 10]) = []"
    using skip_line_crlf [of "lit ''--''" "[]"] by (simp add: lit_def)
  then have "form_part acc boundary (boundary @ lit ''--'' @ [13, 10]) = (Page acc, None)"
    by (simp add: form_part_def Let_def)
  then show ?case using Nil by (subst parm_init_parseformdata.simps) simp
next
  case (Cons p ps)
  obtain x where x: "concat (map (part_of boundary) ps) @ boundary @ lit ''--'' @ [13, 10] = boundary @ x"
    using part_starts [of boundary] by (cases ps) (auto, metis append_assoc)
  have "form_part acc boundary (part_of boundary p @ boundary @ x) = (Page (acc @ [received p]), Some (boundary @ x))"
    using Cons.prems by (intro part_read) auto
  then show ?case using Cons x by (subst parm_init_parseformdata.simps) simp
qed

section \<open>What the programs see\<close>

text \<open>
  C27: The pairs of a query string come through: for names a form can have and any values, encoded the way
  the front end itself encodes them, \<open>getparm\<close> answers with the value of the last pair of that name, in
  upper or lower case, and with the empty string for a name that was not sent.
\<close>

theorem query_roundtrip:
  assumes "\<forall>p \<in> set kvs. pair_ok p" "length kvs \<le> 255"
  shows "\<exists>ps. parm_init_parsestring [] (join 38 (map pair_text kvs)) 38 = Page ps
    \<and> (\<forall>k. getparm ps k
        = Some (case find (\<lambda>p. strcaseeq (fst p) k) (rev kvs) of None \<Rightarrow> [] | Some (n, v) \<Rightarrow> v))"
  using query_parsed [of kvs "[]" 38] assms
  by (auto simp: getparm_def find_parm_values split: option.splits)

text \<open>\<open>Title=a+b&title=%&\<close> in the query is read back as the percent sign.\<close>

theorem query_roundtrip_witness:
  "\<exists>ps. parm_init_parsestring [] (lit ''Title=a%2Bb&title=%25&T2=x%26y'') 38 = Page ps
     \<and> getparm ps (lit ''title'') = Some [37] \<and> getparm ps (lit ''t2'') = Some (lit ''x&y'')"
proof -
  let ?kvs = "[(lit ''Title'', lit ''a+b''), (lit ''title'', [37]), (lit ''T2'', lit ''x&y'')]"
  have ok: "\<forall>p \<in> set ?kvs. pair_ok p" by (simp add: pair_ok_def blank_def lit_def)
  have t: "join 38 (map pair_text ?kvs) = lit ''Title=a%2Bb&title=%25&T2=x%26y''" by code_simp
  obtain ps where p: "parm_init_parsestring [] (join 38 (map pair_text ?kvs)) 38 = Page ps"
    "\<And>k. getparm ps k = Some (case find (\<lambda>p. strcaseeq (fst p) k) (rev ?kvs) of None \<Rightarrow> [] | Some (n, v) \<Rightarrow> v)"
    using query_roundtrip [OF ok] by auto
  show ?thesis
    by (rule exI [of _ ps])
      (use p(1) [unfolded t] in \<open>simp add: p(2) strcaseeq_def tolower_def isupper_def lit_def\<close>)
qed

text \<open>
  C28: A form with files comes through: every file arrives under its name byte for byte, whatever its
  bytes are, as long as the boundary does not occur in it; plain values arrive as well, but decoded as if
  they came from a query, so a plus sign in the text of a form with a file becomes a blank.
\<close>

theorem form_roundtrip:
  assumes "\<forall>p \<in> set ps. part_ok boundary p" "boundary \<noteq> []" "length ps \<le> 255"
  shows "parm_init_parseformdata [] boundary (concat (map (part_of boundary) ps) @ boundary @ lit ''--'' @ [13, 10])
      = Page (map received ps)
    \<and> (\<forall>k f d. (\<exists>n. find (\<lambda>p. strcaseeq (parm_name p) k) (rev ps) = Some (File n f d))
        \<longrightarrow> getparmfile (map received ps) k = Some (f, d))"
proof -
  have n: "parm_name (received p) = parm_name p" for p by (cases p) simp_all
  have "find (\<lambda>p. strcaseeq (parm_name p) k) (map received l)
      = map_option received (find (\<lambda>p. strcaseeq (parm_name p) k) l)" for k l
    by (induction l) (simp_all add: n)
  then have "find_parm (map received ps) k = map_option received (find (\<lambda>p. strcaseeq (parm_name p) k) (rev ps))" for k
    by (simp add: find_parm_def rev_map)
  then show ?thesis using form_read [of ps boundary "[]"] assms by (auto simp: getparmfile_def)
qed

text \<open>A value with a plus sign and a file whose bytes are a NUL and a line end.\<close>

theorem form_roundtrip_witness:
  "parm_init_parseformdata [] (lit ''--x'')
     (concat (map (part_of (lit ''--x'')) [Value (lit ''text'') (lit ''a+b''), File (lit ''up'') (lit ''f.bin'') [0, 10]])
        @ lit ''--x'' @ lit ''--'' @ [13, 10])
   = Page [Value (lit ''text'') (lit ''a b''), File (lit ''up'') (lit ''f.bin'') [0, 10]]"
proof -
  let ?ps = "[Value (lit ''text'') (lit ''a+b''), File (lit ''up'') (lit ''f.bin'') [0, 10]]"
  have "part_ok (lit ''--x'') p" if "p \<in> set ?ps" for p
    using that
    by (auto simp: name_line_def line_ok_def free_of_def blank_def lit_def)
  then have "parm_init_parseformdata [] (lit ''--x'') (concat (map (part_of (lit ''--x'')) ?ps)
        @ lit ''--x'' @ lit ''--'' @ [13, 10]) = Page (map received ?ps)"
    using form_roundtrip [of ?ps "lit ''--x''"] by (auto simp: lit_def)
  moreover have "unhcode (lit ''a+b'') = lit ''a b''" by code_simp
  ultimately show ?thesis by simp
qed

end
