(* ===== verification/WebLogin.thy ===== *)
theory WebLogin
  imports WebParm Utmp UserDb
begin

text \<open>
  Sessions of the web front end: \<open>wwwlogin\<close> of \<open>src/nju09/bbslogin.c\<close> makes one, the session part of
  \<open>url_parse\<close> and \<open>user_init\<close> of \<open>src/nju09/BBSLIB.c\<close> recognise it in a request.  The build uses the
  session cookie (\<open>USESESSIONCOOKIE\<close>).
\<close>

section \<open>State\<close>

text \<open>
  The fields of \<open>struct user_info\<close> only the web front end uses, and what a program works on: the table of
  online users with these fields, the file of the record number of users, the password file.
\<close>

record web_user =
  fromIP :: "32 word"
  sessionid :: cstr
  ipmask :: nat

record webst =
  wshm :: utmpshm
  www :: "nat \<Rightarrow> web_user"
  maxfile :: "int option"
  wdb :: pwdb

text \<open>A request: its address, the name of the host as shown and as it is, the random letters of a new session.\<close>

record request =
  req_ip :: "32 word"
  from_host :: cstr
  real_host :: cstr
  req_rnd :: cstr
  req_mask :: int
  req_style :: int
  req_rejects :: "int list"

section \<open>The cookie\<close>

text \<open>
  \<open>addextraparam\<close> in an array of \<open>sz\<close> bytes.  The underscore it appends has no NUL behind it, so with
  \<open>n > 0\<close> it goes on with old bytes (\<open>None\<close>).
\<close>

definition addextraparam :: "cstr \<Rightarrow> nat \<Rightarrow> nat \<Rightarrow> int \<Rightarrow> cstr option" where
  "addextraparam ub sz n param =
     (let c = of_int (65 + cmod param 26) in
      case strchr ub 95 of
        None \<Rightarrow>
          if int (length ub) > int sz - 3 then Some ub
          else if n > 0 then None
          else Some (ub @ [95, c])
      | Some i \<Rightarrow>
          if i + 1 + n + 1 \<ge> sz then Some ub
          else let k = take n (drop (i + 1) ub)
               in Some (take (i + 1) ub @ k @ replicate (n - length k) 95 @ [c]))"

definition STRLEN :: nat where "STRLEN = 80"

text \<open>\<open>makeurlbase\<close>: the address and the cookie.\<close>

definition session_key :: "webst \<Rightarrow> int \<Rightarrow> int \<Rightarrow> cstr" where
  "session_key st uent uid' =
     (if uent < 0 then []
      else myitoa uent 3 @ myitoa uid' 4 @ sessionid (www st (nat uent)))"

definition makeurlbase :: "cstr \<Rightarrow> parms \<Rightarrow> webst \<Rightarrow> int \<Rightarrow> int \<Rightarrow> int \<Rightarrow> (cstr \<times> cstr) http" where
  "makeurlbase SMAGIC ps st style uent uid' =
     (case getparm ps (lit ''usehost'') of
        None \<Rightarrow> Wild
      | Some h \<Rightarrow>
          (case addextraparam (session_key st uent uid') STRLEN 0 style of
             None \<Rightarrow> Wild
           | Some c \<Rightarrow> Page ((if length h \<ge> STRLEN then [] else h) @ 47 # SMAGIC @ [47], c)))"

text \<open>
  The session in a request: \<open>None\<close> when \<open>url_parse\<close> gives up.  The name is cut at the underscore, what is
  behind it chooses the style of the pages.
\<close>

definition url_session :: "cstr \<Rightarrow> parms \<Rightarrow> cstr \<Rightarrow> (cstr \<times> cstr) option http" where
  "url_session SMAGIC ps url =
     http_bind
       (if url = [47] then Page [47]
        else case getparm ps (lit ''SESSION'') of None \<Rightarrow> Wild | Some s \<Rightarrow> Page (strsncpy s 80))
       (\<lambda>name0.
          let k = length SMAGIC + 1; magic = (take k url = 47 # SMAGIC);
              name = (if magic \<and> length name0 \<le> 1
                      then takeWhile (\<lambda>c. c \<noteq> 47) (take (STRLEN - 1) (drop k url)) else name0)
          in Page (if magic \<and> strchr (drop k url) 47 = None then None
                   else case strchr name 95 of
                          None \<Rightarrow> Some (name, [])
                        | Some i \<Rightarrow> Some (take i name, drop (i + 1) name)))"

section \<open>Recognising a session\<close>

text \<open>
  The results of \<open>user_init\<close>: its value, the user as the number of his record (\<open>None\<close> for the null
  pointer), the entry \<open>*y\<close> points to, and the three globals it sets.
\<close>

record web_id =
  id_ret :: int
  id_user :: "nat option"
  id_entry :: "nat option"
  isguest :: bool
  tempuser :: bool
  utmpent :: int

definition nobody :: "nat option \<Rightarrow> nat option \<Rightarrow> bool \<Rightarrow> web_id" where
  "nobody guest y g =
     \<lparr>id_ret = 0, id_user = guest, id_entry = y, isguest = g, tempuser = False, utmpent = 0\<rparr>"

definition guest_user :: "pwdb \<Rightarrow> nat option option" where
  "guest_user s = map_option (\<lambda>g. if g = 0 then None else Some g) (getuser s (lit ''guest''))"

definition same_addr :: "web_user \<Rightarrow> 32 word \<Rightarrow> bool" where
  "same_addr w ip \<longleftrightarrow>
     (if ipmask w \<noteq> 0 then push_bit (ipmask w) (fromIP w) = push_bit (ipmask w) ip else fromIP w = ip)"

text \<open>A user who comes over from a telnet session: only two letters of the session are compared.\<close>

definition temp_init :: "utmp_env \<Rightarrow> webst \<Rightarrow> 32 word \<Rightarrow> nat option \<Rightarrow> cstr \<Rightarrow> web_id" where
  "temp_init env st ip guest ub =
     (let i = myatoi ub 3; u = myatoi (drop 3 ub) 4; sid = drop 7 ub in
      if i < 0 \<or> i \<ge> int (maxactive env) \<or> u \<le> 0 \<or> u > int (maxusers env) then nobody guest None False
      else let e = nat i; x = uinfo (wshm st) e; w = www st e in
        if fromIP w \<noteq> ip \<or> take 2 (sessionid w) \<noteq> take 2 sid \<or> active x = 0 \<or> strcaseeq (uname x) (lit ''new'')
        then nobody guest (Some e) False
        else let g = (uname x = lit ''guest'') in
          if \<not> g \<and> getuserbynum (wdb st) u \<le> 0 then nobody guest (Some e) g
          else let x2 = (if g then guest else Some (nat u)) in
            case x2 of
              None \<Rightarrow> nobody guest (Some e) g
            | Some r \<Rightarrow>
                if db_name (wdb st) r \<noteq> uname x then nobody guest (Some e) g
                else \<lparr>id_ret = 0, id_user = Some r, id_entry = Some e, isguest = g, tempuser = True,
                      utmpent = i + 1\<rparr>)"

text \<open>
  The test of \<open>getuserbynum\<close> for a negative result never holds: for a user who was kicked out the pointer
  stays unset (\<open>None\<close>).
\<close>

definition user_init :: "utmp_env \<Rightarrow> webst \<Rightarrow> 32 word \<Rightarrow> cstr \<Rightarrow> (webst \<times> web_id) option" where
  "user_init env st ip ub =
     (case guest_user (wdb st) of
        None \<Rightarrow> None
      | Some guest \<Rightarrow>
          if length ub < 33
          then Some (st, if length ub \<ge> 8 then temp_init env st ip guest ub else nobody guest None False)
          else let s = take 37 ub; i = myatoi s 3; u = myatoi (drop 3 s) 4; sid = strsncpy (drop 7 s) 31 in
            if i < 0 \<or> i \<ge> int (maxactive env) \<or> u \<le> 0 \<or> u > int (maxusers env)
            then Some (st, nobody guest None False)
            else let e = nat i; x = uinfo (wshm st) e; w = www st e in
              if \<not> same_addr w ip \<or> sessionid w \<noteq> sid \<or> active x = 0 \<or> uname x = []
                 \<or> strcaseeq (uname x) (lit ''new'') \<or> now env - lasttime x > 18 * 60 \<or> iskicked x
              then Some (st, nobody guest (Some e) False)
              else let shm' = (wshm st)\<lparr>uinfo := (uinfo (wshm st))(e := x\<lparr>lasttime := now env\<rparr>)\<rparr>;
                       st' = st\<lparr>wshm := shm'\<rparr>; g = strcaseeq (uname x) (lit ''guest'') in
                if \<not> g \<and> getuserbynum (wdb st) u = 0 then None
                else case (if g then guest else Some (nat u)) of
                       None \<Rightarrow> Some (st', nobody guest (Some e) g)
                     | Some r \<Rightarrow>
                         if db_name (wdb st) r \<noteq> uname x then Some (st', nobody guest (Some e) g)
                         else Some (st', \<lparr>id_ret = 1, id_user = Some r, id_entry = Some e, isguest = g,
                                         tempuser = False, utmpent = i + 1\<rparr>))"

section \<open>Logging in\<close>

definition do_check :: "utmp_env \<Rightarrow> webst \<Rightarrow> 32 word \<Rightarrow> int \<Rightarrow> nat \<Rightarrow> bool" where
  "do_check env st ip u e \<longleftrightarrow>
     (let x = uinfo (wshm st) e in
      uid x = u \<and> active x = 1 \<and> pid x = 1 \<and> now env - lasttime x < 18 * 60 \<and> ip = fromIP (www st e))"

fun row_multi :: "utmp_env \<Rightarrow> webst \<Rightarrow> 32 word \<Rightarrow> int \<Rightarrow> nat list \<Rightarrow> nat option" where
  "row_multi env st ip u [] = None"
| "row_multi env st ip u (x # xs) =
     (if x \<noteq> 0 \<and> do_check env st ip u (x - 1) then Some (x - 1) else row_multi env st ip u xs)"

partial_function (option) guest_multi :: "utmp_env \<Rightarrow> webst \<Rightarrow> 32 word \<Rightarrow> int \<Rightarrow> nat \<Rightarrow> nat option option" where
  "guest_multi env st ip u e =
     (if e = 0 then Some None
      else if do_check env st ip u (e - 1) then Some (Some (e - 1))
      else guest_multi env st ip u (guest_next (wshm st) e))"

text \<open>\<open>check_multi\<close>: a session of the user that is used again; \<open>None\<close> when the chain of guests has no end.\<close>

definition check_multi :: "utmp_env \<Rightarrow> webst \<Rightarrow> request \<Rightarrow> cstr \<Rightarrow> int \<Rightarrow> nat option option" where
  "check_multi env st req name u =
     (if u \<le> 0 \<or> u > int (maxusers env) then Some None
      else if \<not> strcaseeq name (lit ''guest'')
      then Some (row_multi env st (req_ip req) u (take 6 (uindex (wshm st) (nat (u - 1)))))
      else guest_multi env st (req_ip req) u (guest_head (wshm st) (utmp_iphash (addr_junk env) (real_host req))))"

text \<open>\<open>count_uindex\<close> also empties the links to telnet sessions whose process is gone.\<close>

fun count_row :: "utmp_env \<Rightarrow> utmpshm \<Rightarrow> int \<Rightarrow> nat list \<Rightarrow> nat list \<times> int" where
  "count_row env s u [] = ([], 0)"
| "count_row env s u (x # xs) =
     (let (ys, n) = count_row env s u xs; i = uinfo s (x - 1) in
      if x = 0 \<or> active i = 0 \<or> pid i = 0 \<or> uid i \<noteq> u then (x # ys, n)
      else if pid i > 1 \<and> \<not> alive env (pid i) then (0 # ys, n)
      else (x # ys, n + 1))"

definition count_uindex :: "utmp_env \<Rightarrow> utmpshm \<Rightarrow> int \<Rightarrow> utmpshm \<times> int" where
  "count_uindex env s u =
     (if u \<le> 0 \<or> u > int (maxusers env) then (s, 0)
      else let k = nat (u - 1); (r, n) = count_row env s u (uindex s k)
           in (s\<lparr>uindex := (uindex s)(k := r)\<rparr>, n))"

definition PERM_LOGINCLOAK :: "32 word" where "PERM_LOGINCLOAK = 0x4A40"
definition CLOAK_FLAG :: byte where "CLOAK_FLAG = 2"

definition new_entry :: "utmp_env \<Rightarrow> request \<Rightarrow> userec \<Rightarrow> int \<Rightarrow> user_info" where
  "new_entry env req user u =
     \<lparr>active = 1, uid = u, pid = 1,
      invisible = (if userlevel user AND PERM_LOGINCLOAK \<noteq> 0 \<and> uflags user ! 0 AND CLOAK_FLAG \<noteq> 0 then 1 else 0),
      sockactive = 0, sockaddr = 0, destuid = 0, lasttime = now env, ulevel = userlevel user,
      fromhost = strsncpy (from_host req) 20, uname = strsncpy (userid user) 13, reject = [], iskicked = False\<rparr>"

text \<open>
  \<open>wwwlogin\<close> of an existing user: the state, the address and the cookie.  A user who is no guest gets his
  friends and rejects loaded; the mask is a field of four bits.
\<close>

definition wwwlogin ::
  "utmp_env \<Rightarrow> cstr \<Rightarrow> parms \<Rightarrow> webst \<Rightarrow> request \<Rightarrow> cstr \<Rightarrow> (webst \<times> cstr \<times> cstr) http" where
  "wwwlogin env SMAGIC ps st req name =
     (case getuser (wdb st) name of
        None \<Rightarrow> Wild
      | Some u0 \<Rightarrow>
          let u = int u0; g = strcaseeq name (lit ''guest'') in
          case check_multi env st req name u of
            None \<Rightarrow> Wild
          | Some (Some e) \<Rightarrow>
              http_bind (makeurlbase SMAGIC ps st (req_style req) (int e) u) (\<lambda>(b, c). Page (st, b, c))
          | Some None \<Rightarrow>
              let (shm1, n) = (if g then (wshm st, 0) else count_uindex env (wshm st) u) in
              if \<not> g \<and> n \<ge> 3 then Fatal
              else if u0 = 0 \<or> length (snd (wdb st)) < u0 then Wild
              else let x = new_entry env req (snd (wdb st) ! (u0 - 1)) u in
                case utmp_login env (maxfile st) shm1 x of
                  None \<Rightarrow> Wild
                | Some (shm2, mf, r) \<Rightarrow>
                    if r > int (maxactiverun env) \<or> r \<le> 0 then Fatal
                    else let e = nat r - 1;
                             y = (uinfo shm2 e)\<lparr>reject := (if g then reject (uinfo shm2 e) else req_rejects req)\<rparr>;
                             st' = st\<lparr>wshm := shm2\<lparr>uinfo := (uinfo shm2)(e := y)\<rparr>, maxfile := mf,
                                     www := (www st)(e := \<lparr>fromIP = req_ip req, sessionid = req_rnd req,
                                                           ipmask = nat (req_mask req mod 16)\<rparr>)\<rparr>
                         in http_bind (makeurlbase SMAGIC ps st' (req_style req) (int e) u)
                              (\<lambda>(b, c). Page (st', b, c)))"

text \<open>\<open>extandipmask\<close> with the two addresses as \<open>inet_aton\<close> reads them.\<close>

fun widen_mask :: "nat \<Rightarrow> 32 word \<Rightarrow> 32 word \<Rightarrow> nat \<Rightarrow> nat" where
  "widen_mask 0 a b m = m"
| "widen_mask (Suc k) a b m =
     (if m < 15 \<and> push_bit m a \<noteq> push_bit m b then widen_mask k a b (m + 1) else m)"

definition extandipmask :: "int \<Rightarrow> cstr \<Rightarrow> cstr \<Rightarrow> int option" where
  "extandipmask m ip1 ip2 =
     (if ip1 = [] \<or> ip2 = [] \<or> ip1 = ip2 then Some m
      else case (inet_value ip1, inet_value ip2) of
             (Some a, Some b) \<Rightarrow>
               if m < 0 then None
               else Some (int (widen_mask 15 (of_nat (swap4 a)) (of_nat (swap4 b)) (nat m)))
           | _ \<Rightarrow> Some m)"

section \<open>The key of a session\<close>

lemma atoi64_prefix: "atoi64_loop (a @ b) (length a) r = atoi64_loop a (length a) r"
proof (induction a arbitrary: r)
  case Nil
  then show ?case by (cases b) auto
qed simp

lemma myatoi_prefix: "length a = n \<Longrightarrow> myatoi (a @ b) n = myatoi a n"
  using atoi64_prefix by (auto simp: myatoi_def)

lemma myitoa_chars: "c \<in> set (myitoa n len) \<Longrightarrow> c \<in> set mybase64"
proof (induction n len rule: myitoa.induct)
  case (2 n len)
  have "nat (n mod 64) < length mybase64" by (simp add: mybase64_def lit_def nat_less_iff)
  then show ?case using 2 by (auto intro: nth_mem)
qed simp

lemma base64_chars: "c \<in> set mybase64 \<Longrightarrow> c \<noteq> 95 \<and> c \<noteq> 0"
proof -
  have "\<forall>c \<in> set mybase64. c \<noteq> 95 \<and> c \<noteq> 0" by code_simp
  then show "c \<in> set mybase64 \<Longrightarrow> c \<noteq> 95 \<and> c \<noteq> 0" by blast
qed

text \<open>The letters \<open>getrandomstr\<close> makes.\<close>

definition random_id :: "cstr \<Rightarrow> bool" where
  "random_id s \<longleftrightarrow> length s = 30 \<and> (\<forall>c \<in> set s. isupper c)"

definition key_of :: "nat \<Rightarrow> nat \<Rightarrow> cstr \<Rightarrow> cstr" where
  "key_of e u rnd = myitoa (int e) 3 @ myitoa (int u) 4 @ rnd"

lemma key_of_facts:
  assumes "e < 262144" "u < 16777216" "random_id rnd"
  shows "length (key_of e u rnd) = 37" "myatoi (key_of e u rnd) 3 = int e"
    "myatoi (drop 3 (key_of e u rnd)) 4 = int u" "drop 7 (key_of e u rnd) = rnd"
    "95 \<notin> set (key_of e u rnd)" "0 \<notin> set (key_of e u rnd)"
proof -
  show "length (key_of e u rnd) = 37" using assms(3) by (simp add: key_of_def random_id_def)
  have "myatoi (myitoa (int e) 3) 3 = int e" "myatoi (myitoa (int u) 4) 4 = int u"
    using assms(1,2) by (auto simp: myatoi_def intro: atoi64_itoa)
  then show "myatoi (key_of e u rnd) 3 = int e" "myatoi (drop 3 (key_of e u rnd)) 4 = int u"
    by (simp_all add: key_of_def myatoi_prefix)
  show "drop 7 (key_of e u rnd) = rnd" by (simp add: key_of_def)
  have "c \<noteq> 95 \<and> c \<noteq> 0" if "c \<in> set (key_of e u rnd)" for c
    using that myitoa_chars base64_chars assms(3)
    unfolding key_of_def random_id_def by (fastforce simp: isupper_def)
  then show "95 \<notin> set (key_of e u rnd)" "0 \<notin> set (key_of e u rnd)" by blast+
qed

text \<open>The cookie a login hands out, and the key the next request has again.\<close>

definition cookie_of :: "nat \<Rightarrow> nat \<Rightarrow> cstr \<Rightarrow> int \<Rightarrow> cstr" where
  "cookie_of e u rnd style = key_of e u rnd @ [95, of_int (65 + cmod style 26)]"

lemma cookie_of_chars: "e < 262144 \<Longrightarrow> u < 16777216 \<Longrightarrow> random_id rnd \<Longrightarrow> 0 \<notin> set (cookie_of e u rnd style)"
proof -
  assume a: "e < 262144" "u < 16777216" "random_id rnd"
  have "0 < 65 + cmod style 26" "65 + cmod style 26 < 256"
    by (cases "style = 0"; cases "style < 0"; simp add: cmod_def cdiv_def; linarith)+
  then have "(65 + cmod style 26) mod 256 \<noteq> 0" by simp
  then have "uint (word_of_int (65 + cmod style 26) :: byte) \<noteq> 0" unfolding uint_word_of_int by simp
  then have "(of_int (65 + cmod style 26) :: byte) \<noteq> 0" by (metis uint_0_eq)
  then show ?thesis using key_of_facts(6) [OF a] by (simp add: cookie_of_def)
qed

lemma makeurlbase_cookie:
  assumes "e < 262144" "u < 16777216" "random_id rnd" "sessionid (www st e) = rnd"
    "getparm ps (lit ''usehost'') = Some h"
  shows "\<exists>b. makeurlbase SMAGIC ps st style (int e) (int u) = Page (b, cookie_of e u rnd style)"
proof -
  have k: "session_key st (int e) (int u) = key_of e u rnd" using assms(4) by (simp add: session_key_def key_of_def)
  have "strchr (key_of e u rnd) 95 = None" using key_of_facts(5) [OF assms(1-3)] by (simp add: strchr_None)
  then show ?thesis
    using assms(5) key_of_facts(1) [OF assms(1-3)]
    by (simp add: makeurlbase_def k addextraparam_def STRLEN_def cookie_of_def Let_def)
qed

lemma url_session_key:
  assumes "e < 262144" "u < 16777216" "random_id rnd"
    "getparm ps (lit ''SESSION'') = Some (cookie_of e u rnd style)" "url = 47 # SMAGIC @ 47 # r"
  shows "url_session SMAGIC ps url = Page (Some (key_of e u rnd, [of_int (65 + cmod style 26)]))"
proof -
  note k = key_of_facts [OF assms(1-3)]
  have "strchr (cookie_of e u rnd style) 95 = Some 37"
    using strchr_at [OF k(5), of "[of_int (65 + cmod style 26)]"] k(1) by (simp add: cookie_of_def)
  moreover have "strsncpy (cookie_of e u rnd style) 80 = cookie_of e u rnd style"
    using k(1) by (simp add: strsncpy_take cookie_of_def)
  moreover have "take 37 (cookie_of e u rnd style) = key_of e u rnd" "length (cookie_of e u rnd style) = 39"
    "drop 38 (cookie_of e u rnd style) = [of_int (65 + cmod style 26)]" using k(1) by (simp_all add: cookie_of_def)
  moreover have "url \<noteq> [47]" "take (length SMAGIC + 1) url = 47 # SMAGIC" "drop (length SMAGIC + 1) url = 47 # r"
    using assms(5) by simp_all
  moreover have "strchr (47 # r) 47 = Some 0" by (simp add: strchr_def)
  ultimately show ?thesis using assms(4) by (simp add: url_session_def Let_def)
qed

section \<open>A login makes a session\<close>

lemma um_inv_uindex [simp]: "um_inv env (s\<lparr>uindex := r\<rparr>) = um_inv env s"
  by (simp add: um_inv_def um_rep_def)

lemma um_inv_entry:
  assumes "um_inv env s" "place (addr_junk env) y = place (addr_junk env) (uinfo s e)"
    "is_on y = is_on (uinfo s e)" "www_guest y = www_guest (uinfo s e)"
  shows "um_inv env (s\<lparr>uinfo := (uinfo s)(e := y)\<rparr>)"
proof -
  define f where "f = (uinfo s)(e := y)"
  have "place (addr_junk env) (f n) = place (addr_junk env) (uinfo s n)" "is_on (f n) = is_on (uinfo s n)"
    "www_guest (f n) = www_guest (uinfo s n)" for n using assms(2-4) by (simp_all add: f_def)
  then show ?thesis using assms(1) unfolding f_def [symmetric] by (simp add: um_inv_def um_rep_def)
qed

lemma count_uindex_same:
  "um_inv env (fst (count_uindex env s u)) = um_inv env s" "uinfo (fst (count_uindex env s u)) = uinfo s"
  "sweeps env (fst (count_uindex env s u)) = sweeps env s"
  by (simp_all add: count_uindex_def sweeps_def Let_def split: prod.splits)

text \<open>A user with a record of his own who may log in once more, and room for a session.\<close>

definition may_login :: "utmp_env \<Rightarrow> webst \<Rightarrow> request \<Rightarrow> cstr \<Rightarrow> nat \<Rightarrow> bool" where
  "may_login env st req name u \<longleftrightarrow>
     um_inv env (wshm st) \<and> maxactive env \<le> 262144
     \<and> getuser (wdb st) name = Some u \<and> 0 < u \<and> u < 16777216 \<and> int u \<le> int (maxusers env)
     \<and> u \<le> length (snd (wdb st)) \<and> db_name (wdb st) u = name \<and> length name \<le> 12
     \<and> \<not> strcaseeq name (lit ''guest'')
     \<and> check_multi env st req name (int u) = Some None
     \<and> snd (count_uindex env (wshm st) (int u)) < 3
     \<and> (\<exists>n < maxactiverun env. \<not> is_on (uinfo (wshm st) n)) \<and> random_id (req_rnd req)"

lemma login_makes:
  assumes "may_login env st req name u" "getparm ps (lit ''usehost'') = Some h"
  shows "\<exists>st' b e. wwwlogin env SMAGIC ps st req name = Page (st', b, cookie_of e u (req_rnd req) (req_style req))
    \<and> e < maxactiverun env \<and> \<not> is_on (uinfo (wshm st) e) \<and> um_inv env (wshm st') \<and> wdb st' = wdb st
    \<and> www st' e = \<lparr>fromIP = req_ip req, sessionid = req_rnd req, ipmask = nat (req_mask req mod 16)\<rparr>
    \<and> uinfo (wshm st') e = (new_entry env req (snd (wdb st) ! (u - 1)) (int u))\<lparr>reject := req_rejects req\<rparr>"
proof -
  have a: "um_inv env (wshm st)" "maxactive env \<le> 262144" "getuser (wdb st) name = Some u" "0 < u" "u < 16777216"
    "u \<le> length (snd (wdb st))" "\<not> strcaseeq name (lit ''guest'')" "check_multi env st req name (int u) = Some None"
    "snd (count_uindex env (wshm st) (int u)) < 3" "random_id (req_rnd req)"
    "\<not> (\<forall>n < maxactiverun env. is_on (uinfo (wshm st) n))"
    using assms(1) by (auto simp: may_login_def)
  have run: "maxactiverun env \<le> maxactive env" using a(1) by (simp add: um_inv_def)
  define x where "x = new_entry env req (snd (wdb st) ! (u - 1)) (int u)"
  define shm1 where "shm1 = fst (count_uindex env (wshm st) (int u))"
  have s1: "um_inv env shm1" "uinfo shm1 = uinfo (wshm st)" "sweeps env shm1 = sweeps env (wshm st)"
    using a(1) by (simp_all add: shm1_def count_uindex_same)
  have on: "is_on x" and kx: "keeps env x" by (simp_all add: x_def new_entry_def is_on_def keeps_def)
  obtain shm2 mf r where l: "utmp_login env (maxfile st) shm1 x = Some (shm2, mf, r)" "um_inv env shm2"
    "0 < r" "nat r \<le> maxactiverun env" "\<not> is_on (uinfo shm1 (nat r - 1))"
    "\<And>n. uinfo shm2 n = swept env (sweeps env shm1) (if n = nat r - 1 then x else uinfo shm1 n)"
    using login_result [OF s1(1) on, of "maxfile st"] a(11) unfolding s1(2) by (auto simp: s1(3))
  define e where "e = nat r - 1"
  have ue: "uinfo shm2 e = x" using l(6) [of e] kx by (simp add: e_def swept_def)
  define st' where "st' = st\<lparr>wshm := shm2\<lparr>uinfo := (uinfo shm2)(e := x\<lparr>reject := req_rejects req\<rparr>)\<rparr>,
      maxfile := mf, www := (www st)(e := \<lparr>fromIP = req_ip req, sessionid = req_rnd req,
        ipmask = nat (req_mask req mod 16)\<rparr>)\<rparr>"
  have el: "e < maxactiverun env" "e < 262144" using l(3,4) run a(2) by (auto simp: e_def)
  have w: "sessionid (www st' e) = req_rnd req" by (simp add: st'_def)
  obtain b where b: "makeurlbase SMAGIC ps st' (req_style req) (int e) (int u)
      = Page (b, cookie_of e u (req_rnd req) (req_style req))"
    using makeurlbase_cookie [where st = st', OF el(2) a(5,10) w assms(2)] by blast
  have inv: "um_inv env (wshm st')"
    using um_inv_entry [OF l(2), of "x\<lparr>reject := req_rejects req\<rparr>" e] ue
    by (simp add: st'_def place_def is_on_def www_guest_def)
  have rr: "\<not> (r > int (maxactiverun env) \<or> r \<le> 0)" using l(3,4) by auto
  have "wwwlogin env SMAGIC ps st req name = Page (st', b, cookie_of e u (req_rnd req) (req_style req))"
    using a(3,4,6-9) l(1) rr b ue unfolding wwwlogin_def shm1_def x_def st'_def e_def
    by (simp add: Let_def case_prod_beta)
  then show ?thesis using el(1) l(5) s1(2) inv ue
    by (intro exI [of _ st'] exI [of _ b] exI [of _ e]) (simp add: st'_def x_def e_def)
qed

section \<open>Who is recognised\<close>

text \<open>What a request must come with to be taken for a user: the live session behind its key.\<close>

definition session_of :: "utmp_env \<Rightarrow> webst \<Rightarrow> 32 word \<Rightarrow> cstr \<Rightarrow> nat \<Rightarrow> bool" where
  "session_of env st ip ub e \<longleftrightarrow>
     33 \<le> length ub \<and> myatoi (take 37 ub) 3 = int e \<and> e < maxactive env
     \<and> sessionid (www st e) = take 30 (drop 7 ub) \<and> same_addr (www st e) ip
     \<and> is_on (uinfo (wshm st) e) \<and> uname (uinfo (wshm st) e) \<noteq> []
     \<and> \<not> strcaseeq (uname (uinfo (wshm st) e)) (lit ''new'')
     \<and> now env - lasttime (uinfo (wshm st) e) \<le> 1080 \<and> \<not> iskicked (uinfo (wshm st) e)"

definition touch :: "webst \<Rightarrow> nat \<Rightarrow> int \<Rightarrow> webst" where
  "touch st e t = st\<lparr>wshm := (wshm st)\<lparr>uinfo := (uinfo (wshm st))(e := (uinfo (wshm st) e)\<lparr>lasttime := t\<rparr>)\<rparr>\<rparr>"

lemma sid_take: "strsncpy (drop 7 (take 37 ub)) 31 = take 30 (drop 7 ub)"
  by (simp add: strsncpy_take drop_take)

text \<open>
  C30: \<open>user_init\<close> takes a request for a user (its value is 1) only for the live session the key names: the
  whole session id, the address under the mask of the session, no kick and no pause of more than 18
  minutes; then the user is the one the entry of the session names, his record carries that very name,
  and only the time of the entry changes.  Anything else leaves the caller with the guest's record and the
  table as it was, except that a session whose record is gone still has its time renewed.
\<close>

theorem user_init_sound:
  assumes "user_init env st ip ub = Some (st', r)"
  shows "(id_ret r = 1 \<longrightarrow>
      (\<exists>e u. session_of env st ip ub e \<and> st' = touch st e (now env) \<and> utmpent r = int e + 1
         \<and> id_user r = Some u \<and> db_name (wdb st) u = uname (uinfo (wshm st) e)
         \<and> (isguest r \<longleftrightarrow> strcaseeq (uname (uinfo (wshm st) e)) (lit ''guest''))))
    \<and> (id_ret r \<noteq> 1 \<longrightarrow> (st' = st \<or> (\<exists>e. session_of env st ip ub e \<and> st' = touch st e (now env)))
         \<and> id_ret r = 0 \<and> (tempuser r \<or> Some (id_user r) = guest_user (wdb st)))"
proof -
  obtain guest where g: "guest_user (wdb st) = Some guest"
    using assms by (cases "guest_user (wdb st)") (simp_all add: user_init_def)
  define s where "s = take 37 ub"
  define i where "i = myatoi s 3"
  define u where "u = myatoi (drop 3 s) 4"
  define e where "e = nat i"
  define x where "x = uinfo (wshm st) e"
  have none: "id_ret (nobody guest y b) = 0 \<and> id_user (nobody guest y b) = guest" for y b by (simp add: nobody_def)
  have temp: "id_ret (temp_init env st ip guest ub) = 0
      \<and> (tempuser (temp_init env st ip guest ub) \<or> id_user (temp_init env st ip guest ub) = guest)"
    by (auto simp: temp_init_def nobody_def Let_def split: option.splits)
  consider (short) "length ub < 33" | (range) "33 \<le> length ub" "i < 0 \<or> i \<ge> int (maxactive env) \<or> u \<le> 0 \<or> u > int (maxusers env)"
    | (in_range) "33 \<le> length ub" "0 \<le> i" "i < int (maxactive env)" "0 < u" "u \<le> int (maxusers env)" by linarith
  then show ?thesis
  proof cases
    case short
    then show ?thesis using assms g temp none by (auto simp: user_init_def split: if_splits)
  next
    case range
    then show ?thesis using assms g none [of None False] by (auto simp: user_init_def s_def i_def u_def Let_def)
  next
    case in_range
    define ok where "ok \<longleftrightarrow> same_addr (www st e) ip \<and> sessionid (www st e) = take 30 (drop 7 ub) \<and> active x \<noteq> 0
      \<and> uname x \<noteq> [] \<and> \<not> strcaseeq (uname x) (lit ''new'') \<and> now env - lasttime x \<le> 1080 \<and> \<not> iskicked x"
    have so: "session_of env st ip ub e \<longleftrightarrow> ok"
      using in_range by (auto simp: session_of_def ok_def e_def x_def is_on_def i_def s_def)
    have ui: "user_init env st ip ub =
        (if \<not> ok then Some (st, nobody guest (Some e) False)
         else let g = strcaseeq (uname x) (lit ''guest'') in
           if \<not> g \<and> getuserbynum (wdb st) u = 0 then None
           else case (if g then guest else Some (nat u)) of
                  None \<Rightarrow> Some (touch st e (now env), nobody guest (Some e) g)
                | Some r \<Rightarrow>
                    if db_name (wdb st) r \<noteq> uname x then Some (touch st e (now env), nobody guest (Some e) g)
                    else Some (touch st e (now env), \<lparr>id_ret = 1, id_user = Some r, id_entry = Some e,
                                isguest = g, tempuser = False, utmpent = i + 1\<rparr>))"
      using in_range g unfolding user_init_def ok_def x_def e_def i_def u_def s_def sid_take touch_def
      by (simp add: Let_def sid_take not_le not_less)
    show ?thesis
    proof (cases ok)
      case False
      then show ?thesis using assms g none ui by auto
    next
      case True
      have i: "i = int e" using in_range by (simp add: e_def)
      show ?thesis using assms g none so True unfolding ui
        by (auto simp: Let_def i x_def split: if_splits option.splits)
    qed
  qed
qed

section \<open>From the login to the next request\<close>

lemma user_init_accepts:
  assumes "e < maxactive env" "e < 262144" "0 < u" "u < 16777216" "int u \<le> int (maxusers env)" "random_id rnd"
    "sessionid (www st e) = rnd" "same_addr (www st e) ip" "uinfo (wshm st) e = x"
    "is_on x" "uname x = name" "name \<noteq> []" "\<not> strcaseeq name (lit ''new'')" "\<not> strcaseeq name (lit ''guest'')"
    "now env - lasttime x \<le> 1080" "\<not> iskicked x" "getuserbynum (wdb st) (int u) \<noteq> 0" "db_name (wdb st) u = name"
    "guest_user (wdb st) \<noteq> None"
  shows "user_init env st ip (key_of e u rnd)
    = Some (touch st e (now env), \<lparr>id_ret = 1, id_user = Some u, id_entry = Some e, isguest = False,
        tempuser = False, utmpent = int e + 1\<rparr>)"
proof -
  note k = key_of_facts [OF assms(2,4,6)]
  obtain g where g: "guest_user (wdb st) = Some g" using assms(19) by auto
  have t: "take 37 (key_of e u rnd) = key_of e u rnd" using k(1) by simp
  have r: "strsncpy rnd 31 = rnd" using assms(6) by (simp add: strsncpy_take random_id_def)
  show ?thesis using assms(1,3,5,7-18) k(1) g
    by (simp add: user_init_def t k(2-4) r Let_def touch_def is_on_def)
qed

lemma find_in_list:
  assumes "x \<in> set xs" "P x" "\<And>y. y \<in> set xs \<Longrightarrow> P y \<Longrightarrow> y = x"
  shows "find P xs = Some x"
proof -
  obtain y where y: "find P xs = Some y" using assms(1,2) by (cases "find P xs") (auto simp: find_None_iff)
  then have "P y" "y \<in> set xs" by (auto simp: find_Some_iff)
  from assms(3) [OF this(2,1)] show ?thesis using y by simp
qed

text \<open>The cookie line of a browser that has the cookie of the login among others.\<close>

definition cookie_line :: "(cstr \<times> cstr) list \<Rightarrow> cstr" where
  "cookie_line kvs = join 59 (map pair_text kvs)"


subsection \<open>A board with one user\<close>

definition one_user :: "userec list" where
  "one_user = [zero_userec\<lparr>userid := lit ''bob''\<rparr>]"

lemma one_user_db:
  "\<exists>u. getuser (u, one_user) (lit ''bob'') = Some 1 \<and> guest_user (u, one_user) = Some None"
proof -
  have u: "slots_unique one_user (length one_user)" "one_user \<noteq> []" "length one_user = 1"
    by (simp_all add: slots_unique_def one_user_def)
  then obtain u where l: "db_inv (u, one_user) {1..1}" "db.unique (u, one_user) {1..1}"
    using load_ucache_correct [OF sample_tab_wf u(2)] db_unique_slots [OF u(1)] by force
  have n: "db_name (u, one_user) 1 = lit ''bob''" by (simp add: db_name_def one_user_def)
  then have "db_find (u, one_user) (lit ''bob'') = Some (int 1)"
    by (intro db.find_unique [OF l]) (auto simp del: lit_Cons simp: lit_def)
  then have "getuser (u, one_user) (lit ''bob'') = Some 1"
    using n by (simp add: getuser_def one_user_def zero_userec_def)
  moreover have "\<not> strcaseeq (lit ''guest'') (lit ''bob'')" by (simp add: strcaseeq_def lit_def)
  then have "db_find (u, one_user) (lit ''guest'') = Some (- 1)"
    using n by (intro db.find_absent [OF l(1)]) simp
  then have "getuser (u, one_user) (lit ''guest'') = Some 0" by (simp add: getuser_def lit_def)
  ultimately show ?thesis by (auto simp: guest_user_def)
qed

definition bob_request :: request where
  "bob_request = \<lparr>req_ip = 0x0100007F, from_host = lit ''127.0.0.1'', real_host = lit ''127.0.0.1'',
     req_rnd = replicate 30 65, req_mask = 8, req_style = 1, req_rejects = []\<rparr>"

definition bob_state :: "ucache \<Rightarrow> webst" where
  "bob_state u = \<lparr>wshm = table0, www = (\<lambda>e. \<lparr>fromIP = 0, sessionid = [], ipmask = 0\<rparr>), maxfile = None,
     wdb = (u, one_user)\<rparr>"

lemma bob_may_login:
  assumes "getuser (u, one_user) (lit ''bob'') = Some 1"
  shows "may_login env0 (bob_state u) bob_request (lit ''bob'') 1"
proof -
  have r: "uindex table0 k = [0, 0, 0, 0, 0, 0]" for k by (simp add: table0_def initutmp_def)
  have "\<not> strcaseeq (lit ''bob'') (lit ''guest'')" by (simp add: strcaseeq_def lit_def)
  then have "check_multi env0 (bob_state u) bob_request (lit ''bob'') 1 = Some None"
    by (simp add: check_multi_def bob_state_def env0_def r numeral_eq_Suc)
  moreover have "snd (count_uindex env0 table0 1) = 0" by (simp add: count_uindex_def env0_def r)
  moreover have "random_id (replicate 30 65)" by (simp add: random_id_def isupper_def)
  moreover have "db_name (u, one_user) 1 = lit ''bob''" by (simp add: db_name_def one_user_def)
  moreover have "\<exists>n < maxactiverun env0. \<not> is_on (uinfo table0 n)"
    by (intro exI [of _ 0]) (simp add: table0_uinfo env0_def is_on_def idle_user_def)
  ultimately show ?thesis
    using assms table0_inv \<open>\<not> strcaseeq (lit ''bob'') (lit ''guest'')\<close>
    by (simp add: may_login_def bob_state_def bob_request_def one_user_def env0_def)
qed


definition bob_session :: "ucache \<Rightarrow> webst" where
  "bob_session u = (bob_state u)\<lparr>
     wshm := table0\<lparr>uinfo := (\<lambda>n. new_entry env0 bob_request (hd one_user) 1)\<rparr>,
     www := (\<lambda>e. \<lparr>fromIP = 0x0100007F, sessionid = replicate 30 65, ipmask = 8\<rparr>)\<rparr>"

theorem user_init_sound_witness:
  "\<exists>u e r st'. user_init env0 (bob_session u) 0x0200007F (key_of 0 1 (replicate 30 65)) = Some (st', r)
     \<and> id_ret r = 1 \<and> session_of env0 (bob_session u) 0x0200007F (key_of 0 1 (replicate 30 65)) e
     \<and> st' = touch (bob_session u) e 100"
proof -
  obtain u where u: "getuser (u, one_user) (lit ''bob'') = Some 1" "guest_user (u, one_user) = Some None"
    using one_user_db by blast
  let ?st = "bob_session u"
  have rnd: "random_id (replicate 30 65)" by (simp add: random_id_def isupper_def)
  have un: "uname (new_entry env0 bob_request (hd one_user) 1) = lit ''bob''"
    by (simp add: new_entry_def one_user_def strsncpy_take lit_def)
  have ne: "\<not> strcaseeq (lit ''bob'') (lit ''new'')" "\<not> strcaseeq (lit ''bob'') (lit ''guest'')" "lit ''bob'' \<noteq> []"
    by (simp_all add: strcaseeq_def tolower_def isupper_def lit_def)
  have r: "user_init env0 ?st 0x0200007F (key_of 0 1 (replicate 30 65))
      = Some (touch ?st 0 (now env0), \<lparr>id_ret = 1, id_user = Some 1, id_entry = Some 0, isguest = False,
          tempuser = False, utmpent = int 0 + 1\<rparr>)"
  proof (rule user_init_accepts [OF _ _ _ _ _ rnd _ _ refl _ _ ne(3,1,2)])
    show "uname (uinfo (wshm ?st) 0) = lit ''bob''" using un by (simp add: bob_session_def)
    show "is_on (uinfo (wshm ?st) 0)" by (simp add: bob_session_def new_entry_def is_on_def)
  qed (use u in \<open>simp_all add: bob_session_def bob_state_def env0_def new_entry_def same_addr_def getuserbynum_def
         one_user_def zero_userec_def db_name_def\<close>)
  have n: "now env0 = 100" by (simp add: env0_def)
  obtain e where e: "session_of env0 ?st 0x0200007F (key_of 0 1 (replicate 30 65)) e"
    "touch ?st 0 (now env0) = touch ?st e (now env0)"
    using user_init_sound [OF r] by auto
  show ?thesis by (rule exI [of _ u], rule exI [of _ e], intro exI conjI, rule r) (use e n in simp_all)
qed

text \<open>
  A user who was kicked out while his session lives is no error for \<open>user_init\<close>: it goes on with a pointer
  never set.
\<close>

lemma user_init_kicked:
  assumes "session_of env st ip ub e" "guest_user (wdb st) \<noteq> None"
    "\<not> strcaseeq (uname (uinfo (wshm st) e)) (lit ''guest'')"
    "0 < myatoi (drop 3 (take 37 ub)) 4" "myatoi (drop 3 (take 37 ub)) 4 \<le> int (maxusers env)"
    "getuserbynum (wdb st) (myatoi (drop 3 (take 37 ub)) 4) = 0"
  shows "user_init env st ip ub = None"
  using assms by (auto simp: user_init_def session_of_def sid_take is_on_def Let_def)

text \<open>\<open>check_multi\<close> gives a session back that is marked as kicked, and every request with it is refused.\<close>

lemma multi_gives_kicked:
  assumes "do_check env st ip u e" "iskicked (uinfo (wshm st) e)" "guest_user (wdb st) = Some g"
    "myatoi (take 37 ub) 3 = int e" "33 \<le> length ub"
  shows "row_multi env st ip u [Suc e] = Some e \<and> (\<exists>st' r. user_init env st ip ub = Some (st', r) \<and> id_ret r = 0)"
  using assms by (auto simp: user_init_def nobody_def Let_def)

end
