(* ===== verification/ConvCode.thy ===== *)
theory ConvCode
  imports CLib
begin

text \<open>
  Conversion between the GB and the Big5 code in place, \<open>src/ythtlib/newconvcode.c\<close>, for whole strings and for
  the bytes of a terminal that come and go in pieces.  The tables of \<open>convtable.c\<close>, one for each
  direction, are an argument: \<open>tab m n\<close> is the entry in row \<open>m\<close> and column \<open>n\<close>.
\<close>

section \<open>The operations\<close>

type_synonym conv_table = "nat \<Rightarrow> nat \<Rightarrow> byte"

definition high :: "byte \<Rightarrow> bool" where
  "high c \<longleftrightarrow> c AND 0x80 \<noteq> 0"

text \<open>\<open>b2g\<close> and \<open>g2b\<close>: a second byte below 0x40 stays, the first one becomes a question mark.\<close>

definition conv_pair :: "conv_table \<Rightarrow> byte \<Rightarrow> byte \<Rightarrow> byte list" where
  "conv_pair tab a b =
     (if b \<ge> 0x40
      then let m = unat b - 0x40; n = unat (push_bit 1 a) in [tab m n, tab m (n + 1)]
      else [63, b])"

text \<open>\<open>sgb2big\<close>, \<open>sbig2gb\<close>: the bytes afterwards and the first half left at the end, or 0.\<close>

fun sconv :: "conv_table \<Rightarrow> byte list \<Rightarrow> byte list \<times> byte" where
  "sconv tab [] = ([], 0)"
| "sconv tab [c] = ([c], if high c then c else 0)"
| "sconv tab (a # b # s) =
     (if high a then (let (t, r) = sconv tab s in (conv_pair tab a b @ t, r))
      else (let (t, r) = sconv tab (b # s) in (a # t, r)))"

text \<open>
  \<open>gb2big\<close>, \<open>big2gb\<close> with the byte kept for one direction: the piece of a stream, the byte kept then and the
  bytes to be passed on.  The byte kept is put in front of the piece.
\<close>

definition conv_piece :: "conv_table \<Rightarrow> byte \<Rightarrow> byte list \<Rightarrow> byte \<times> byte list" where
  "conv_piece tab save s =
     (if s = [] then (save, [])
      else let (t, r) = sconv tab (if save \<noteq> 0 then save # s else s)
           in (r, if r \<noteq> 0 then butlast t else t))"

definition conv_init :: byte where "conv_init = 0"

fun conv_stream :: "conv_table \<Rightarrow> byte \<Rightarrow> byte list list \<Rightarrow> byte \<times> byte list" where
  "conv_stream tab save [] = (save, [])"
| "conv_stream tab save (s # ss) =
     (let (save', t) = conv_piece tab save s; (save'', u) = conv_stream tab save' ss in (save'', t @ u))"

section \<open>How a stream is cut does not matter\<close>

lemma high_0 [simp]: "\<not> high 0"
  by (simp add: high_def)

lemma sconv_length: "length (fst (sconv tab s)) = length s"
  by (induction tab s rule: sconv.induct) (auto simp: conv_pair_def Let_def split: prod.splits)

lemma sconv_rest: "snd (sconv tab s) = 0 \<or> high (snd (sconv tab s)) \<and> s \<noteq> []"
  by (induction tab s rule: sconv.induct) (auto split: prod.splits)

text \<open>What is passed on of the bytes so far, and the first half kept.\<close>

definition passed :: "conv_table \<Rightarrow> byte list \<Rightarrow> byte list" where
  "passed tab s = (let (t, r) = sconv tab s in if r \<noteq> 0 then butlast t else t)"

definition kept :: "conv_table \<Rightarrow> byte list \<Rightarrow> byte" where
  "kept tab s = snd (sconv tab s)"

definition kept_bytes :: "byte \<Rightarrow> byte list" where
  "kept_bytes c = (if c = 0 then [] else [c])"

lemma passed_simps [simp]:
  "passed tab [] = []" "passed tab [c] = (if high c then [] else [c])"
  "passed tab (a # b # s) = (if high a then conv_pair tab a b @ passed tab s else a # passed tab (b # s))"
  using sconv_rest [of tab s] sconv_rest [of tab "b # s"] sconv_length [of tab s] sconv_length [of tab "b # s"]
  by (auto simp: passed_def Let_def butlast_append split: prod.splits)

lemma kept_simps [simp]:
  "kept tab [] = 0" "kept tab [c] = (if high c then c else 0)"
  "kept tab (a # b # s) = (if high a then kept tab s else kept tab (b # s))"
  by (auto simp: kept_def split: prod.splits)

lemma kept_high: "kept tab s = 0 \<or> high (kept tab s)"
  using sconv_rest [of tab s] by (auto simp: kept_def)

lemma conv_append:
  "passed tab (s @ t) = passed tab s @ passed tab (kept_bytes (kept tab s) @ t)"
  "kept tab (s @ t) = kept tab (kept_bytes (kept tab s) @ t)"
proof (induction tab s rule: sconv.induct)
  case (2 tab c)
  { case 1 show ?case by (cases t) (auto simp: kept_bytes_def) }
  { case 2 show ?case by (cases t) (auto simp: kept_bytes_def) }
qed (simp_all add: kept_bytes_def)

lemma conv_piece_passed:
  "s \<noteq> [] \<Longrightarrow> conv_piece tab save s = (kept tab (kept_bytes save @ s), passed tab (kept_bytes save @ s))"
  by (auto simp: conv_piece_def kept_def passed_def kept_bytes_def split: prod.splits)

lemma kept_kept: "save = 0 \<or> high save \<Longrightarrow> kept tab (kept_bytes save) = save \<and> passed tab (kept_bytes save) = []"
  by (auto simp: kept_bytes_def)

lemma stream_passed:
  assumes "save = 0 \<or> high save"
  shows "conv_stream tab save ss
    = (kept tab (kept_bytes save @ concat ss), passed tab (kept_bytes save @ concat ss))"
  using assms
proof (induction ss arbitrary: save)
  case Nil
  then show ?case using kept_kept [of save tab] by simp
next
  case (Cons s ss)
  show ?case
  proof (cases "s = []")
    case True
    then show ?thesis using Cons by (simp add: conv_piece_def)
  next
    case False
    let ?k = "kept tab (kept_bytes save @ s)"
    have "conv_stream tab ?k ss = (kept tab (kept_bytes ?k @ concat ss), passed tab (kept_bytes ?k @ concat ss))"
      using Cons.IH kept_high by blast
    then show ?thesis
      using conv_append [of tab "kept_bytes save @ s" "concat ss"] False by (simp add: conv_piece_passed)
  qed
qed

text \<open>
  C31: A connection may cut its bytes anywhere, also in the middle of a character: what \<open>gb2big\<close> or \<open>big2gb\<close>
  pass on, piece by piece, is what they pass on when everything comes at once, the byte kept at the end is
  the same, and no byte is lost: with it, as many bytes are there as came in.
\<close>

theorem conv_stream_pieces:
  "conv_stream tab conv_init ss = conv_piece tab conv_init (concat ss)
   \<and> (let (save, t) = conv_stream tab conv_init ss
      in length t + length (kept_bytes save) = length (concat ss) \<and> (save = 0 \<or> high save))"
proof -
  have l: "length (passed tab s) + length (kept_bytes (kept tab s)) = length s" for s
  proof (induction tab s rule: sconv.induct)
    case (2 tab c)
    then show ?case by (auto simp: kept_bytes_def)
  next
    case (3 tab a b s)
    then show ?case by (auto simp: conv_pair_def Let_def)
  qed (simp add: kept_bytes_def)
  have s: "conv_stream tab conv_init ss = (kept tab (concat ss), passed tab (concat ss))"
    using stream_passed [of conv_init tab ss] by (simp add: conv_init_def kept_bytes_def)
  have "conv_piece tab conv_init (concat ss) = (kept tab (concat ss), passed tab (concat ss))"
  proof (cases "concat ss = []")
    case True
    show ?thesis unfolding True by (simp add: conv_piece_def conv_init_def)
  next
    case False
    then show ?thesis using conv_piece_passed [OF False] by (simp add: conv_init_def kept_bytes_def)
  qed
  then show ?thesis using s l [of "concat ss"] kept_high [of tab "concat ss"] by simp
qed

text \<open>A line end behind a first half is part of the character, so it stays but the half becomes a question mark.\<close>

lemma conv_half_line: "sconv tab [0xB0, 10, 65] = ([63, 10, 65], 0)"
  by (simp add: conv_pair_def high_def)

end
