(* ===== verification/RegForm.thy ===== *)
theory RegForm
  imports UserMisc UserDb PowerSelect FileOp
begin

text \<open>
  Registration forms: written by newcomers (\<open>nju09/bbsdoreg.c\<close>), handed out in lists to the clerks
  (\<open>libythtbbs/regform.c\<close>), read and decided upon (\<open>nju09/bbsscanreg.c\<close>), and the checks of mail addresses
  in \<open>regform.c\<close>.  The paths of the files are fixed by the directory of the system.
\<close>

section \<open>Writing forms and handing them out\<close>

definition NEWREGFILE :: "cstr \<Rightarrow> cstr" where "NEWREGFILE home = home @ lit ''/new_register''"
definition GETREGFILE :: "cstr \<Rightarrow> cstr" where "GETREGFILE home = home @ lit ''/new_register_getting''"
definition SCANREGDIR :: "cstr \<Rightarrow> cstr" where "SCANREGDIR home = home @ lit ''/scanregister_tmp/''"

text \<open>The names of the lines of a form, \<open>field\<close>, and a form as the values in this order.\<close>

type_synonym fdata = "cstr list"

definition reg_field :: "cstr list" where
  "reg_field = [lit ''usernum'', lit ''userid'', lit ''realname'', lit ''dept'', lit ''addr'', lit ''phone'',
     lit ''assoc'', lit ''rereg'']"

definition field_line :: "cstr \<Rightarrow> cstr \<Rightarrow> cstr" where
  "field_line n v = n @ lit '': '' @ v @ [10]"

definition dashes :: cstr where "dashes = lit ''----'' @ [10]"

definition form_text :: "fdata \<Rightarrow> cstr" where
  "form_text f = concat (map2 field_line reg_field f) @ dashes"

text \<open>The end of the registration page: the number of the new user, the time, and what was filled in.\<close>

definition write_form :: "bool \<Rightarrow> cstr \<Rightarrow> fsys \<Rightarrow> fdata \<Rightarrow> fsys" where
  "write_form can_open home fs f = fst (f_append can_open fs (NEWREGFILE home) (form_text f))"

definition new_form :: "int \<Rightarrow> cstr \<Rightarrow> cstr \<Rightarrow> cstr \<Rightarrow> cstr \<Rightarrow> cstr \<Rightarrow> cstr \<Rightarrow> cstr \<Rightarrow> fdata" where
  "new_form unum date uid realname dept address phone assoc =
     [dec unum @ lit '', '' @ date, uid, realname, dept, address, phone, assoc, lit ''0'']"

text \<open>
  The loop of \<open>getregforms\<close> that copies forms: \<open>numline\<close> counts the lines since the last line that starts with
  a dash, \<open>count\<close> the forms; the rest of the file is what the second loop copies.
\<close>

function split_forms :: "int \<Rightarrow> nat \<Rightarrow> int \<Rightarrow> cstr \<Rightarrow> byte list \<Rightarrow> int \<times> cstr \<times> byte list" where
  "split_forms n numline count out m =
     (case fgets 256 m of
        None \<Rightarrow> (count, out, m)
      | Some (l, r) \<Rightarrow>
          if hd l = 45 then
            if numline = 0 then split_forms n 0 count out r
            else if count + 1 \<ge> n then (count + 1, out @ zstr l, r)
            else split_forms n 0 (count + 1) (out @ zstr l) r
          else split_forms n (numline + 1) count (out @ zstr l) r)"
  by pat_completeness auto
termination
proof (relation "measure (\<lambda>(a, b, c, d, m). length m)")
  fix n count out m x numline and l r :: "byte list"
  assume a: "fgets 256 m = Some x" "(l, r) = x"
  then have "length r < length m"
    using line_take_progress [of 255 m] by (auto simp: fgets_def split: if_splits)
  then show "((n, 0, count, out, r), (n, numline, count, out, m)) \<in> measure (\<lambda>(a, b, c, d, m). length m)"
    "((n, 0, count + 1, out @ zstr l, r), (n, numline, count, out, m)) \<in> measure (\<lambda>(a, b, c, d, m). length m)"
    "((n, numline + 1, count, out @ zstr l, r), (n, numline, count, out, m)) \<in> measure (\<lambda>(a, b, c, d, m). length m)"
    by (simp_all add: numeral_2_eq_2)
qed simp_all

declare split_forms.simps [simp del]

text \<open>The outcomes of the system calls: lock, the file renamed, a file in the directory, the two opened for writing.\<close>

record reg_env =
  reg_home :: cstr
  reg_lock :: bool
  reg_read :: bool
  reg_create :: bool
  reg_write :: bool
  reg_append :: bool
  reg_now :: int

definition list_name :: "cstr \<Rightarrow> int \<Rightarrow> cstr" where
  "list_name uid t = lit ''R.'' @ dec t @ lit ''.'' @ uid"

definition renamed :: "cstr \<Rightarrow> fsys \<Rightarrow> fsys" where
  "renamed home fs = fs(NEWREGFILE home := None, GETREGFILE home := fs (NEWREGFILE home))"

definition getregforms :: "reg_env \<Rightarrow> fsys \<Rightarrow> int \<Rightarrow> cstr \<Rightarrow> fsys \<times> cstr option \<times> int" where
  "getregforms e fs n uid =
     (let new = NEWREGFILE (reg_home e); get = GETREGFILE (reg_home e) in
      if \<not> reg_lock e then (fs, None, - 1)
      else if fs get \<noteq> None then (fs, None, - 1)
      else let fs1 = renamed (reg_home e) fs in
        case (if reg_read e then fs1 get else None) of
          None \<Rightarrow> (fs1, None, - 1)
        | Some m \<Rightarrow>
            (case (if reg_create e then trycreatefile (dom fs1) (SCANREGDIR (reg_home e)) (list_name uid) (reg_now e) 5
                   else None) of
               None \<Rightarrow> (fs1, None, - 1)
             | Some (p, _) \<Rightarrow>
                 if \<not> reg_write e then (fs1(p \<mapsto> []), None, - 1)
                 else let (count, out, rest) = split_forms n 0 0 [] m; fs2 = fs1(p \<mapsto> out) in
                   if \<not> reg_append e then (fs2, None, - 1)
                   else let old = (case fs2 new of None \<Rightarrow> [] | Some o1 \<Rightarrow> o1)
                        in ((fs2(new \<mapsto> old @ concat (file_lines 256 rest) @ dashes))(get := None), Some p, count)))"

text \<open>\<open>countnumforms\<close>.\<close>

definition countnumforms :: "fsys \<Rightarrow> cstr \<Rightarrow> nat" where
  "countnumforms fs p =
     (case fs p of None \<Rightarrow> 0 | Some m \<Rightarrow> length (filter (\<lambda>l. strneq 8 l (lit ''usernum:'')) (file_lines 256 m)))"
section \<open>Lines of forms\<close>

text \<open>A piece \<open>fgets\<close> delivers from a file that ends with a line end and has no NUL.\<close>

definition piece :: "cstr \<Rightarrow> bool" where
  "piece c \<longleftrightarrow> c \<noteq> [] \<and> 0 \<notin> set c \<and> 10 \<notin> set (butlast c) \<and> length c \<le> 255 \<and> (last c = 10 \<or> length c = 255)"

lemma line_take_shape:
  "line_take k m = (l, r) \<Longrightarrow> 10 \<notin> set (butlast l) \<and> (r = [] \<or> length l = k \<or> l \<noteq> [] \<and> last l = 10)"
  by (induction k m arbitrary: l r rule: line_take.induct) (auto split: if_splits prod.splits)

lemma line_take_full: "10 \<notin> set s \<Longrightarrow> line_take (length s) (s @ r) = (s, r)"
  by (induction s) auto

lemma fgets_piece:
  assumes "piece c"
  shows "fgets 256 (c @ r) = Some (c, r)"
proof (cases "last c = 10")
  case True
  then have c: "c = butlast c @ [10]" using assms by (metis append_butlast_last_id piece_def)
  have "length (butlast c) < 255" "10 \<notin> set (butlast c)" using assms by (auto simp: piece_def)
  then have "line_take 255 (butlast c @ 10 # r) = (butlast c @ [10], r)" by (intro line_take_line) auto
  moreover have "butlast c @ 10 # r = c @ r" using c by (metis append.assoc append_Cons append_Nil)
  ultimately have "line_take 255 (c @ r) = (c, r)" using c by simp
  then show ?thesis using assms by (simp add: fgets_def piece_def)
next
  case False
  then have l: "length c = 255" "c \<noteq> []" using assms by (auto simp: piece_def)
  have "set c = insert (last c) (set (butlast c))"
    using l(2) by (metis append_butlast_last_id list.simps(15) rotate1.simps(2) set_rotate1)
  then have "10 \<notin> set c" using False assms by (auto simp: piece_def)
  then have "line_take 255 (c @ r) = (c, r)" using line_take_full [of c r] l(1) by simp
  then show ?thesis using l(2) by (simp add: fgets_def)
qed

lemma file_lines_piece: "piece c \<Longrightarrow> file_lines 256 (c @ r) = c # file_lines 256 r"
  using fgets_piece [of c r] by (subst file_lines.simps) (auto simp: piece_def zstr_id)

lemma file_lines_pieces: "\<forall>c \<in> set cs. piece c \<Longrightarrow> file_lines 256 (concat cs) = cs"
  by (induction cs) (auto simp: file_lines_piece)

lemma file_pieces:
  assumes "0 \<notin> set m" "m = [] \<or> last m = 10"
  shows "\<exists>cs. m = concat cs \<and> (\<forall>c \<in> set cs. piece c)"
  using assms
proof (induction m rule: length_induct)
  case (1 m)
  show ?case
  proof (cases "m = []")
    case False
    obtain l r where lr: "line_take 255 m = (l, r)" by fastforce
    have m: "m = l @ r" "length l \<le> 255" using line_take_split [OF lr] by auto
    have less: "length r < length m" using line_take_progress [of 255 m] lr False by simp
    then have l: "l \<noteq> []" using m by auto
    have "piece l" using line_take_shape [OF lr] l m 1(2,3) False by (auto simp: piece_def)
    moreover have r: "0 \<notin> set r" "r = [] \<or> last r = 10" using 1(2,3) m False by (auto simp: last_append split: if_splits)
    then obtain cs where "r = concat cs" "\<forall>c \<in> set cs. piece c" using 1(1) less by blast
    ultimately show ?thesis using m(1) by (intro exI [of _ "l # cs"]) auto
  qed (intro exI [of _ "[]"], simp)
qed
text \<open>
  The forms in a list of lines: what stands between lines that start with a dash; \<open>lns\<close> are the lines of a
  form begun.
\<close>

fun forms_from :: "cstr list \<Rightarrow> cstr list \<Rightarrow> cstr list list" where
  "forms_from lns [] = (if lns = [] then [] else [lns])"
| "forms_from lns (c # cs) =
     (if hd c = 45 then (if lns = [] then forms_from [] cs else lns # forms_from [] cs)
      else forms_from (lns @ [c]) cs)"

definition forms_of :: "byte list \<Rightarrow> cstr list list" where
  "forms_of m = forms_from [] (file_lines 256 m)"

lemma split_forms_pieces:
  "\<forall>c \<in> set cs. piece c \<Longrightarrow>
   \<exists>k os rs. split_forms n (length lns) count out (concat cs) = (k, out @ concat os, concat rs)
     \<and> (\<forall>c \<in> set os \<union> set rs. piece c)
     \<and> forms_from lns os = take (nat (max 1 (n - count))) (forms_from lns cs)
     \<and> forms_from [] rs = drop (nat (max 1 (n - count))) (forms_from lns cs)"
proof (induction cs arbitrary: lns count out)
  case Nil
  then show ?case
    by (subst split_forms.simps, intro exI [of _ count] exI [of _ "[]"]) (auto simp: fgets_def)
next
  case (Cons c cs)
  have f: "fgets 256 (concat (c # cs)) = Some (c, concat cs)" "zstr c = c"
    using fgets_piece [of c "concat cs"] Cons.prems by (auto simp: piece_def zstr_id)
  show ?case
  proof (cases "hd c = 45")
    case dash: True
    show ?thesis
    proof (cases "lns = []")
      case True
      obtain k os rs where ih: "split_forms n (length ([] :: cstr list)) count out (concat cs) = (k, out @ concat os, concat rs)"
        "\<forall>c \<in> set os \<union> set rs. piece c"
        "forms_from [] os = take (nat (max 1 (n - count))) (forms_from [] cs)"
        "forms_from [] rs = drop (nat (max 1 (n - count))) (forms_from [] cs)"
        using Cons.IH [of "[]" count out] Cons.prems by auto
      have "split_forms n (length lns) count out (concat (c # cs)) = (k, out @ concat os, concat rs)"
        using f dash True ih(1) by (subst split_forms.simps) simp
      then show ?thesis using ih(2-4) dash True by auto
    next
      case lns: False
      show ?thesis
      proof (cases "count + 1 \<ge> n")
        case True
        have "split_forms n (length lns) count out (concat (c # cs)) = (count + 1, out @ concat [c], concat cs)"
          using f dash lns True by (subst split_forms.simps) simp
        moreover have j: "nat (max 1 (n - count)) = 1" using True by simp
        moreover have "forms_from lns [c] = [lns]" "forms_from lns (c # cs) = lns # forms_from [] cs"
          using dash lns by simp_all
        moreover have "\<forall>x \<in> set [c] \<union> set cs. piece x" using Cons.prems by simp
        ultimately show ?thesis by (metis (no_types) drop_Suc_Cons drop_0 take_Suc_Cons take_0 One_nat_def)
      next
        case False
        obtain k os rs where ih: "split_forms n (length ([] :: cstr list)) (count + 1) (out @ c) (concat cs)
            = (k, (out @ c) @ concat os, concat rs)"
          "\<forall>c \<in> set os \<union> set rs. piece c"
          "forms_from [] os = take (nat (max 1 (n - (count + 1)))) (forms_from [] cs)"
          "forms_from [] rs = drop (nat (max 1 (n - (count + 1)))) (forms_from [] cs)"
          using Cons.IH [of "[]" "count + 1" "out @ c"] Cons.prems by auto
        have "split_forms n (length lns) count out (concat (c # cs)) = (k, out @ concat (c # os), concat rs)"
          using f dash lns False ih(1) by (subst split_forms.simps) simp
        moreover have j: "nat (max 1 (n - count)) = Suc (nat (max 1 (n - (count + 1))))" using False by simp
        moreover have "forms_from lns (c # os) = lns # forms_from [] os" "forms_from lns (c # cs) = lns # forms_from [] cs"
          using dash lns by simp_all
        moreover have "\<forall>x \<in> set (c # os) \<union> set rs. piece x" using Cons.prems ih(2) by simp
        ultimately show ?thesis unfolding j using ih(3,4) by (metis drop_Suc_Cons take_Suc_Cons)
      qed
    qed
  next
    case False
    obtain k os rs where ih: "split_forms n (length (lns @ [c])) count (out @ c) (concat cs)
        = (k, (out @ c) @ concat os, concat rs)"
      "\<forall>c \<in> set os \<union> set rs. piece c"
      "forms_from (lns @ [c]) os = take (nat (max 1 (n - count))) (forms_from (lns @ [c]) cs)"
      "forms_from [] rs = drop (nat (max 1 (n - count))) (forms_from (lns @ [c]) cs)"
      using Cons.IH [of "lns @ [c]" count "out @ c"] Cons.prems by auto
    have "split_forms n (length lns) count out (concat (c # cs)) = (k, out @ concat (c # os), concat rs)"
      using f False ih(1) by (subst split_forms.simps) simp
    moreover have "forms_from lns (c # os) = forms_from (lns @ [c]) os"
      "forms_from lns (c # cs) = forms_from (lns @ [c]) cs"
      using False by simp_all
    moreover have "\<forall>x \<in> set (c # os) \<union> set rs. piece x" using Cons.prems ih(2) by simp
    ultimately show ?thesis using ih(3,4) by metis
  qed
qed

text \<open>A file of such pieces; it may be continued by another.\<close>

definition form_file :: "byte list \<Rightarrow> bool" where
  "form_file m \<longleftrightarrow> (\<exists>cs. m = concat cs \<and> (\<forall>c \<in> set cs. piece c))"

lemma form_file_append: "form_file a \<Longrightarrow> form_file b \<Longrightarrow> form_file (a @ b)"
proof -
  assume "form_file a" "form_file b"
  then obtain as bs where "a = concat as" "b = concat bs" "\<forall>c \<in> set as. piece c" "\<forall>c \<in> set bs. piece c"
    by (auto simp: form_file_def)
  then show ?thesis unfolding form_file_def by (intro exI [of _ "as @ bs"]) auto
qed

lemma file_lines_append:
  "form_file a \<Longrightarrow> form_file b \<Longrightarrow> file_lines 256 (a @ b) = file_lines 256 a @ file_lines 256 b"
proof -
  assume "form_file a" "form_file b"
  then obtain as bs where ab: "a = concat as" "b = concat bs" "\<forall>c \<in> set as. piece c" "\<forall>c \<in> set bs. piece c"
    by (auto simp: form_file_def)
  then have "\<forall>c \<in> set (as @ bs). piece c" by auto
  then show ?thesis using file_lines_pieces [of "as @ bs"] ab by (simp add: file_lines_pieces)
qed

lemma file_lines_concat_id: "form_file m \<Longrightarrow> concat (file_lines 256 m) = m"
  by (auto simp: form_file_def file_lines_pieces)

lemma split_forms_of:
  assumes "form_file m"
  shows "\<exists>k out rest. split_forms n 0 0 [] m = (k, out, rest) \<and> form_file out \<and> form_file rest
     \<and> forms_of out = take (nat (max 1 n)) (forms_of m) \<and> forms_of rest = drop (nat (max 1 n)) (forms_of m)"
proof -
  obtain cs where cs: "m = concat cs" "\<forall>c \<in> set cs. piece c" using assms by (auto simp: form_file_def)
  obtain k os rs where s: "split_forms n 0 0 [] m = (k, concat os, concat rs)" "\<forall>c \<in> set os \<union> set rs. piece c"
    "forms_from [] os = take (nat (max 1 n)) (forms_from [] cs)"
    "forms_from [] rs = drop (nat (max 1 n)) (forms_from [] cs)"
    using split_forms_pieces [OF cs(2), of n "[]" 0 "[]"] cs(1) by auto
  moreover have "form_file (concat os)" "form_file (concat rs)" using s(2) unfolding form_file_def by blast+
  ultimately show ?thesis using cs by (auto simp: forms_of_def file_lines_pieces)
qed

lemma piece_dashes: "piece dashes"
  by (simp add: piece_def dashes_def)

lemma file_dashes [simp]: "form_file dashes" "file_lines 256 dashes = [dashes]"
  using file_lines_pieces [of "[dashes]"] piece_dashes unfolding form_file_def
  by (auto intro: exI [of _ "[dashes]"])

lemma forms_from_dashes: "forms_from lns (cs @ [dashes]) = forms_from lns cs"
  by (induction lns cs rule: forms_from.induct) (auto simp: dashes_def)

lemma forms_of_dashes: "form_file m \<Longrightarrow> forms_of (m @ dashes) = forms_of m"
  by (simp add: forms_of_def file_lines_append forms_from_dashes)
text \<open>A file that ends with a line that starts with a dash, so that the next form begins behind it.\<close>

definition closed_file :: "byte list \<Rightarrow> bool" where
  "closed_file m \<longleftrightarrow> (\<exists>cs. m = concat cs \<and> (\<forall>c \<in> set cs. piece c) \<and> (cs = [] \<or> hd (last cs) = 45))"

lemma closed_form_file: "closed_file m \<Longrightarrow> form_file m"
  by (auto simp: closed_file_def form_file_def)

lemma closed_Nil [simp]: "closed_file []"
  unfolding closed_file_def by (intro exI [of _ "[]"]) simp

lemma closed_append_dash:
  assumes "form_file m" "\<forall>c \<in> set cs. piece c" "cs \<noteq> []" "hd (last cs) = 45"
  shows "closed_file (m @ concat cs)"
proof -
  obtain ms where "m = concat ms" "\<forall>c \<in> set ms. piece c" using assms(1) by (auto simp: form_file_def)
  then show ?thesis using assms(2-4) unfolding closed_file_def by (intro exI [of _ "ms @ cs"]) auto
qed

lemma forms_from_append:
  "(cs = [] \<and> lns = []) \<or> (cs \<noteq> [] \<and> hd (last cs) = 45) \<Longrightarrow>
   forms_from lns (cs @ ds) = forms_from lns cs @ forms_from [] ds"
proof (induction lns cs rule: forms_from.induct)
  case (2 lns c cs)
  show ?case
  proof (cases "cs = []")
    case True
    then show ?thesis using 2(4) by simp
  next
    case False
    then show ?thesis using 2 by auto
  qed
qed simp

lemma forms_of_closed:
  assumes "closed_file a" "form_file b"
  shows "forms_of (a @ b) = forms_of a @ forms_of b"
proof -
  obtain cs where cs: "a = concat cs" "\<forall>c \<in> set cs. piece c" "cs = [] \<or> hd (last cs) = 45"
    using assms(1) by (auto simp: closed_file_def)
  then have "file_lines 256 a = cs" by (simp add: file_lines_pieces)
  then show ?thesis
    using forms_from_append [of cs "[]" "file_lines 256 b"] cs(3) closed_form_file [OF assms(1)] assms(2)
    by (auto simp: forms_of_def file_lines_append)
qed

text \<open>Values that fit into the lines the pages read, 79 bytes with the name and the line end.\<close>

definition form_ok :: "fdata \<Rightarrow> bool" where
  "form_ok f \<longleftrightarrow> length f = 8 \<and> (\<forall>v \<in> set f. length v \<le> 68 \<and> 0 \<notin> set v \<and> 10 \<notin> set v)"

definition form_lines :: "fdata \<Rightarrow> cstr list" where
  "form_lines f = map2 field_line reg_field f"

lemma reg_field_facts: "n \<in> set reg_field \<Longrightarrow> n \<noteq> [] \<and> hd n \<noteq> 45 \<and> length n \<le> 8 \<and> 0 \<notin> set n \<and> 10 \<notin> set n \<and> 58 \<notin> set n"
  by (auto simp: reg_field_def)

lemma form_line:
  assumes "form_ok f" "l \<in> set (form_lines f)"
  obtains n v where "l = field_line n v" "n \<in> set reg_field" "v \<in> set f"
  using assms by (auto simp: form_lines_def dest: set_zip_leftD set_zip_rightD)

lemma form_line_piece:
  assumes "form_ok f" "l \<in> set (form_lines f)"
  shows "piece l \<and> hd l \<noteq> 45"
proof -
  obtain n v where l: "l = field_line n v" "n \<in> set reg_field" "v \<in> set f" using form_line [OF assms] .
  then show ?thesis using reg_field_facts [OF l(2)] assms(1)
    by (auto simp: piece_def field_line_def form_ok_def butlast_append)
qed

lemma forms_from_lines: "\<forall>l \<in> set ls. hd l \<noteq> 45 \<Longrightarrow> ls \<noteq> [] \<or> lns \<noteq> [] \<Longrightarrow>
    forms_from lns (ls @ [dashes]) = [lns @ ls]"
  by (induction ls arbitrary: lns) (auto simp: dashes_def)

lemma form_text_file:
  assumes "form_ok f"
  shows "form_file (form_text f)" "closed_file (form_text f)" "forms_of (form_text f) = [form_lines f]"
proof -
  have p: "\<forall>l \<in> set (form_lines f @ [dashes]). piece l"
    using form_line_piece [OF assms] piece_dashes by auto
  have t: "form_text f = concat (form_lines f @ [dashes])" by (simp add: form_text_def form_lines_def)
  show "form_file (form_text f)" using p t by (auto simp: form_file_def intro!: exI [of _ "form_lines f @ [dashes]"])
  have "hd (last (form_lines f @ [dashes])) = 45" by (simp add: dashes_def)
  then show "closed_file (form_text f)" unfolding closed_file_def t using p by blast
  have "form_lines f \<noteq> []" using assms by (cases f) (auto simp: form_lines_def reg_field_def form_ok_def)
  then show "forms_of (form_text f) = [form_lines f]"
    unfolding forms_of_def t file_lines_pieces [OF p]
    using forms_from_lines [of "form_lines f" "[]"] form_line_piece [OF assms] by auto
qed
section \<open>The forms as a queue\<close>

lemma trycreate_loop_name:
  "trycreate_loop ex p fmt t k = Some (q, t') \<Longrightarrow> q = p @ fmt t' \<and> q \<notin> ex \<and> t \<le> t' \<and> t' < t + int k"
  by (induction ex p fmt t k rule: trycreate_loop.induct) (fastforce simp: Let_def split: if_splits)+

lemma scan_file_name:
  assumes "trycreatefile ex (SCANREGDIR home) fmt t k = Some (p, t')"
  shows "p \<notin> ex \<and> p \<noteq> NEWREGFILE home \<and> p \<noteq> GETREGFILE home"
proof -
  define d where "d = home @ lit ''/scanregister_tmp''"
  have d: "SCANREGDIR home = d @ 47 # []" by (simp add: SCANREGDIR_def d_def)
  have "strrchr (SCANREGDIR home) 47 = Some (length d)"
    unfolding d by (rule strrchr_split) simp
  then have "trycreate_loop ex (SCANREGDIR home) fmt t k = Some (p, t')"
    using assms d by (auto simp: trycreatefile_def Let_def split: if_splits)
  from trycreate_loop_name [OF this] show ?thesis
    by (auto simp: SCANREGDIR_def NEWREGFILE_def GETREGFILE_def)
qed

text \<open>The forms that wait, and the states between two operations.\<close>

definition waiting :: "cstr \<Rightarrow> fsys \<Rightarrow> cstr list list" where
  "waiting home fs = (case fs (NEWREGFILE home) of None \<Rightarrow> [] | Some m \<Rightarrow> forms_of m)"

definition reg_ok :: "cstr \<Rightarrow> fsys \<Rightarrow> bool" where
  "reg_ok home fs \<longleftrightarrow> fs (GETREGFILE home) = None
     \<and> (case fs (NEWREGFILE home) of None \<Rightarrow> True | Some m \<Rightarrow> closed_file m)"

lemma files_differ [simp]: "NEWREGFILE home \<noteq> GETREGFILE home" "GETREGFILE home \<noteq> NEWREGFILE home"
  by (simp_all add: NEWREGFILE_def GETREGFILE_def)

lemma renamed_files [simp]:
  "renamed home fs (NEWREGFILE home) = None" "renamed home fs (GETREGFILE home) = fs (NEWREGFILE home)"
  by (simp_all add: renamed_def)

lemma write_form_waits:
  assumes "reg_ok home fs" "form_ok f"
  shows "reg_ok home (write_form True home fs f) \<and> waiting home (write_form True home fs f) = waiting home fs @ [form_lines f]"
proof (cases "fs (NEWREGFILE home)")
  case None
  then show ?thesis using assms form_text_file [OF assms(2)]
    by (simp add: write_form_def f_append_def Let_def reg_ok_def waiting_def)
next
  case (Some m)
  then have m: "closed_file m" using assms(1) by (simp add: reg_ok_def)
  have "closed_file (m @ form_text f)"
    using closed_append_dash [OF closed_form_file [OF m], of "form_lines f @ [dashes]"]
      form_line_piece [OF assms(2)] piece_dashes by (auto simp: form_text_def form_lines_def dashes_def)
  then show ?thesis
    using Some assms form_text_file [OF assms(2)] forms_of_closed [OF m]
    by (simp add: write_form_def f_append_def Let_def reg_ok_def waiting_def)
qed

lemma getregforms_gives:
  assumes "reg_ok (reg_home e) fs" "getregforms e fs n uid = (fs', Some p, k)"
  shows "\<exists>out. fs' p = Some out \<and> fs p = None \<and> form_file out
     \<and> forms_of out = take (nat (max 1 n)) (waiting (reg_home e) fs)
     \<and> waiting (reg_home e) fs' = drop (nat (max 1 n)) (waiting (reg_home e) fs) \<and> reg_ok (reg_home e) fs'
     \<and> (\<forall>q. q \<notin> {p, NEWREGFILE (reg_home e)} \<longrightarrow> fs' q = fs q)"
proof -
  let ?new = "NEWREGFILE (reg_home e)" and ?get = "GETREGFILE (reg_home e)"
  let ?fs1 = "renamed (reg_home e) fs"
  have g: "reg_lock e" "fs ?get = None"
    using assms(2) by (auto simp: getregforms_def Let_def split: if_splits)
  obtain m where m: "?fs1 ?get = Some m" "reg_read e"
    using assms(2) g by (auto simp: getregforms_def Let_def renamed_def split: if_splits option.splits)
  then have nm: "fs ?new = Some m" by (simp add: renamed_def)
  obtain t where t: "reg_create e" "trycreatefile (dom ?fs1) (SCANREGDIR (reg_home e)) (list_name uid) (reg_now e) 5 = Some (p, t)"
    "reg_write e" "reg_append e"
    using assms(2) g m nm by (auto simp: getregforms_def Let_def renamed_def split: if_splits option.splits prod.splits)
  have p: "p \<notin> dom ?fs1" "p \<noteq> ?new" "p \<noteq> ?get" using scan_file_name [OF t(2)] by auto
  have cl: "closed_file m" using assms(1) nm by (simp add: reg_ok_def)
  obtain k' out rest where s: "split_forms n 0 0 [] m = (k', out, rest)" "form_file out" "form_file rest"
    "forms_of out = take (nat (max 1 n)) (forms_of m)" "forms_of rest = drop (nat (max 1 n)) (forms_of m)"
    using split_forms_of [OF closed_form_file [OF cl]] by blast
  have fs': "fs' = ((?fs1(p \<mapsto> out))(?new \<mapsto> rest @ dashes))(?get := None)"
    using assms(2) g nm t s(1) p file_lines_concat_id [OF s(3)]
    by (simp add: getregforms_def Let_def) (simp add: renamed_def m)
  have "closed_file (rest @ dashes)"
    using closed_append_dash [OF s(3), of "[dashes]"] piece_dashes by (simp add: dashes_def)
  then have "reg_ok (reg_home e) fs'" using fs' by (simp add: reg_ok_def)
  moreover have "waiting (reg_home e) fs' = drop (nat (max 1 n)) (waiting (reg_home e) fs)"
    using fs' nm s(5) forms_of_dashes [OF s(3)] by (simp add: waiting_def)
  moreover have "fs' q = fs q" if "q \<notin> {p, ?new}" for q
    using fs' that g(2) by (auto simp: renamed_def)
  moreover have "?fs1 p = None" using p(1) by (simp only: domIff) simp
  then have "fs p = None" using p(2,3) by (simp add: renamed_def)
  ultimately show ?thesis using fs' p s(2,4) nm by (intro exI [of _ out]) (simp add: waiting_def)
qed

text \<open>What may happen to the files: a form comes in, a list is made, a call is refused, some other file changes.\<close>

datatype reg_event = Submitted fdata | Picked "byte list" | Refused | Elsewhere

inductive reg_step :: "cstr \<Rightarrow> fsys \<Rightarrow> reg_event \<Rightarrow> fsys \<Rightarrow> bool" for home where
  submit: "form_ok f \<Longrightarrow> reg_step home fs (Submitted f) (write_form True home fs f)"
| pick: "reg_home e = home \<Longrightarrow> getregforms e fs n uid = (fs', Some p, k) \<Longrightarrow> fs' p = Some out \<Longrightarrow>
    reg_step home fs (Picked out) fs'"
| refuse: "reg_home e = home \<Longrightarrow> getregforms e fs n uid = (fs, None, - 1) \<Longrightarrow> reg_step home fs Refused fs"
| other: "q \<noteq> NEWREGFILE home \<Longrightarrow> q \<noteq> GETREGFILE home \<Longrightarrow> reg_step home fs Elsewhere (fs(q := m))"

inductive reg_trace :: "cstr \<Rightarrow> fsys \<Rightarrow> reg_event list \<Rightarrow> fsys \<Rightarrow> bool" for home where
  stop: "reg_trace home fs [] fs"
| step: "reg_step home fs ev fs1 \<Longrightarrow> reg_trace home fs1 evs fs2 \<Longrightarrow> reg_trace home fs (ev # evs) fs2"

inductive_cases reg_step_cases: "reg_step home fs ev fs'"

fun came :: "reg_event \<Rightarrow> cstr list list" where
  "came (Submitted f) = [form_lines f]"
| "came _ = []"

fun given :: "reg_event \<Rightarrow> cstr list list" where
  "given (Picked out) = forms_of out"
| "given _ = []"

lemma reg_step_exact:
  "reg_step home fs ev fs' \<Longrightarrow> reg_ok home fs \<Longrightarrow>
   reg_ok home fs' \<and> waiting home fs @ came ev = given ev @ waiting home fs'"
proof (induction rule: reg_step.induct)
  case (submit f fs)
  then show ?case using write_form_waits by simp
next
  case (pick e fs n uid fs' p k out)
  then obtain out' where o: "fs' p = Some out'" "forms_of out' = take (nat (max 1 n)) (waiting home fs)"
     "waiting home fs' = drop (nat (max 1 n)) (waiting home fs)" "reg_ok home fs'"
    using getregforms_gives [of e fs n uid fs' p k] by auto
  then have "out' = out" using pick by simp
  then have "given (Picked out) = take (nat (max 1 n)) (waiting home fs)" using o(2) by simp
  then show ?case using o(3,4) by simp
next
  case (other q fs m)
  then show ?case by (simp add: reg_ok_def waiting_def)
qed simp

text \<open>
  C32: No form is lost, given out twice or out of order: along any sequence of registrations, lists made for
  clerks, refused calls and changes to other files, the forms that waited and those written since are, in
  this order, the forms of the lists handed out followed by the forms that still wait.
\<close>

theorem reg_forms_served:
  assumes "reg_trace home fs evs fs'" "reg_ok home fs"
  shows "reg_ok home fs' \<and>
    waiting home fs @ concat (map came evs) = concat (map given evs) @ waiting home fs'"
  using assms
proof (induction rule: reg_trace.induct)
  case (step fs ev fs1 evs fs2)
  then have "reg_ok home fs1" "waiting home fs @ came ev = given ev @ waiting home fs1"
    using reg_step_exact by blast+
  then show ?case using step.IH by simp (metis append.assoc)
qed simp
text \<open>With a form file, no list being made and a free name, a list is made.\<close>

lemma getregforms_succeeds:
  assumes "reg_ok (reg_home e) fs" "fs (NEWREGFILE (reg_home e)) \<noteq> None" "0 \<le> reg_now e"
    "reg_lock e" "reg_read e" "reg_create e" "reg_write e" "reg_append e"
    "fs (SCANREGDIR (reg_home e) @ list_name uid (reg_now e)) = None"
  shows "\<exists>fs' k. getregforms e fs n uid = (fs', Some (SCANREGDIR (reg_home e) @ list_name uid (reg_now e)), k)"
proof -
  let ?new = "NEWREGFILE (reg_home e)" and ?get = "GETREGFILE (reg_home e)"
  let ?p = "SCANREGDIR (reg_home e) @ list_name uid (reg_now e)"
  let ?fs1 = "renamed (reg_home e) fs"
  obtain m where m: "fs ?new = Some m" using assms(2) by blast
  have p: "?p \<noteq> ?get" by (simp add: SCANREGDIR_def GETREGFILE_def)
  define d where "d = reg_home e @ lit ''/scanregister_tmp''"
  have d: "SCANREGDIR (reg_home e) = d @ 47 # []" by (simp add: SCANREGDIR_def d_def)
  have l: "strrchr (SCANREGDIR (reg_home e)) 47 = Some (length d)" unfolding d by (rule strrchr_split) simp
  have "?fs1 ?p = None" using assms(9) p unfolding renamed_def by (simp only: fun_upd_apply) simp
  then have "?p \<notin> dom ?fs1" by (simp only: domIff) simp
  moreover have five: "(5 :: nat) = Suc 4" by simp
  ultimately have five: "(5 :: nat) = Suc 4" "d @ 47 # list_name uid (reg_now e) \<notin> dom ?fs1" using d by simp_all
  have t: "trycreatefile (dom ?fs1) (SCANREGDIR (reg_home e)) (list_name uid) (reg_now e) 5 = Some (?p, reg_now e)"
  proof -
    have "trycreate_loop (dom ?fs1) (d @ [47]) (list_name uid) (reg_now e) 5
        = Some ((d @ [47]) @ list_name uid (reg_now e), reg_now e)"
      unfolding five(1) trycreate_loop.simps(2) using five(2) by simp
    then show ?thesis using assms(3) l d by (simp add: trycreatefile_def)
  qed
  have "fs ?get = None" using assms(1) by (simp add: reg_ok_def)
  then show ?thesis
    using assms(4-8) m t by (simp add: getregforms_def Let_def split: prod.splits)
qed

definition form1 :: fdata where
  "form1 = new_form 7 (lit ''Mon'') (lit ''deli'') (lit ''Li'') (lit ''EE'') (lit ''Xian'') (lit ''1'') []"

lemma form1_ok: "form_ok form1"
  by (simp add: form1_def new_form_def form_ok_def dec_def dec_nat.simps)

lemma reg_forms_served_witness:
  "\<exists>out fs'. reg_trace (lit ''/bbs'') Map.empty [Submitted form1, Picked out] fs' \<and> forms_of out = [form_lines form1]"
proof -
  define e where "e = \<lparr>reg_home = lit ''/bbs'', reg_lock = True, reg_read = True, reg_create = True, reg_write = True,
    reg_append = True, reg_now = 5\<rparr>"
  have h: "reg_home e = lit ''/bbs''" by (simp add: e_def)
  define fs1 where "fs1 = write_form True (lit ''/bbs'') Map.empty form1"
  have ok0: "reg_ok (lit ''/bbs'') Map.empty" by (simp add: reg_ok_def)
  have w: "reg_ok (lit ''/bbs'') fs1" "waiting (lit ''/bbs'') fs1 = [form_lines form1]"
    using write_form_waits [OF ok0 form1_ok] unfolding fs1_def waiting_def by simp_all
  have f: "fs1 q = (if q = NEWREGFILE (lit ''/bbs'') then Some (form_text form1) else None)" for q
    by (simp add: fs1_def write_form_def f_append_def Let_def del: lit_Cons)
  have "SCANREGDIR (lit ''/bbs'') @ x \<noteq> NEWREGFILE (lit ''/bbs'')" for x
    by (simp add: SCANREGDIR_def NEWREGFILE_def)
  then have n: "fs1 (SCANREGDIR (reg_home e) @ list_name (lit ''sysop'') (reg_now e)) = None"
    unfolding f h by simp
  have o: "0 \<le> reg_now e" "reg_lock e" "reg_read e" "reg_create e" "reg_write e" "reg_append e" by (simp_all add: e_def)
  have x: "fs1 (NEWREGFILE (reg_home e)) \<noteq> None" unfolding f h by simp
  obtain fs' p k where g: "getregforms e fs1 20 (lit ''sysop'') = (fs', Some p, k)"
    using getregforms_succeeds [OF w(1) [folded h] x o n] by blast
  obtain out where out: "fs' p = Some out" "waiting (lit ''/bbs'') fs' = []"
    using getregforms_gives [OF w(1) [folded h] g] w(2) h by auto
  have "reg_step (lit ''/bbs'') Map.empty (Submitted form1) fs1"
    unfolding fs1_def by (rule reg_step.submit [OF form1_ok])
  moreover have "reg_trace (lit ''/bbs'') fs1 [Picked out] fs'"
    by (rule reg_trace.step [OF reg_step.pick [OF h g out(1)] reg_trace.stop])
  ultimately have tr: "reg_trace (lit ''/bbs'') Map.empty [Submitted form1, Picked out] fs'"
    by (rule reg_trace.step)
  from reg_forms_served [OF tr ok0] out(2) have "forms_of out = [form_lines form1]"
    by (simp add: waiting_def del: lit_Cons)
  with tr show ?thesis by blast
qed

text \<open>
  C33: When a list cannot be made, \<open>getregforms\<close> either has left all files as they were or has blocked the
  queue: the forms then lie in the file that only a running call should hold, and every later call, of any
  clerk and with all system calls working, is refused and changes nothing.
\<close>

theorem getregforms_blocks:
  assumes "getregforms e fs n uid = (fs', None, r)" "fs' \<noteq> fs"
  shows "r = - 1 \<and> fs' (GETREGFILE (reg_home e)) = fs (NEWREGFILE (reg_home e)) \<and>
    (\<forall>e' n' uid'. reg_home e' = reg_home e \<longrightarrow> getregforms e' fs' n' uid' = (fs', None, - 1))"
proof -
  let ?new = "NEWREGFILE (reg_home e)" and ?get = "GETREGFILE (reg_home e)"
  let ?fs1 = "renamed (reg_home e) fs"
  have g: "reg_lock e" "fs ?get = None"
    using assms by (auto simp: getregforms_def Let_def split: if_splits)
  have "?fs1 = fs" if "fs ?new = None" using that g(2) by (auto simp: renamed_def fun_eq_iff)
  moreover have "fs' = ?fs1" if "fs ?new = None" using assms(1) g that
    by (auto simp: getregforms_def Let_def renamed_def split: if_splits)
  ultimately obtain m where m: "fs ?new = Some m" using assms(2) by blast
  have "r = - 1 \<and> fs' ?get = Some m"
  proof (cases "reg_read e \<and> reg_create e")
    case False
    then show ?thesis using assms(1) g m by (auto simp: getregforms_def Let_def split: if_splits)
  next
    case True
    show ?thesis
    proof (cases "trycreatefile (dom ?fs1) (SCANREGDIR (reg_home e)) (list_name uid) (reg_now e) 5")
      case None
      then show ?thesis using assms(1) g m True
        by (simp add: getregforms_def Let_def) (auto simp: renamed_def)
    next
      case (Some pt)
      obtain p t where pt: "pt = (p, t)" by fastforce
      have "p \<noteq> ?get" using scan_file_name [of "dom ?fs1" "reg_home e" "list_name uid" "reg_now e" 5 p t] Some pt by simp
      then show ?thesis using assms(1) g m True Some pt
        by (simp add: getregforms_def Let_def split: if_splits prod.splits) (auto simp: renamed_def)
    qed
  qed
  then show ?thesis using m by (simp add: getregforms_def Let_def)
qed
lemma getregforms_blocks_witness:
  "\<exists>fs'. \<forall>e'. reg_home e' = lit ''/bbs'' \<longrightarrow>
     getregforms e' fs' 20 (lit ''SYSOP'') = (fs', None, - 1)
     \<and> fs' (GETREGFILE (lit ''/bbs'')) = Some (form_text form1)"
proof -
  define fs where "fs = Map.empty(NEWREGFILE (lit ''/bbs'') \<mapsto> form_text form1)"
  define e where "e = \<lparr>reg_home = lit ''/bbs'', reg_lock = True, reg_read = True, reg_create = False, reg_write = True,
    reg_append = True, reg_now = 5\<rparr>"
  have n: "fs (NEWREGFILE (lit ''/bbs'')) = Some (form_text form1)" "fs (GETREGFILE (lit ''/bbs'')) = None"
    unfolding fs_def fun_upd_apply by simp_all
  have g: "getregforms e fs 20 (lit ''SYSOP'') = (renamed (lit ''/bbs'') fs, None, - 1)"
    using n by (simp add: getregforms_def Let_def e_def del: lit_Cons)
  have d: "renamed (lit ''/bbs'') fs \<noteq> fs"
    using n renamed_files(1) [of "lit ''/bbs''" fs] by (metis option.distinct(1))
  have h: "reg_home e = lit ''/bbs''" by (simp add: e_def del: lit_Cons)
  from getregforms_blocks [OF g d] n(1) show ?thesis unfolding h by metis
qed
section \<open>Lists of whole forms\<close>

lemma split_forms_lines:
  "\<forall>l \<in> set ls. piece l \<and> hd l \<noteq> 45 \<Longrightarrow>
   split_forms n j count out (concat ls @ m) = split_forms n (j + length ls) count (out @ concat ls) m"
proof (induction ls arbitrary: j out)
  case (Cons l ls)
  then have "fgets 256 (concat (l # ls) @ m) = Some (l, concat ls @ m)" "zstr l = l" "hd l \<noteq> 45"
    using fgets_piece [of l "concat ls @ m"] by (auto simp: piece_def zstr_id)
  then have "split_forms n j count out (concat (l # ls) @ m) = split_forms n (j + 1) count (out @ l) (concat ls @ m)"
    by (subst split_forms.simps) simp
  then show ?case using Cons by simp
qed simp

lemma split_forms_form:
  assumes "form_ok f"
  shows "split_forms n 0 count out (form_text f @ m) =
    (if count + 1 \<ge> n then (count + 1, out @ form_text f, m) else split_forms n 0 (count + 1) (out @ form_text f) m)"
proof -
  have t: "form_text f @ m = concat (form_lines f) @ dashes @ m" by (simp add: form_text_def form_lines_def)
  have l: "length (form_lines f) = 8" using assms by (simp add: form_lines_def form_ok_def reg_field_def)
  have "fgets 256 (dashes @ m) = Some (dashes, m)" "zstr dashes = dashes" "hd dashes = 45"
    using fgets_piece [OF piece_dashes] by (simp_all add: dashes_def zstr_def)
  then have "split_forms n (0 + length (form_lines f)) count (out @ concat (form_lines f)) (dashes @ m) =
    (if count + 1 \<ge> n then (count + 1, (out @ concat (form_lines f)) @ dashes, m)
     else split_forms n 0 (count + 1) ((out @ concat (form_lines f)) @ dashes) m)"
    unfolding l by (subst split_forms.simps) simp
  moreover have "(out @ concat (form_lines f)) @ dashes = out @ form_text f"
    by (simp add: form_text_def form_lines_def)
  ultimately show ?thesis
    using split_forms_lines [of "form_lines f" n 0 count out "dashes @ m"] form_line_piece [OF assms] unfolding t by simp
qed

lemma split_forms_texts:
  "\<forall>f \<in> set fs. form_ok f \<Longrightarrow>
   split_forms n 0 count out (concat (map form_text fs)) =
     (count + int (min (length fs) (nat (max 1 (n - count)))), out @ concat (map form_text (take (nat (max 1 (n - count))) fs)),
      concat (map form_text (drop (nat (max 1 (n - count))) fs)))"
proof (induction fs arbitrary: count out)
  case Nil
  then show ?case by (subst split_forms.simps) (simp add: fgets_def)
next
  case (Cons f fs)
  show ?case
  proof (cases "count + 1 \<ge> n")
    case True
    then have "nat (max 1 (n - count)) = 1" by simp
    then show ?thesis using Cons.prems True split_forms_form [of f n count out "concat (map form_text fs)"] by simp
  next
    case False
    then have j: "nat (max 1 (n - count)) = Suc (nat (max 1 (n - (count + 1))))" by simp
    then show ?thesis unfolding j
      using Cons False split_forms_form [of f n count out "concat (map form_text fs)"] by simp
  qed
qed

lemma scan_file_path:
  assumes "trycreatefile ex (SCANREGDIR home) fmt t k = Some (p, t')"
  shows "p = SCANREGDIR home @ fmt t' \<and> t \<le> t' \<and> 0 \<le> t"
proof -
  define d where "d = home @ lit ''/scanregister_tmp''"
  have d: "SCANREGDIR home = d @ 47 # []" by (simp add: SCANREGDIR_def d_def)
  have "strrchr (SCANREGDIR home) 47 = Some (length d)"
    unfolding d by (rule strrchr_split) simp
  then have "trycreate_loop ex (SCANREGDIR home) fmt t k = Some (p, t')" "0 \<le> t"
    using assms d by (auto simp: trycreatefile_def Let_def split: if_splits)
  with trycreate_loop_name [OF this(1)] show ?thesis by simp
qed

text \<open>The first \<open>n\<close> forms as they were written, and the name of the list.\<close>

lemma getregforms_list:
  assumes "getregforms e fs n uid = (fs', Some p, k)" "fs (NEWREGFILE (reg_home e)) = Some (concat (map form_text forms))"
    "\<forall>f \<in> set forms. form_ok f"
  shows "\<exists>t \<ge> 0. p = SCANREGDIR (reg_home e) @ list_name uid t
     \<and> fs' p = Some (concat (map form_text (take (nat (max 1 n)) forms))) \<and> k = int (min (length forms) (nat (max 1 n)))
     \<and> fs' (NEWREGFILE (reg_home e)) = Some (concat (map form_text (drop (nat (max 1 n)) forms)) @ dashes)"
proof -
  let ?new = "NEWREGFILE (reg_home e)" and ?get = "GETREGFILE (reg_home e)"
  let ?fs1 = "renamed (reg_home e) fs"
  have g: "reg_lock e" "reg_read e" "fs ?get = None"
    using assms(1) by (auto simp: getregforms_def Let_def split: if_splits)
  obtain t where t: "reg_create e" "trycreatefile (dom ?fs1) (SCANREGDIR (reg_home e)) (list_name uid) (reg_now e) 5 = Some (p, t)"
    "reg_write e" "reg_append e"
    using assms g by (auto simp: getregforms_def Let_def split: if_splits option.splits prod.splits)
  have p: "p \<noteq> ?new" "p \<noteq> ?get" "p = SCANREGDIR (reg_home e) @ list_name uid t" "0 \<le> t"
    using scan_file_name [OF t(2)] scan_file_path [OF t(2)] by auto
  let ?j = "nat (max 1 n)"
  have s: "split_forms n 0 0 [] (concat (map form_text forms)) =
      (int (min (length forms) ?j), concat (map form_text (take ?j forms)), concat (map form_text (drop ?j forms)))"
    using split_forms_texts [OF assms(3), of n 0 "[]"] by simp
  have "form_file (concat (map form_text fs))" if "\<forall>f \<in> set fs. form_ok f" for fs
    using that by (induction fs) (auto simp: form_file_append form_text_file intro: closed_form_file)
  then have "concat (file_lines 256 (concat (map form_text (drop ?j forms)))) = concat (map form_text (drop ?j forms))"
    using assms(3) by (intro file_lines_concat_id) (meson in_set_dropD)
  then show ?thesis using assms(1,2) g t s p(1,2,4) p(3) [symmetric]
    by (auto simp: getregforms_def Let_def intro!: exI [of _ t])
qed
section \<open>Addresses of mail\<close>

text \<open>
  \<open>usedEmail\<close> and \<open>trustEmail\<close>, with the files of addresses used and of words not trusted.  \<open>strtok\<close> ends the
  string at the first word, but \<open>trustEmail\<close> then searches for the buffer, blanks in front included.
\<close>

definition mail_seps :: "byte set" where "mail_seps = {32, 13, 10, 9}"

definition usedEmail :: "byte list option \<Rightarrow> cstr \<Rightarrow> bool" where
  "usedEmail used email =
     (case used of
        None \<Rightarrow> False
      | Some m \<Rightarrow> list_ex (\<lambda>l. case fst (strtok (Some l) mail_seps) of None \<Rightarrow> False | Some t \<Rightarrow> strcaseeq t email)
                    (file_lines 128 m))"

definition untrusted_word :: "cstr \<Rightarrow> cstr \<Rightarrow> bool" where
  "untrusted_word email l =
     (case fst (strtok (Some l) mail_seps) of
        None \<Rightarrow> False
      | Some t \<Rightarrow>
          let buf = takeWhile (\<lambda>c. c \<in> mail_seps) l @ t
          in strstr (map tolower email) (map tolower buf) \<noteq> None)"

definition trustEmail :: "byte list option \<Rightarrow> byte list option \<Rightarrow> cstr \<Rightarrow> bool" where
  "trustEmail untrusted used email =
     (if strchr email 64 = None \<or> strchr email 46 = None then False
      else if strstr (map tolower email) (lit ''.bbs@'') \<noteq> None then False
      else if (case untrusted of None \<Rightarrow> False | Some m \<Rightarrow> list_ex (untrusted_word email) (file_lines 128 m)) then False
      else \<not> usedEmail used email)"

lemma word_token:
  assumes "t \<noteq> []" "set t \<inter> mail_seps = {}"
  shows "fst (strtok (Some (t @ [10])) mail_seps) = Some t" "takeWhile (\<lambda>c. c \<in> mail_seps) (t @ [10]) = []"
proof -
  have "\<forall>c \<in> set t. c \<notin> mail_seps" using assms(2) by auto
  then show "fst (strtok (Some (t @ [10])) mail_seps) = Some t" "takeWhile (\<lambda>c. c \<in> mail_seps) (t @ [10]) = []"
    using assms(1) by (cases t; simp add: strtok_def Let_def takeWhile_append2 mail_seps_def)+
qed

text \<open>Of lists with one word to a line: an address used before, or with a word not trusted in it, is refused.\<close>

lemma trustEmail_lists:
  assumes "\<forall>t \<in> set us \<union> set ws. t \<noteq> [] \<and> set t \<inter> mail_seps = {} \<and> 0 \<notin> set t \<and> length t < 127"
  shows "trustEmail (Some (concat (map (\<lambda>t. t @ [10]) ws))) (Some (concat (map (\<lambda>t. t @ [10]) us))) email \<longleftrightarrow>
    64 \<in> set email \<and> 46 \<in> set email \<and> strstr (map tolower email) (lit ''.bbs@'') = None
    \<and> (\<forall>t \<in> set ws. strstr (map tolower email) (map tolower t) = None) \<and> (\<forall>t \<in> set us. \<not> strcaseeq t email)"
proof -
  have f: "file_lines 128 (concat (map (\<lambda>t. t @ [10]) ts)) = map (\<lambda>t. t @ [10]) ts" if "set ts \<subseteq> set us \<union> set ws" for ts
    using assms that by (intro file_lines_concat) (auto simp: mail_seps_def)
  have w: "untrusted_word email (t @ [10]) \<longleftrightarrow> strstr (map tolower email) (map tolower t) \<noteq> None" if "t \<in> set ws" for t
    using word_token [of t] assms that by (simp add: untrusted_word_def Let_def)
  have u: "(case fst (strtok (Some (t @ [10])) mail_seps) of None \<Rightarrow> False | Some t \<Rightarrow> strcaseeq t email) \<longleftrightarrow> strcaseeq t email"
    if "t \<in> set us" for t
    using word_token(1) [of t] assms that by simp
  show ?thesis using w u
    by (auto simp: trustEmail_def usedEmail_def f list_ex_iff strchr_None)
qed

end
