(* ===== verification/RegScan.thy ===== *)
theory RegScan
  imports RegForm WebParm
begin

text \<open>
  How a clerk reads a list of registration forms and decides on them, \<open>nju09/bbsscanreg.c\<close>: the fields of the
  lines, the rows of the page, the answers of its form, and what the decisions do to the password file and to
  the files of the users.  Mails, logs and posts about the decisions are not modelled.
\<close>

section \<open>Reading a list\<close>

definition no_data :: fdata where "no_data = replicate 8 []"

text \<open>One line: with a colon and a blank it sets the field of its name, if there is one; otherwise it ends a form.\<close>

definition reg_line :: "cstr \<Rightarrow> fdata \<Rightarrow> fdata option" where
  "reg_line l fd =
     (case strstr l (lit '': '') of
        None \<Rightarrow> None
      | Some i \<Rightarrow>
          let v = takeWhile (\<lambda>c. c \<noteq> 10) (strsncpy (drop (i + 2) l) 80)
          in Some (map2 (\<lambda>n old. if take i l = n then v else old) reg_field fd))"

fun scan_forms :: "fdata \<Rightarrow> cstr list \<Rightarrow> fdata list" where
  "scan_forms fd [] = []"
| "scan_forms fd (l # ls) =
     (case reg_line l fd of
        Some fd' \<Rightarrow> scan_forms fd' ls
      | None \<Rightarrow> fd # scan_forms no_data ls)"

text \<open>The rows of \<open>scanreg_readforms\<close>; \<open>checkreg\<close> leaves every form to the clerk.\<close>

definition PERM_DEFAULT :: "32 word" where "PERM_DEFAULT = 31"

definition checkreg :: int where "checkreg = 1"

datatype reg_row = NoUser fdata | Confirmed cstr | Ask nat cstr fdata | Auto nat cstr

fun reg_rows :: "pwdb \<Rightarrow> nat \<Rightarrow> fdata list \<Rightarrow> reg_row list option" where
  "reg_rows s k [] = Some []"
| "reg_rows s k (fd # fds) =
     (case getuser s (fd ! 1) of
        None \<Rightarrow> None
      | Some u \<Rightarrow>
          if u = 0 \<or> atoi (fd ! 0) \<noteq> int u then map_option ((#) (NoUser fd)) (reg_rows s k fds)
          else let r = snd s ! (u - 1); ok = userlevel r AND PERM_LOGINOK \<noteq> 0 in
            if atoi (fd ! 7) \<noteq> 0 \<or> checkreg = 1 then
              if ok then map_option ((#) (Confirmed (userid r))) (reg_rows s k fds)
              else map_option ((#) (Ask k (userid r) fd)) (reg_rows s (k + 1) fds)
            else if ok then reg_rows s k fds
            else map_option ((#) (Auto k (userid r))) (reg_rows s (k + 1) fds))"

definition scanreg_rows :: "pwdb \<Rightarrow> byte list \<Rightarrow> fdata \<Rightarrow> reg_row list option" where
  "scanreg_rows s m garbage = reg_rows s 0 (scan_forms garbage (file_lines 80 m))"

section \<open>The answers\<close>

text \<open>
  Of the three parameters with number \<open>i\<close> the first that is filled in; a digit chooses one of the seven
  prepared reasons.  \<open>None\<close>: a parameter came as a file.
\<close>

definition reg_answer :: "cstr list \<Rightarrow> parms \<Rightarrow> nat \<Rightarrow> cstr option option" where
  "reg_answer reasons ps i =
     (case getparm ps (lit ''apsofresult'' @ dec (int i)) of
        None \<Rightarrow> None
      | Some a \<Rightarrow>
          if a \<noteq> [] \<and> length a < 80 then Some (Some a)
          else (case getparm ps (lit ''psofresult'' @ dec (int i)) of
                  None \<Rightarrow> None
                | Some b \<Rightarrow>
                    if 0 < length b \<and> length b < 80 then Some (Some b)
                    else (case getparm ps (lit ''result'' @ dec (int i)) of
                            None \<Rightarrow> None
                          | Some c \<Rightarrow>
                              Some (if c = [] then None
                                    else if isdigit (hd c)
                                    then (if atoi c < 0 \<or> atoi c \<ge> 7 then None else Some (reasons ! nat (atoi c)))
                                    else Some c))))"

fun reg_answers :: "cstr list \<Rightarrow> parms \<Rightarrow> nat list \<Rightarrow> (cstr \<times> cstr) list option" where
  "reg_answers reasons ps [] = Some []"
| "reg_answers reasons ps (i # is) =
     (case reg_answer reasons ps i of
        None \<Rightarrow> None
      | Some None \<Rightarrow> reg_answers reasons ps is
      | Some (Some a) \<Rightarrow>
          (case getparm ps (lit ''userid'' @ dec (int i)) of
             None \<Rightarrow> None
           | Some u \<Rightarrow>
               if u = [] then reg_answers reasons ps is
               else map_option ((#) (u, a)) (reg_answers reasons ps is)))"

section \<open>The decisions\<close>

text \<open>The outcomes of the system calls, the clerk, the time.\<close>

record scan_env =
  sc_io :: passwd_io
  sc_home :: cstr
  sc_clerk :: cstr
  sc_now :: int
  sc_date :: cstr
  sc_skip_create :: bool
  sc_skip_open :: bool
  sc_data_open :: bool
  sc_flag_open :: bool
  sc_reg_open :: bool

record reg_world =
  wdb :: pwdb
  wfiles :: fsys

definition put_field :: "nat \<Rightarrow> int \<Rightarrow> cstr \<Rightarrow> byte list \<Rightarrow> byte list" where
  "put_field off n v m =
     (let s = strsncpy v n @ [0] in take off m @ s @ drop (off + length s) m)"

text \<open>Department and telephone are cut so that both fit into the field \<open>realmail\<close> of the user.\<close>

definition trim_post :: "fdata \<Rightarrow> fdata" where
  "trim_post fd =
     (let i = length (fd ! 5) in
      if i + length (fd ! 3) > 60
      then let i' = min i 40 in fd[5 := take i' (fd ! 5), 3 := take (60 - i') (fd ! 3)]
      else fd)"

text \<open>The name of the automatic clerk.\<close>

definition auto_clerk :: cstr where
  "auto_clerk = [215, 212, 182, 175, 201, 243, 197, 250, 207, 181, 205, 179]"

definition accept_form :: "scan_env \<Rightarrow> cstr \<Rightarrow> byte list \<Rightarrow> fdata \<Rightarrow> nat \<Rightarrow> reg_world \<Rightarrow> reg_world option" where
  "accept_form e clerk udata fd u w =
     (let r = snd (wdb w) ! (u - 1); f = trim_post fd;
          ud = put_field 0 60 (f ! 3 @ lit ''$'' @ f ! 5 @ lit ''@'' @ clerk)
                 (put_field 160 40 (f ! 4) (put_field 120 40 (f ! 2) udata))
      in case updateuserec (sc_io e) (wdb w) (r\<lparr>userlevel := userlevel r OR PERM_DEFAULT\<rparr>) 0 of
           None \<Rightarrow> None
         | Some (db, _) \<Rightarrow>
             let hf = sethomefile (sc_home e) (userid r);
                 fs1 = fst (saveuserdata (sc_home e) (sc_data_open e) (wfiles w) (userid r) ud);
                 fs2 = fst (f_write (sc_flag_open e) fs1 (hf (lit ''sucessreg'')) [10]);
                 fs3 = (if fs2 (hf (lit ''register'')) \<noteq> None
                        then fs2(hf (lit ''register.old'') := fs2 (hf (lit ''register'')), hf (lit ''register'') := None)
                        else fs2);
                 text = concat (map2 field_line reg_field f) @ field_line (lit ''Date'') (sc_date e)
                          @ field_line (lit ''Approved'') clerk;
                 fs4 = (if sc_reg_open e then fs3(hf (lit ''register'') \<mapsto> text) else fs3)
             in Some \<lparr>wdb = db, wfiles = fs4(hf (lit ''mailcheck'') := None)\<rparr>)"

text \<open>A form put back: a list of its own for the next clerk.\<close>

definition skip_form :: "scan_env \<Rightarrow> fdata \<Rightarrow> fsys \<Rightarrow> fsys" where
  "skip_form e fd fs =
     (case (if sc_skip_create e
            then trycreatefile (dom fs) (SCANREGDIR (sc_home e))
                   (\<lambda>n. lit ''R.'' @ dec n @ lit ''.SKIP.'' @ fd ! 1) (sc_now e) 5
            else None) of
        None \<Rightarrow> fs
      | Some (p, _) \<Rightarrow> fs(p \<mapsto> (if sc_skip_open e then form_text fd else [])))"

definition deny_form :: "scan_env \<Rightarrow> nat \<Rightarrow> reg_world \<Rightarrow> reg_world option" where
  "deny_form e u w =
     (let r = snd (wdb w) ! (u - 1) in
      map_option (\<lambda>(db, _). w\<lparr>wdb := db\<rparr>)
        (updateuserec (sc_io e) (wdb w) (r\<lparr>userlevel := userlevel r AND NOT PERM_DEFAULT\<rparr>) 0))"

text \<open>
  The end of a form in the loop of \<open>scanreg_done\<close>: the fields for the next form and the world.  A form of a user
  already confirmed leaves its fields; all others clear them.
\<close>

definition done_form :: "scan_env \<Rightarrow> (cstr \<times> cstr) list \<Rightarrow> fdata \<Rightarrow> reg_world \<Rightarrow> (fdata \<times> reg_world) option" where
  "done_form e res fd w =
     (case getuser (wdb w) (fd ! 1) of
        None \<Rightarrow> None
      | Some u \<Rightarrow>
          if u = 0 \<or> atoi (fd ! 0) \<noteq> int u then Some (no_data, w)
          else let r = snd (wdb w) ! (u - 1); udata = fst (loaduserdata (sc_home e) (wfiles w) (fd ! 1)) in
            if userlevel r AND PERM_LOGINOK \<noteq> 0 then Some (fd, w)
            else let a = map_of res (userid r) in
              if a = None \<or> a = Some (lit ''SKIP'')
              then Some (no_data, w\<lparr>wfiles := skip_form e fd (wfiles w)\<rparr>)
              else map_option (Pair no_data)
                     (if a = Some (lit ''DEL'') then deny_form e u w
                      else if a = Some (lit ''APASS'') then accept_form e auto_clerk udata fd u w
                      else if a = Some (lit ''PASS'') then accept_form e (sc_clerk e) udata fd u w
                      else Some w))"

fun done_loop :: "scan_env \<Rightarrow> (cstr \<times> cstr) list \<Rightarrow> fdata \<Rightarrow> cstr list \<Rightarrow> reg_world \<Rightarrow> reg_world option" where
  "done_loop e res fd [] w = Some w"
| "done_loop e res fd (l # ls) w =
     (case reg_line l fd of
        Some fd' \<Rightarrow> done_loop e res fd' ls w
      | None \<Rightarrow>
          (case done_form e res fd w of
             None \<Rightarrow> None
           | Some (fd', w') \<Rightarrow> done_loop e res fd' ls w'))"

definition scanreg_done :: "scan_env \<Rightarrow> cstr list \<Rightarrow> parms \<Rightarrow> fdata \<Rightarrow> reg_world \<Rightarrow> reg_world http" where
  "scanreg_done e reasons ps garbage w =
     (case reg_answers reasons ps [0..<60] of
        None \<Rightarrow> Wild
      | Some res \<Rightarrow>
          (case getparm ps (lit ''F'') of
             None \<Rightarrow> Wild
           | Some f \<Rightarrow>
               if strstr f (lit ''..'') \<noteq> None \<or> 47 \<in> set f \<or> \<not> strneq 2 f (lit ''R.'') then Fatal
               else let p = take 254 (SCANREGDIR (sc_home e) @ f) in
                 case wfiles w p of
                   None \<Rightarrow> Fatal
                 | Some m \<Rightarrow>
                     (case done_loop e res garbage (file_lines 80 m) w of
                        None \<Rightarrow> Wild
                      | Some w' \<Rightarrow> Page (w'\<lparr>wfiles := (wfiles w')(p := None)\<rparr>))))"
section \<open>What a decision does to the password file\<close>

definition decide :: "cstr option \<Rightarrow> 32 word \<Rightarrow> 32 word" where
  "decide a l =
     (if a = Some (lit ''DEL'') then l AND NOT PERM_DEFAULT
      else if a = Some (lit ''PASS'') \<or> a = Some (lit ''APASS'') then l OR PERM_DEFAULT else l)"

lemma decide_idem: "decide a (decide a l) = decide a l"
  by (simp add: decide_def)

lemma kickout_same: "kickout r = 0 \<Longrightarrow> r\<lparr>userlevel := l, kickout := 0\<rparr> = r\<lparr>userlevel := l\<rparr>"
  by (cases r) simp

text \<open>A record written back with another level leaves the index as it is.\<close>

lemma update_level:
  assumes "db_inv s L" "db.unique s L" "u \<in> L" "userid (snd s ! (u - 1)) \<noteq> []" "kickout (snd s ! (u - 1)) = 0"
  shows "\<exists>s' k. updateuserec io s ((snd s ! (u - 1))\<lparr>userlevel := l\<rparr>) 0 = Some (s', k) \<and> fst s' = fst s
     \<and> snd s' = (if open_ok io \<and> seek_ok io \<and> write_ok io
                  then (snd s)[u - 1 := (snd s ! (u - 1))\<lparr>userlevel := l\<rparr>] else snd s)
     \<and> db_inv s' L \<and> db.unique s' L"
proof -
  let ?r = "snd s ! (u - 1)"
  let ?x = "?r\<lparr>userlevel := l\<rparr>"
  have sl: "0 < u" "u \<le> length (snd s)" using db.slot_pos [OF assms(1,3)] by (auto simp: db_slot_def)
  have "db_find s (userid ?x) = Some (int u)"
    by (rule db.find_unique [OF assms(1-3)]) (use assms(4) in \<open>simp_all add: db_name_def\<close>)
  moreover have "db_name s u = userid ?x" by (simp add: db_name_def)
  ultimately have up: "\<exists>k. updateuserec io s ?x 0
      = Some (if open_ok io \<and> seek_ok io \<and> write_ok io then db_write s u ?x else s, k)"
    using sl assms(5) by (simp add: updateuserec_def Let_def kickout_same)
  have ids: "map userid ((snd s)[u - 1 := ?x]) = map userid (snd s)"
    using sl by (intro nth_equalityI) (auto simp: nth_list_update)
  then have nth: "userid ((snd s)[u - 1 := ?x] ! j) = userid (snd s ! j)" if "j < length (snd s)" for j
    using that by (metis length_list_update nth_map)
  have "db_inv (db_write s u ?x) L"
  proof -
    obtain cs where cs: "uh_rep (fst s) (snd s) cs" "L = linked_set cs" using assms(1) by (auto simp: db_inv_def)
    have "userid ((snd s)[u - 1 := ?x] ! (i - 1)) = userid (snd s ! (i - 1))" if "i \<in> set (cs h)" for i h
    proof -
      have "0 < i \<and> i \<le> length (snd s)" using cs(1) that by (simp add: uh_rep_def)
      then have "i - 1 < length (snd s)" by linarith
      then show ?thesis by (rule nth)
    qed
    then have "uh_rep (fst s) ((snd s)[u - 1 := ?x]) cs"
      using cs(1) unfolding uh_rep_def by simp
    then show ?thesis using cs(2) by (auto simp: db_inv_def db_write_def)
  qed
  moreover have "db_name (db_write s u ?x) j = db_name s j" if "j \<in> L" for j
    using nth [of "j - 1"] db.slot_pos [OF assms(1) that] by (auto simp: db_name_def db_write_def db_slot_def)
  then have "db.unique (db_write s u ?x) L" using assms(2) by (simp add: db.unique_def)
  ultimately show ?thesis using up assms(1,2) by (auto simp: db_write_def)
qed

text \<open>A number \<open>getuser\<close> gives is a slot in use.\<close>

lemma getuser_slot:
  assumes "db_inv s L"
  shows "\<exists>u. getuser s nm = Some u \<and> (u = 0 \<or> u \<in> L \<and> nm \<noteq> [] \<and> strcaseeq nm (userid (snd s ! (u - 1)))
     \<and> kickout (snd s ! (u - 1)) = 0 \<and> 0 < u \<and> u \<le> length (snd s))"
proof -
  obtain r where r: "db_find s nm = Some r"
    "if \<exists>i \<in> L. strcaseeq nm (db_name s i) then \<exists>i \<in> L. r = int i \<and> strcaseeq nm (db_name s i) else r = - 1"
    using db.find_spec [OF assms] by blast
  show ?thesis
  proof (cases "0 < r")
    case True
    then obtain i where i: "i \<in> L" "r = int i" "strcaseeq nm (db_name s i)" using r(2) by (auto split: if_splits)
    then show ?thesis using db.slot_pos [OF assms i(1)] r(1)
      by (auto simp: getuser_def db_slot_def db_name_def)
  qed (use r(1) in \<open>auto simp: getuser_def\<close>)
qed

definition level_rel :: "(cstr \<times> cstr) list \<Rightarrow> userec list \<Rightarrow> userec list \<Rightarrow> bool" where
  "level_rel res old new \<longleftrightarrow> list_all2 (\<lambda>r r'. \<exists>l. r' = r\<lparr>userlevel := l\<rparr>
     \<and> (l = userlevel r \<or> l = decide (map_of res (userid r)) (userlevel r))) old new"

lemma level_same: "\<exists>l. r = r\<lparr>userlevel := l\<rparr> \<and> (l = userlevel r \<or> P l)"
  by (rule exI [of _ "userlevel r"]) simp

lemma level_rel_refl [simp]: "level_rel res pw pw"
  unfolding level_rel_def using level_same by (intro list_all2_refl) blast

lemma level_rel_trans:
  assumes "level_rel res a b" "level_rel res b c"
  shows "level_rel res a c"
  using assms unfolding level_rel_def
proof (rule list_all2_trans [rotated])
  fix x y z
  assume xy: "\<exists>l. y = x\<lparr>userlevel := l\<rparr> \<and> (l = userlevel x \<or> l = decide (map_of res (userid x)) (userlevel x))"
    and yz: "\<exists>l. z = y\<lparr>userlevel := l\<rparr> \<and> (l = userlevel y \<or> l = decide (map_of res (userid y)) (userlevel y))"
  then show "\<exists>l. z = x\<lparr>userlevel := l\<rparr> \<and> (l = userlevel x \<or> l = decide (map_of res (userid x)) (userlevel x))"
    using level_same [of x] by (auto simp: decide_idem)
qed

lemma level_rel_update:
  assumes "u - 1 < length pw" "l = decide (map_of res (userid (pw ! (u - 1)))) (userlevel (pw ! (u - 1)))"
  shows "level_rel res pw (pw[u - 1 := (pw ! (u - 1))\<lparr>userlevel := l\<rparr>])"
  unfolding level_rel_def
proof (rule list_all2_all_nthI)
  fix j assume "j < length pw"
  let ?new = "pw[u - 1 := (pw ! (u - 1))\<lparr>userlevel := l\<rparr>] ! j"
  show "\<exists>l'. ?new = (pw ! j)\<lparr>userlevel := l'\<rparr>
      \<and> (l' = userlevel (pw ! j) \<or> l' = decide (map_of res (userid (pw ! j))) (userlevel (pw ! j)))"
  proof (cases "j = u - 1")
    case True
    have "?new = (pw ! j)\<lparr>userlevel := l\<rparr>" using True assms(1) by simp
    then show ?thesis using assms(2) True by blast
  next
    case False
    then have "?new = pw ! j" by simp
    then show ?thesis using level_same by metis
  qed
qed simp
text \<open>A decision on one form, and the whole list.\<close>

definition lists_ok :: "reg_world \<Rightarrow> nat set \<Rightarrow> bool" where
  "lists_ok w L \<longleftrightarrow> db_inv (wdb w) L \<and> db.unique (wdb w) L"

lemma set_level_world:
  assumes "lists_ok w L" "u \<in> L" "userid (snd (wdb w) ! (u - 1)) \<noteq> []" "kickout (snd (wdb w) ! (u - 1)) = 0"
  obtains db k where
    "updateuserec io (wdb w) ((snd (wdb w) ! (u - 1))\<lparr>userlevel := l\<rparr>) 0 = Some (db, k)"
    "\<And>fs. lists_ok \<lparr>wdb = db, wfiles = fs\<rparr> L"
    "snd db = (if open_ok io \<and> seek_ok io \<and> write_ok io
       then (snd (wdb w))[u - 1 := (snd (wdb w) ! (u - 1))\<lparr>userlevel := l\<rparr>] else snd (wdb w))"
  using update_level [of "wdb w" L u io l] assms by (fastforce simp: lists_ok_def)

definition writes :: "scan_env \<Rightarrow> bool" where
  "writes e \<longleftrightarrow> open_ok (sc_io e) \<and> seek_ok (sc_io e) \<and> write_ok (sc_io e)"

lemma accept_form_level:
  assumes "lists_ok w L" "u \<in> L" "userid (snd (wdb w) ! (u - 1)) \<noteq> []" "kickout (snd (wdb w) ! (u - 1)) = 0"
  shows "\<exists>w'. accept_form e clerk ud fd u w = Some w' \<and> lists_ok w' L
     \<and> snd (wdb w') = (if writes e then (snd (wdb w))[u - 1 := (snd (wdb w) ! (u - 1))
         \<lparr>userlevel := userlevel (snd (wdb w) ! (u - 1)) OR PERM_DEFAULT\<rparr>] else snd (wdb w))"
  by (rule set_level_world [OF assms, of "sc_io e" "userlevel (snd (wdb w) ! (u - 1)) OR PERM_DEFAULT"])
    (simp add: accept_form_def Let_def writes_def)

lemma deny_form_level:
  assumes "lists_ok w L" "u \<in> L" "userid (snd (wdb w) ! (u - 1)) \<noteq> []" "kickout (snd (wdb w) ! (u - 1)) = 0"
  shows "\<exists>w'. deny_form e u w = Some w' \<and> lists_ok w' L
     \<and> snd (wdb w') = (if writes e then (snd (wdb w))[u - 1 := (snd (wdb w) ! (u - 1))
         \<lparr>userlevel := userlevel (snd (wdb w) ! (u - 1)) AND NOT PERM_DEFAULT\<rparr>] else snd (wdb w))"
  by (rule set_level_world [OF assms, of "sc_io e" "userlevel (snd (wdb w) ! (u - 1)) AND NOT PERM_DEFAULT"])
    (simp add: deny_form_def Let_def lists_ok_def writes_def)
lemma done_form_levels:
  assumes "lists_ok w L"
  shows "\<exists>fd' w'. done_form e res fd w = Some (fd', w') \<and> lists_ok w' L \<and> level_rel res (snd (wdb w)) (snd (wdb w'))"
proof -
  obtain u where u: "getuser (wdb w) (fd ! 1) = Some u"
    "u = 0 \<or> u \<in> L \<and> fd ! 1 \<noteq> [] \<and> strcaseeq (fd ! 1) (userid (snd (wdb w) ! (u - 1)))
     \<and> kickout (snd (wdb w) ! (u - 1)) = 0 \<and> 0 < u \<and> u \<le> length (snd (wdb w))"
    using getuser_slot [of "wdb w" L "fd ! 1"] assms by (auto simp: lists_ok_def)
  show ?thesis
  proof (cases "u = 0 \<or> atoi (fd ! 0) \<noteq> int u \<or> userlevel (snd (wdb w) ! (u - 1)) AND PERM_LOGINOK \<noteq> 0")
    case True
    then show ?thesis using u(1) assms by (auto simp: done_form_def Let_def)
  next
    case False
    let ?r = "snd (wdb w) ! (u - 1)"
    let ?a = "map_of res (userid ?r)"
    have v: "u \<in> L" "userid ?r \<noteq> []" "kickout ?r = 0" "u - 1 < length (snd (wdb w))"
      using u(2) False by auto
    have up: "level_rel res (snd (wdb w)) (if ok then (snd (wdb w))[u - 1 := ?r\<lparr>userlevel := l\<rparr>] else snd (wdb w))"
      if "l = decide ?a (userlevel ?r)" for l ok
      using level_rel_update [OF v(4)] that by simp
    consider "?a = None \<or> ?a = Some (lit ''SKIP'')" | "?a = Some (lit ''DEL'')" | "?a = Some (lit ''APASS'')"
      | "?a = Some (lit ''PASS'')"
      | "?a \<noteq> None" "?a \<noteq> Some (lit ''SKIP'')" "?a \<noteq> Some (lit ''DEL'')" "?a \<noteq> Some (lit ''APASS'')" "?a \<noteq> Some (lit ''PASS'')"
      by blast
    then show ?thesis
    proof cases
      case 1
      then show ?thesis using u(1) assms False by (auto simp: done_form_def Let_def lists_ok_def)
    next
      case 2
      have l: "userlevel ?r AND NOT PERM_DEFAULT = decide ?a (userlevel ?r)" using 2 by (simp only: decide_def) simp
      obtain w' where d: "deny_form e u w = Some w'" "lists_ok w' L"
        "snd (wdb w') = (if writes e then (snd (wdb w))[u - 1 := ?r\<lparr>userlevel := userlevel ?r AND NOT PERM_DEFAULT\<rparr>] else snd (wdb w))"
        using deny_form_level [OF assms v(1-3), of e] by blast
      have "level_rel res (snd (wdb w)) (snd (wdb w'))" unfolding d(3) by (rule up [OF l])
      with d(1,2) show ?thesis using u(1) False 2 by (auto simp: done_form_def Let_def)
    next
      case 3
      have l: "userlevel ?r OR PERM_DEFAULT = decide ?a (userlevel ?r)" using 3 by (simp only: decide_def) simp
      obtain w' where d: "accept_form e auto_clerk (fst (loaduserdata (sc_home e) (wfiles w) (fd ! 1))) fd u w = Some w'" "lists_ok w' L"
        "snd (wdb w') = (if writes e then (snd (wdb w))[u - 1 := ?r\<lparr>userlevel := userlevel ?r OR PERM_DEFAULT\<rparr>] else snd (wdb w))"
        using accept_form_level [OF assms v(1-3), of e] by blast
      have "level_rel res (snd (wdb w)) (snd (wdb w'))" unfolding d(3) by (rule up [OF l])
      with d(1,2) show ?thesis using u(1) False 3 by (auto simp: done_form_def Let_def)
    next
      case 4
      have l: "userlevel ?r OR PERM_DEFAULT = decide ?a (userlevel ?r)" using 4 by (simp only: decide_def) simp
      obtain w' where d: "accept_form e (sc_clerk e) (fst (loaduserdata (sc_home e) (wfiles w) (fd ! 1))) fd u w = Some w'" "lists_ok w' L"
        "snd (wdb w') = (if writes e then (snd (wdb w))[u - 1 := ?r\<lparr>userlevel := userlevel ?r OR PERM_DEFAULT\<rparr>] else snd (wdb w))"
        using accept_form_level [OF assms v(1-3), of e] by blast
      have "level_rel res (snd (wdb w)) (snd (wdb w'))" unfolding d(3) by (rule up [OF l])
      with d(1,2) show ?thesis using u(1) False 4 by (auto simp: done_form_def Let_def)
    next
      case 5
      then show ?thesis using u(1) assms False by (auto simp: done_form_def Let_def)
    qed
  qed
qed

lemma done_loop_levels:
  assumes "lists_ok w L"
  shows "\<exists>w'. done_loop e res fd ls w = Some w' \<and> lists_ok w' L \<and> level_rel res (snd (wdb w)) (snd (wdb w'))"
  using assms
proof (induction ls arbitrary: fd w)
  case (Cons l ls)
  show ?case
  proof (cases "reg_line l fd")
    case None
    obtain fd' w1 where f: "done_form e res fd w = Some (fd', w1)" "lists_ok w1 L" "level_rel res (snd (wdb w)) (snd (wdb w1))"
      using done_form_levels [OF Cons.prems] by blast
    obtain w' where "done_loop e res fd' ls w1 = Some w'" "lists_ok w' L" "level_rel res (snd (wdb w1)) (snd (wdb w'))"
      using Cons.IH [OF f(2)] by blast
    then show ?thesis using None f(1) level_rel_trans [OF f(3)] by simp
  qed (use Cons in simp)
qed simp
section \<open>Lists of whole forms\<close>

lemma strstr_colon: "58 \<notin> set n \<Longrightarrow> strstr (n @ 58 # 32 # t) [58, 32] = Some (length n)"
  by (induction n) auto

lemma reg_line_field:
  assumes "i < 8" "length fd = 8" "length v \<le> 68" "10 \<notin> set v"
  shows "reg_line (field_line (reg_field ! i) v) fd = Some (fd[i := v])"
proof -
  let ?n = "reg_field ! i"
  have n: "?n \<in> set reg_field" using assms(1) by (intro nth_mem) (simp add: reg_field_def)
  have "strstr (field_line ?n v) (lit '': '') = Some (length ?n)"
    using strstr_colon [of ?n "v @ [10]"] reg_field_facts [OF n] by (simp add: field_line_def)
  moreover have "drop (length ?n + 2) (field_line ?n v) = v @ [10]" "take (length ?n) (field_line ?n v) = ?n"
    by (simp_all add: field_line_def)
  moreover have "takeWhile (\<lambda>c. c \<noteq> 10) (strsncpy (v @ [10]) 80) = v"
  proof -
    have "\<And>c. c \<in> set v \<Longrightarrow> c \<noteq> 10" using assms(4) by auto
    then show ?thesis using assms(3) by (simp add: strsncpy_take takeWhile_append2)
  qed
  moreover have "map2 (\<lambda>n old. if ?n = n then v else old) reg_field fd = fd[i := v]"
  proof (rule nth_equalityI)
    have d: "distinct reg_field" "length reg_field = 8" by (simp_all add: reg_field_def)
    fix j assume "j < length (map2 (\<lambda>n old. if ?n = n then v else old) reg_field fd)"
    then show "map2 (\<lambda>n old. if ?n = n then v else old) reg_field fd ! j = fd[i := v] ! j"
      using assms(1,2) d nth_eq_iff_index_eq [OF d(1)] by (auto simp: nth_list_update)
  qed (use assms(2) in \<open>simp add: reg_field_def\<close>)
  ultimately show ?thesis by (simp add: reg_line_def Let_def)
qed

lemma reg_line_dashes: "reg_line dashes fd = None"
  by (simp add: reg_line_def dashes_def)

text \<open>The lines of a form set all its fields, whatever was there before.\<close>

lemma done_loop_lines:
  assumes "form_ok f" "length fd = 8" "i \<le> 8"
  shows "done_loop e res fd (drop i (form_lines f) @ ls) w = done_loop e res (take i fd @ drop i f) ls w"
  using assms(2,3)
proof (induction "8 - i" arbitrary: i fd)
  case 0
  then have "i = 8" by simp
  then show ?case using 0 assms(1) by (simp add: form_lines_def form_ok_def reg_field_def)
next
  case (Suc k)
  then have i: "i < 8" "length f = 8" using assms(1) by (auto simp: form_ok_def)
  have "form_lines f ! i = field_line (reg_field ! i) (f ! i)"
    using i by (simp add: form_lines_def reg_field_def)
  moreover have "length (form_lines f) = 8" using i(2) by (simp add: form_lines_def reg_field_def)
  ultimately have d: "drop i (form_lines f) = field_line (reg_field ! i) (f ! i) # drop (Suc i) (form_lines f)"
    using i(1) Cons_nth_drop_Suc [of i "form_lines f"] by simp
  have "f ! i \<in> set f" using i by simp
  then have r: "reg_line (field_line (reg_field ! i) (f ! i)) fd = Some (fd[i := f ! i])"
    using reg_line_field [OF i(1) Suc.prems(1)] assms(1) by (auto simp: form_ok_def)
  have "take (Suc i) (fd[i := f ! i]) @ drop (Suc i) f = take i fd @ drop i f"
    using i Suc.prems(1) by (simp add: take_Suc_conv_app_nth Cons_nth_drop_Suc)
  then show ?case using Suc.hyps(1) [of "Suc i" "fd[i := f ! i]"] Suc.hyps(2) Suc.prems d r i by simp
qed

lemma done_loop_one:
  assumes "form_ok f" "length fd = 8"
  shows "done_loop e res fd (form_lines f @ dashes # ls) w =
    (case done_form e res f w of None \<Rightarrow> None | Some (fd', w') \<Rightarrow> done_loop e res fd' ls w')"
  using done_loop_lines [OF assms, of 0 e res "dashes # ls" w] by (simp add: reg_line_dashes)

text \<open>A form that names an existing user and his number, and what is decided about a record.\<close>

definition form_user :: "userec list \<Rightarrow> nat set \<Rightarrow> fdata \<Rightarrow> nat \<Rightarrow> bool" where
  "form_user pw L f u \<longleftrightarrow> u \<in> L \<and> f ! 1 = userid (pw ! (u - 1)) \<and> f ! 1 \<noteq> [] \<and> 46 \<notin> set (f ! 1)
     \<and> kickout (pw ! (u - 1)) = 0 \<and> atoi (f ! 0) = int u"

definition judge :: "(cstr \<times> cstr) list \<Rightarrow> userec \<Rightarrow> userec" where
  "judge res r = (if userlevel r AND PERM_LOGINOK \<noteq> 0 then r
     else r\<lparr>userlevel := decide (map_of res (userid r)) (userlevel r)\<rparr>)"

lemma judge_keeps [simp]: "userid (judge res r) = userid r" "kickout (judge res r) = kickout r"
  by (simp_all add: judge_def)

lemma done_form_exact:
  assumes "lists_ok w L" "form_user (snd (wdb w)) L f u" "writes e" "length f = 8"
  shows "\<exists>fd' w'. done_form e res f w = Some (fd', w') \<and> length fd' = 8 \<and> lists_ok w' L
     \<and> snd (wdb w') = (snd (wdb w))[u - 1 := judge res (snd (wdb w) ! (u - 1))]"
proof -
  let ?r = "snd (wdb w) ! (u - 1)"
  let ?a = "map_of res (userid ?r)"
  have f: "u \<in> L" "f ! 1 = userid ?r" "userid ?r \<noteq> []" "46 \<notin> set (f ! 1)" "kickout ?r = 0" "atoi (f ! 0) = int u"
    using assms(2) by (auto simp: form_user_def)
  have inv: "db_inv (wdb w) L" "db.unique (wdb w) L" using assms(1) by (auto simp: lists_ok_def)
  have pos: "0 < u" using db.slot_pos [OF inv(1) f(1)] by simp
  have g: "getuser (wdb w) (f ! 1) = Some u"
    using getuser_found [OF inv f(1), of "f ! 1"] f(2-5) by (simp add: db_name_def)
  show ?thesis
  proof (cases "userlevel ?r AND PERM_LOGINOK = 0")
    case False
    then show ?thesis using g f(6) pos assms(1,4) by (simp add: done_form_def Let_def judge_def)
  next
    case True
    have form: "done_form e res f w =
        (let udata = fst (loaduserdata (sc_home e) (wfiles w) (f ! 1)) in
         if ?a = None \<or> ?a = Some (lit ''SKIP'') then Some (no_data, w\<lparr>wfiles := skip_form e f (wfiles w)\<rparr>)
         else map_option (Pair no_data)
           (if ?a = Some (lit ''DEL'') then deny_form e u w
            else if ?a = Some (lit ''APASS'') then accept_form e auto_clerk udata f u w
            else if ?a = Some (lit ''PASS'') then accept_form e (sc_clerk e) udata f u w
            else Some w))"
      using g f(6) pos True by (simp add: done_form_def Let_def del: lit_Cons)
    have len: "length no_data = 8" by (simp add: no_data_def)
    consider "?a = Some (lit ''DEL'')" | "?a = Some (lit ''PASS'') \<or> ?a = Some (lit ''APASS'')"
      | "?a \<notin> Some ` {lit ''DEL'', lit ''APASS'', lit ''PASS''}"
      by blast
    then show ?thesis
    proof cases
      case 1
      then have j: "judge res ?r = ?r\<lparr>userlevel := userlevel ?r AND NOT PERM_DEFAULT\<rparr>"
        using True by (simp add: judge_def decide_def)
      obtain w' where "deny_form e u w = Some w'" "lists_ok w' L"
        "snd (wdb w') = (snd (wdb w))[u - 1 := ?r\<lparr>userlevel := userlevel ?r AND NOT PERM_DEFAULT\<rparr>]"
        using deny_form_level [OF assms(1) f(1,3,5), of e] assms(3) by auto
      then show ?thesis unfolding form j using 1 len by simp
    next
      case 2
      then have "decide ?a (userlevel ?r) = userlevel ?r OR PERM_DEFAULT" by (elim disjE) (simp_all add: decide_def)
      then have j: "judge res ?r = ?r\<lparr>userlevel := userlevel ?r OR PERM_DEFAULT\<rparr>"
        using True by (simp add: judge_def)
      let ?ud = "fst (loaduserdata (sc_home e) (wfiles w) (f ! 1))"
      define pw where "pw = (snd (wdb w))[u - 1 := ?r\<lparr>userlevel := userlevel ?r OR PERM_DEFAULT\<rparr>]"
      have acc: "\<exists>w'. accept_form e cl ?ud f u w = Some w' \<and> lists_ok w' L \<and> snd (wdb w') = pw" for cl
        using accept_form_level [OF assms(1) f(1,3,5), of e cl ?ud f] assms(3) by (auto simp: pw_def)
      obtain w1 where w1: "accept_form e auto_clerk ?ud f u w = Some w1" "lists_ok w1 L" "snd (wdb w1) = pw"
        using acc by blast
      obtain w2 where w2: "accept_form e (sc_clerk e) ?ud f u w = Some w2" "lists_ok w2 L" "snd (wdb w2) = pw"
        using acc by blast
      show ?thesis unfolding form j pw_def [symmetric] using 2 len w1 w2 by (auto simp: Let_def)
    next
      case 3
      then have "judge res ?r = ?r" by (auto simp: judge_def decide_def)
      then show ?thesis unfolding form using 3 len assms(1) by (auto simp: Let_def lists_ok_def)
    qed
  qed
qed
lemma done_forms:
  assumes "lists_ok w L" "writes e" "\<forall>f \<in> set fs. form_ok f" "list_all2 (form_user (snd (wdb w)) L) fs us"
    "distinct us" "length fd = 8"
  shows "\<exists>w'. done_loop e res fd (concat (map (\<lambda>f. form_lines f @ [dashes]) fs)) w = Some w' \<and> lists_ok w' L
     \<and> length (snd (wdb w')) = length (snd (wdb w))
     \<and> (\<forall>i < length (snd (wdb w)). snd (wdb w') ! i =
          (if Suc i \<in> set us then judge res (snd (wdb w) ! i) else snd (wdb w) ! i))"
  using assms
proof (induction fs arbitrary: us w fd)
  case (Cons f fs)
  then obtain u us' where u: "us = u # us'" "form_user (snd (wdb w)) L f u" "list_all2 (form_user (snd (wdb w)) L) fs us'"
    by (auto simp: list_all2_Cons1)
  have f: "form_ok f" "length f = 8" using Cons.prems(3) by (auto simp: form_ok_def)
  obtain fd' w1 where w1: "done_form e res f w = Some (fd', w1)" "length fd' = 8" "lists_ok w1 L"
    "snd (wdb w1) = (snd (wdb w))[u - 1 := judge res (snd (wdb w) ! (u - 1))]"
    using done_form_exact [OF Cons.prems(1) u(2) Cons.prems(2) f(2)] by blast
  have inL: "0 < v \<and> v \<le> length (snd (wdb w))" if "v \<in> L" for v
    using db.slot_pos [of "wdb w" L v] Cons.prems(1) that by (auto simp: lists_ok_def db_slot_def)
  have up: "0 < u" "u \<le> length (snd (wdb w))" using inL [of u] u(2) by (auto simp: form_user_def)
  have "form_user (snd (wdb w1)) L g v" if "form_user (snd (wdb w)) L g v" "v \<in> set us'" for g v
  proof -
    have "v \<noteq> u" "0 < v" using that Cons.prems(5) u(1) inL [of v] by (auto simp: form_user_def)
    then have "u - 1 \<noteq> v - 1" using up by linarith
    then have "snd (wdb w1) ! (v - 1) = snd (wdb w) ! (v - 1)" using w1(4) by simp
    then show ?thesis using that(1) unfolding form_user_def by metis
  qed
  then have us': "list_all2 (form_user (snd (wdb w1)) L) fs us'"
    using u(3) by (auto simp: list_all2_conv_all_nth)
  obtain w' where w': "done_loop e res fd' (concat (map (\<lambda>f. form_lines f @ [dashes]) fs)) w1 = Some w'" "lists_ok w' L"
    "length (snd (wdb w')) = length (snd (wdb w1))"
    "\<forall>i < length (snd (wdb w1)). snd (wdb w') ! i =
          (if Suc i \<in> set us' then judge res (snd (wdb w1) ! i) else snd (wdb w1) ! i)"
    using Cons.IH [OF w1(3) Cons.prems(2) _ us' _ w1(2)] Cons.prems(3,5) u(1) by auto
  have "snd (wdb w') ! i = (if Suc i \<in> set us then judge res (snd (wdb w) ! i) else snd (wdb w) ! i)"
    if i: "i < length (snd (wdb w))" for i
  proof (cases "Suc i = u")
    case True
    then have "Suc i \<notin> set us'" "i = u - 1" using Cons.prems(5) u(1) by auto
    then show ?thesis using w'(4) w1(4) i True u(1) by simp
  next
    case False
    then have "i \<noteq> u - 1" using up by linarith
    then have "snd (wdb w1) ! i = snd (wdb w) ! i" using w1(4) by simp
    then show ?thesis using w'(4) w1(4) i False u(1) by simp
  qed
  moreover have "done_loop e res fd (concat (map (\<lambda>f. form_lines f @ [dashes]) (f # fs))) w = Some w'"
    using done_loop_one [OF f(1) Cons.prems(6), of e res "concat (map (\<lambda>f. form_lines f @ [dashes]) fs)" w] w1(1) w'(1)
    by simp
  ultimately show ?case using w' w1(4) by auto
qed simp

lemma file_lines_short:
  "\<forall>l \<in> set ls. \<exists>s. l = s @ [10] \<and> 10 \<notin> set s \<and> 0 \<notin> set s \<and> Suc (length s) < n \<Longrightarrow>
   file_lines n (concat ls @ m) = ls @ file_lines n m"
  by (induction ls) (auto simp: file_lines_line)

lemma form_lines_80:
  assumes "\<forall>f \<in> set fs. form_ok f"
  shows "file_lines 80 (concat (map form_text fs)) = concat (map (\<lambda>f. form_lines f @ [dashes]) fs)"
  using assms
proof (induction fs)
  case (Cons f fs)
  have "\<exists>s. l = s @ [10] \<and> 10 \<notin> set s \<and> 0 \<notin> set s \<and> Suc (length s) < 80" if "l \<in> set (form_lines f @ [dashes])" for l
  proof (cases "l = dashes")
    case False
    then have "l \<in> set (form_lines f)" using that by simp
    then obtain n v where l: "l = field_line n v" "n \<in> set reg_field" "v \<in> set f"
      using form_line [of f l] Cons.prems by auto
    then show ?thesis using reg_field_facts [OF l(2)] Cons.prems
      by (intro exI [of _ "n @ lit '': '' @ v"]) (auto simp: field_line_def form_ok_def)
  qed (intro exI [of _ "lit ''----''"], simp add: dashes_def)
  then have "file_lines 80 (concat (form_lines f @ [dashes]) @ concat (map form_text fs))
      = (form_lines f @ [dashes]) @ file_lines 80 (concat (map form_text fs))"
    by (intro file_lines_short) blast
  moreover have "concat (map form_text (f # fs)) = concat (form_lines f @ [dashes]) @ concat (map form_text fs)"
    by (simp add: form_text_def form_lines_def)
  ultimately show ?case using Cons by simp
qed simp

text \<open>The name of a list passes the check of the page.\<close>

lemma strstr_dots_skip: "46 \<notin> set a \<Longrightarrow> strstr (a @ s) [46, 46] = map_option ((+) (length a)) (strstr s [46, 46])"
  by (induction a; cases "strstr s [46, 46]") auto

lemma list_name_fine:
  assumes "uid \<noteq> []" "46 \<notin> set uid" "47 \<notin> set uid" "0 \<le> t"
  shows "strstr (list_name uid t) (lit ''..'') = None \<and> 47 \<notin> set (list_name uid t) \<and> strneq 2 (list_name uid t) (lit ''R.'')"
proof -
  have d: "\<forall>c \<in> set (dec t). isdigit c" "dec t \<noteq> []"
    using assms(4) dec_nat_digits [of "nat t"] dec_nat_ne [of "nat t"] by (auto simp: dec_def)
  then have n: "46 \<notin> set (dec t)" "47 \<notin> set (dec t)" by (auto simp: isdigit_def)
  have dot: "strstr (46 # s) [46, 46] = map_option Suc (strstr s [46, 46])" if "s \<noteq> []" "46 \<notin> set (take 1 s)" for s
    using that by (cases s) auto
  have u: "strstr uid [46, 46] = None"
    using strstr_dots_skip [OF assms(2), of "[]"] by simp
  have "strstr (46 # uid) [46, 46] = None"
    using dot [OF assms(1)] u assms(2) by (cases uid) auto
  then have "strstr (dec t @ 46 # uid) [46, 46] = None" using strstr_dots_skip [OF n(1)] by simp
  moreover have "46 \<notin> set (take 1 (dec t @ 46 # uid))" using n(1) d(2) by (cases "dec t") auto
  ultimately have "strstr (46 # dec t @ 46 # uid) [46, 46] = None" using dot [of "dec t @ 46 # uid"] by simp
  then have "strstr (82 # 46 # dec t @ 46 # uid) [46, 46] = None" by simp
  then show ?thesis using n(2) assms(3) by (auto simp: list_name_def strneq_def)
qed
section \<open>Forms the pages do not expect\<close>

text \<open>
  The registration page does not look for line ends in the telephone number, the department and the school.
  What is filled in there can hold the rest of a form and another form for any user.
\<close>

lemma two_forms_in_one:
  assumes "length f = 8" "length g = 8"
  shows "form_text (f[5 := x @ [10] @ field_line (lit ''assoc'') [] @ field_line (lit ''rereg'') (lit ''0'') @ dashes
           @ concat (map2 field_line (take 5 reg_field) g) @ lit ''phone: '' @ y])
       = form_text (f[5 := x, 6 := [], 7 := lit ''0'']) @ form_text (take 5 g @ [y, f ! 6, f ! 7])"
proof -
  have "8 = Suc (Suc (Suc (Suc (Suc (Suc (Suc (Suc 0)))))))" by simp
  with assms obtain a0 a1 a2 a3 a4 a5 a6 a7 b0 b1 b2 b3 b4 b5 b6 b7 where
    "f = [a0, a1, a2, a3, a4, a5, a6, a7]" "g = [b0, b1, b2, b3, b4, b5, b6, b7]"
    by (auto simp: length_Suc_conv)
  then show ?thesis by (simp add: form_text_def reg_field_def field_line_def)
qed

text \<open>
  An address of more than 73 bytes, as the terminal front end takes it, does not fit into the buffer of 80: the
  rest is read as a line of its own, and without a colon in it, it ends the form before its last fields.
\<close>

lemma long_address:
  assumes "73 < length v" "length v < 150" "0 \<notin> set v" "10 \<notin> set v"
  shows "file_lines 80 (field_line (lit ''addr'') v @ m)
     = (lit ''addr: '' @ take 73 v) # (drop 73 v @ [10]) # file_lines 80 m"
proof -
  let ?a = "lit ''addr: '' @ take 73 v"
  have a: "10 \<notin> set ?a" "0 \<notin> set ?a" "length ?a = 79" using assms by (auto dest: in_set_takeD)
  have t: "field_line (lit ''addr'') v @ m = ?a @ drop 73 v @ 10 # m" by (simp add: field_line_def)
  have "line_take 79 (?a @ drop 73 v @ 10 # m) = (?a, drop 73 v @ 10 # m)"
    using line_take_full [OF a(1)] a(3) by metis
  then have "fgets 80 (?a @ drop 73 v @ 10 # m) = Some (?a, drop 73 v @ 10 # m)" by (simp add: fgets_def)
  then have "file_lines 80 (?a @ drop 73 v @ 10 # m) = zstr ?a # file_lines 80 (drop 73 v @ 10 # m)"
    by (subst file_lines.simps) simp
  moreover have "file_lines 80 (drop 73 v @ 10 # m) = (drop 73 v @ [10]) # file_lines 80 m"
    using assms by (intro file_lines_line) (auto dest: in_set_dropD)
  ultimately show ?thesis unfolding t using zstr_id [OF a(2)] by simp
qed

text \<open>A form of a confirmed user leaves its fields: a second form without a number is taken for the same user.\<close>

lemma confirmed_keeps_fields:
  assumes "getuser (wdb w) (fd ! 1) = Some u" "0 < u" "atoi (fd ! 0) = int u"
    "userlevel (snd (wdb w) ! (u - 1)) AND PERM_LOGINOK \<noteq> 0"
  shows "done_form e res fd w = Some (fd, w)"
  using assms by (simp add: done_form_def Let_def)

section \<open>Properties\<close>


text \<open>One form of the user of the sample file, and the answer PASS to it.\<close>

definition form2 :: fdata where
  "form2 = new_form 1 (lit ''Mon'') (lit ''SYSOP'') (lit ''Li'') (lit ''EE'') (lit ''Xian'') (lit ''1'') []"

definition answers2 :: "cstr \<Rightarrow> parms" where
  "answers2 f = [Value (lit ''F'') f, Value (lit ''result0'') (lit ''PASS''), Value (lit ''userid0'') (lit ''SYSOP'')]"

definition env2 :: scan_env where
  "env2 = \<lparr>sc_io = \<lparr>open_ok = True, seek_ok = True, write_ok = True\<rparr>, sc_home = lit ''/bbs'', sc_clerk = lit ''sysop'',
     sc_now = 6, sc_date = lit ''Mon'', sc_skip_create = True, sc_skip_open = True, sc_data_open = True,
     sc_flag_open = True, sc_reg_open = True\<rparr>"

lemma dec_1: "dec 1 = [49]"
  by (simp add: dec_def dec_nat.simps)

lemma form2_ok: "form_ok form2"
  by (simp add: form2_def new_form_def form_ok_def dec_1)

lemma form2_user: "form_user sample_pw {1..3} form2 1"
  by (simp add: form_user_def form2_def new_form_def dec_1 sample_pw_def zero_userec_def atoi_def isdigit_def)

lemma reg_answers_none:
  "\<forall>i \<in> set is. reg_answer reasons ps i = Some None \<Longrightarrow> reg_answers reasons ps is = Some []"
  by (induction "is") auto

lemma strcaseeq_head: "strcaseeq (c # s) (d # t) \<longleftrightarrow> tolower c = tolower d \<and> strcaseeq s t"
  by (simp add: strcaseeq_def)

lemma strcaseeq_dec: "strcaseeq [48] (dec (int i)) \<longleftrightarrow> i = 0"
proof
  assume a: "strcaseeq [48] (dec (int i))"
  have "\<forall>c \<in> set (dec (int i)). tolower c = c"
    using dec_nat_digits [of i] by (fastforce simp: dec_def tolower_def isupper_def isdigit_def word_le_nat_alt)
  then have "dec (int i) = map tolower (dec (int i))" by (simp add: map_idI)
  also have "\<dots> = map tolower [48]" using a by (simp add: strcaseeq_def)
  also have "\<dots> = dec_nat 0" by (simp add: tolower_def isupper_def dec_nat.simps)
  finally show "i = 0" by (simp add: dec_def dec_nat_inj)
qed (simp add: dec_def dec_nat.simps)

lemma answers2_parms:
  "getparm (answers2 f) (lit ''F'') = Some f"
  "getparm (answers2 f) (lit ''apsofresult'' @ dec (int i)) = Some []"
  "getparm (answers2 f) (lit ''psofresult'' @ dec (int i)) = Some []"
  "getparm (answers2 f) (lit ''result'' @ dec (int i)) = Some (if i = 0 then lit ''PASS'' else [])"
  "getparm (answers2 f) (lit ''userid'' @ dec (int i)) = Some (if i = 0 then lit ''SYSOP'' else [])"
  by (simp_all add: getparm_def find_parm_def answers2_def strcaseeq_head tolower_def isupper_def strcaseeq_dec)

lemma answers2_list: "reg_answers reasons (answers2 f) [0..<60] = Some [(lit ''SYSOP'', lit ''PASS'')]"
proof -
  have a: "reg_answer reasons (answers2 f) i = Some (if i = 0 then Some (lit ''PASS'') else None)" for i
    by (simp add: reg_answer_def answers2_parms isdigit_def del: lit_Cons) simp
  have "[0..<60] = 0 # [1..<60]" by (simp add: upt_rec)
  moreover have "reg_answers reasons (answers2 f) [1..<60] = Some []" using a by (intro reg_answers_none) simp
  ultimately show ?thesis using a [of 0] answers2_parms(5) [of f 0] by simp
qed



end
