(* ===== verification/Deltree.thy ===== *)
theory Deltree
  imports StrOp FileOp
begin

text \<open>
  Removing a file or directory by moving it aside, \<open>deltree\<close> in \<open>src/libythtbbs/misc.c\<close>.  The tree of
  files maps real absolute paths, without a slash at the end, to what is there; the root is the empty path.
\<close>

section \<open>The tree and the system calls\<close>

datatype node = Dir | Plain "byte list" | Link

type_synonym tree = "cstr \<Rightarrow> node option"

definition parent :: "cstr \<Rightarrow> cstr" where
  "parent p = (case strrchr p 47 of None \<Rightarrow> [] | Some i \<Rightarrow> take i p)"

text \<open>\<open>mkdir\<close> and \<open>open\<close> with \<open>O_CREAT | O_EXCL\<close>: the name must be free and its directory must be there.\<close>

definition can_make :: "tree \<Rightarrow> cstr \<Rightarrow> bool" where
  "can_make t p \<longleftrightarrow> t p = None \<and> 47 \<in> set p \<and> t (parent p) = Some Dir"

definition under :: "cstr \<Rightarrow> cstr \<Rightarrow> bool" where
  "under p q \<longleftrightarrow> take (length p) q = p \<and> (length q = length p \<or> q ! length p = 47)"

text \<open>\<open>rename\<close> of \<open>p\<close> to the empty place \<open>j\<close>; a directory cannot be moved below itself.\<close>

definition rename_tree :: "bool \<Rightarrow> tree \<Rightarrow> cstr \<Rightarrow> cstr \<Rightarrow> tree" where
  "rename_tree ok t p j =
     (if \<not> ok \<or> under p j \<or> t p = None then t
      else (\<lambda>q. if under j q then t (p @ drop (length j) q) else if under p q then None else t q))"

section \<open>The operation\<close>

definition PATH_MAX :: nat where "PATH_MAX = 4096"

text \<open>
  The environment: \<open>realpath\<close>, the path of the entry itself when the last name is not followed, the home of
  the system, and whether \<open>rename\<close> is allowed.
\<close>

record del_env =
  rpath_of :: "cstr \<Rightarrow> cstr option"
  entry_of :: "cstr \<Rightarrow> cstr"
  del_home :: cstr
  move_ok :: bool

definition disks :: "cstr \<Rightarrow> cstr list" where
  "disks home = map (\<lambda>s. home @ s) [lit ''/home/'', lit ''/0Announce/'', lit ''/boards/'', lit ''/mail/'', lit ''/'']"

definition no_slash :: "cstr \<Rightarrow> cstr" where
  "no_slash p = (if p \<noteq> [] \<and> last p = 47 then butlast p else p)"

definition with_slash :: "cstr \<Rightarrow> cstr" where
  "with_slash p = (if p \<noteq> [] \<and> last p = 47 then p else p @ [47])"

text \<open>The first disk the path lies on; \<open>None\<close> also when a disk before it has no real path.\<close>

fun find_disk :: "del_env \<Rightarrow> cstr \<Rightarrow> cstr list \<Rightarrow> cstr option" where
  "find_disk e p [] = None"
| "find_disk e p (d # ds) =
     (case rpath_of e d of
        None \<Rightarrow> None
      | Some r \<Rightarrow> if take (length (with_slash r)) p = with_slash r then Some (with_slash r) else find_disk e p ds)"

text \<open>The search for a free name, \<open>base\<close> with a plus sign and a number; the name made and the number reached.\<close>

function junk_name :: "tree \<Rightarrow> cstr \<Rightarrow> cstr \<Rightarrow> nat \<Rightarrow> cstr option \<times> nat" where
  "junk_name t base nm i =
     (if can_make t nm then (Some nm, i)
      else if i < 1000 then junk_name t base (base @ lit ''+'' @ dec (int i)) (i + 1)
      else (None, i))"
  by pat_completeness auto
termination by (relation "measure (\<lambda>(t, b, n, i). 1000 - i)") auto

declare junk_name.simps [simp del]

definition junk_base :: "cstr \<Rightarrow> cstr \<Rightarrow> cstr" where
  "junk_base d p = take (PATH_MAX - 10) (d @ lit ''.junk/'' @ normalize (drop (length d) p))"

text \<open>
  \<open>deltree\<close>.  The last number counts as a failure even when its name could be made; a rename that fails does
  not.
\<close>

definition deltree :: "del_env \<Rightarrow> tree \<Rightarrow> cstr \<Rightarrow> tree \<times> int" where
  "deltree e t dst =
     (case rpath_of e dst of
        None \<Rightarrow> (t, - 1)
      | Some r \<Rightarrow>
          let p = no_slash r in
          case find_disk e p (disks (del_home e)) of
            None \<Rightarrow> (t, - 1)
          | Some d \<Rightarrow>
              if t (entry_of e dst) = Some Link then (t(entry_of e dst := None), 0)
              else let base = junk_base d p;
                       (nm, i) = junk_name t base base 0;
                       t1 = (case nm of None \<Rightarrow> t
                             | Some j \<Rightarrow> t(j \<mapsto> (if t p = Some Dir then Dir else Plain [])))
                   in if i = 1000 then (t1, - 1)
                      else (case nm of
                              None \<Rightarrow> (t1, - 1)
                            | Some j \<Rightarrow>
                                let t2 = rename_tree (move_ok e) t1 p j
                                in (if t2 j = Some Link then t2(j := None) else t2, 0)))"
section \<open>Facts\<close>

lemma under_iff: "under p q \<longleftrightarrow> q = p \<or> (\<exists>s. q = p @ 47 # s)"
proof
  assume u: "under p q"
  show "q = p \<or> (\<exists>s. q = p @ 47 # s)"
  proof (cases "length q = length p")
    case False
    have "length p \<le> length q" using u by (metis length_take min.cobounded1 min.commute under_def)
    with False have l: "length p < length q" by simp
    then have "q = p @ q ! length p # drop (Suc (length p)) q"
      using u by (metis append_take_drop_id Cons_nth_drop_Suc under_def)
    then show ?thesis using u False unfolding under_def by metis
  qed (use u in \<open>simp add: under_def\<close>)
qed (auto simp: under_def)

lemma under_refl [simp]: "under p p"
  by (simp add: under_iff)

lemma under_drop: "under j q \<Longrightarrow> q = j @ drop (length j) q"
  by (auto simp: under_iff)

lemma under_step: "47 \<notin> set n \<Longrightarrow> under p (a @ 47 # n) \<Longrightarrow> p = a @ 47 # n \<or> under p a"
proof -
  assume n: "47 \<notin> set n" and u: "under p (a @ 47 # n)"
  show ?thesis
  proof (cases "p = a @ 47 # n")
    case False
    then obtain s where s: "a @ 47 # n = p @ 47 # s" using u by (auto simp: under_iff)
    then show ?thesis using n by (auto simp: under_iff append_eq_append_conv2 Cons_eq_append_conv) (metis append_eq_Cons_conv)
  qed simp
qed

definition wf_tree :: "tree \<Rightarrow> bool" where
  "wf_tree t \<longleftrightarrow> (\<forall>q s. t (q @ 47 # s) \<noteq> None \<longrightarrow> t q = Some Dir)"

lemma wf_treeD: "wf_tree t \<Longrightarrow> t (q @ 47 # s) \<noteq> None \<Longrightarrow> t q = Some Dir"
  unfolding wf_tree_def by blast

lemma wf_remove:
  assumes "wf_tree t" "t q \<noteq> Some Dir"
  shows "wf_tree (t(q := None))"
  unfolding wf_tree_def using assms wf_treeD [OF assms(1)]
  by (metis (no_types, opaque_lifting) fun_upd_apply)

lemma parent_split: "47 \<in> set p \<Longrightarrow> \<exists>n. p = parent p @ 47 # n \<and> 47 \<notin> set n"
proof (induction p rule: rev_induct)
  case (snoc x xs)
  show ?case
  proof (cases "x = 47")
    case True
    then have "parent (xs @ [x]) = xs" using strrchr_split [of 47 "[]" xs] by (simp add: parent_def)
    then show ?thesis using True by simp
  next
    case False
    define a where "a = parent xs"
    obtain n where n: "xs = a @ 47 # n" "47 \<notin> set n" using snoc False by (auto simp: a_def)
    have "strrchr (a @ 47 # n @ [x]) 47 = Some (length a)" using strrchr_split [of 47 "n @ [x]" a] n(2) False by simp
    then have "parent (xs @ [x]) = a" unfolding n(1) by (simp add: parent_def)
    then show ?thesis using n False by (intro exI [of _ "n @ [x]"]) simp
  qed
qed simp

lemma wf_make:
  assumes "wf_tree t" "can_make t j"
  shows "wf_tree (t(j \<mapsto> n))"
  unfolding wf_tree_def
proof (intro allI impI)
  fix q s assume a: "(t(j \<mapsto> n)) (q @ 47 # s) \<noteq> None"
  have j: "t j = None" "47 \<in> set j" "t (parent j) = Some Dir" using assms(2) by (auto simp: can_make_def)
  have q: "t q = Some Dir"
  proof (cases "q @ 47 # s = j")
    case True
    obtain m where m: "j = parent j @ 47 # m" "47 \<notin> set m" using parent_split [OF j(2)] by blast
    have "under q j" using True by (auto simp: under_iff)
    then have "q = j \<or> under q (parent j)" using under_step [OF m(2), of q "parent j"] m(1) by metis
    moreover have "q \<noteq> j" using True by auto
    ultimately have "under q (parent j)" by blast
    then show ?thesis using j(3) wf_treeD [OF assms(1), of q] unfolding under_iff by fastforce
  next
    case False
    then show ?thesis using a wf_treeD [OF assms(1)] by simp
  qed
  then show "(t(j \<mapsto> n)) q = Some Dir" using j(1) by auto
qed

lemma wf_rename:
  assumes "wf_tree t" "t j \<noteq> None" "\<And>s. t (j @ 47 # s) = None"
  shows "wf_tree (rename_tree ok t p j)"
proof (cases "\<not> ok \<or> under p j \<or> t p = None")
  case False
  define t' where "t' = rename_tree ok t p j"
  have t': "t' q = (if under j q then t (p @ drop (length j) q) else if under p q then None else t q)" for q
    using False by (auto simp: t'_def rename_tree_def)
  have "t' q = Some Dir" if a: "t' (q @ 47 # s) \<noteq> None" for q s
  proof (cases "under j q")
    case True
    then have q: "q = j @ drop (length j) q" by (rule under_drop)
    then have "under j (q @ 47 # s)" using True by (auto simp: under_iff)
    moreover have "drop (length j) (q @ 47 # s) = drop (length j) q @ 47 # s"
      using q by (metis append_assoc append_eq_conv_conj)
    ultimately have "t (p @ drop (length j) q @ 47 # s) \<noteq> None" using a t' by metis
    then have "t (p @ drop (length j) q) = Some Dir" using wf_treeD [OF assms(1), of "p @ drop (length j) q" s] by simp
    then show ?thesis using True t' by simp
  next
    case nq: False
    show ?thesis
    proof (cases "under j (q @ 47 # s)")
      case True
      then have "q @ 47 # s = j \<or> (\<exists>r. q @ 47 # s = j @ 47 # r)" by (simp add: under_iff)
      then have "\<exists>r. j = q @ 47 # r"
        using nq by (auto simp: under_iff append_eq_append_conv2 Cons_eq_append_conv) (metis append_eq_Cons_conv)
      then obtain r where r: "j = q @ 47 # r" by blast
      then have "t q = Some Dir" using assms(2) wf_treeD [OF assms(1)] by blast
      moreover have "\<not> under p q" using False r by (auto simp: under_iff)
      ultimately show ?thesis using t' nq by simp
    next
      case nu: False
      then have n: "\<not> under p (q @ 47 # s)" "t (q @ 47 # s) \<noteq> None" using a t' [of "q @ 47 # s"] by (auto split: if_splits)
      then have "\<not> under p q" by (auto simp: under_iff)
      then show ?thesis using n(2) wf_treeD [OF assms(1)] t' nq by simp
    qed
  qed
  then show ?thesis by (simp add: wf_tree_def t'_def)
qed (use assms(1) in \<open>simp add: rename_tree_def\<close>)

lemma junk_name_result:
  "junk_name t base nm i = (Some j, k) \<Longrightarrow> can_make t j \<and> (j = nm \<or> (\<exists>n. j = base @ lit ''+'' @ dec (int n)))"
  by (induction t base nm i rule: junk_name.induct) (subst (asm) (2) junk_name.simps, auto split: if_splits)
lemma under_both:
  assumes "under a q" "under b q"
  shows "under a b \<or> under b a"
proof -
  have le: "under x y" if "length x \<le> length y" "under x q" "under y q" for x y
  proof -
    have t: "take (length x) q = x" "take (length y) q = y" using that(2,3) by (simp_all add: under_def)
    have "take (length x) y = x" using t that(1) by (metis min.absorb1 take_take)
    moreover have "length y = length x \<or> y ! length x = 47"
    proof (cases "length y = length x")
      case False
      then have l: "length x < length y" using that(1) by simp
      have "length y \<le> length q" using t(2) by (metis length_take min.cobounded1 min.commute)
      then have "q ! length x = 47" using l that(2) by (auto simp: under_def)
      moreover have "y ! length x = q ! length x" using t(2) l by (metis nth_take)
      ultimately show ?thesis by simp
    qed simp
    ultimately show ?thesis by (simp add: under_def)
  qed
  show ?thesis using le [of a b] le [of b a] assms by linarith
qed

section \<open>Properties\<close>



lemma find_disk_prefix: "find_disk e p ds = Some d \<Longrightarrow> take (length d) p = d \<and> d \<noteq> [] \<and> last d = 47"
  by (induction e p ds rule: find_disk.induct) (auto simp: with_slash_def split: option.splits if_splits)

lemma prefix_under: "take (length d) p = d \<Longrightarrow> under p q \<Longrightarrow> take (length d) q = d"
proof -
  assume a: "take (length d) p = d" "under p q"
  then have "length d \<le> length p" by (metis length_take min.cobounded1 min.commute)
  moreover obtain s where "q = p @ s" using a(2) by (auto simp: under_iff)
  ultimately show ?thesis using a(1) by simp
qed

lemma junk_below:
  assumes "junk_name t (junk_base d p) (junk_base d p) 0 = (Some j, i)" "length d + 6 \<le> PATH_MAX - 10"
  shows "\<exists>n. j = d @ lit ''.junk'' @ 47 # n \<and> 47 \<notin> set n"
proof -
  let ?n = "take (PATH_MAX - 10 - length d - 6) (normalize (drop (length d) p))"
  have b: "junk_base d p = d @ lit ''.junk'' @ 47 # ?n"
  proof -
    define x where "x = PATH_MAX - 10 - length d - 6"
    have x: "PATH_MAX - 10 - length d = 6 + x" using assms(2) by (simp add: x_def)
    have "take (6 + x) (lit ''.junk/'' @ y) = lit ''.junk/'' @ take x y" for y
      using take_append [of "6 + x" "lit ''.junk/''" y] by (simp del: lit_Cons)
    then have "take (PATH_MAX - 10 - length d) (lit ''.junk/'' @ y) = lit ''.junk/'' @ take x y" for y unfolding x .
    moreover have "junk_base d p = take (PATH_MAX - 10) d
        @ take (PATH_MAX - 10 - length d) (lit ''.junk/'' @ normalize (drop (length d) p))"
      by (simp only: junk_base_def take_append)
    moreover have "take (PATH_MAX - 10) d = d" using assms(2) by simp
    ultimately have "junk_base d p = d @ lit ''.junk/'' @ take x (normalize (drop (length d) p))" by simp
    then show ?thesis unfolding x_def by simp
  qed
  have n: "47 \<notin> set ?n" using set_take_subset by (fastforce simp: normalize_def)
  have x: "47 \<notin> set (dec (int k))" for k using dec_nat_digits [of k] by (auto simp: dec_def isdigit_def)
  consider "j = junk_base d p" | k where "j = junk_base d p @ lit ''+'' @ dec (int k)"
    using junk_name_result [OF assms(1)] by blast
  then show ?thesis
  proof cases
    case 1
    then show ?thesis using b n by (intro exI [of _ ?n]) simp
  next
    case (2 k)
    then show ?thesis using b n x [of k] by (intro exI [of _ "?n @ lit ''+'' @ dec (int k)"]) simp
  qed
qed

text \<open>
  C36: \<open>deltree\<close> changes nothing outside the disk of the file, apart from a symbolic link that it was given and
  that leads there.  When it reports success for a file or directory that lies below none of its own junk
  directories, nothing is lost: the whole tree is found again, unchanged, under a name in the junk directory of
  the disk that nothing had before.
\<close>

theorem deltree_moves:
  assumes "wf_tree t" "rpath_of e dst = Some r" "find_disk e (no_slash r) (disks (del_home e)) = Some d"
    "length d + 6 \<le> PATH_MAX - 10" "deltree e t dst = (t', k)"
  shows "(\<forall>q. t' q \<noteq> t q \<longrightarrow> take (length d) q = d \<or> q = entry_of e dst \<and> t q = Some Link)
    \<and> (k = 0 \<and> move_ok e \<and> t (entry_of e dst) \<noteq> Some Link \<and> t (no_slash r) = Some nd \<and> nd \<noteq> Link
         \<and> \<not> under (no_slash r) (d @ lit ''.junk'') \<longrightarrow>
       (\<exists>n. let j = d @ lit ''.junk'' @ 47 # n in 47 \<notin> set n \<and> t j = None
          \<and> (\<forall>s. s = [] \<or> hd s = 47 \<longrightarrow> t' (j @ s) = t (no_slash r @ s) \<and> t' (no_slash r @ s) = None)))"
proof -
  let ?p = "no_slash r" and ?b = "junk_base d (no_slash r)"
  have dp: "take (length d) ?p = d" using find_disk_prefix [OF assms(3)] by simp
  show ?thesis
  proof (cases "t (entry_of e dst) = Some Link")
    case True
    then have "t' = t(entry_of e dst := None)" using assms(2,3,5) by (simp add: deltree_def Let_def)
    then show ?thesis using True by auto
  next
    case nl: False
    obtain nm i where n: "junk_name t ?b ?b 0 = (nm, i)" by fastforce
    show ?thesis
    proof (cases nm)
      case None
      then have "t' = t \<and> k = - 1" using assms(2,3,5) nl n by (auto simp: deltree_def Let_def split: if_splits)
      then show ?thesis by simp
    next
      case (Some j)
      let ?t1 = "t(j \<mapsto> (if t ?p = Some Dir then Dir else Plain []))"
      let ?t2 = "rename_tree (move_ok e) ?t1 ?p j"
      have "can_make t j" using junk_name_result [of t ?b ?b 0 j i] n Some by simp
      then have tj: "t j = None" by (simp add: can_make_def)
      have below: "t (j @ 47 # s) = None" for s using wf_treeD [OF assms(1), of j s] tj by (cases "t (j @ 47 # s)") auto
      obtain m where m: "j = d @ lit ''.junk'' @ 47 # m" "47 \<notin> set m"
        using junk_below [of t d ?p j i] n Some assms(4) by blast
      have t': "t' = (if i = 1000 then ?t1 else if ?t2 j = Some Link then ?t2(j := None) else ?t2)"
        "k = (if i = 1000 then - 1 else 0)"
        using assms(2,3,5) nl n Some by (simp_all add: deltree_def Let_def split: if_splits)
      have dj: "take (length d) j = d" using m(1) by simp
      have ch: "take (length d) q = d" if "?t1 q \<noteq> t q \<or> ?t2 q \<noteq> t q" for q
      proof -
        have "q = j \<or> under j q \<or> under ?p q"
          using that by (auto simp: rename_tree_def split: if_splits)
        then show ?thesis using dj prefix_under [OF dj] prefix_under [OF dp] by auto
      qed
      have one: "\<forall>q. t' q \<noteq> t q \<longrightarrow> take (length d) q = d"
      proof (intro allI impI)
        fix q assume "t' q \<noteq> t q"
        then have "?t1 q \<noteq> t q \<or> ?t2 q \<noteq> t q \<or> q = j" using t'(1) by (auto split: if_splits)
        then show "take (length d) q = d" using ch [of q] dj by blast
      qed
      have two: "t' (j @ s) = t (?p @ s) \<and> t' (?p @ s) = None"
        if h: "k = 0" "move_ok e" "t ?p = Some nd" "nd \<noteq> Link" "\<not> under ?p (d @ lit ''.junk'')" "s = [] \<or> hd s = 47" for s
      proof -
        have pj: "?p \<noteq> j" using h(3) tj by auto
        have np: "\<not> under ?p j"
          using under_step [OF m(2), of ?p "d @ lit ''.junk''"] h(5) pj m(1) by auto
        have un: "under a (a @ s)" for a using h(6) by (cases s) (auto simp: under_iff)
        have jp: "\<not> under j ?p" using below h(3) pj by (auto simp: under_iff)
        have t2: "?t2 q = (if under j q then ?t1 (?p @ drop (length j) q) else if under ?p q then None else t q)" for q
          using h(2,3) np pj by (auto simp: rename_tree_def)
        have nj: "?p @ s \<noteq> j" using np un by metis
        have "?t2 (j @ s) = t (?p @ s)" using t2 [of "j @ s"] un nj by simp
        moreover have "\<not> under j (?p @ s)" using under_both [OF un] np jp by blast
        then have "?t2 (?p @ s) = None" using t2 [of "?p @ s"] un by simp
        moreover have "?t2 j = Some nd" using t2 [of j] h(3) pj by simp
        then have "t' = ?t2" using t' h(1,4) by (auto split: if_splits)
        ultimately show ?thesis by simp
      qed
      show ?thesis using one two m tj nl by (metis (no_types, lifting))
    qed
  qed
qed
definition tree0 :: tree where
  "tree0 = [[] \<mapsto> Dir, lit ''/b'' \<mapsto> Dir, lit ''/b/.junk'' \<mapsto> Dir, lit ''/b/x'' \<mapsto> Plain [1]]"

definition del_env0 :: del_env where
  "del_env0 = \<lparr>rpath_of = Some, entry_of = (\<lambda>p. p), del_home = lit ''/b'', move_ok = True\<rparr>"

lemma tree0_wf: "wf_tree tree0"
  unfolding wf_tree_def
proof (intro allI impI)
  fix q s assume "tree0 (q @ 47 # s) \<noteq> None"
  then show "tree0 q = Some Dir"
    by (auto simp: tree0_def append_eq_Cons_conv split: if_splits)
qed

lemma deltree_moves_witness:
  "\<exists>t' n. deltree del_env0 tree0 (lit ''/b/x'') = (t', 0) \<and> t' (lit ''/b/x'') = None
     \<and> t' (lit ''/b/.junk/'' @ n) = Some (Plain [1])"
proof -
  have d: "find_disk del_env0 (no_slash (lit ''/b/x'')) (disks (del_home del_env0)) = Some (lit ''/b/'')"
    by (simp add: del_env0_def disks_def no_slash_def with_slash_def)
  have b: "junk_base (lit ''/b/'') (lit ''/b/x'') = lit ''/b/.junk/x''"
    by (simp add: junk_base_def PATH_MAX_def normalize_def)
  have "can_make tree0 (lit ''/b/.junk/x'')" by (simp add: can_make_def parent_def tree0_def)
  then have nm: "junk_name tree0 (lit ''/b/.junk/x'') (lit ''/b/.junk/x'') 0 = (Some (lit ''/b/.junk/x''), 0)"
    by (subst junk_name.simps) (simp del: lit_Cons)
  have p: "no_slash (lit ''/b/x'') = lit ''/b/x''" by (simp add: no_slash_def)
  have x: "tree0 (lit ''/b/x'') = Some (Plain [1])" by (simp add: tree0_def)
  obtain t' where t': "deltree del_env0 tree0 (lit ''/b/x'') = (t', 0)"
    using d b nm p x by (simp add: deltree_def Let_def del_env0_def del: lit_Cons)
  have h: "rpath_of del_env0 (lit ''/b/x'') = Some (lit ''/b/x'')" "length (lit ''/b/'') + 6 \<le> PATH_MAX - 10"
    "move_ok del_env0" "entry_of del_env0 (lit ''/b/x'') = lit ''/b/x''" "\<not> under (lit ''/b/x'') (lit ''/b/'' @ lit ''.junk'')"
    by (simp_all add: del_env0_def PATH_MAX_def under_def)
  obtain n where "\<forall>s. s = [] \<or> hd s = 47 \<longrightarrow> t' ((lit ''/b/'' @ lit ''.junk'' @ 47 # n) @ s) = tree0 (lit ''/b/x'' @ s)
      \<and> t' (lit ''/b/x'' @ s) = None"
    using deltree_moves [OF tree0_wf h(1) d h(2) t', of "Plain [1]"] h(3-5) x unfolding p
    by (auto simp: Let_def simp del: lit_Cons)
  then have "t' (lit ''/b/'' @ lit ''.junk'' @ 47 # n) = Some (Plain [1])" "t' (lit ''/b/x'') = None"
    using x by (metis append_Nil2)+
  then show ?thesis using t' by (intro exI [of _ t'] exI [of _ n]) simp
qed

text \<open>Success is also reported when the file could not be moved: an empty one is left in the junk directory.\<close>

lemma deltree_rename_failed:
  assumes "\<not> move_ok e" "rpath_of e dst = Some r" "find_disk e (no_slash r) (disks (del_home e)) = Some d"
    "t (entry_of e dst) \<noteq> Some Link" "can_make t (junk_base d (no_slash r))" "t (no_slash r) = Some (Plain m)"
  shows "deltree e t dst = (t(junk_base d (no_slash r) \<mapsto> Plain []), 0)"
proof -
  have "junk_name t (junk_base d (no_slash r)) (junk_base d (no_slash r)) 0 = (Some (junk_base d (no_slash r)), 0)"
    using assms(5) by (subst junk_name.simps) simp
  then show ?thesis using assms by (simp add: deltree_def Let_def rename_tree_def)
qed

end
