(* ===== verification/Yspam.thy ===== *)
theory Yspam
  imports CLib
begin

text \<open>
  The client of the spam daemon, \<open>src/libythtbbs/yspam.c\<close>, and the daemon's side of a connection,
  \<open>yspam_do_child\<close> in \<open>src/yspam/yspamd.c\<close>.  A message is its bytes.  What the daemon does with its data base
  is an argument, so are the outcomes of the socket calls.  The descriptors the client has open are kept, because the calls
  differ in what they do with them.
\<close>

section \<open>Messages\<close>

definition YSPAM_KEY :: nat where "YSPAM_KEY = 0x91871712"

definition YSPAM_FEED_SPAM :: byte where "YSPAM_FEED_SPAM = 1"
definition YSPAM_FEED_HAM :: byte where "YSPAM_FEED_HAM = 2"
definition YSPAM_NEWMAIL :: byte where "YSPAM_NEWMAIL = 3"
definition YSPAM_GETALLSPAM :: byte where "YSPAM_GETALLSPAM = 4"
definition YSPAM_GET_SPAM :: byte where "YSPAM_GET_SPAM = 5"
definition YSPAM_UPDATE_FILENAME :: byte where "YSPAM_UPDATE_FILENAME = 6"

definition YSPAM_ERR_BROKEN :: int where "YSPAM_ERR_BROKEN = 1"
definition YSPAM_ERR_KEY :: int where "YSPAM_ERR_KEY = 2"
definition YSPAM_ERR_OPT :: int where "YSPAM_ERR_OPT = 3"
definition YSPAM_ERR_HEADER :: int where "YSPAM_ERR_HEADER = 6"
definition YSPAM_ERR_CONNECT :: int where "YSPAM_ERR_CONNECT = 7"

definition REQ_SIZE :: nat where "REQ_SIZE = 156"
definition RET_SIZE :: nat where "RET_SIZE = 144"

text \<open>\<open>ntohl\<close> of an unsigned number; \<open>htonl\<close> of an \<open>int\<close>.\<close>

definition be32u :: "byte list \<Rightarrow> nat" where
  "be32u bs = foldl (\<lambda>v b. v * 256 + unat b) 0 (take 4 bs)"

definition int_bytes :: "int \<Rightarrow> byte list" where
  "int_bytes x = be32_bytes (nat (x mod 2 ^ 32))"

text \<open>\<open>struct yspam_proto_req\<close>, zeroed before it is filled: the union is 136 bytes, two of them padding.\<close>

definition yspam_req :: "cstr \<Rightarrow> byte \<Rightarrow> byte list \<Rightarrow> byte list" where
  "yspam_req user ty param = be32_bytes YSPAM_KEY @ pad0 13 user @ [ty, 0, 0] @ param @ replicate (136 - length param) 0"

definition mailid_param :: "nat \<Rightarrow> byte list" where
  "mailid_param mailid = be32_bytes (mailid div 2 ^ 32) @ be32_bytes (mailid mod 2 ^ 32)"

definition mailinfo_param :: "byte \<Rightarrow> cstr \<Rightarrow> cstr \<Rightarrow> byte list" where
  "mailinfo_param ty ttl sender = [ty, 0, 0, 0] @ pad0 80 (take 79 ttl) @ pad0 50 (take 49 sender)"

text \<open>\<open>struct yspam_proto_ret\<close>: the key, the status as a signed byte, three unused bytes and the union.\<close>

definition yspam_ret :: "int \<Rightarrow> byte list \<Rightarrow> byte list" where
  "yspam_ret status param = be32_bytes YSPAM_KEY @ [word_of_int status, 0, 0, 0] @ param @ replicate (136 - length param) 0"

definition ret_status :: "byte list \<Rightarrow> int" where
  "ret_status m = sint (m ! 4)"

section \<open>The daemon\<close>

text \<open>What the data base is asked for, and its answer: a negative error or the contents of the union.\<close>

datatype spam_op =
    FeedSpam cstr cstr
  | FeedHam cstr nat int
  | NewMail cstr cstr byte cstr
  | GetAll cstr
  | GetSpam cstr nat int
  | UpdateName cstr nat

definition get_mailid :: "byte list \<Rightarrow> nat" where
  "get_mailid m = be32u m * 2 ^ 32 + be32u (drop 4 m)"

definition decode_req :: "byte list \<Rightarrow> spam_op option" where
  "decode_req m =
     (let user = zstr (drop 4 m); ty = m ! 17; par = drop 20 m in
      if ty = YSPAM_FEED_SPAM then Some (FeedSpam user (zstr par))
      else if ty = YSPAM_FEED_HAM then Some (FeedHam user (get_mailid par) (be32 (take 4 (drop 8 par))))
      else if ty = YSPAM_NEWMAIL then Some (NewMail user (zstr (drop 4 par)) (par ! 0) (zstr (drop 84 par)))
      else if ty = YSPAM_GETALLSPAM then Some (GetAll user)
      else if ty = YSPAM_UPDATE_FILENAME then Some (UpdateName (zstr (drop 8 par)) (get_mailid par))
      else if ty = YSPAM_GET_SPAM then Some (GetSpam user (get_mailid par) (be32 (take 4 (drop 8 par))))
      else None)"

text \<open>
  The loop that sends the list: the count is only advanced behind it.  The outcomes of \<open>send\<close> come one after
  the other: interrupted, failed, or so many bytes.
\<close>

datatype sent = Interrupted | Failed | Sent nat

partial_function (option) send_loop :: "(nat \<Rightarrow> sent) \<Rightarrow> nat \<Rightarrow> int \<Rightarrow> int \<Rightarrow> int option" where
  "send_loop net k count n =
     (if count < n
      then (case net k of
              Interrupted \<Rightarrow> send_loop net (k + 1) count n
            | Failed \<Rightarrow> Some (- YSPAM_ERR_BROKEN)
            | Sent r \<Rightarrow> send_loop net (k + 1) count n)
      else Some 0)"

text \<open>
  \<open>yspam_do_child\<close>: the data base afterwards, the bytes answered and the result; \<open>None\<close> when it does not
  return.  A request that changes the name of a file is carried out but not answered.
\<close>

definition yspam_quit :: "int \<Rightarrow> byte list" where
  "yspam_quit ret = yspam_ret (- ret) []"

definition yspam_do_child ::
  "('s \<Rightarrow> spam_op \<Rightarrow> 's \<times> int \<times> byte list) \<Rightarrow> (nat \<Rightarrow> sent) \<Rightarrow> 's \<Rightarrow> byte list \<Rightarrow> ('s \<times> byte list \<times> int) option" where
  "yspam_do_child db net s req =
     (if length req \<noteq> REQ_SIZE then Some (s, yspam_quit (- YSPAM_ERR_HEADER), - YSPAM_ERR_HEADER)
      else if be32u req \<noteq> YSPAM_KEY then Some (s, yspam_quit (- YSPAM_ERR_KEY), - YSPAM_ERR_KEY)
      else let ty = req ! 17 in
        case decode_req req of
          None \<Rightarrow> Some (s, [], 0)
        | Some oper \<Rightarrow>
            (let (s', res, par) = db s oper in
             if ty \<in> {YSPAM_FEED_SPAM, YSPAM_FEED_HAM, YSPAM_NEWMAIL, YSPAM_GET_SPAM} then
               if res < 0 then Some (s', yspam_quit res, res) else Some (s', yspam_ret 0 par, 0)
             else if ty = YSPAM_GETALLSPAM then
               if res < 0 then Some (s', yspam_quit res, res)
               else map_option (\<lambda>r. (s', yspam_ret 0 par, r)) (send_loop net 0 0 (res * 148))
             else Some (s', [], 0)))"

section \<open>The client\<close>

text \<open>
  The descriptor a socket gets, whether it is connected, the result of \<open>send\<close>, the answer of the other side
  to a request and how many of its bytes arrive.
\<close>

record spam_net =
  new_sock :: "nat set \<Rightarrow> nat option"
  connected :: bool
  sent_bytes :: int
  answer :: "byte list \<Rightarrow> byte list"

text \<open>\<open>yspam_proto\<close>: the result, the answer with its status, and the descriptors.  A \<open>send\<close> that fails passes the
  check, because \<open>- 1\<close> is compared as an unsigned number.\<close>

definition short_send :: "int \<Rightarrow> bool" where
  "short_send r \<longleftrightarrow> r mod 2 ^ 32 < int REQ_SIZE"

definition yspam_proto :: "spam_net \<Rightarrow> nat set \<Rightarrow> byte list \<Rightarrow> int \<times> int \<times> byte list \<times> nat set" where
  "yspam_proto net fds req =
     (case new_sock net fds of
        None \<Rightarrow> (- YSPAM_ERR_CONNECT, YSPAM_ERR_CONNECT, [], fds)
      | Some fd \<Rightarrow>
          let fds1 = insert fd fds; shut = fds1 - {fd} in
          if \<not> connected net then (- YSPAM_ERR_CONNECT, YSPAM_ERR_CONNECT, [], shut)
          else if short_send (sent_bytes net) then (- YSPAM_ERR_BROKEN, YSPAM_ERR_BROKEN, [], shut)
          else let m = answer net req in
            if length m \<noteq> RET_SIZE then (- YSPAM_ERR_BROKEN, YSPAM_ERR_BROKEN, m, shut)
            else if be32u m \<noteq> YSPAM_KEY then (- YSPAM_ERR_BROKEN, YSPAM_ERR_BROKEN, m, shut)
            else if ret_status m > 0 then (- ret_status m, ret_status m, m, shut)
            else (int fd, ret_status m, m, fds1))"

definition close_fd :: "int \<Rightarrow> nat set \<Rightarrow> nat set" where
  "close_fd fd fds = (if fd < 0 then fds else fds - {nat fd})"

definition yspam_newmail ::
  "spam_net \<Rightarrow> nat set \<Rightarrow> cstr \<Rightarrow> cstr \<Rightarrow> byte \<Rightarrow> cstr \<Rightarrow> int \<times> nat option \<times> nat set" where
  "yspam_newmail net fds user ttl ty sender =
     (if length user > 12 then (- YSPAM_ERR_HEADER, None, fds)
      else let (r, status, m, fds') = yspam_proto net fds (yspam_req user YSPAM_NEWMAIL (mailinfo_param ty ttl sender));
               ret = - status
           in if ret < 0 then (ret, None, fds')
              else (0, Some (get_mailid (drop 8 m)), close_fd ret fds'))"

definition yspam_feed_spam :: "spam_net \<Rightarrow> nat set \<Rightarrow> cstr \<Rightarrow> cstr \<Rightarrow> int \<times> nat set" where
  "yspam_feed_spam net fds user fname =
     (if length user > 12 then (- YSPAM_ERR_HEADER, fds)
      else if length fname \<ge> 20 then (- YSPAM_ERR_HEADER, fds)
      else let (ret, _, _, fds') = yspam_proto net fds (yspam_req user YSPAM_FEED_SPAM (pad0 20 fname))
           in if ret < 0 then (ret, fds') else (0, close_fd ret fds'))"

definition yspam_feed_ham :: "spam_net \<Rightarrow> nat set \<Rightarrow> cstr \<Rightarrow> nat \<Rightarrow> int \<Rightarrow> int \<times> nat set" where
  "yspam_feed_ham net fds user mailid magic =
     (if length user > 12 then (- YSPAM_ERR_HEADER, fds)
      else let (ret, _, _, fds') =
                 yspam_proto net fds (yspam_req user YSPAM_FEED_HAM (mailid_param mailid @ int_bytes magic))
           in if ret < 0 then (ret, fds') else (0, close_fd ret fds'))"

definition yspam_getspam :: "spam_net \<Rightarrow> nat set \<Rightarrow> cstr \<Rightarrow> nat \<Rightarrow> int \<Rightarrow> int \<times> (cstr \<times> cstr) option \<times> nat set" where
  "yspam_getspam net fds user mailid magic =
     (if length user > 12 then (- YSPAM_ERR_HEADER, None, fds)
      else let (ret, _, m, fds') =
                 yspam_proto net fds (yspam_req user YSPAM_GET_SPAM (mailid_param mailid @ int_bytes magic))
           in if ret < 0 then (ret, None, fds')
              else (0, Some (zstr (drop 12 m), zstr (drop 92 m)), fds'))"

definition yspam_update_filename :: "spam_net \<Rightarrow> nat set \<Rightarrow> nat \<Rightarrow> cstr \<Rightarrow> int \<times> nat set" where
  "yspam_update_filename net fds mailid fname =
     (if length fname > 19 then (- YSPAM_ERR_HEADER, fds)
      else let (ret, _, _, fds') =
                 yspam_proto net fds (yspam_req [] YSPAM_UPDATE_FILENAME (mailid_param mailid @ pad0 20 fname))
           in if ret < 0 then (ret, fds') else (0, fds'))"
text \<open>The list of spam: what arrives of it piece by piece, until all of it is there.\<close>

datatype recvd = RInterrupted | RFailed | Got "byte list"

partial_function (option) recv_loop :: "(nat \<Rightarrow> recvd) \<Rightarrow> nat \<Rightarrow> byte list \<Rightarrow> nat \<Rightarrow> byte list option option" where
  "recv_loop rc k got n =
     (if length got < n
      then (case rc k of
              RInterrupted \<Rightarrow> recv_loop rc (k + 1) got n
            | RFailed \<Rightarrow> Some None
            | Got bs \<Rightarrow> recv_loop rc (k + 1) (got @ take (n - length got) bs) n)
      else Some (Some got))"

definition yspam_getallspam ::
  "spam_net \<Rightarrow> (nat \<Rightarrow> recvd) \<Rightarrow> nat set \<Rightarrow> cstr \<Rightarrow> (int \<times> nat \<times> byte list option \<times> nat set) option" where
  "yspam_getallspam net rc fds user =
     (if length user > 12 then Some (- YSPAM_ERR_HEADER, 0, None, fds)
      else let (ret, _, m, fds') = yspam_proto net fds (yspam_req user YSPAM_GETALLSPAM [])
           in if ret < 0 then Some (ret, 0, None, fds')
              else let n = unat (m ! 8) * 256 + unat (m ! 9) in
                if n = 0 then Some (- 4, 0, None, close_fd ret fds')
                else (case recv_loop rc 0 [] (n * 148) of
                        None \<Rightarrow> None
                      | Some None \<Rightarrow> Some (- YSPAM_ERR_BROKEN, 0, None, close_fd ret fds')
                      | Some (Some bs) \<Rightarrow> Some (0, n, Some bs, close_fd ret fds')))"

section \<open>Numbers on the wire\<close>

lemma be32u_bytes:
  assumes "n < 2 ^ 32"
  shows "be32u (be32_bytes n @ r) = n"
proof -
  have b: "unat (of_nat m :: byte) = m mod 256" for m
    by (simp add: unat_of_nat take_bit_eq_mod)
  have "n div 256 * 256 + n mod 256 = n" by simp
  moreover have "n div 65536 * 256 + n div 256 mod 256 = n div 256"
    using div_mult_mod_eq [of "n div 256" 256] by (simp add: div_mult2_eq [symmetric])
  moreover have "n div 16777216 * 256 + n div 65536 mod 256 = n div 65536"
    using div_mult_mod_eq [of "n div 65536" 256] by (simp add: div_mult2_eq [symmetric])
  moreover have h: "n div 16777216 mod 256 = n div 16777216" using assms by simp
  ultimately have "((n div 16777216 mod 256 * 256 + n div 65536 mod 256) * 256 + n div 256 mod 256) * 256 + n mod 256 = n"
    by presburger
  then show ?thesis using h by (simp add: be32u_def be32_bytes_def b)
qed

lemma be32_be32u: "length m = 4 \<Longrightarrow> be32 m = to_int32 (int (be32u m))"
proof -
  assume l: "length m = 4"
  have "foldl (\<lambda>v b. v * 256 + int (unat b)) (int v) bs = int (foldl (\<lambda>v b. v * 256 + unat b) v bs)" for bs :: "byte list" and v
  proof (induction bs arbitrary: v)
    case (Cons b bs)
    have "int v * 256 + int (unat b) = int (v * 256 + unat b)" by simp
    then show ?case using Cons [of "v * 256 + unat b"] by (simp only: foldl_Cons)
  qed simp
  from this [of 0 m] show ?thesis using l by (simp add: be32_def be32u_def)
qed

lemma int_bytes_roundtrip:
  assumes "- 2147483648 \<le> x" "x < 2147483648"
  shows "be32 (int_bytes x) = x"
proof -
  have "nat (x mod 2 ^ 32) < 2 ^ 32" by (simp add: nat_less_iff)
  then have "be32u (int_bytes x) = nat (x mod 2 ^ 32)"
    using be32u_bytes [of "nat (x mod 2 ^ 32)" "[]"] by (simp add: int_bytes_def)
  then have "be32 (int_bytes x) = to_int32 (x mod 2 ^ 32)" by (simp add: be32_be32u int_bytes_def)
  then show ?thesis using to_int32_id [OF assms] by (simp add: to_int32_def)
qed

lemma length_int_bytes [simp]: "length (int_bytes x) = 4"
  by (simp add: int_bytes_def)

lemma mailid_roundtrip:
  assumes "i < 2 ^ 64"
  shows "get_mailid (mailid_param i @ r) = i"
proof -
  have "i div 2 ^ 32 < 2 ^ 32" using assms by (simp add: less_mult_imp_div_less)
  then show ?thesis using be32u_bytes [of "i div 2 ^ 32"] be32u_bytes [of "i mod 2 ^ 32" r]
    by (simp add: get_mailid_def mailid_param_def)
qed

lemma length_mailid [simp]: "length (mailid_param i) = 8"
  by (simp add: mailid_param_def)

section \<open>Calls\<close>

lemma req_parts:
  assumes "length user \<le> 12" "0 \<notin> set user" "length param \<le> 136"
  shows "length (yspam_req user ty param) = REQ_SIZE" "be32u (yspam_req user ty param) = YSPAM_KEY"
    "zstr (drop 4 (yspam_req user ty param)) = user" "yspam_req user ty param ! 17 = ty"
    "drop 20 (yspam_req user ty param) = param @ replicate (136 - length param) 0"
proof -
  have l: "length (pad0 13 user) = 13" using assms(1) by (simp add: length_pad0)
  show "length (yspam_req user ty param) = REQ_SIZE"
    using l assms(3) by (simp add: yspam_req_def REQ_SIZE_def)
  show "be32u (yspam_req user ty param) = YSPAM_KEY"
    unfolding yspam_req_def by (rule be32u_bytes) (simp add: YSPAM_KEY_def)
  have "pad0 13 user = user @ 0 # replicate (12 - length user) 0"
    using assms(1) by (simp add: pad0_def Suc_diff_le flip: replicate_Suc)
  then show "zstr (drop 4 (yspam_req user ty param)) = user"
    using zstr_append [OF assms(2)] by (simp add: yspam_req_def)
  show "yspam_req user ty param ! 17 = ty" using l by (simp add: yspam_req_def nth_append)
  show "drop 20 (yspam_req user ty param) = param @ replicate (136 - length param) 0"
    using l by (simp add: yspam_req_def)
qed
text \<open>A connection to the daemon in the state \<open>s\<close>, with nothing going wrong on the way.\<close>

definition to_daemon ::
  "('s \<Rightarrow> spam_op \<Rightarrow> 's \<times> int \<times> byte list) \<Rightarrow> (nat \<Rightarrow> sent) \<Rightarrow> 's \<Rightarrow> nat \<Rightarrow> spam_net" where
  "to_daemon db nt s fd = \<lparr>new_sock = (\<lambda>_. Some fd), connected = True, sent_bytes = int REQ_SIZE,
     answer = (\<lambda>req. case yspam_do_child db nt s req of None \<Rightarrow> [] | Some (s', m, r) \<Rightarrow> m)\<rparr>"

text \<open>What the data base may answer: an error that fits into a signed byte, or the contents of the union.\<close>

definition db_fits :: "('s \<Rightarrow> spam_op \<Rightarrow> 's \<times> int \<times> byte list) \<Rightarrow> bool" where
  "db_fits db \<longleftrightarrow> (\<forall>s oper. - 128 < fst (snd (db s oper)) \<and> length (snd (snd (db s oper))) \<le> 136)"

lemma ret_parts:
  assumes "length par \<le> 136" "0 \<le> st" "st < 128"
  shows "length (yspam_ret st par) = RET_SIZE" "be32u (yspam_ret st par) = YSPAM_KEY"
    "ret_status (yspam_ret st par) = st" "drop 8 (yspam_ret st par) = par @ replicate (136 - length par) 0"
proof -
  show "length (yspam_ret st par) = RET_SIZE" using assms(1) by (simp add: yspam_ret_def RET_SIZE_def)
  show "be32u (yspam_ret st par) = YSPAM_KEY"
    unfolding yspam_ret_def by (rule be32u_bytes) (simp add: YSPAM_KEY_def)
  have "sint (word_of_int st :: byte) = st" using assms(2,3) by (simp add: signed_of_int signed_take_bit_int_eq_self)
  then show "ret_status (yspam_ret st par) = st" by (simp add: ret_status_def yspam_ret_def nth_append)
  show "drop 8 (yspam_ret st par) = par @ replicate (136 - length par) 0" by (simp add: yspam_ret_def)
qed

lemma served:
  assumes "length req = REQ_SIZE" "be32u req = YSPAM_KEY" "decode_req req = Some oper" "db s oper = (s', res, par)"
    "req ! 17 \<in> {YSPAM_FEED_SPAM, YSPAM_FEED_HAM, YSPAM_NEWMAIL, YSPAM_GET_SPAM}"
  shows "yspam_do_child db nt s req = Some (s', if res < 0 then yspam_quit res else yspam_ret 0 par, min res 0)"
  using assms by (auto simp: yspam_do_child_def Let_def)

lemma proto_served:
  assumes "yspam_do_child db nt s req = Some (s', if res < 0 then yspam_quit res else yspam_ret 0 par, r)"
    "- 128 < res" "length par \<le> 136" "fd \<notin> fds"
  shows "yspam_proto (to_daemon db nt s fd) fds req =
     (if res < 0 then (res, - res, yspam_quit res, fds) else (int fd, 0, yspam_ret 0 par, insert fd fds))"
proof -
  have "\<not> short_send (int REQ_SIZE)" by (simp add: short_send_def REQ_SIZE_def)
  then show ?thesis
    using assms ret_parts [of "[]" "- res"] ret_parts [of par 0]
    by (simp add: yspam_proto_def to_daemon_def yspam_quit_def Let_def)
qed

lemmas yspam_types = YSPAM_FEED_SPAM_def YSPAM_FEED_HAM_def YSPAM_NEWMAIL_def YSPAM_GETALLSPAM_def YSPAM_GET_SPAM_def
  YSPAM_UPDATE_FILENAME_def

text \<open>What the daemon reads out of the requests of the client.\<close>

lemma decode_feed_spam:
  assumes "length user \<le> 12" "0 \<notin> set user" "length fname < 20" "0 \<notin> set fname"
  shows "decode_req (yspam_req user YSPAM_FEED_SPAM (pad0 20 fname)) = Some (FeedSpam user fname)"
proof -
  have "zstr (pad0 20 fname @ replicate 116 0) = fname"
  proof -
    have "pad0 20 fname = fname @ 0 # replicate (19 - length fname) 0"
      using assms(3) by (simp add: pad0_def Suc_diff_le flip: replicate_Suc)
    then show ?thesis using zstr_append [OF assms(4)] by simp
  qed
  then show ?thesis
    using req_parts [of user "pad0 20 fname" YSPAM_FEED_SPAM] assms length_pad0 [of fname 20]
    by (simp add: decode_req_def Let_def yspam_types)
qed

lemma id_param_parts:
  assumes "i < 2 ^ 64" "- 2147483648 \<le> x" "x < 2147483648"
  shows "get_mailid ((mailid_param i @ int_bytes x) @ r) = i"
    "be32 (take 4 (drop 8 ((mailid_param i @ int_bytes x) @ r))) = x"
  using mailid_roundtrip [OF assms(1), of "int_bytes x @ r"] int_bytes_roundtrip [OF assms(2,3)] by simp_all

lemma decode_ids:
  assumes "length user \<le> 12" "0 \<notin> set user" "i < 2 ^ 64" "- 2147483648 \<le> x" "x < 2147483648"
  shows "decode_req (yspam_req user YSPAM_FEED_HAM (mailid_param i @ int_bytes x)) = Some (FeedHam user i x)"
    "decode_req (yspam_req user YSPAM_GET_SPAM (mailid_param i @ int_bytes x)) = Some (GetSpam user i x)"
  using req_parts [of user "mailid_param i @ int_bytes x" YSPAM_FEED_HAM] id_param_parts [OF assms(3-5)]
    req_parts [of user "mailid_param i @ int_bytes x" YSPAM_GET_SPAM] assms(1,2)
  by (simp_all add: decode_req_def Let_def yspam_types del: append_assoc)

lemma decode_newmail:
  assumes "length user \<le> 12" "0 \<notin> set user" "0 \<notin> set ttl" "0 \<notin> set sender"
  shows "decode_req (yspam_req user YSPAM_NEWMAIL (mailinfo_param ty ttl sender))
    = Some (NewMail user (take 79 ttl) ty (take 49 sender))"
proof -
  have l: "length (pad0 80 (take 79 ttl)) = 80" "length (pad0 50 (take 49 sender)) = 50" by (simp_all add: length_pad0)
  have p: "pad0 n (take k s) = take k s @ 0 # replicate (n - length (take k s) - 1) 0" if "k < n" for n k and s :: cstr
  proof -
    have "n - length (take k s) = Suc (n - length (take k s) - 1)" using that by simp
    then have "replicate (n - length (take k s)) 0 = 0 # replicate (n - length (take k s) - 1) (0 :: byte)"
      by (metis replicate_Suc)
    then show ?thesis by (simp only: pad0_def)
  qed
  have n: "0 \<notin> set (take 79 ttl)" "0 \<notin> set (take 49 sender)" using assms(3,4) by (auto dest: in_set_takeD)
  have m: "length (mailinfo_param ty ttl sender) = 134" using l by (simp add: mailinfo_param_def)
  have z1: "zstr (pad0 80 (take 79 ttl) @ r) = take 79 ttl" for r
    using zstr_append [OF n(1)] by (simp add: p)
  have z2: "zstr (pad0 50 (take 49 sender) @ r) = take 49 sender" for r
    using zstr_append [OF n(2)] by (simp add: p)
  show ?thesis
    using req_parts [of user "mailinfo_param ty ttl sender" YSPAM_NEWMAIL] assms(1,2) m z1 z2 l
    by (simp add: decode_req_def Let_def yspam_types) (simp add: mailinfo_param_def z1 z2)
qed
definition daemon_after ::
  "('s \<Rightarrow> spam_op \<Rightarrow> 's \<times> int \<times> byte list) \<Rightarrow> (nat \<Rightarrow> sent) \<Rightarrow> 's \<Rightarrow> byte list \<Rightarrow> 's" where
  "daemon_after db nt s req = (case yspam_do_child db nt s req of None \<Rightarrow> s | Some (s', m, r) \<Rightarrow> s')"

text \<open>The arguments the client accepts and can pass on.\<close>

definition spam_args :: "cstr \<Rightarrow> cstr \<Rightarrow> nat \<Rightarrow> int \<Rightarrow> bool" where
  "spam_args user fname i x \<longleftrightarrow> length user \<le> 12 \<and> 0 \<notin> set user \<and> length fname < 20 \<and> 0 \<notin> set fname
     \<and> i < 2 ^ 64 \<and> - 2147483648 \<le> x \<and> x < 2147483648"

section \<open>Properties\<close>

text \<open>
  C38: A call of the client does to the data base what the operation itself does, with the user, the file name,
  all 64 bits of the number of the mail and the sign of the magic number arriving as they were given, and
  returns its error, if there is one: feeding a mail as spam or as ham, and asking for the title and the sender, which come
  back as the data base gave them.
\<close>

theorem spam_calls:
  assumes "db_fits db" "fd \<notin> fds" "spam_args user fname i x"
  shows "(let (s', res, par) = db s (FeedHam user i x) in
       fst (yspam_feed_ham (to_daemon db nt s fd) fds user i x) = min 0 res
       \<and> daemon_after db nt s (yspam_req user YSPAM_FEED_HAM (mailid_param i @ int_bytes x)) = s')
   \<and> (let (s', res, par) = db s (FeedSpam user fname) in
       fst (yspam_feed_spam (to_daemon db nt s fd) fds user fname) = min 0 res
       \<and> daemon_after db nt s (yspam_req user YSPAM_FEED_SPAM (pad0 20 fname)) = s')
   \<and> (let (s', res, par) = db s (GetSpam user i x); u = par @ replicate (136 - length par) 0 in
       yspam_getspam (to_daemon db nt s fd) fds user i x =
         (if res < 0 then (res, None, fds) else (0, Some (zstr (drop 4 u), zstr (drop 84 u)), insert fd fds))
       \<and> daemon_after db nt s (yspam_req user YSPAM_GET_SPAM (mailid_param i @ int_bytes x)) = s')"
proof -
  have a: "length user \<le> 12" "0 \<notin> set user" "length fname < 20" "0 \<notin> set fname" "i < 2 ^ 64"
    "- 2147483648 \<le> x" "x < 2147483648" using assms(3) by (auto simp: spam_args_def)
  have fits: "- 128 < res \<and> length par \<le> 136" if "db s oper = (s', res, par)" for oper s' res par
    using assms(1) that unfolding db_fits_def by (metis fst_conv snd_conv)
  have call: "yspam_proto (to_daemon db nt s fd) fds req =
      (if res < 0 then (res, - res, yspam_quit res, fds) else (int fd, 0, yspam_ret 0 par, insert fd fds))
      \<and> daemon_after db nt s req = s'"
    if "decode_req req = Some oper" "db s oper = (s', res, par)" "length req = REQ_SIZE" "be32u req = YSPAM_KEY"
      "req ! 17 \<in> {YSPAM_FEED_SPAM, YSPAM_FEED_HAM, YSPAM_NEWMAIL, YSPAM_GET_SPAM}" for req oper s' res par
  proof -
    note sv = served [where db = db and s = s and oper = oper and req = req and nt = nt, OF that(3,4,1,2,5)]
    show ?thesis using proto_served [where db = db and s = s and req = req and nt = nt, OF sv _ _ assms(2)] sv fits [OF that(2)]
      by (simp add: daemon_after_def)
  qed
  have l: "length (mailid_param i @ int_bytes x) \<le> 136" "length (pad0 20 fname) \<le> 136"
    using a(3) length_pad0 [of fname 20] by simp_all
  obtain s1 r1 p1 where d1: "db s (FeedHam user i x) = (s1, r1, p1)" by (cases "db s (FeedHam user i x)")
  obtain s2 r2 p2 where d2: "db s (FeedSpam user fname) = (s2, r2, p2)" by (cases "db s (FeedSpam user fname)")
  obtain s3 r3 p3 where d3: "db s (GetSpam user i x) = (s3, r3, p3)" by (cases "db s (GetSpam user i x)")
  note c1 = call [OF decode_ids(1) [OF a(1,2,5-7)] d1 req_parts(1,2) [OF a(1,2) l(1)]]
  note c2 = call [OF decode_feed_spam [OF a(1-4)] d2 req_parts(1,2) [OF a(1,2) l(2)]]
  note c3 = call [OF decode_ids(2) [OF a(1,2,5-7)] d3 req_parts(1,2) [OF a(1,2) l(1)]]
  have q: "drop 12 m = drop 4 (drop 8 m)" "drop 92 m = drop 84 (drop 8 m)" for m :: "byte list" by simp_all
  have r3: "drop 8 (yspam_ret 0 p3) = p3 @ replicate (136 - length p3) 0"
    using ret_parts(4) [of p3 0] fits [OF d3] by simp
  have "fst (yspam_feed_ham (to_daemon db nt s fd) fds user i x) = min 0 r1"
    using c1 req_parts(4) [OF a(1,2) l(1)] a(1) by (simp add: yspam_feed_ham_def)
  moreover have "fst (yspam_feed_spam (to_daemon db nt s fd) fds user fname) = min 0 r2"
    using c2 req_parts(4) [OF a(1,2) l(2)] a(1,3) by (simp add: yspam_feed_spam_def)
  moreover have "yspam_getspam (to_daemon db nt s fd) fds user i x =
      (if r3 < 0 then (r3, None, fds) else (0, Some (zstr (drop 4 (p3 @ replicate (136 - length p3) 0)),
        zstr (drop 84 (p3 @ replicate (136 - length p3) 0))), insert fd fds))"
    using c3 req_parts(4) [OF a(1,2) l(1)] a(1) unfolding yspam_getspam_def q by (simp add: r3 del: drop_drop)
  ultimately show ?thesis
    using c1 c2 c3 req_parts(4) [OF a(1,2) l(1)] req_parts(4) [OF a(1,2) l(2)] by (simp add: d1 d2 d3 Let_def)
qed

text \<open>
  Feeding a mail as spam or ham leaves the descriptors of the caller as they were, on every path: when there
  is no socket, when the connection or the request fails, for every answer of the other side and after success.
\<close>

theorem feeding_keeps_descriptors:
  assumes "\<And>fd. new_sock net fds = Some fd \<Longrightarrow> fd \<notin> fds"
  shows "snd (yspam_feed_ham net fds user i x) = fds \<and> snd (yspam_feed_spam net fds user fname) = fds"
proof -
  have "case yspam_proto net fds req of (ret, st, m, fds') \<Rightarrow> if ret < 0 then fds' = fds else close_fd ret fds' = fds" for req
    using assms by (auto simp: yspam_proto_def Let_def close_fd_def YSPAM_ERR_CONNECT_def YSPAM_ERR_BROKEN_def
        split: option.split)
  then show ?thesis
    by (fastforce simp: yspam_feed_ham_def yspam_feed_spam_def split: prod.split_asm if_splits split: prod.split)
qed

lemma spam_calls_witness:
  "let db = (\<lambda>n oper. (n + 1 :: nat, - 5, [])) in
    fst (yspam_feed_ham (to_daemon db (\<lambda>_. Failed) 7 3) {0, 1, 2} [97] (2 ^ 40 + 1) (- 2)) = - 5
    \<and> daemon_after db (\<lambda>_. Failed) 7 (yspam_req [97] YSPAM_FEED_SPAM (pad0 20 [77])) = 8"
proof -
  define db :: "nat \<Rightarrow> spam_op \<Rightarrow> nat \<times> int \<times> byte list" where "db = (\<lambda>n oper. (n + 1, - 5, []))"
  have "db_fits db" by (simp add: db_fits_def db_def)
  moreover have "spam_args [97] [77] (2 ^ 40 + 1) (- 2)" by (simp add: spam_args_def)
  ultimately show ?thesis
    using spam_calls [where db = db and fd = 3 and fds = "{0, 1, 2}" and user = "[97]" and fname = "[77]" and i = "2 ^ 40 + 1"
        and x = "- 2" and s = 7 and nt = "\<lambda>_. Failed"]
    unfolding Let_def db_def by simp
qed

lemma feeding_keeps_descriptors_witness:
  "snd (yspam_feed_ham (to_daemon (\<lambda>n oper. (n, - 5, [])) (\<lambda>_. Failed) (0 :: nat) 3) {0, 1, 2} [97] 9 1) = {0, 1, 2}"
  using feeding_keeps_descriptors [of "to_daemon (\<lambda>n oper. (n, - 5, [])) (\<lambda>_. Failed) (0 :: nat) 3" "{0, 1, 2}" "[97]" 9 1 "[]"]
  by (simp add: to_daemon_def)

section \<open>What goes wrong\<close>

text \<open>A request that could not be sent at all is taken for sent.\<close>

lemma failed_send_passes: "\<not> short_send (- 1)"
  by (simp add: short_send_def REQ_SIZE_def)

text \<open>Reporting a new mail closes descriptor 0 of the caller, and keeps the socket.\<close>

lemma newmail_closes_stdin:
  assumes "db_fits db" "length user \<le> 12" "0 \<notin> set user" "0 \<notin> set ttl" "0 \<notin> set sender" "fd \<notin> fds"
    "db s (NewMail user (take 79 ttl) ty (take 49 sender)) = (s', 0, par)"
  shows "snd (snd (yspam_newmail (to_daemon db nt s fd) fds user ttl ty sender)) = insert fd fds - {0}"
proof -
  let ?req = "yspam_req user YSPAM_NEWMAIL (mailinfo_param ty ttl sender)"
  have l: "length (mailinfo_param ty ttl sender) \<le> 136" by (simp add: mailinfo_param_def length_pad0)
  note p = req_parts [OF assms(2,3) l]
  have t: "?req ! 17 \<in> {YSPAM_FEED_SPAM, YSPAM_FEED_HAM, YSPAM_NEWMAIL, YSPAM_GET_SPAM}" using p(4) by simp
  note sv = served [where db = db and s = s and nt = nt, OF p(1,2) decode_newmail [OF assms(2-5)] assms(7) t]
  have "length par \<le> 136" using assms(1,7) unfolding db_fits_def by (metis snd_conv)
  then show ?thesis
    using proto_served [where db = db and s = s and nt = nt, OF sv _ _ assms(6)] assms(2)
    by (simp add: yspam_newmail_def close_fd_def)
qed

text \<open>Changing a file name always ends in an error for the client, also when it has been carried out.\<close>

lemma update_filename_broken:
  assumes "length fname \<le> 19" "fd \<notin> fds"
  shows "yspam_update_filename (to_daemon db nt s fd) fds i fname = (- YSPAM_ERR_BROKEN, fds)"
proof -
  have l: "length (mailid_param i @ pad0 20 fname) \<le> 136" using assms(1) by (simp add: length_pad0)
  note p = req_parts [of "[]" "mailid_param i @ pad0 20 fname" YSPAM_UPDATE_FILENAME, OF _ _ l]
  have "\<not> short_send (int REQ_SIZE)" by (simp add: short_send_def REQ_SIZE_def)
  then show ?thesis
    using assms p by (simp add: yspam_update_filename_def yspam_proto_def to_daemon_def yspam_do_child_def decode_req_def
        yspam_types RET_SIZE_def YSPAM_ERR_BROKEN_def Let_def split: prod.split)
qed

text \<open>The daemon never comes to the end of sending a list, as long as the other side takes what is sent.\<close>

lemma send_loop_endless:
  assumes "\<And>k. \<exists>r. net k = Sent r" "c < n"
  shows "send_loop net k c n = None"
proof -
  have "c < n \<longrightarrow> (\<forall>k. \<exists>r. net k = Sent r) \<longrightarrow> False" if "send_loop net k c n = Some y" for y
  proof (rule send_loop.raw_induct [where P = "\<lambda>net k c n y. c < n \<longrightarrow> (\<forall>k. \<exists>r. net k = Sent r) \<longrightarrow> False", OF _ that])
    fix f net k c n y
    assume ih: "\<And>net k c n y. f net k c n = Some y \<Longrightarrow> c < n \<longrightarrow> (\<forall>k. \<exists>r. net k = Sent r) \<longrightarrow> False"
      and st: "(if c < n then (case net k of Interrupted \<Rightarrow> f net (k + 1) c n | Failed \<Rightarrow> Some (- YSPAM_ERR_BROKEN)
        | Sent r \<Rightarrow> f net (k + 1) c n) else Some 0) = Some y"
    show "c < n \<longrightarrow> (\<forall>k. \<exists>r. net k = Sent r) \<longrightarrow> False"
    proof (intro impI)
      assume a: "c < n" and b: "(\<forall>k. \<exists>r. net k = Sent r)"
      have "f net (k + 1) c n = Some y" using spec [OF b, of k] a st by auto
      then show False using ih a b by blast
    qed
  qed
  then show ?thesis using assms by (cases "send_loop net k c n") auto
qed

text \<open>A connection that the other side has closed keeps the client reading for ever.\<close>

lemma recv_loop_endless:
  assumes "\<And>k. rc k = Got []" "length got < n"
  shows "recv_loop rc k got n = None"
proof -
  have "length got < n \<longrightarrow> (\<forall>k. rc k = Got []) \<longrightarrow> False" if "recv_loop rc k got n = Some y" for y
  proof (rule recv_loop.raw_induct [where P = "\<lambda>rc k got n y. length got < n \<longrightarrow> (\<forall>k. rc k = Got []) \<longrightarrow> False", OF _ that])
    fix f rc k got n y
    assume ih: "\<And>rc k got n y. f rc k got n = Some y \<Longrightarrow> length got < n \<longrightarrow> (\<forall>k. rc k = Got []) \<longrightarrow> False"
      and st: "(if length got < n then (case rc k of RInterrupted \<Rightarrow> f rc (k + 1) got n | RFailed \<Rightarrow> Some None
        | Got bs \<Rightarrow> f rc (k + 1) (got @ take (n - length got) bs) n) else Some (Some got)) = Some y"
    show "length got < n \<longrightarrow> (\<forall>k. rc k = Got []) \<longrightarrow> False"
    proof (intro impI)
      assume a: "length got < n" and b: "(\<forall>k. rc k = Got [])"
      have "f rc (k + 1) got n = Some y" using spec [OF b, of k] a st by simp
      then show False using ih a b by blast
    qed
  qed
  then show ?thesis using assms by (cases "recv_loop rc k got n") auto
qed

end
