(* ===== verification/TextLines.thy ===== *)
theory TextLines
  imports StrLib StrOp
begin

text \<open>
  The lines of the text editor, \<open>src/src/edit.c\<close>: measuring, breaking and filling lines.  The list of lines that the
  code links with pointers is a list, a pointer to a line is its place.  A line is its \<open>len\<close> bytes of \<open>text\<close>, whether a line
  end follows, and its mark: 0, 1 for the line where a selection was begun, 2 for the others.  \<open>changed\<close> and
  \<open>redrawall\<close>, which only say what has to be drawn again, are left out.
\<close>

section \<open>Lines\<close>

definition MAXLINELEN :: nat where "MAXLINELEN = 80"

record textLine =
  ltext :: "byte list"
  lbr :: bool
  lsel :: nat

definition new_line :: "textLine \<Rightarrow> textLine" where
  "new_line ln = \<lparr>ltext = [], lbr = False, lsel = (if lsel ln \<noteq> 0 then 2 else 0)\<rparr>"

definition allocNextLine :: "textLine list \<Rightarrow> nat \<Rightarrow> textLine list" where
  "allocNextLine ls k = take (k + 1) ls @ new_line (ls ! k) # drop (k + 1) ls"

text \<open>\<open>indb (ptr, n)\<close>: whether \<open>n\<close> bytes end within a character of two.\<close>

definition indb :: "bool \<Rightarrow> byte list \<Rightarrow> bool" where
  "indb enabledbchar p = (enabledbchar \<and> foldl (\<lambda>db c. \<not> db \<and> c \<ge> 128) False p)"

text \<open>
  \<open>measureLine\<close>: the bytes that fit into \<open>maxwidth\<close> columns and their width.  At a line end the width is left as it
  was, \<open>w0\<close>.  Behind a character of two bytes \<open>lastspace\<close> moves on, \<open>lastwidth\<close> does not.
\<close>

fun measure_loop ::
  "nat \<Rightarrow> nat \<Rightarrow> nat \<Rightarrow> byte list \<Rightarrow> nat \<Rightarrow> nat \<Rightarrow> bool \<Rightarrow> nat \<Rightarrow> nat \<Rightarrow> nat \<times> nat" where
  "measure_loop w0 maxwidth cutmode [] i w db lastspace lastwidth = (i, w)"
| "measure_loop w0 maxwidth cutmode (c # p) i w db lastspace lastwidth =
     (if c = 10 \<or> c = 13 then (i, w0)
      else if c = 9 then
        (let w1 = (w + 8) div 8 * 8 in
         if w1 > maxwidth then (i, w)
         else if w1 = maxwidth then (i + 1, w1)
         else measure_loop w0 maxwidth cutmode p (i + 1) w1 db (i + 1) w1)
      else
        (let w' = w + 1; db' = (\<not> db \<and> c \<ge> 128); sp = (\<not> db \<and> c = 32);
             ls = (if db \<or> sp then i + 1 else lastspace); lw = (if sp then w' else lastwidth) in
         if w' \<ge> maxwidth then
           (if db' then (i, w' - 1)
            else if cutmode = 0 \<and> ls > 0 \<or> cutmode = 1 then (ls, lw)
            else (i + 1, w'))
         else measure_loop w0 maxwidth cutmode p (i + 1) w' db' ls lw))"

definition measureLine :: "nat \<Rightarrow> byte list \<Rightarrow> nat \<Rightarrow> nat \<Rightarrow> nat \<times> nat" where
  "measureLine w0 p maxwidth cutmode =
     (if p = [] \<or> maxwidth = 0 then (0, 0) else measure_loop w0 maxwidth cutmode p 0 0 False 0 0)"

definition widen :: "nat \<Rightarrow> byte \<Rightarrow> nat" where
  "widen w c = (if c = 9 then (w + 8) div 8 * 8 else w + 1)"

definition measureWidth :: "byte list \<Rightarrow> nat" where
  "measureWidth p = foldl widen 0 p"

text \<open>The mark of a line that is about to go.\<close>

definition keepSelect :: "textLine list \<Rightarrow> nat \<Rightarrow> textLine list" where
  "keepSelect ls k =
     (if lsel (ls ! k) \<noteq> 1 then ls
      else if k > 0 \<and> lsel (ls ! (k - 1)) \<noteq> 0 then ls[k - 1 := (ls ! (k - 1))\<lparr>lsel := 1\<rparr>]
      else if k + 1 < length ls \<and> lsel (ls ! (k + 1)) \<noteq> 0 then ls[k + 1 := (ls ! (k + 1))\<lparr>lsel := 1\<rparr>]
      else ls)"

definition remove_at :: "nat \<Rightarrow> 'a list \<Rightarrow> 'a list" where
  "remove_at k xs = take k xs @ drop (k + 1) xs"

lemma length_keepSelect [simp]: "length (keepSelect ls k) = length ls"
  by (simp add: keepSelect_def)

lemma length_remove_at: "k < length xs \<Longrightarrow> length (remove_at k xs) = length xs - 1"
  by (simp add: remove_at_def)

text \<open>
  \<open>reflow\<close> fills the lines of a paragraph from \<open>k\<close> on: an empty line takes the contents of the next one, otherwise as
  much of the next line is fetched as fits, and a line that became empty goes.  Where a selection begins or
  ends nothing is moved.  (All lines have at most \<open>MAXLINELEN\<close> bytes, so that the room left is not negative.)
\<close>

definition fetched :: "byte list \<Rightarrow> byte list \<Rightarrow> nat" where
  "fetched t u =
     (let room = min (MAXLINELEN - length t) (length u) in
      if room = 0 then 0 else fst (measureLine 0 (t @ take room u) MAXLINELEN 0) - length t)"

function reflow :: "textLine list \<Rightarrow> nat \<Rightarrow> textLine list" where
  "reflow ls k =
     (if k + 1 < length ls \<and> \<not> lbr (ls ! k) then
        let ln = ls ! k; nx = ls ! (k + 1) in
        if (lsel ln \<noteq> 0) \<noteq> (lsel nx \<noteq> 0) then reflow ls (k + 1)
        else if ltext ln = [] then reflow (remove_at k (keepSelect ls k)) k
        else
          let len = fetched (ltext ln) (ltext nx) in
          if ltext nx \<noteq> [] \<and> len = 0 then ls
          else
            let ln' = ln\<lparr>ltext := ltext ln @ take len (ltext nx)\<rparr>; nx' = nx\<lparr>ltext := drop len (ltext nx)\<rparr> in
            if ltext nx' = [] \<and> measureWidth (ltext ln') < MAXLINELEN then
              let ls' = remove_at (k + 1) (keepSelect (ls[k := ln'\<lparr>lbr := lbr nx\<rparr>, k + 1 := nx']) (k + 1)) in
              if lbr nx then ls' else reflow ls' (k + 1)
            else reflow (ls[k := ln', k + 1 := nx']) (k + 1)
      else ls)"
  by pat_completeness auto

termination reflow
  by (relation "measure (\<lambda>(ls, k). length ls - k)") (auto simp: length_remove_at)

declare reflow.simps [simp del]

text \<open>What the lines hold when they are written.\<close>

definition line_bytes :: "textLine \<Rightarrow> byte list" where
  "line_bytes l = ltext l @ (if lbr l then [10] else [])"

definition content :: "textLine list \<Rightarrow> byte list" where
  "content ls = concat (map line_bytes ls)"

section \<open>Measuring\<close>

lemma measure_loop_bounds:
  assumes "measure_loop w0 mw cm p i w db sp lw = (n, v)" "sp \<le> i"
  shows "n \<le> i + length p" "i \<le> w \<Longrightarrow> w < mw \<Longrightarrow> n \<le> mw"
  using assms
proof (induction w0 mw cm p i w db sp lw rule: measure_loop.induct)
  case (2 w0 mw cm c p i w db sp lw)
  note outer = 2
  { case 1 then show ?case using outer by (auto simp: Let_def split: if_splits) }
  { case 2 then show ?case using outer by (fastforce simp: Let_def split: if_splits) }
qed auto

lemma measureLine_le: "fst (measureLine w0 p mw cm) \<le> length p" "fst (measureLine w0 p mw cm) \<le> mw"
  using measure_loop_bounds [of w0 mw cm p 0 0 False 0 0]
  by (auto simp: measureLine_def prod_eq_iff)

lemma measure_loop_pos:
  assumes "measure_loop w0 mw cm p i w db sp lw = (n, v)" "8 < mw" "cm \<noteq> 1" "i = 0 \<longrightarrow> w = 0 \<and> p \<noteq> [] \<and> hd p \<noteq> 10 \<and> hd p \<noteq> 13"
  shows "0 < n"
  using assms
proof (induction w0 mw cm p i w db sp lw rule: measure_loop.induct)
  case (2 w0 mw cm c p i w db sp lw)
  then show ?case by (cases "i = 0") (auto simp: Let_def split: if_splits)
qed auto

lemma measureLine_pos: "p \<noteq> [] \<Longrightarrow> hd p \<noteq> 10 \<Longrightarrow> hd p \<noteq> 13 \<Longrightarrow> 0 < fst (measureLine w0 p MAXLINELEN 0)"
  using measure_loop_pos [of w0 MAXLINELEN 0 p 0 0 False 0 0]
  by (auto simp: measureLine_def MAXLINELEN_def prod_eq_iff)

text \<open>Nothing before the break reaches the last column, nothing before it is a line end, and with words cut the width is
  the width of what fits.\<close>

lemma measureWidth_snoc: "measureWidth (p @ [c]) = widen (measureWidth p) c"
  by (simp add: measureWidth_def)

lemma measure_loop_prefix:
  assumes "measure_loop w0 mw cm p (length q) (measureWidth q) db sp lw = (n, v)" "sp \<le> length q"
    "\<forall>m \<le> length q. measureWidth (take m q) < mw" "10 \<notin> set q" "13 \<notin> set q"
  shows "(\<forall>m < n. measureWidth (take m (q @ p)) < mw) \<and> 10 \<notin> set (take n (q @ p)) \<and> 13 \<notin> set (take n (q @ p))
    \<and> (1 < cm \<longrightarrow> 10 \<notin> set p \<longrightarrow> 13 \<notin> set p \<longrightarrow> v = measureWidth (take n (q @ p)))"
  using assms
proof (induction p arbitrary: q db sp lw)
  case Nil then show ?case by auto
next
  case (Cons c p)
  have tk: "take m (q @ r) = take m q" if "m \<le> length q" for m and r :: "byte list" using that by simp
  have sub: "x \<notin> set (take m q)" if "x \<notin> set q" for m and x :: byte using that by (auto dest: in_set_takeD)
  have one: "take (Suc (length q)) (q @ c # p) = q @ [c]" by simp
  have stop: ?case if "n \<le> length q" "1 < cm \<longrightarrow> c \<noteq> 10 \<longrightarrow> c \<noteq> 13 \<longrightarrow> v = measureWidth (take n q)"
    using that Cons.prems(3-5) sub by (auto simp: tk)
  have take1: ?case if "n \<le> Suc (length q)" "c \<noteq> 10" "c \<noteq> 13" "1 < cm \<longrightarrow> n = Suc (length q) \<and> v = measureWidth (q @ [c])"
  proof (cases "n = Suc (length q)")
    case True then show ?thesis using that Cons.prems(3-5) by (auto simp: tk less_Suc_eq_le)
  next
    case False then have "n \<le> length q" using that(1) by simp
    then show ?thesis using stop that(4) False by blast
  qed
  have go: ?case if "measure_loop w0 mw cm p (Suc (length q)) (widen (measureWidth q) c) db' sp' lw' = (n, v)"
    "sp' \<le> Suc (length q)" "widen (measureWidth q) c < mw" "c \<noteq> 10" "c \<noteq> 13" for db' sp' lw'
  proof -
    have "\<forall>m \<le> length (q @ [c]). measureWidth (take m (q @ [c])) < mw"
      using Cons.prems(3) that(3) by (auto simp: le_Suc_eq measureWidth_snoc)
    then show ?thesis using Cons.IH [of "q @ [c]" db' sp' lw'] that Cons.prems(4,5) by (simp add: measureWidth_snoc)
  qed
  consider (nl) "c = 10 \<or> c = 13" | (tab) "c = 9" | (ch) "c \<noteq> 10" "c \<noteq> 13" "c \<noteq> 9" by blast
  then show ?case
  proof cases
    case nl then show ?thesis using Cons.prems(1) by (intro stop) auto
  next
    case tab
    let ?w1 = "(measureWidth q + 8) div 8 * 8"
    consider "?w1 > mw" | "?w1 = mw" | "?w1 < mw" by linarith
    then show ?thesis
    proof cases
      case 1 then show ?thesis using Cons.prems(1) tab by (intro stop) auto
    next
      case 2 then show ?thesis using Cons.prems(1) tab by (intro take1) (auto simp: measureWidth_snoc widen_def)
    next
      case 3
      then have "measure_loop w0 mw cm p (Suc (length q)) ?w1 db (Suc (length q)) ?w1 = (n, v)"
        using Cons.prems(1) tab by (simp add: Let_def)
      then show ?thesis using go [of db "Suc (length q)" ?w1] tab 3 by (simp add: widen_def)
    qed
  next
    case ch
    let ?db = "\<not> db \<and> c \<ge> 128" and ?sp = "\<not> db \<and> c = 32"
    let ?ls = "if db \<or> ?sp then Suc (length q) else sp"
    let ?lw = "if ?sp then Suc (measureWidth q) else lw"
    show ?thesis
    proof (cases "Suc (measureWidth q) \<ge> mw")
      case True
      then have step: "measure_loop w0 mw cm (c # p) (length q) (measureWidth q) db sp lw =
          (if ?db then (length q, measureWidth q) else if cm = 0 \<and> ?ls > 0 \<or> cm = 1 then (?ls, ?lw)
           else (Suc (length q), Suc (measureWidth q)))"
        using ch by (simp add: Let_def)
      note r = trans [OF Cons.prems(1) [symmetric] step]
      show ?thesis
      proof (cases ?db)
        case True then show ?thesis using r by (intro stop) auto
      next
        case False
        then show ?thesis using r Cons.prems(2) ch
          by (intro take1) (auto simp: measureWidth_snoc widen_def split: if_splits)
      qed
    next
      case False
      then have step: "measure_loop w0 mw cm (c # p) (length q) (measureWidth q) db sp lw =
          measure_loop w0 mw cm p (Suc (length q)) (Suc (measureWidth q)) ?db ?ls ?lw"
        using ch by (simp add: Let_def)
      note r = trans [OF step [symmetric] Cons.prems(1)]
      have "Suc (measureWidth q) = widen (measureWidth q) c" using ch by (simp add: widen_def)
      then show ?thesis using go [of ?db ?ls ?lw] r ch False Cons.prems(2) by (simp only: split: if_splits) simp_all
    qed
  qed
qed

lemma measureLine_prefix:
  assumes "measureLine w0 p mw cm = (n, v)"
  shows "m < n \<Longrightarrow> measureWidth (take m p) < mw" "10 \<notin> set (take n p)" "13 \<notin> set (take n p)"
    "1 < cm \<Longrightarrow> 10 \<notin> set p \<Longrightarrow> 13 \<notin> set p \<Longrightarrow> v = measureWidth (take n p)"
  using assms measure_loop_prefix [of w0 mw cm p "[]" False 0 0 n v]
  by (auto simp: measureLine_def measureWidth_def split: if_splits)

section \<open>Filling lines\<close>

text \<open>The text of the lines without their marks.\<close>

definition strip :: "textLine \<Rightarrow> byte list \<times> bool" where
  "strip l = (ltext l, lbr l)"

abbreviation strips :: "textLine list \<Rightarrow> (byte list \<times> bool) list" where
  "strips \<equiv> map strip"

lemma strip_simps [simp]: "strip (l\<lparr>lsel := s\<rparr>) = strip l" "fst (strip l) = ltext l" "snd (strip l) = lbr l"
  by (simp_all add: strip_def)

definition pair_bytes :: "byte list \<times> bool \<Rightarrow> byte list" where
  "pair_bytes p = fst p @ (if snd p then [10] else [])"

lemma content_strips: "content ls = concat (map pair_bytes (strips ls))"
  by (simp add: content_def line_bytes_def [abs_def] pair_bytes_def comp_def)

lemma strips_mark [simp]: "strips (ls[k := (ls ! k)\<lparr>lsel := s\<rparr>]) = strips ls"
  by (cases "k < length ls") (auto simp: list_eq_iff_nth_eq nth_list_update)

lemma strips_keepSelect [simp]: "strips (keepSelect ls k) = strips ls"
  by (simp add: keepSelect_def)

lemma strips_remove_at: "strips (remove_at k ls) = remove_at k (strips ls)"
  by (simp add: remove_at_def take_map drop_map)

text \<open>A line as the editor keeps it.\<close>

definition fit :: "byte list \<times> bool \<Rightarrow> bool" where
  "fit p \<longleftrightarrow> length (fst p) \<le> MAXLINELEN \<and> 10 \<notin> set (fst p) \<and> 13 \<notin> set (fst p)"

text \<open>What filling from \<open>k\<close> on may do: the contents and the lines before \<open>k\<close> stay, line \<open>k\<close> can only grow.\<close>

definition flows :: "nat \<Rightarrow> (byte list \<times> bool) list \<Rightarrow> (byte list \<times> bool) list \<Rightarrow> bool" where
  "flows k X Y \<longleftrightarrow> concat (map pair_bytes Y) = concat (map pair_bytes X) \<and> take k Y = take k X
     \<and> (k < length X \<longrightarrow> k < length Y \<and> (\<exists>s. fst (Y ! k) = fst (X ! k) @ s))
     \<and> (list_all fit X \<longrightarrow> list_all fit Y)"

lemma flows_refl: "flows k X X"
  by (simp add: flows_def)

lemma flows_trans: "flows k X Y \<Longrightarrow> flows k Y Z \<Longrightarrow> flows k X Z"
  by (fastforce simp: flows_def)

lemma flows_Suc: "flows (Suc k) X Y \<Longrightarrow> flows k X Y"
proof -
  assume f: "flows (Suc k) X Y"
  then have t: "take (Suc k) Y = take (Suc k) X" by (simp add: flows_def)
  have "take k Y = take k X" using arg_cong [OF t, of "take k"] by (simp add: take_take min_def)
  moreover have "k < length Y \<and> Y ! k = X ! k" if "k < length X"
    using arg_cong [OF t, of length] arg_cong [OF t, of "\<lambda>l. l ! k"] that by (simp split: if_splits)
  ultimately show ?thesis using f by (auto simp: flows_def)
qed

lemma two_lines: "Suc k < length X \<Longrightarrow> X = take k X @ X ! k # X ! Suc k # drop (Suc (Suc k)) X"
  by (metis Cons_nth_drop_Suc Suc_lessD append_take_drop_id)

lemma flows_two:
  assumes "Suc k < length X" "pair_bytes (X ! k) @ pair_bytes (X ! Suc k) = concat (map pair_bytes M)" "M \<noteq> []"
    "\<exists>s. fst (hd M) = fst (X ! k) @ s" "fit (X ! k) \<Longrightarrow> fit (X ! Suc k) \<Longrightarrow> list_all fit M"
  shows "flows k X (take k X @ M @ drop (Suc (Suc k)) X)"
proof -
  note X = two_lines [OF assms(1)]
  have "concat (map pair_bytes X) = concat (map pair_bytes (take k X)) @ (pair_bytes (X ! k) @ pair_bytes (X ! Suc k))
      @ concat (map pair_bytes (drop (Suc (Suc k)) X))"
    by (subst X) simp
  moreover have "list_all fit X \<longleftrightarrow> list_all fit (take k X) \<and> fit (X ! k) \<and> fit (X ! Suc k) \<and> list_all fit (drop (Suc (Suc k)) X)"
    by (subst X) simp
  moreover have "k < length X" using assms(1) by simp
  moreover have "(take k X @ M @ drop (Suc (Suc k)) X) ! k = hd M"
    using assms(3) \<open>k < length X\<close> by (simp add: nth_append hd_conv_nth)
  moreover have "0 < length M" using assms(3) by simp
  ultimately show ?thesis using assms(2,4,5) by (simp add: flows_def)
qed

lemma fetched_le: "fetched t u \<le> length u" "length t \<le> MAXLINELEN \<Longrightarrow> length t + fetched t u \<le> MAXLINELEN"
proof -
  let ?room = "min (MAXLINELEN - length t) (length u)"
  have "fst (measureLine 0 (t @ take ?room u) MAXLINELEN 0) \<le> length t + ?room"
    using measureLine_le(1) [of 0 "t @ take ?room u" MAXLINELEN 0] by simp
  then show "fetched t u \<le> length u" "length t \<le> MAXLINELEN \<Longrightarrow> length t + fetched t u \<le> MAXLINELEN"
    by (auto simp: fetched_def Let_def)
qed

lemma flows_empty:
  assumes "k + 1 < length ls" "ltext (ls ! k) = []" "\<not> lbr (ls ! k)"
  shows "flows k (strips ls) (strips (remove_at k (keepSelect ls k)))"
proof -
  have l: "Suc k < length (strips ls)" using assms(1) by simp
  have "strips (remove_at k (keepSelect ls k)) = take k (strips ls) @ [strips ls ! Suc k] @ drop (Suc (Suc k)) (strips ls)"
    using Cons_nth_drop_Suc [OF l] l by (simp only: strips_remove_at strips_keepSelect) (simp add: remove_at_def)
  then show ?thesis using flows_two [OF l, of "[strips ls ! Suc k]"] assms by (simp add: pair_bytes_def)
qed

lemma fit_fetched:
  assumes "fit (t, c)" "fit (u, d)"
  shows "fit (t @ take (fetched t u) u, b)" "fit (drop (fetched t u) u, b)"
  using fetched_le [of t u] assms by (auto simp: fit_def dest: in_set_takeD in_set_dropD)

lemma flows_gone:
  fixes ls k
  defines "ln \<equiv> ls ! k" and "nx \<equiv> ls ! (k + 1)"
  defines "len \<equiv> fetched (ltext ln) (ltext nx)"
  assumes "k + 1 < length ls" "\<not> lbr ln" "drop len (ltext nx) = []"
  shows "flows k (strips ls) (strips (remove_at (k + 1) (keepSelect (ls[k := ln\<lparr>ltext := ltext ln @ take len (ltext nx), lbr := lbr nx\<rparr>,
    k + 1 := nx\<lparr>ltext := drop len (ltext nx)\<rparr>]) (k + 1))))" (is "flows _ _ (strips ?ls)")
proof -
  have l: "Suc k < length (strips ls)" using assms(4) by simp
  have "strips ?ls = take k (strips ls) @ [(ltext ln @ take len (ltext nx), lbr nx)] @ drop (Suc (Suc k)) (strips ls)"
    using l by (simp add: strips_remove_at map_update strip_def)
      (simp add: remove_at_def take_Suc_conv_app_nth nth_list_update)
  then show ?thesis
    using flows_two [OF l, of "[(ltext ln @ take len (ltext nx), lbr nx)]"] assms(4-6) fit_fetched(1) [of "ltext ln" _ "ltext nx"]
    by (simp add: pair_bytes_def strip_def ln_def nx_def len_def)
qed

lemma update_two: "Suc k < length xs \<Longrightarrow> xs[k := a, Suc k := b] = take k xs @ [a, b] @ drop (Suc (Suc k)) xs"
  by (subst two_lines [of k xs]) (simp_all add: list_update_append)

lemma flows_moved:
  fixes ls k
  defines "ln \<equiv> ls ! k" and "nx \<equiv> ls ! (k + 1)"
  defines "len \<equiv> fetched (ltext ln) (ltext nx)"
  assumes "k + 1 < length ls" "\<not> lbr ln"
  shows "flows k (strips ls) (strips (ls[k := ln\<lparr>ltext := ltext ln @ take len (ltext nx)\<rparr>, k + 1 := nx\<lparr>ltext := drop len (ltext nx)\<rparr>]))"
proof -
  have l: "Suc k < length (strips ls)" using assms(4) by simp
  show ?thesis
    using flows_two [OF l, of "[(ltext ln @ take len (ltext nx), False), (drop len (ltext nx), lbr nx)]"] assms(4,5)
      fit_fetched [of "ltext ln" _ "ltext nx"] update_two [OF l]
    by (simp add: map_update pair_bytes_def strip_def ln_def nx_def len_def)
qed

theorem reflow_flows: "flows k (strips ls) (strips (reflow ls k))"
proof (induction ls k rule: reflow.induct)
  case (1 ls k)
  let ?ln = "ls ! k" and ?nx = "ls ! (k + 1)"
  let ?len = "fetched (ltext ?ln) (ltext ?nx)"
  note unf = reflow.simps [of ls k]
  show ?case
  proof (cases "k + 1 < length ls \<and> \<not> lbr ?ln")
    case False
    have "reflow ls k = ls" by (subst unf) (rule if_not_P [OF False])
    then show ?thesis by (simp add: flows_refl)
  next
    case go: True
    consider (mark) "(lsel ?ln \<noteq> 0) \<noteq> (lsel ?nx \<noteq> 0)"
      | (empty) "(lsel ?ln \<noteq> 0) = (lsel ?nx \<noteq> 0)" "ltext ?ln = []"
      | (stop) "(lsel ?ln \<noteq> 0) = (lsel ?nx \<noteq> 0)" "ltext ?ln \<noteq> []" "ltext ?nx \<noteq> [] \<and> ?len = 0"
      | (more) "(lsel ?ln \<noteq> 0) = (lsel ?nx \<noteq> 0)" "ltext ?ln \<noteq> []" "\<not> (ltext ?nx \<noteq> [] \<and> ?len = 0)"
      by blast
    then show ?thesis
    proof cases
      case mark
      then have "reflow ls k = reflow ls (k + 1)" using go by (subst unf) (simp add: Let_def)
      then show ?thesis using 1(1) [OF go refl refl] mark flows_Suc by simp
    next
      case empty
      then have "reflow ls k = reflow (remove_at k (keepSelect ls k)) k" using go by (subst unf) (auto simp: Let_def)
      then show ?thesis using 1(2) [OF go refl refl] empty flows_trans [OF flows_empty] go by simp
    next
      case stop
      then have "reflow ls k = ls" using go by (subst unf) (auto simp: Let_def)
      then show ?thesis by (simp add: flows_refl)
    next
      case more
      let ?ln' = "?ln\<lparr>ltext := ltext ?ln @ take ?len (ltext ?nx)\<rparr>" and ?nx' = "?nx\<lparr>ltext := drop ?len (ltext ?nx)\<rparr>"
      let ?c = "ltext ?nx' = [] \<and> measureWidth (ltext ?ln') < MAXLINELEN"
      let ?gone = "remove_at (k + 1) (keepSelect (ls[k := ?ln'\<lparr>lbr := lbr ?nx\<rparr>, k + 1 := ?nx']) (k + 1))"
      let ?moved = "ls[k := ?ln', k + 1 := ?nx']"
      have m: "\<not> (lsel ?ln \<noteq> 0) \<noteq> (lsel ?nx \<noteq> 0)" using more(1) by simp
      have r: "reflow ls k = (if ?c then if lbr ?nx then ?gone else reflow ?gone (k + 1) else reflow ?moved (k + 1))"
        unfolding unf Let_def if_P [OF go] if_not_P [OF m] if_not_P [OF more(2)] if_not_P [OF more(3)] ..
      have ih: "?c \<Longrightarrow> \<not> lbr ?nx \<Longrightarrow> flows (k + 1) (strips ?gone) (strips (reflow ?gone (k + 1)))"
        "\<not> ?c \<Longrightarrow> flows (k + 1) (strips ?moved) (strips (reflow ?moved (k + 1)))"
        using 1(3,4) [OF go refl refl m more(2) refl more(3) refl refl] by blast+
      have g: "?c \<Longrightarrow> flows k (strips ls) (strips ?gone)" using flows_gone [of k ls] go by simp
      have s: "flows k (strips ls) (strips ?moved)" using flows_moved [of k ls] go by simp
      show ?thesis
      proof (cases ?c)
        case c: True
        show ?thesis
        proof (cases "lbr ?nx")
          case True show ?thesis unfolding r if_P [OF c] if_P [OF True] by (rule g [OF c])
        next
          case False
          show ?thesis unfolding r if_P [OF c] if_not_P [OF False] by (rule flows_trans [OF g [OF c] flows_Suc]) (use ih(1) [OF c False] in simp)
        qed
      next
        case c: False
        show ?thesis unfolding r if_not_P [OF c] by (rule flows_trans [OF s flows_Suc]) (use ih(2) [OF c] in simp)
      qed
    qed
  qed
qed

end
