(* ===== verification/TextEdit.thy ===== *)
theory TextEdit
  imports TextLines
begin

text \<open>
  The text editor, \<open>src/src/edit.c\<close>: its state, the keys, selections, reading and writing a file.  The current line is a
  place in the list of lines, the place behind the last one stands for a null pointer.  Drawing, the help, the
  input of symbols and \<open>copySelect\<close>, which follows pointers through lines that it changes, are left out.
\<close>

section \<open>State\<close>

record editor =
  elines :: "textLine list"
  ecur :: nat
  eline :: int
  ecol :: nat
  ecolcur :: nat
  elinecur :: int
  eposition :: nat
  eoverwrite :: bool

definition initEdit :: editor where
  "initEdit = \<lparr>elines = [\<lparr>ltext = [], lbr = False, lsel = 0\<rparr>], ecur = 0, eline = 0, ecol = 0, ecolcur = 0, elinecur = 0,
     eposition = 0, eoverwrite = False\<rparr>"

definition curl :: "editor \<Rightarrow> textLine" where
  "curl st = elines st ! ecur st"

definition up_line :: "editor \<Rightarrow> editor" where
  "up_line st = st\<lparr>ecur := ecur st - 1, eline := eline st - 1, elinecur := elinecur st - 1\<rparr>"

definition down_line :: "editor \<Rightarrow> editor" where
  "down_line st = st\<lparr>ecur := ecur st + 1, eline := eline st + 1, elinecur := elinecur st + 1\<rparr>"

definition set_position :: "editor \<Rightarrow> editor" where
  "set_position st = st\<lparr>eposition := ecolcur st\<rparr>"

definition go_col :: "nat \<Rightarrow> editor \<Rightarrow> editor" where
  "go_col c st = st\<lparr>ecol := c, ecolcur := measureWidth (take c (ltext (curl st)))\<rparr>"

text \<open>A cursor behind the last column goes to the next line, which is made if need be.\<close>

definition step_over :: "editor \<Rightarrow> editor" where
  "step_over st =
     (if ecolcur st \<ge> MAXLINELEN then
        let ls = (if ecur st + 1 < length (elines st) then elines st else allocNextLine (elines st) (ecur st)) in
        (down_line st)\<lparr>elines := ls, ecol := 0, ecolcur := 0\<rparr>
      else st)"

section \<open>Typing\<close>

definition put_char :: "bool \<Rightarrow> byte list \<Rightarrow> nat \<Rightarrow> byte \<Rightarrow> byte list" where
  "put_char over t c ch = take c t @ ch # drop (if over then c + 1 else c) t"

definition insertChar :: "byte \<Rightarrow> editor \<Rightarrow> editor" where
  "insertChar ch st =
     (let k = ecur st; ln = curl st; t = put_char (eoverwrite st) (ltext ln) (ecol st) ch; c = ecol st + 1;
          cc = measureWidth (take c t); (len, width) = measureLine 0 t MAXLINELEN 0 in
      if len = length t \<and> width < MAXLINELEN then
        st\<lparr>elines := (elines st)[k := ln\<lparr>ltext := t\<rparr>], ecol := c, ecolcur := cc, eposition := cc\<rparr>
      else
        let ls = allocNextLine ((elines st)[k := ln\<lparr>ltext := t\<rparr>]) k;
            ls = ls[k := ln\<lparr>ltext := take len t, lbr := False\<rparr>, k + 1 := (ls ! (k + 1))\<lparr>ltext := drop len t, lbr := lbr ln\<rparr>];
            ls = reflow ls (k + 1) in
        if c > len \<or> cc \<ge> MAXLINELEN then
          set_position (go_col (c - len) ((down_line st)\<lparr>elines := ls\<rparr>))
        else st\<lparr>elines := ls, ecol := c, ecolcur := cc, eposition := cc\<rparr>)"

definition insertStr :: "cstr \<Rightarrow> editor \<Rightarrow> editor" where
  "insertStr s st = fold insertChar s st"

definition key_enter :: "editor \<Rightarrow> editor" where
  "key_enter st =
     (let k = ecur st; ln = curl st; ls = allocNextLine (elines st) k;
          ls = ls[k := ln\<lparr>ltext := take (ecol st) (ltext ln), lbr := True\<rparr>,
                  k + 1 := (ls ! (k + 1))\<lparr>ltext := drop (ecol st) (ltext ln), lbr := lbr ln\<rparr>] in
      set_position ((down_line st)\<lparr>elines := reflow ls (k + 1), ecol := 0, ecolcur := 0\<rparr>))"

section \<open>Moving\<close>

function key_left :: "bool \<Rightarrow> editor \<Rightarrow> editor" where
  "key_left db st =
     (if ecol st \<noteq> 0 then
        let c = ecol st - 1; c = (if indb db (take c (ltext (curl st))) then c - 1 else c) in set_position (go_col c st)
      else if ecur st \<noteq> 0 then
        let st1 = up_line st; st2 = st1\<lparr>ecol := length (ltext (curl st1))\<rparr> in
        if \<not> lbr (curl st2) then set_position (key_left db st2) else set_position (go_col (ecol st2) st2)
      else set_position st)"
  by pat_completeness auto

termination key_left
  by (relation "measure (\<lambda>(db, st). ecur st)") (auto simp: up_line_def)

function key_right :: "bool \<Rightarrow> editor \<Rightarrow> editor" where
  "key_right db st =
     (if ecol st < length (ltext (curl st)) then
        let t = ltext (curl st); c = ecol st + 1; c = (if c < length t \<and> indb db (take c t) then c + 1 else c) in
        set_position (step_over (go_col c st))
      else if ecur st + 1 < length (elines st) then
        let st1 = (down_line st)\<lparr>ecol := 0, ecolcur := 0\<rparr> in
        if \<not> lbr (elines st1 ! (ecur st1 - 1)) then set_position (key_right db st1) else set_position st1
      else set_position st)"
  by pat_completeness auto

termination key_right
  by (relation "measure (\<lambda>(db, st). length (elines st) - ecur st)") (auto simp: down_line_def)

declare key_left.simps [simp del] key_right.simps [simp del]

text \<open>The column a move up or down arrives at.\<close>

definition vertical :: "editor \<Rightarrow> editor" where
  "vertical st =
     (if eposition st = 0 then st\<lparr>ecol := 0, ecolcur := 0\<rparr>
      else let (c, w) = measureLine (ecolcur st) (ltext (curl st)) (eposition st) 2 in
        step_over (st\<lparr>ecol := c, ecolcur := w\<rparr>))"

definition at_margin :: "editor \<Rightarrow> bool" where
  "at_margin st \<longleftrightarrow> ecol st = 0 \<and> eposition st = MAXLINELEN \<and> ecur st \<noteq> 0
     \<and> measureWidth (ltext (elines st ! (ecur st - 1))) = MAXLINELEN"

definition key_up :: "editor \<Rightarrow> editor" where
  "key_up st =
     (let st = (if at_margin st then up_line st else st) in
      if ecur st \<noteq> 0 then vertical (up_line st) else st)"

definition key_down :: "editor \<Rightarrow> editor" where
  "key_down st =
     (let st = (if at_margin st \<and> ltext (curl st) \<noteq> [] then up_line st else st) in
      if ecur st + 1 < length (elines st) then vertical (down_line st) else st)"

definition key_pgup :: "nat \<Rightarrow> editor \<Rightarrow> editor" where
  "key_pgup t_lines st =
     (if ecur st = 0 then set_position st else vertical ((up_line ^^ min (t_lines div 2) (ecur st)) st))"

definition key_pgdn :: "nat \<Rightarrow> editor \<Rightarrow> editor" where
  "key_pgdn t_lines st =
     (if \<not> ecur st + 1 < length (elines st) then set_position st
      else vertical ((down_line ^^ min (t_lines div 2) (length (elines st) - 1 - ecur st)) st))"

definition key_end :: "editor \<Rightarrow> editor" where
  "key_end st = (step_over (go_col (length (ltext (curl st))) st))\<lparr>eposition := MAXLINELEN\<rparr>"

definition key_first :: "editor \<Rightarrow> editor" where
  "key_first st = set_position (st\<lparr>ecol := 0, ecolcur := 0, eline := 0, elinecur := 0, ecur := 0\<rparr>)"

definition key_last :: "editor \<Rightarrow> editor" where
  "key_last st =
     (let n = length (elines st) - 1 in
      set_position (st\<lparr>ecol := 0, ecolcur := 0, eline := int n, elinecur := int n, ecur := n\<rparr>))"

section \<open>Deleting\<close>

definition key_del :: "bool \<Rightarrow> editor \<Rightarrow> editor" where
  "key_del db st =
     (let k = ecur st; c = ecol st; ln = curl st; t = ltext ln; ls = elines st;
          ls' = (if c < length t then
                   ls[k := ln\<lparr>ltext := take c t @ drop (if c + 1 < length t \<and> indb db (take (c + 1) t) then c + 2 else c + 1) t\<rparr>]
                 else if lbr ln then ls[k := ln\<lparr>lbr := False\<rparr>]
                 else if k + 1 < length ls then
                   (let nx = ls ! (k + 1); u = ltext nx in
                    if u \<noteq> [] then
                      ls[k + 1 := nx\<lparr>ltext := drop (if indb db (take 1 u) \<and> length u > 1 then 2 else 1) u\<rparr>]
                    else ls[k + 1 := nx\<lparr>lbr := False\<rparr>])
                 else ls) in
      set_position (st\<lparr>elines := reflow ls' k\<rparr>))"

definition key_backspace :: "bool \<Rightarrow> editor \<Rightarrow> editor" where
  "key_backspace db st = (if ecol st = 0 \<and> ecur st = 0 then st else key_del db (key_left db st))"

definition key_delline :: "editor \<Rightarrow> editor" where
  "key_delline st =
     (let k = ecur st; ls = elines st; ln = curl st; st0 = st\<lparr>ecol := 0, ecolcur := 0\<rparr> in
      set_position
        (if k = 0 \<and> length ls = 1 then st0\<lparr>elines := ls[k := ln\<lparr>ltext := [], lbr := False\<rparr>]\<rparr>
         else let ls1 = (if k \<noteq> 0 \<and> lbr ln then ls[k - 1 := (ls ! (k - 1))\<lparr>lbr := True\<rparr>] else ls);
                  ls2 = remove_at k (keepSelect ls1 k) in
           if k + 1 < length ls then st0\<lparr>elines := ls2\<rparr> else (up_line st0)\<lparr>elines := ls2\<rparr>))"

definition key_kill :: "editor \<Rightarrow> editor" where
  "key_kill st =
     (let k = ecur st; ln = curl st in
      set_position (st\<lparr>elines := reflow ((elines st)[k := ln\<lparr>ltext := take (ecol st) (ltext ln)\<rparr>]) k\<rparr>))"

section \<open>Selections\<close>

definition mark_line :: "nat \<Rightarrow> textLine \<Rightarrow> textLine" where
  "mark_line s l = l\<lparr>lsel := s\<rparr>"

fun unselect_run :: "textLine list \<Rightarrow> textLine list" where
  "unselect_run [] = []"
| "unselect_run (l # ls) = (if lsel l \<noteq> 0 then mark_line 0 l # unselect_run ls else l # ls)"

fun select_until :: "textLine list \<Rightarrow> textLine list" where
  "select_until [] = []"
| "select_until (l # ls) = (if lsel l \<noteq> 0 then l # ls else mark_line 2 l # select_until ls)"

definition select_all :: "textLine list \<Rightarrow> textLine list" where
  "select_all = map (\<lambda>l. if lsel l = 0 then mark_line 2 l else l)"

definition from_selected :: "nat \<Rightarrow> (textLine list \<Rightarrow> textLine list) \<Rightarrow> textLine list \<Rightarrow> textLine list" where
  "from_selected k f ls = take k ls @ f (drop k ls)"

text \<open>The search for the line where the selection was begun: the lines, its place and whether the current line was passed.\<close>

fun select_scan :: "nat \<Rightarrow> nat \<Rightarrow> bool \<Rightarrow> textLine list \<Rightarrow> textLine list \<times> nat option \<times> bool" where
  "select_scan cur i passed [] = ([], None, passed)"
| "select_scan cur i passed (l # ls) =
     (if lsel l = 1 then (l # ls, Some i, passed)
      else let passed' = (passed \<or> i = cur);
               l' = (if lsel l \<noteq> 0 \<and> \<not> passed' then mark_line 0 l else l);
               (r, h, p) = select_scan cur (i + 1) passed' ls in (l' # r, h, p))"

definition editSelect :: "editor \<Rightarrow> editor" where
  "editSelect st =
     (let k = ecur st; (ls, h, passed) = select_scan k 0 False (elines st) in
      st\<lparr>elines :=
        (case h of
           None \<Rightarrow> ls[k := mark_line 1 (ls ! k)]
         | Some h \<Rightarrow>
             if h = k then from_selected h unselect_run ls
             else if passed then from_selected (h + 1) unselect_run (from_selected k select_until ls)
             else take (h + 1) ls @ select_all (take (k - h) (drop (h + 1) ls)) @ unselect_run (drop (k + 1) ls))\<rparr>)"

definition first_selected :: "textLine list \<Rightarrow> nat" where
  "first_selected ls = length (takeWhile (\<lambda>l. lsel l = 0) ls)"

definition clearSelect :: "editor \<Rightarrow> editor" where
  "clearSelect st = st\<lparr>elines := from_selected (first_selected (elines st)) unselect_run (elines st)\<rparr>"

fun erase_run :: "textLine list \<Rightarrow> textLine list" where
  "erase_run [] = []"
| "erase_run (l # ls) =
     (if lsel l \<noteq> 0 then \<lparr>ltext = [], lbr = False, lsel = 0\<rparr> # erase_run ls else l # ls)"

definition deleteSelect :: "editor \<Rightarrow> editor" where
  "deleteSelect st =
     (let ls = elines st; h = first_selected ls; d = int h - int (ecur st) in
      if h = length ls then st
      else st\<lparr>ecur := h, eline := eline st + d, elinecur := elinecur st + d, ecol := 0, ecolcur := 0,
              elines := reflow (from_selected h erase_run ls) h\<rparr>)"

section \<open>Keys\<close>

text \<open>The keys the editor knows, and \<open>doEditKey\<close>.  \<open>Other\<close> are those that change nothing in the text.\<close>

datatype edit_key = Enter | Left | Right | Up | Down | PageUp | PageDown | Home | End | First | Last
  | Backspace | Delete | DeleteLine | Kill | Insert | Select | Redraw | Other

definition decode_key :: "int \<Rightarrow> edit_key" where
  "decode_key c =
     (if c = 10 \<or> c = 13 then Enter
      else if c = 0x104 then Left
      else if c = 0x103 then Right
      else if c = 16 \<or> c = 0x101 then Up
      else if c = 14 \<or> c = 0x102 then Down
      else if c = 2 \<or> c = 0x205 then PageUp
      else if c = 6 \<or> c = 0x206 then PageDown
      else if c = 1 \<or> c = 0x201 then Home
      else if c = 5 \<or> c = 0x204 then End
      else if c = 19 then First
      else if c = 20 then Last
      else if c = 8 \<or> c = 127 then Backspace
      else if c = 4 \<or> c = 0x203 then Delete
      else if c = 25 then DeleteLine
      else if c = 11 then Kill
      else if c = 7 \<or> c = 0x202 then Insert
      else if c = 21 then Select
      else if c = 17 \<or> c = 18 then Redraw
      else Other)"

definition doEditKey :: "bool \<Rightarrow> nat \<Rightarrow> edit_key \<Rightarrow> editor \<Rightarrow> editor" where
  "doEditKey db t_lines key st =
     (case key of
        Enter \<Rightarrow> key_enter st
      | Left \<Rightarrow> key_left db st
      | Right \<Rightarrow> key_right db st
      | Up \<Rightarrow> key_up st
      | Down \<Rightarrow> key_down st
      | PageUp \<Rightarrow> key_pgup t_lines st
      | PageDown \<Rightarrow> key_pgdn t_lines st
      | Home \<Rightarrow> set_position (st\<lparr>ecol := 0, ecolcur := 0\<rparr>)
      | End \<Rightarrow> key_end st
      | First \<Rightarrow> key_first st
      | Last \<Rightarrow> key_last st
      | Backspace \<Rightarrow> key_backspace db st
      | Delete \<Rightarrow> key_del db st
      | DeleteLine \<Rightarrow> key_delline st
      | Kill \<Rightarrow> key_kill st
      | Insert \<Rightarrow> set_position (st\<lparr>eoverwrite := \<not> eoverwrite st\<rparr>)
      | Select \<Rightarrow> set_position (editSelect st)
      | Redraw \<Rightarrow> set_position st
      | Other \<Rightarrow> st)"

section \<open>Files\<close>

definition isprint2 :: "byte \<Rightarrow> bool" where
  "isprint2 c \<longleftrightarrow> c \<ge> 128 \<or> (c \<ge> 32 \<and> c < 127)"

text \<open>The bytes that are typed into the text.\<close>

definition types :: "byte \<Rightarrow> bool" where
  "types c \<longleftrightarrow> isprint2 c \<or> c = 9 \<or> c = 27"

definition insertFromFile :: "byte list \<Rightarrow> editor \<Rightarrow> editor" where
  "insertFromFile f st = fold (\<lambda>ch st. if types ch then insertChar ch st else if ch = 10 then key_enter st else st) f st"

definition insertToFile :: "editor \<Rightarrow> byte list" where
  "insertToFile st =
     (let ls = elines st; k = first_selected ls in
      if k = length ls then content ls else content (takeWhile (\<lambda>l. lsel l \<noteq> 0) (drop k ls)))"

definition find_in :: "cstr \<Rightarrow> editor \<Rightarrow> nat \<Rightarrow> nat option" where
  "find_in s st i =
     (let c = (if i = ecur st then ecol st else 0) in
      map_option (\<lambda>p. c + p + length s) (strstr (zstr (drop c (ltext (elines st ! i)))) s))"

definition searchNextStr :: "cstr \<Rightarrow> editor \<Rightarrow> editor" where
  "searchNextStr s st =
     (let hits = filter (\<lambda>i. find_in s st i \<noteq> None) [ecur st ..< length (elines st)] in
      if s = [] \<or> hits = [] then st
      else let i = hd hits; d = int i - int (ecur st); c = the (find_in s st i);
               st = go_col c (st\<lparr>ecur := i, eline := eline st + d, elinecur := elinecur st + d\<rparr>) in
        st\<lparr>eposition := c\<rparr>)"

text \<open>\<open>gotoline\<close>: one line behind the last is the null pointer, further on it is the last line.\<close>

definition gotoline :: "int \<Rightarrow> editor \<Rightarrow> editor" where
  "gotoline gline st =
     (let n = length (elines st); i = (if gline \<le> 1 then 0 else if gline \<le> int n + 1 then nat gline - 1 else n - 1) in
      st\<lparr>ecur := i, eline := int i, elinecur := int i, eposition := 0, ecol := 0, ecolcur := 0\<rparr>)"

text \<open>
  \<open>redraw\<close> brings the cursor onto the screen and walks to the first line shown; \<open>None\<close> when it follows a null
  pointer.
\<close>

definition redraw :: "int \<Rightarrow> editor \<Rightarrow> editor option" where
  "redraw t_lines st =
     (let l = (if elinecur st \<ge> t_lines - 1 then t_lines - 2 else elinecur st); l = (if l < 0 then 0 else l) in
      if l > (if ecur st < length (elines st) then int (ecur st) + 1 else 0) then None
      else Some (st\<lparr>elinecur := l\<rparr>))"

text \<open>
  The line that says where an article comes from, when an article is changed: the names are those of the system, \<open>mode_edit\<close>
  whether an article is changed.
\<close>

definition found :: "nat option option \<Rightarrow> bool" where
  "found r \<longleftrightarrow> (case r of Some (Some _) \<Rightarrow> True | _ \<Rightarrow> False)"

definition editOrigin :: "bool \<Rightarrow> cstr \<Rightarrow> cstr \<Rightarrow> byte list \<Rightarrow> bool" where
  "editOrigin mode_edit name domain t \<longleftrightarrow>
     mode_edit \<and> t \<noteq> [] \<and> hd t \<noteq> 58 \<and>
     (found (strnstr t ([58, 0xa3, 0xae] @ name @ [32] @ domain)) \<and> found (strnstr t (lit ''[FROM:''))
      \<or> found (strnstr t ([58, 0xa3, 0xae] @ name @ lit '' http://'' @ domain)) \<and> found (strnstr t (lit '' [FROM:'')))"

lemma parse_progress:
  "c \<noteq> 13 \<Longrightarrow> c \<noteq> 10 \<Longrightarrow> Suc (length q) - fst (measureLine 0 (c # q) MAXLINELEN 0) < Suc (length q)"
  using measureLine_pos [of "c # q" 0] by simp

text \<open>\<open>parseEdit\<close>: the lines before the last, the last one, the line of origin taken out.\<close>

function parse_loop ::
  "(byte list \<Rightarrow> bool) \<Rightarrow> byte list \<Rightarrow> textLine list \<Rightarrow> textLine \<Rightarrow> cstr \<Rightarrow> textLine list \<times> cstr" where
  "parse_loop origin p pre ln saved =
     (case p of
        [] \<Rightarrow> (pre @ [ln], saved)
      | c # q \<Rightarrow>
          if c = 13 then parse_loop origin q pre ln saved
          else if c = 10 then
            if origin (ltext ln) then
              parse_loop origin q pre (ln\<lparr>ltext := [], lbr := False\<rparr>) (strsncpy (zstr (ltext ln)) (min (int (length (ltext ln)) + 1) 250))
            else parse_loop origin q (pre @ [ln\<lparr>lbr := True\<rparr>]) (new_line ln) saved
          else
            let (pre, ln) = (if ltext ln \<noteq> [] then (pre @ [ln], new_line ln) else (pre, ln));
                n = fst (measureLine 0 p MAXLINELEN 0) in
            parse_loop origin (drop n p) pre (ln\<lparr>ltext := take n p\<rparr>) saved)"
  by pat_completeness auto

termination parse_loop
  by (relation "measure (\<lambda>(origin, p, pre, ln, saved). length p)") (auto simp: parse_progress)

declare parse_loop.simps [simp del]

definition parseEdit :: "(byte list \<Rightarrow> bool) \<Rightarrow> byte list \<Rightarrow> editor \<Rightarrow> editor \<times> cstr" where
  "parseEdit origin f st =
     (let (ls, saved) = parse_loop origin f (butlast (elines st)) (last (elines st)) [] in (st\<lparr>elines := ls\<rparr>, saved))"

definition saveEdit :: "editor \<Rightarrow> cstr \<Rightarrow> byte list" where
  "saveEdit st saved =
     content (elines st)
     @ (if saved = [] then [] else (if lbr (last (elines st)) then [] else [10]) @ saved @ [10])"

section \<open>Editing\<close>

text \<open>What the user does between two drawings: a key, the escape sequences, with what is asked for.\<close>

datatype edit_event = Press int | Esc | Colour bool nat | Plain | ClearSelection | DeleteSelection | ReadClip "byte list"
  | Find cstr | GotoLine int

definition doEdit :: "bool \<Rightarrow> nat \<Rightarrow> edit_event \<Rightarrow> editor \<Rightarrow> editor" where
  "doEdit db t_lines ev st =
     (case ev of
        Press ch \<Rightarrow>
          if ch < 256 \<and> (isprint2 (word_of_int ch) \<or> ch = 9) then insertChar (word_of_int ch) st
          else doEditKey db t_lines (decode_key ch) st
      | Esc \<Rightarrow> insertChar 27 st
      | Colour back i \<Rightarrow> if i > 7 then st else insertStr [27, 91, if back then 52 else 51, 48 + of_nat i, 109] st
      | Plain \<Rightarrow> insertStr [27, 91, 48, 109] st
      | ClearSelection \<Rightarrow> clearSelect st
      | DeleteSelection \<Rightarrow> deleteSelect st
      | ReadClip f \<Rightarrow> insertFromFile f st
      | Find s \<Rightarrow> searchNextStr s st
      | GotoLine n \<Rightarrow> gotoline n st)"

text \<open>The states of the editor with a text: drawn, then changed.\<close>

inductive editing :: "bool \<Rightarrow> int \<Rightarrow> editor \<Rightarrow> editor \<Rightarrow> bool" for db t_lines start where
  edit_start: "editing db t_lines start start"
| edit_event: "editing db t_lines start st \<Longrightarrow> redraw t_lines st = Some st' \<Longrightarrow>
    editing db t_lines start (doEdit db (nat t_lines) ev st')"

end
