(* ===== verification/EditProps.thy ===== *)
theory EditProps
  imports TextEdit
begin

text \<open>
  What the keys of the text editor do to the text and the cursor.  \<open>offset\<close> is where in the file the cursor stands.
\<close>

section \<open>Contents and places\<close>

definition offset :: "editor \<Rightarrow> nat" where
  "offset st = length (content (take (ecur st) (elines st))) + ecol st"

abbreviation text_of :: "editor \<Rightarrow> byte list" where
  "text_of st \<equiv> content (elines st)"

definition lines_fit :: "textLine list \<Rightarrow> bool" where
  "lines_fit ls \<longleftrightarrow> list_all fit (strips ls)"

definition place_ok :: "editor \<Rightarrow> bool" where
  "place_ok st \<longleftrightarrow> ecur st < length (elines st) \<and> eline st = int (ecur st) \<and> elinecur st \<le> eline st \<and> lines_fit (elines st)"

definition edit_inv :: "editor \<Rightarrow> bool" where
  "edit_inv st \<longleftrightarrow> place_ok st \<and> ecol st \<le> length (ltext (curl st)) \<and> ecolcur st = measureWidth (take (ecol st) (ltext (curl st)))"

lemma content_append [simp]: "content (a @ b) = content a @ content b"
  by (simp add: content_def)

lemma content_Cons [simp]: "content (l # ls) = line_bytes l @ content ls"
  by (simp add: content_def)

lemma content_Nil [simp]: "content [] = []"
  by (simp add: content_def)

lemma content_strips_eq: "strips a = strips b \<Longrightarrow> content a = content b"
  by (simp add: content_strips)

lemma strip_eq: "strip a = strip b \<longleftrightarrow> ltext a = ltext b \<and> lbr a = lbr b"
  by (simp add: strip_def)

lemma split_line: "k < length ls \<Longrightarrow> ls = take k ls @ ls ! k # drop (k + 1) ls"
  by (simp add: id_take_nth_drop)

lemma content_split: "k < length ls \<Longrightarrow> content ls = content (take k ls) @ line_bytes (ls ! k) @ content (drop (k + 1) ls)"
  using arg_cong [OF split_line, of k ls content] by simp

lemma content_update: "k < length ls \<Longrightarrow> content (ls[k := l]) = content (take k ls) @ line_bytes l @ content (drop (k + 1) ls)"
  by (simp add: upd_conv_take_nth_drop)

lemma lines_fit_simps [simp]:
  "lines_fit (a @ b) \<longleftrightarrow> lines_fit a \<and> lines_fit b" "lines_fit (l # ls) \<longleftrightarrow> fit (strip l) \<and> lines_fit ls" "lines_fit []"
  by (simp_all add: lines_fit_def)

lemma lines_fit_split: "k < length ls \<Longrightarrow> lines_fit ls \<longleftrightarrow> lines_fit (take k ls) \<and> fit (strip (ls ! k)) \<and> lines_fit (drop (k + 1) ls)"
  using arg_cong [OF split_line, of k ls lines_fit] by simp

lemma lines_fit_update: "k < length ls \<Longrightarrow> lines_fit ls \<Longrightarrow> fit (strip l) \<Longrightarrow> lines_fit (ls[k := l])"
  by (simp add: upd_conv_take_nth_drop lines_fit_split [of k])

lemma lines_fit_nth: "k < length ls \<Longrightarrow> lines_fit ls \<Longrightarrow> fit (strip (ls ! k))"
  by (simp add: lines_fit_split [of k])

lemma lines_fit_strips: "strips a = strips b \<Longrightarrow> lines_fit a = lines_fit b"
  by (simp add: lines_fit_def)

lemma reflow_facts:
  shows "content (reflow ls k) = content ls" "lines_fit ls \<Longrightarrow> lines_fit (reflow ls k)"
    "content (take k (reflow ls k)) = content (take k ls)"
    "k < length ls \<Longrightarrow> k < length (reflow ls k)" "k < length ls \<Longrightarrow> \<exists>s. ltext (reflow ls k ! k) = ltext (ls ! k) @ s"
    "j < k \<Longrightarrow> k < length ls \<Longrightarrow> strip (reflow ls k ! j) = strip (ls ! j)"
proof -
  note f = reflow_flows [of k ls, unfolded flows_def]
  show "content (reflow ls k) = content ls" using f by (simp add: content_strips)
  show "lines_fit ls \<Longrightarrow> lines_fit (reflow ls k)" using f by (simp add: lines_fit_def)
  have t: "take k (strips (reflow ls k)) = take k (strips ls)" using f by simp
  then show "content (take k (reflow ls k)) = content (take k ls)" by (simp add: content_strips take_map)
  show l: "k < length ls \<Longrightarrow> k < length (reflow ls k)" using f by simp
  show "k < length ls \<Longrightarrow> \<exists>s. ltext (reflow ls k ! k) = ltext (ls ! k) @ s" using f by auto
  show "j < k \<Longrightarrow> k < length ls \<Longrightarrow> strip (reflow ls k ! j) = strip (ls ! j)"
    using arg_cong [OF t, of "\<lambda>x. x ! j"] l by simp
qed

text \<open>Making a line in the middle of another one.\<close>

lemma alloc_split:
  assumes "k < length ls"
  shows "(allocNextLine ls k)[k := a, k + 1 := b] = take k ls @ [a, b] @ drop (k + 1) ls"
proof -
  have "allocNextLine ls k = take k ls @ ls ! k # new_line (ls ! k) # drop (k + 1) ls"
    using assms by (simp add: allocNextLine_def take_Suc_conv_app_nth)
  then show ?thesis using assms by (simp add: list_update_append)
qed

lemma alloc_line:
  assumes "k < length ls"
  shows "length (allocNextLine ls k) = length ls + 1" "content (allocNextLine ls k) = content ls"
    "lines_fit (allocNextLine ls k) = lines_fit ls" "content (take (k + 1) (allocNextLine ls k)) = content (take (k + 1) ls)"
proof -
  have "ls = take (k + 1) ls @ drop (k + 1) ls" by simp
  then have "content ls = content (take (k + 1) ls) @ content (drop (k + 1) ls)"
    "lines_fit ls = (lines_fit (take (k + 1) ls) \<and> lines_fit (drop (k + 1) ls))"
    by (metis content_append, metis lines_fit_simps(1))
  then show "length (allocNextLine ls k) = length ls + 1" "content (allocNextLine ls k) = content ls"
    "lines_fit (allocNextLine ls k) = lines_fit ls" "content (take (k + 1) (allocNextLine ls k)) = content (take (k + 1) ls)"
    using assms by (auto simp: allocNextLine_def new_line_def line_bytes_def strip_def fit_def)
qed

lemma inv_go_col: "place_ok st \<Longrightarrow> c \<le> length (ltext (curl st)) \<Longrightarrow> edit_inv (go_col c st)"
  by (simp add: edit_inv_def go_col_def place_ok_def curl_def)

lemma inv_col0: "place_ok st \<Longrightarrow> edit_inv (st\<lparr>ecol := 0, ecolcur := 0\<rparr>)"
  using inv_go_col [of st 0] by (simp add: go_col_def measureWidth_def)

lemma inv_zero: "place_ok st \<Longrightarrow> ecol st = 0 \<Longrightarrow> ecolcur st = 0 \<Longrightarrow> edit_inv st"
  by (simp add: edit_inv_def measureWidth_def)

lemma inv_set_position [simp]: "edit_inv (set_position st) = edit_inv st" "edit_inv (st\<lparr>eposition := p\<rparr>) = edit_inv st"
  by (simp_all add: edit_inv_def set_position_def place_ok_def curl_def)

lemma place_up: "place_ok st \<Longrightarrow> ecur st \<noteq> 0 \<Longrightarrow> place_ok (up_line st)"
  by (auto simp: place_ok_def up_line_def)

lemma place_down: "place_ok st \<Longrightarrow> ecur st + 1 < length (elines st) \<Longrightarrow> place_ok (down_line st)"
  by (auto simp: place_ok_def down_line_def)

lemma inv_step_over:
  assumes "edit_inv st"
  shows "edit_inv (step_over st)"
proof (cases "ecolcur st \<ge> MAXLINELEN")
  case True
  let ?ls = "if ecur st + 1 < length (elines st) then elines st else allocNextLine (elines st) (ecur st)"
  have "place_ok ((down_line st)\<lparr>elines := ?ls\<rparr>)"
    using assms alloc_line [of "ecur st" "elines st"] by (auto simp: edit_inv_def place_ok_def down_line_def)
  then show ?thesis using inv_col0 [of "(down_line st)\<lparr>elines := ?ls\<rparr>"] True by (simp add: step_over_def Let_def)
qed (use assms in \<open>simp add: step_over_def\<close>)

section \<open>Moving\<close>

lemma inv_parts:
  assumes "edit_inv st"
  shows "place_ok st" "ecur st < length (elines st)" "ecol st \<le> length (ltext (curl st))" "lines_fit (elines st)"
    "fit (strip (curl st))" "ecolcur st = measureWidth (take (ecol st) (ltext (curl st)))"
  using assms lines_fit_nth by (auto simp: edit_inv_def place_ok_def curl_def)

lemma inv_vertical:
  assumes "place_ok st"
  shows "edit_inv (vertical st)"
proof (cases "eposition st = 0")
  case True then show ?thesis using inv_col0 [OF assms] by (simp add: vertical_def)
next
  case False
  obtain c w where m: "measureLine (ecolcur st) (ltext (curl st)) (eposition st) 2 = (c, w)"
    by (cases "measureLine (ecolcur st) (ltext (curl st)) (eposition st) 2")
  have "fit (strip (curl st))" using assms lines_fit_nth by (auto simp: place_ok_def curl_def)
  then have "w = measureWidth (take c (ltext (curl st)))" "c \<le> length (ltext (curl st))"
    using measureLine_prefix(4) [OF m] measureLine_le(1) [of "ecolcur st" "ltext (curl st)" "eposition st" 2] m
    by (auto simp: fit_def)
  then have "edit_inv (st\<lparr>ecol := c, ecolcur := w\<rparr>)" using inv_go_col [OF assms, of c] by (simp add: go_col_def)
  then show ?thesis using False m inv_step_over by (simp add: vertical_def)
qed

text \<open>Moving left arrives before what a deletion then takes away.\<close>

definition before :: "bool \<Rightarrow> editor \<Rightarrow> nat \<Rightarrow> bool" where
  "before db st p \<longleftrightarrow>
     (let t = ltext (curl st); c = ecol st in
      c < length t \<and> p = offset st + (if c + 1 < length t \<and> indb db (take (c + 1) t) then 2 else 1)
      \<or> c = length t \<and> lbr (curl st) \<and> p = offset st + 1)"

definition between :: "bool \<Rightarrow> editor \<Rightarrow> bool" where
  "between db st \<longleftrightarrow> ecol st = length (ltext (curl st)) \<or> \<not> indb db (take (ecol st) (ltext (curl st)))"

lemma state_simps [simp]:
  "elines (set_position st) = elines st" "elines (go_col c st) = elines st" "ecol (go_col c st) = c"
  "curl (set_position st) = curl st" "curl (go_col c st) = curl st" "offset (set_position st) = offset st"
  "before db (set_position st) p = before db st p" "elines (up_line st) = elines st" "elines (down_line st) = elines st"
  "ecur (up_line st) = ecur st - 1" "ecur (down_line st) = ecur st + 1" "ecur (set_position st) = ecur st" "ecur (go_col c st) = ecur st"
  "eline (set_position st) = eline st" "elinecur (set_position st) = elinecur st" "ecolcur (set_position st) = ecolcur st"
  "ecol (set_position st) = ecol st" "eoverwrite (set_position st) = eoverwrite st" "eoverwrite (go_col c st) = eoverwrite st"
  "eoverwrite (down_line st) = eoverwrite st" "eoverwrite (up_line st) = eoverwrite st"
  by (simp_all add: set_position_def go_col_def curl_def offset_def before_def up_line_def down_line_def)

lemma indb_pos: "indb db (take c t) \<Longrightarrow> 0 < c"
  by (cases c) (simp_all add: indb_def)

lemma content_take_Suc:
  "k < length ls \<Longrightarrow> content (take (k + 1) ls) = content (take k ls) @ line_bytes (ls ! k)"
  by (simp add: take_Suc_conv_app_nth)

lemma key_left_col:
  assumes "place_ok st" "ecol st \<noteq> 0" "ecol st \<le> length (ltext (curl st))"
  shows "edit_inv (key_left db st)" "elines (key_left db st) = elines st" "between db st \<Longrightarrow> before db (key_left db st) (offset st)"
proof -
  let ?t = "ltext (curl st)" and ?c = "ecol st - 1"
  let ?d = "if indb db (take ?c ?t) then ?c - 1 else ?c"
  have r: "key_left db st = set_position (go_col ?d st)" using assms(2) by (subst key_left.simps) (simp add: Let_def)
  show "edit_inv (key_left db st)" using assms by (simp only: r inv_set_position) (rule inv_go_col; auto)
  show "elines (key_left db st) = elines st" by (simp add: r)
  show "between db st \<Longrightarrow> before db (key_left db st) (offset st)"
  proof (cases "indb db (take ?c ?t)")
    case True
    then obtain k where "ecol st = Suc (Suc k)" using indb_pos [OF True] by (cases "ecol st"; cases "ecol st - 1") auto
    then show ?thesis using assms(3) True by (simp add: r before_def offset_def)
  next
    case False
    obtain k where "ecol st = Suc k" using assms(2) by (cases "ecol st") auto
    then show "between db st \<Longrightarrow> before db (key_left db st) (offset st)"
      using assms(3) False by (auto simp: r before_def between_def offset_def)
  qed
qed

lemma key_left_facts:
  assumes "place_ok st" "ecol st \<le> length (ltext (curl st))" "ecol st = 0 \<longrightarrow> ecolcur st = 0"
  shows "edit_inv (key_left db st) \<and> elines (key_left db st) = elines st
    \<and> (0 < offset st \<longrightarrow> between db st \<longrightarrow> before db (key_left db st) (offset st))"
  using assms
proof (induction db st rule: key_left.induct)
  case (1 db st)
  show ?case
  proof (cases "ecol st = 0")
    case False then show ?thesis using key_left_col [OF 1(2)] 1(3) by simp
  next
    case col: True
    let ?st1 = "up_line st" let ?st2 = "?st1\<lparr>ecol := length (ltext (curl ?st1))\<rparr>"
    have c2: "curl ?st2 = curl ?st1" "elines ?st2 = elines st" by (simp_all add: curl_def)
    show ?thesis
    proof (cases "ecur st = 0")
      case True
      then have "key_left db st = set_position st" "offset st = 0" using col by (subst key_left.simps, simp, simp add: offset_def)
      moreover have "edit_inv st" using 1(2,4) col by (simp add: edit_inv_def measureWidth_def)
      ultimately show ?thesis by simp
    next
      case False
      have pl: "place_ok ?st1" by (rule place_up [OF 1(2) False])
      have off: "offset st = length (content (take (ecur st - 1) (elines st))) + length (line_bytes (curl ?st1))"
        using content_take_Suc [of "ecur st - 1" "elines st"] False 1(2) col by (auto simp: offset_def curl_def place_ok_def)
      show ?thesis
      proof (cases "lbr (curl ?st2)")
        case True
        have "go_col (ecol ?st2) ?st2 = go_col (length (ltext (curl ?st1))) ?st1" by (simp add: go_col_def curl_def)
        then have r: "key_left db st = set_position (go_col (length (ltext (curl ?st1))) ?st1)"
          using True col False by (subst key_left.simps) (simp add: Let_def)
        then show ?thesis using inv_go_col [OF pl order_refl] True off c2
          by (simp add: before_def offset_def line_bytes_def)
      next
        case nbr: False
        have r: "key_left db st = set_position (key_left db ?st2)"
          using nbr col False by (subst key_left.simps) (simp add: Let_def)
        have "place_ok ?st2" using pl by (simp add: place_ok_def)
        moreover have "ecol ?st2 = 0 \<longrightarrow> ecolcur ?st2 = 0" using 1(4) col by (simp add: up_line_def)
        moreover have "offset ?st2 = offset st" using off nbr by (simp add: offset_def line_bytes_def curl_def)
        moreover have "between db ?st2" by (simp add: between_def curl_def)
        ultimately show ?thesis using 1(1) [of ?st1 ?st2] col False nbr c2 by (simp add: r)
      qed
    qed
  qed
qed

lemma inv_key_left: "edit_inv st \<Longrightarrow> edit_inv (key_left db st)"
  using key_left_facts [of st db] by (auto simp: edit_inv_def measureWidth_def)

lemma inv_key_right: "edit_inv st \<Longrightarrow> edit_inv (key_right db st)"
proof (induction db st rule: key_right.induct)
  case (1 db st)
  note p = inv_parts [OF 1(2)]
  show ?case
  proof (cases "ecol st < length (ltext (curl st))")
    case True
    then show ?thesis using p(1) inv_go_col inv_step_over by (subst key_right.simps) (simp add: Let_def)
  next
    case col: False
    show ?thesis
    proof (cases "ecur st + 1 < length (elines st)")
      case True
      note iv = inv_col0 [OF place_down [OF p(1) True]]
      then show ?thesis using 1(1) [OF col True refl] col True by (subst key_right.simps) (simp add: Let_def)
    next
      case False then show ?thesis using col 1(2) by (subst key_right.simps) simp
    qed
  qed
qed

lemma place_up_iter: "place_ok st \<Longrightarrow> n \<le> ecur st \<Longrightarrow> place_ok ((up_line ^^ n) st) \<and> ecur ((up_line ^^ n) st) = ecur st - n"
  by (induction n) (auto simp: place_up)

lemma place_down_iter:
  "place_ok st \<Longrightarrow> ecur st + n < length (elines st) \<Longrightarrow>
    place_ok ((down_line ^^ n) st) \<and> ecur ((down_line ^^ n) st) = ecur st + n \<and> elines ((down_line ^^ n) st) = elines st"
  by (induction n) (auto simp: place_down)

lemma inv_updown:
  assumes "edit_inv st"
  shows "edit_inv (key_up st)" "edit_inv (key_down st)" "edit_inv (key_pgup n st)" "edit_inv (key_pgdn n st)"
    "edit_inv (key_end st)" "edit_inv (key_first st)" "edit_inv (key_last st)"
proof -
  note p = inv_parts [OF assms]
  have up: "edit_inv (up_line st)" if "at_margin st"
    using place_up [OF p(1)] p(6) that by (simp add: at_margin_def edit_inv_def measureWidth_def) (simp add: up_line_def)
  have m: "edit_inv (if b \<and> at_margin st then up_line st else st)" for b
    using up assms by simp
  show "edit_inv (key_pgup n st)"
    using place_up_iter [OF p(1), of "min (n div 2) (ecur st)"] inv_vertical assms by (simp add: key_pgup_def)
  show "edit_inv (key_pgdn n st)"
    using place_down_iter [OF p(1), of "min (n div 2) (length (elines st) - 1 - ecur st)"] inv_vertical assms
    by (simp add: key_pgdn_def)
  show "edit_inv (key_end st)" using inv_step_over [OF inv_go_col [OF p(1) order_refl]] by (simp add: key_end_def)
  have "edit_inv (st\<lparr>ecol := 0, ecolcur := 0, eline := int k, elinecur := int k, ecur := k\<rparr>)" if "k < length (elines st)" for k
    using p(1) that by (simp add: edit_inv_def place_ok_def measureWidth_def)
  note k = this
  have n: "0 < length (elines st)" "length (elines st) - 1 < length (elines st)" using p(2) by linarith+
  show "edit_inv (key_first st)" using k [OF n(1)] by (simp add: key_first_def)
  show "edit_inv (key_last st)" using k [OF n(2)] by (simp add: key_last_def Let_def)
  show "edit_inv (key_up st)"
    using m [of True] inv_vertical place_up inv_parts(1) by (simp add: key_up_def Let_def)
  show "edit_inv (key_down st)"
    using m [of "ltext (curl st) \<noteq> []"] inv_vertical place_down inv_parts(1) by (simp add: key_down_def Let_def conj_commute)
qed

section \<open>Typing\<close>

text \<open>The text before and behind the cursor.\<close>

definition rest_of :: "editor \<Rightarrow> byte list" where
  "rest_of st = (if lbr (curl st) then [10] else []) @ content (drop (ecur st + 1) (elines st))"

lemma text_parts:
  assumes "ecur st < length (elines st)"
  shows "text_of st = content (take (ecur st) (elines st)) @ ltext (curl st) @ rest_of st"
  using content_split [OF assms] by (simp add: rest_of_def line_bytes_def curl_def)

lemma text_before:
  assumes "ecur st < length (elines st)" "ecol st \<le> length (ltext (curl st))"
  shows "take (offset st) (text_of st) = content (take (ecur st) (elines st)) @ take (ecol st) (ltext (curl st))"
  using assms(2) by (simp add: text_parts [OF assms(1)] offset_def)

lemma text_behind:
  assumes "ecur st < length (elines st)" "ecol st + d \<le> length (ltext (curl st))"
  shows "drop (offset st + d) (text_of st) = drop (ecol st + d) (ltext (curl st)) @ rest_of st"
  using assms(2) by (simp add: text_parts [OF assms(1)] offset_def)

lemma put_char_facts:
  assumes "c \<le> length t"
  shows "take (Suc c) (put_char over t c ch) = take c t @ [ch]" "length (put_char over t c ch) \<le> Suc (length t)"
    "Suc c \<le> length (put_char over t c ch)"
  using assms by (auto simp: put_char_def)

lemma set_put_char: "set (put_char over t c ch) \<subseteq> insert ch (set t)"
  by (auto simp: put_char_def dest: in_set_takeD in_set_dropD split: if_splits)

text \<open>Breaking a line in two, the second half flowing on.\<close>

lemma broken_lines:
  fixes ls :: "textLine list" and b1 b2 :: bool
  assumes "k < length ls" "lines_fit (take k ls) \<and> lines_fit (drop (k + 1) ls)" "fit (t, True)" "fit (u, True)"
  defines "ls' \<equiv> reflow ((allocNextLine ls k)[k := (ls ! k)\<lparr>ltext := t, lbr := b1\<rparr>,
      k + 1 := (allocNextLine ls k ! (k + 1))\<lparr>ltext := u, lbr := b2\<rparr>]) (k + 1)"
  shows "content ls' = content (take k ls) @ t @ (if b1 then [10] else []) @ u @ (if b2 then [10] else []) @ content (drop (k + 1) ls)"
    "lines_fit ls'" "k + 1 < length ls'" "content (take k ls') = content (take k ls)"
    "content (take (k + 1) ls') = content (take k ls) @ t @ (if b1 then [10] else [])"
    "ltext (ls' ! k) = t" "lbr (ls' ! k) = b1" "\<exists>s. ltext (ls' ! (k + 1)) = u @ s"
proof -
  let ?a = "(ls ! k)\<lparr>ltext := t, lbr := b1\<rparr>" and ?b = "(allocNextLine ls k ! (k + 1))\<lparr>ltext := u, lbr := b2\<rparr>"
  let ?ls = "take k ls @ [?a, ?b] @ drop (k + 1) ls"
  have r: "ls' = reflow ?ls (k + 1)" using alloc_split [OF assms(1)] by (simp add: ls'_def)
  have k: "k + 1 < length ?ls" "?ls ! k = ?a" "?ls ! (k + 1) = ?b" using assms(1) by (simp_all add: nth_append)
  have t1: "take (k + 1) ?ls = take k ls @ [?a]" using assms(1) by simp
  note f = reflow_facts(1-5) [where ls = ?ls and k = "k + 1"] reflow_facts(6) [where ls = ?ls and k = "k + 1" and j = k]
  show "content ls' = content (take k ls) @ t @ (if b1 then [10] else []) @ u @ (if b2 then [10] else []) @ content (drop (k + 1) ls)"
    using f(1) by (simp add: r line_bytes_def)
  show "lines_fit ls'" using f(2) assms(1-4) by (simp add: r strip_def fit_def)
  show "k + 1 < length ls'" using f(4) k by (simp add: r)
  show c1: "content (take (k + 1) ls') = content (take k ls) @ t @ (if b1 then [10] else [])"
    using f(3) t1 by (simp add: r line_bytes_def)
  show n: "ltext (ls' ! k) = t" "lbr (ls' ! k) = b1" using f(6) k by (simp_all add: r strip_eq)
  show "content (take k ls') = content (take k ls)"
    using c1 content_take_Suc [of k ls'] \<open>k + 1 < length ls'\<close> n by (simp add: line_bytes_def)
  show "\<exists>s. ltext (ls' ! (k + 1)) = u @ s" using f(5) k by (simp add: r)
qed

lemma fit_mono: "fit (t, b) = fit (t, b')"
  by (simp add: fit_def)

lemma insertChar_facts:
  assumes inv: "edit_inv st" and ch: "ch \<noteq> 10" "ch \<noteq> 13"
  shows "edit_inv (insertChar ch st) \<and> offset (insertChar ch st) = offset st + 1
    \<and> eoverwrite (insertChar ch st) = eoverwrite st
    \<and> text_of (insertChar ch st) = content (take (ecur st) (elines st))
        @ put_char (eoverwrite st) (ltext (curl st)) (ecol st) ch @ rest_of st"
proof -
  note p = inv_parts [OF inv]
  define t where "t = put_char (eoverwrite st) (ltext (curl st)) (ecol st) ch"
  define k c where "k = ecur st" and "c = ecol st + 1"
  define cc where "cc = measureWidth (take c t)"
  obtain len w where m: "measureLine 0 t MAXLINELEN 0 = (len, w)" by (cases "measureLine 0 t MAXLINELEN 0")
  note tf = put_char_facts [OF p(3), of "eoverwrite st" ch, folded t_def]
  have set_t: "10 \<notin> set t" "13 \<notin> set t"
    using set_put_char [of "eoverwrite st" "ltext (curl st)" "ecol st" ch] p(5) ch by (auto simp: t_def fit_def)
  have len: "len \<le> length t" "len \<le> MAXLINELEN" using measureLine_le [of 0 t MAXLINELEN 0] m by simp_all
  have lt: "length t \<le> Suc MAXLINELEN" using tf(2) p(5) by (simp add: fit_def)
  have "t \<noteq> []" using tf(3) by auto
  then have pos: "0 < len" using measureLine_pos [of t 0] set_t m by (cases t) auto
  have k: "k < length (elines st)" using p(2) by (simp add: k_def)
  show ?thesis
  proof (cases "len = length t \<and> w < MAXLINELEN")
    case True
    let ?ls = "(elines st)[k := (curl st)\<lparr>ltext := t\<rparr>]"
    have r: "insertChar ch st = st\<lparr>elines := ?ls, ecol := c, ecolcur := cc, eposition := cc\<rparr>"
      using True m by (simp add: insertChar_def Let_def t_def k_def c_def cc_def)
    have f: "fit (strip ((curl st)\<lparr>ltext := t\<rparr>))" using True len set_t by (simp add: fit_def)
    have "edit_inv (insertChar ch st)"
      using p(1) k f lines_fit_update [OF k p(4) f] tf(3)
      by (simp add: r edit_inv_def place_ok_def curl_def k_def c_def cc_def)
    then show ?thesis using k content_update [OF k]
      by (simp add: r offset_def k_def c_def t_def [symmetric] rest_of_def line_bytes_def)
  next
    case split: False
    let ?ls = "(elines st)[k := (curl st)\<lparr>ltext := t\<rparr>]"
    define ls' where "ls' = reflow ((allocNextLine ?ls k)[k := (?ls ! k)\<lparr>ltext := take len t, lbr := False\<rparr>,
      k + 1 := (allocNextLine ?ls k ! (k + 1))\<lparr>ltext := drop len t, lbr := lbr (curl st)\<rparr>]) (k + 1)"
    have fits: "fit (take len t, True)" "fit (drop len t, True)"
      using len lt pos set_t by (auto simp: fit_def dest: in_set_takeD in_set_dropD)
    have "lines_fit (take k ?ls) \<and> lines_fit (drop (k + 1) ?ls)" using p(4) lines_fit_split [OF k] by simp
    note b = broken_lines [of k ?ls "take len t" "drop len t" False "lbr (curl st)", folded ls'_def, OF _ this fits]
    have nk: "(?ls ! k)\<lparr>ltext := u, lbr := b\<rparr> = (curl st)\<lparr>ltext := u, lbr := b\<rparr>" for u b using k by simp
    have r: "insertChar ch st = (if c > len \<or> cc \<ge> MAXLINELEN
        then set_position (go_col (c - len) ((down_line st)\<lparr>elines := ls'\<rparr>))
        else st\<lparr>elines := ls', ecol := c, ecolcur := cc, eposition := cc\<rparr>)"
      unfolding insertChar_def Let_def t_def [symmetric] k_def [symmetric] c_def [symmetric] cc_def [symmetric] ls'_def m
      by (simp only: prod.case if_not_P [OF split] nk)
    have tx: "content ls' = content (take k (elines st)) @ t @ rest_of st" "content (take k ls') = content (take k (elines st))"
        "content (take (k + 1) ls') = content (take k (elines st)) @ take len t"
      using b(1,4,5) k by (simp_all add: rest_of_def k_def flip: append_assoc)
    have "place_ok ((down_line st)\<lparr>elines := ls'\<rparr>)" "place_ok (st\<lparr>elines := ls'\<rparr>)"
      using p(1) b(2,3) k by (auto simp: place_ok_def down_line_def k_def)
    note pl = this
    show ?thesis
    proof (cases "c > len \<or> cc \<ge> MAXLINELEN")
      case True
      then have r1: "insertChar ch st = set_position (go_col (c - len) ((down_line st)\<lparr>elines := ls'\<rparr>))" by (simp add: r)
      have lc: "len \<le> c" using True measureLine_prefix(1) [OF m, of c] by (force simp: cc_def)
      have "curl ((down_line st)\<lparr>elines := ls'\<rparr>) = ls' ! (k + 1)" by (simp add: curl_def k_def)
      moreover have "c - len \<le> length (ltext (ls' ! (k + 1)))" using b(8) k tf(3) by (force simp: c_def)
      ultimately have "edit_inv (insertChar ch st)" using inv_go_col [OF pl(1), of "c - len"] by (simp add: r1)
      moreover have "offset (insertChar ch st) = offset st + 1"
        using tx(3) lc len(1) by (simp add: r1 offset_def k_def) (simp add: c_def)
      ultimately show ?thesis using tx(1) by (simp add: r1 k_def t_def)
    next
      case False
      have "ltext (curl (st\<lparr>elines := ls'\<rparr>)) = take len t" using b(6) k by (simp add: curl_def k_def)
      then have "edit_inv (insertChar ch st)"
        using False inv_go_col [OF pl(2), of c] tf(3) by (simp add: r go_col_def c_def cc_def min_def)
      then show ?thesis using False tx by (simp add: r offset_def c_def k_def t_def)
    qed
  qed
qed

lemma key_enter_facts:
  assumes inv: "edit_inv st"
  shows "edit_inv (key_enter st) \<and> offset (key_enter st) = offset st + 1 \<and> eoverwrite (key_enter st) = eoverwrite st
    \<and> text_of (key_enter st) = take (offset st) (text_of st) @ 10 # drop (offset st) (text_of st)"
proof -
  note p = inv_parts [OF inv]
  let ?k = "ecur st" and ?t = "take (ecol st) (ltext (curl st))" and ?u = "drop (ecol st) (ltext (curl st))"
  define ls' where "ls' = reflow ((allocNextLine (elines st) ?k)[?k := (elines st ! ?k)\<lparr>ltext := ?t, lbr := True\<rparr>,
      ?k + 1 := (allocNextLine (elines st) ?k ! (?k + 1))\<lparr>ltext := ?u, lbr := lbr (curl st)\<rparr>]) (?k + 1)"
  have r: "key_enter st = set_position ((down_line st)\<lparr>elines := ls', ecol := 0, ecolcur := 0\<rparr>)"
    by (simp add: key_enter_def Let_def ls'_def curl_def)
  have "fit (?t, True)" "fit (?u, True)" "lines_fit (take ?k (elines st)) \<and> lines_fit (drop (?k + 1) (elines st))"
    using p(4,5) lines_fit_split [OF p(2)] by (auto simp: fit_def dest: in_set_takeD in_set_dropD)
  note b = broken_lines [of ?k "elines st" ?t ?u True "lbr (curl st)", folded ls'_def, OF p(2) this(3,1,2)]
  have "place_ok ((down_line st)\<lparr>elines := ls'\<rparr>)" using p(1) b(2,3) by (auto simp: place_ok_def down_line_def)
  from inv_col0 [OF this] have "edit_inv (key_enter st)" by (simp add: r)
  moreover have "offset (key_enter st) = offset st + 1"
    using b(5) p(3) by (simp add: r offset_def)
  moreover have "text_of (key_enter st) = take (offset st) (text_of st) @ 10 # drop (offset st) (text_of st)"
    using b(1) text_before [OF p(2,3)] text_behind [OF p(2), of 0] p(3) by (simp add: r rest_of_def)
  ultimately show ?thesis by (simp add: r)
qed

lemma insertChar_text:
  assumes "edit_inv st" "ch \<noteq> 10" "ch \<noteq> 13"
  shows "text_of (insertChar ch st) = take (offset st) (text_of st)
    @ ch # drop (offset st + (if eoverwrite st \<and> ecol st < length (ltext (curl st)) then 1 else 0)) (text_of st)"
proof -
  note p = inv_parts [OF assms(1)]
  show ?thesis
    using insertChar_facts [OF assms] text_before [OF p(2,3)] p(3) text_behind [OF p(2), of 0]
      text_behind [OF p(2), of 1] by (auto simp: put_char_def)
qed

definition typable :: "byte \<Rightarrow> bool" where
  "typable c \<longleftrightarrow> types c \<or> c = 10"

lemma types_no_line_end: "types c \<Longrightarrow> c \<noteq> 10 \<and> c \<noteq> 13"
  by (auto simp: types_def isprint2_def)

lemma insertFromFile_facts:
  assumes "edit_inv st"
  shows "edit_inv (insertFromFile f st) \<and> eoverwrite (insertFromFile f st) = eoverwrite st
    \<and> offset (insertFromFile f st) = offset st + length (filter typable f)
    \<and> (\<not> eoverwrite st \<longrightarrow> text_of (insertFromFile f st)
        = take (offset st) (text_of st) @ filter typable f @ drop (offset st) (text_of st))"
  using assms
proof (induction f arbitrary: st)
  case Nil then show ?case by (simp add: insertFromFile_def)
next
  case (Cons c f)
  let ?st = "if types c then insertChar c st else if c = 10 then key_enter st else st"
  have r: "insertFromFile (c # f) st = insertFromFile f ?st" by (simp add: insertFromFile_def)
  have off: "offset st \<le> length (text_of st)"
    using text_parts inv_parts(2,3) [OF Cons.prems] by (simp add: offset_def)
  consider (t) "types c" | (nl) "c = 10" "\<not> types c" | (no) "c \<noteq> 10" "\<not> types c" by blast
  then show ?case
  proof cases
    case t
    then have c: "c \<noteq> 10" "c \<noteq> 13" using types_no_line_end by auto
    have "edit_inv (insertChar c st)" "offset (insertChar c st) = offset st + 1" "eoverwrite (insertChar c st) = eoverwrite st"
      using insertChar_facts [OF Cons.prems c] by auto
    then show ?thesis
      using Cons.IH [of "insertChar c st"] insertChar_text [OF Cons.prems c] off t by (simp add: r typable_def)
  next
    case nl
    then show ?thesis unfolding r using Cons.IH [of "key_enter st"] key_enter_facts [OF Cons.prems] off by (simp add: typable_def)
  next
    case no
    then show ?thesis using Cons.IH [OF Cons.prems] by (simp add: r typable_def)
  qed
qed

lemma insertStr_inv: "edit_inv st \<Longrightarrow> 10 \<notin> set s \<Longrightarrow> 13 \<notin> set s \<Longrightarrow> edit_inv (insertStr s st)"
proof (induction s arbitrary: st)
  case (Cons c s)
  then show ?case using insertChar_facts [OF Cons.prems(1), of c] by (simp add: insertStr_def)
qed (simp add: insertStr_def)

section \<open>Deleting\<close>

lemma refill:
  assumes "place_ok st" "ecur st < length ls" "lines_fit ls" "content (take (ecur st) ls) = content (take (ecur st) (elines st))"
    "ecol st \<le> length (ltext (ls ! ecur st))" "ecolcur st = measureWidth (take (ecol st) (ltext (ls ! ecur st)))"
  shows "edit_inv (set_position (st\<lparr>elines := reflow ls (ecur st)\<rparr>))"
    "offset (set_position (st\<lparr>elines := reflow ls (ecur st)\<rparr>)) = offset st"
proof -
  obtain s where "ltext (reflow ls (ecur st) ! ecur st) = ltext (ls ! ecur st) @ s" using reflow_facts(5) [OF assms(2)] by blast
  then show "edit_inv (set_position (st\<lparr>elines := reflow ls (ecur st)\<rparr>))"
    using assms(1,5,6) reflow_facts(2) [OF assms(3)] reflow_facts(4) [OF assms(2)]
    by (simp add: edit_inv_def place_ok_def curl_def)
  show "offset (set_position (st\<lparr>elines := reflow ls (ecur st)\<rparr>)) = offset st"
    using assms(4) reflow_facts(3) [of "ecur st" ls] by (simp add: offset_def)
qed

lemma refill_line:
  assumes "edit_inv st" "fit (strip l)" "take (ecol st) (ltext l) = take (ecol st) (ltext (curl st))" "ecol st \<le> length (ltext l)"
  shows "edit_inv (set_position (st\<lparr>elines := reflow ((elines st)[ecur st := l]) (ecur st)\<rparr>))"
    "offset (set_position (st\<lparr>elines := reflow ((elines st)[ecur st := l]) (ecur st)\<rparr>)) = offset st"
    "text_of (set_position (st\<lparr>elines := reflow ((elines st)[ecur st := l]) (ecur st)\<rparr>))
      = content (take (ecur st) (elines st)) @ line_bytes l @ content (drop (ecur st + 1) (elines st))"
proof -
  note p = inv_parts [OF assms(1)]
  note r = refill [OF p(1), of "(elines st)[ecur st := l]"]
  show "edit_inv (set_position (st\<lparr>elines := reflow ((elines st)[ecur st := l]) (ecur st)\<rparr>))"
    "offset (set_position (st\<lparr>elines := reflow ((elines st)[ecur st := l]) (ecur st)\<rparr>)) = offset st"
    using r p(2,6) lines_fit_update [OF p(2,4) assms(2)] assms(3,4) by simp_all
  show "text_of (set_position (st\<lparr>elines := reflow ((elines st)[ecur st := l]) (ecur st)\<rparr>))
      = content (take (ecur st) (elines st)) @ line_bytes l @ content (drop (ecur st + 1) (elines st))"
    using content_update [OF p(2)] by (simp add: reflow_facts(1))
qed

lemma fit_cut: "fit (t, b) \<Longrightarrow> fit (take m t @ drop n t, b') \<or> n < m"
  by (auto simp: fit_def dest: in_set_takeD in_set_dropD)

lemma key_del_facts:
  assumes inv: "edit_inv st"
  shows "edit_inv (key_del db st) \<and> offset (key_del db st) = offset st \<and>
    (\<forall>p. before db st p \<longrightarrow> text_of (key_del db st) = take (offset st) (text_of st) @ drop p (text_of st))"
proof -
  note p = inv_parts [OF inv]
  let ?k = "ecur st" and ?c = "ecol st" and ?t = "ltext (curl st)" and ?ls = "elines st"
  let ?n = "if ?c + 1 < length ?t \<and> indb db (take (?c + 1) ?t) then 2 else 1"
  consider (ch) "?c < length ?t" | (br) "?c = length ?t" "lbr (curl st)" | (next_line) "?c = length ?t" "\<not> lbr (curl st)" "?k + 1 < length ?ls"
    | (last) "?c = length ?t" "\<not> lbr (curl st)" "\<not> ?k + 1 < length ?ls" using p(3) by linarith
  then show ?thesis
  proof cases
    case ch
    let ?l = "(curl st)\<lparr>ltext := take ?c ?t @ drop (?c + ?n) ?t\<rparr>"
    have r: "key_del db st = set_position (st\<lparr>elines := reflow (?ls[?k := ?l]) ?k\<rparr>)"
      using ch by (simp add: key_del_def Let_def)
    have "fit (strip ?l)" using p(5) fit_cut [of ?t _ ?c "?c + ?n"] by (simp add: strip_def)
    moreover have "take ?c (ltext ?l) = take ?c ?t" "?c \<le> length (ltext ?l)" using ch by auto
    ultimately have f: "edit_inv (key_del db st)" "offset (key_del db st) = offset st" "text_of (key_del db st)
        = content (take ?k ?ls) @ line_bytes ?l @ content (drop (?k + 1) ?ls)"
      using refill_line [OF inv, of ?l, folded r] by blast+
    have "text_of (key_del db st) = take (offset st) (text_of st) @ drop q (text_of st)" if "before db st q" for q
    proof -
      have "q = offset st + ?n" "?c + ?n \<le> length ?t" using that ch by (auto simp: before_def Let_def)
      then show ?thesis using f(3) ch text_before [OF p(2,3)] text_behind [OF p(2), of ?n]
        by (simp add: line_bytes_def rest_of_def)
    qed
    then show ?thesis using f(1,2) ch by auto
  next
    case br
    let ?l = "(curl st)\<lparr>lbr := False\<rparr>"
    have r: "key_del db st = set_position (st\<lparr>elines := reflow (?ls[?k := ?l]) ?k\<rparr>)"
      using br by (simp add: key_del_def Let_def)
    have "fit (strip ?l)" using p(5) by (simp add: strip_def fit_def)
    note f = refill_line [OF inv this, folded r]
    have "text_of (key_del db st) = take (offset st) (text_of st) @ drop q (text_of st)" if "before db st q" for q
    proof -
      have "q = offset st + 1" using that br by (auto simp: before_def Let_def)
      moreover have "drop (offset st + 1) (text_of st) = content (drop (?k + 1) ?ls)"
        using text_parts [OF p(2)] br by (simp add: offset_def rest_of_def)
      ultimately show ?thesis using f(3) br text_before [OF p(2,3)] by (simp add: line_bytes_def)
    qed
    then show ?thesis using f(1,2) br by auto
  next
    case next_line
    let ?nx = "?ls ! (?k + 1)"
    let ?l = "if ltext ?nx \<noteq> [] then ?nx\<lparr>ltext := drop (if indb db (take 1 (ltext ?nx)) \<and> length (ltext ?nx) > 1 then 2 else 1) (ltext ?nx)\<rparr>
      else ?nx\<lparr>lbr := False\<rparr>"
    have r: "key_del db st = set_position (st\<lparr>elines := reflow (?ls[?k + 1 := ?l]) ?k\<rparr>)"
      using next_line by (simp add: key_del_def Let_def)
    have "fit (strip ?l)" using lines_fit_nth [OF next_line(3) p(4)] by (auto simp: strip_def fit_def dest: in_set_dropD)
    then have "lines_fit (?ls[?k + 1 := ?l])" using lines_fit_update [OF next_line(3) p(4)] by blast
    from refill [OF p(1) _ this] show ?thesis using p(2,3,6) next_line by (simp add: r curl_def before_def)
  next
    case last
    then have r: "key_del db st = set_position (st\<lparr>elines := reflow ?ls ?k\<rparr>)" by (simp add: key_del_def Let_def)
    then show ?thesis using refill [OF p(1,2,4)] p(3,6) last by (simp add: curl_def before_def)
  qed
qed

lemma backspace_facts:
  assumes "edit_inv st"
  shows "edit_inv (key_backspace db st)"
    "0 < offset st \<Longrightarrow> between db st \<Longrightarrow> \<exists>n \<in> {1, 2}. n \<le> offset st \<and> offset (key_backspace db st) = offset st - n
      \<and> text_of (key_backspace db st) = take (offset st - n) (text_of st) @ drop (offset st) (text_of st)"
proof -
  have "place_ok st" "ecol st \<le> length (ltext (curl st))" "ecol st = 0 \<longrightarrow> ecolcur st = 0"
    using assms by (auto simp: edit_inv_def measureWidth_def)
  note l = key_left_facts [OF this, of db]
  note d = key_del_facts [of "key_left db st" db]
  show "edit_inv (key_backspace db st)" using assms l d by (simp add: key_backspace_def)
  assume p: "0 < offset st" "between db st"
  then have r: "key_backspace db st = key_del db (key_left db st)" by (auto simp: key_backspace_def offset_def)
  have b: "before db (key_left db st) (offset st)" using l p by blast
  then obtain n where "n \<in> {1, 2 :: nat}" "offset st = offset (key_left db st) + n"
    by (auto simp: before_def Let_def split: if_splits)
  then show "\<exists>n \<in> {1, 2}. n \<le> offset st \<and> offset (key_backspace db st) = offset st - n
      \<and> text_of (key_backspace db st) = take (offset st - n) (text_of st) @ drop (offset st) (text_of st)"
    using l d b by (intro bexI [of _ n]) (auto simp: r)
qed

lemma inv_key_kill: "edit_inv st \<Longrightarrow> edit_inv (key_kill st)"
  using refill_line(1) [of st "(curl st)\<lparr>ltext := take (ecol st) (ltext (curl st))\<rparr>"] inv_parts(3,5) [of st]
  by (auto simp: key_kill_def Let_def fit_def dest: in_set_takeD)

lemma lines_fit_remove_at: "k < length ls \<Longrightarrow> lines_fit ls \<Longrightarrow> lines_fit (remove_at k ls)"
  by (simp add: remove_at_def lines_fit_split [of k])

lemma inv_key_delline:
  assumes "edit_inv st"
  shows "edit_inv (key_delline st)"
proof -
  note p = inv_parts [OF assms]
  let ?k = "ecur st" and ?ls = "elines st" let ?st0 = "st\<lparr>ecol := 0, ecolcur := 0\<rparr>"
  let ?ls1 = "if ?k \<noteq> 0 \<and> lbr (curl st) then ?ls[?k - 1 := (?ls ! (?k - 1))\<lparr>lbr := True\<rparr>] else ?ls"
  let ?ls2 = "remove_at ?k (keepSelect ?ls1 ?k)"
  have "fit (strip ((?ls ! (?k - 1))\<lparr>lbr := True\<rparr>))"
    using lines_fit_nth [of "?k - 1" ?ls] p(2,4) by (simp add: strip_def fit_def)
  then have "lines_fit ?ls1" using lines_fit_update [of "?k - 1" ?ls] p(2,4) by simp
  then have ok: "lines_fit ?ls2"
    using lines_fit_remove_at [of ?k "keepSelect ?ls1 ?k"] p(2) lines_fit_strips [of "keepSelect ?ls1 ?k" ?ls1] by simp
  have len: "length ?ls2 = length ?ls - 1" using p(2) by (simp add: length_remove_at)
  consider (only) "?k = 0" "length ?ls = 1" | (more) "?k + 1 < length ?ls" | (last) "?k \<noteq> 0" "\<not> ?k + 1 < length ?ls"
    using p(2) by linarith
  then show ?thesis
  proof cases
    case only
    have "lines_fit (?ls[?k := (curl st)\<lparr>ltext := [], lbr := False\<rparr>])"
      by (rule lines_fit_update [OF p(2,4)]) (simp add: fit_def)
    then show ?thesis using only p(1) by (intro inv_zero) (simp_all add: key_delline_def Let_def place_ok_def)
  next
    case more
    then show ?thesis using p(1) ok len by (intro inv_zero) (simp_all add: key_delline_def Let_def place_ok_def)
  next
    case last
    then show ?thesis using p(1,2) ok len by (intro inv_zero) (auto simp: key_delline_def Let_def place_ok_def up_line_def)
  qed
qed

section \<open>Selections\<close>

lemma inv_strips:
  assumes "edit_inv st" "strips ls = strips (elines st)"
  shows "edit_inv (st\<lparr>elines := ls\<rparr>)"
proof -
  have l: "length ls = length (elines st)" using arg_cong [OF assms(2), of length] by simp
  have "strip (ls ! ecur st) = strip (elines st ! ecur st)"
    using arg_cong [OF assms(2), of "\<lambda>x. x ! ecur st"] l inv_parts(2) [OF assms(1)] by simp
  then show ?thesis using assms(1) lines_fit_strips [OF assms(2)] l by (simp add: edit_inv_def place_ok_def curl_def strip_eq)
qed

lemma strip_mark_line [simp]: "strip (mark_line s l) = strip l"
  by (simp add: mark_line_def)

lemma strips_runs [simp]: "strips (unselect_run ls) = strips ls" "strips (select_until ls) = strips ls" "strips (select_all ls) = strips ls"
  by (induction ls) (auto simp: select_all_def)

lemma strips_from_selected: "(\<And>l. strips (f l) = strips l) \<Longrightarrow> strips (from_selected k f ls) = strips ls"
  by (simp add: from_selected_def) (metis append_take_drop_id map_append)

lemma strips_select_scan: "strips (fst (select_scan cur i b ls)) = strips ls"
proof (induction cur i b ls rule: select_scan.induct)
  case (2 cur i b l ls)
  then show ?case by (cases "select_scan cur (i + 1) (b \<or> i = cur) ls") (simp add: Let_def)
qed simp

lemma select_scan_passed: "snd (snd (select_scan cur i True ls))"
proof (induction ls arbitrary: i)
  case (Cons l ls)
  have "snd (snd (select_scan cur (i + 1) True ls))" by (rule Cons)
  then show ?case by (cases "select_scan cur (i + 1) True ls") (simp add: Let_def)
qed simp

lemma select_scan_head: "select_scan cur i b ls = (r, Some h, False) \<Longrightarrow> i \<le> cur \<Longrightarrow> h \<le> cur"
proof (induction cur i b ls arbitrary: r rule: select_scan.induct)
  case (2 cur i b l ls)
  obtain r' h' b' where s: "select_scan cur (i + 1) (b \<or> i = cur) ls = (r', h', b')"
    by (cases "select_scan cur (i + 1) (b \<or> i = cur) ls")
  show ?case
  proof (cases "lsel l = 1")
    case True then show ?thesis using 2(2,3) by simp
  next
    case False
    then have e: "h' = Some h" "\<not> b'" using 2(2) s by (simp_all add: Let_def)
    then have "i \<noteq> cur" using s select_scan_passed [of cur "i + 1" ls] by auto
    then show ?thesis using 2(1) [OF False refl refl, of r'] s e 2(3) by simp
  qed
qed simp

lemma strips_editSelect: "strips (elines (editSelect st)) = strips (elines st)"
proof -
  obtain ls h b where s: "select_scan (ecur st) 0 False (elines st) = (ls, h, b)"
    by (cases "select_scan (ecur st) 0 False (elines st)")
  have ls: "strips ls = strips (elines st)" using strips_select_scan [of "ecur st" 0 False "elines st"] s by simp
  have "strips (take (h + 1) ls @ select_all (take (k - h) (drop (h + 1) ls)) @ unselect_run (drop (k + 1) ls)) = strips ls"
    if "h < k" for h k
  proof -
    have "drop (k + 1) ls = drop (k - h) (drop (h + 1) ls)" using that by simp
    then show ?thesis by (simp only: map_append strips_runs) (simp only: append_take_drop_id flip: map_append)
  qed
  note mid = this
  have "strips (ls[ecur st := mark_line 1 (ls ! ecur st)]) = strips ls" by (simp add: mark_line_def)
  then show ?thesis
    using ls s mid select_scan_head [of "ecur st" 0 False "elines st" ls]
    by (cases h; cases b) (simp_all add: editSelect_def strips_from_selected le_neq_implies_less Let_def)
qed

lemma inv_select: "edit_inv st \<Longrightarrow> edit_inv (editSelect st)" "edit_inv st \<Longrightarrow> edit_inv (clearSelect st)"
proof -
  have "editSelect st = st\<lparr>elines := elines (editSelect st)\<rparr>" by (simp add: editSelect_def Let_def split: prod.split)
  then show "edit_inv st \<Longrightarrow> edit_inv (editSelect st)" using inv_strips [OF _ strips_editSelect] by metis
  show "edit_inv st \<Longrightarrow> edit_inv (clearSelect st)"
    unfolding clearSelect_def by (rule inv_strips) (simp_all add: strips_from_selected)
qed

text \<open>Taking the selection out leaves the text before and behind it, with the cursor between them.\<close>

lemma first_selected_le: "first_selected ls \<le> length ls"
  by (simp add: first_selected_def length_takeWhile_le)

lemma erase_run_content:
  "content (erase_run ls) = content (dropWhile (\<lambda>l. lsel l \<noteq> 0) ls)" "length (erase_run ls) = length ls"
  "lines_fit ls \<Longrightarrow> lines_fit (erase_run ls)"
  by (induction ls) (auto simp: line_bytes_def fit_def)

lemma deleteSelect_facts:
  assumes inv: "edit_inv st"
  defines "ls \<equiv> elines st" and "h \<equiv> first_selected (elines st)"
  shows "edit_inv (deleteSelect st)" "eoverwrite (deleteSelect st) = eoverwrite st"
    "h < length ls \<Longrightarrow> offset (deleteSelect st) = length (content (take h ls))"
    "h < length ls \<Longrightarrow> text_of (deleteSelect st) = content (take h ls) @ content (dropWhile (\<lambda>l. lsel l \<noteq> 0) (drop h ls))"
proof -
  note p = inv_parts [OF inv]
  let ?ls = "from_selected h erase_run ls"
  have l: "length ?ls = length ls" using first_selected_le [of ls] by (simp add: from_selected_def erase_run_content h_def ls_def)
  have c: "content ?ls = content (take h ls) @ content (dropWhile (\<lambda>l. lsel l \<noteq> 0) (drop h ls))"
    by (simp add: from_selected_def erase_run_content)
  have "lines_fit ls = (lines_fit (take h ls) \<and> lines_fit (drop h ls))" by (metis append_take_drop_id lines_fit_simps(1))
  then have ok: "lines_fit ?ls" using p(4) erase_run_content(3) by (simp add: from_selected_def ls_def)
  have t: "take h ?ls = take h ls" using first_selected_le [of ls] by (simp add: from_selected_def h_def ls_def)
  have r: "deleteSelect st = (if h = length ls then st else st\<lparr>ecur := h, eline := eline st + (int h - int (ecur st)),
      elinecur := elinecur st + (int h - int (ecur st)), ecol := 0, ecolcur := 0, elines := reflow ?ls h\<rparr>)"
    by (simp only: deleteSelect_def Let_def h_def ls_def)
  show "eoverwrite (deleteSelect st) = eoverwrite st" by (simp add: deleteSelect_def Let_def)
  show "edit_inv (deleteSelect st)"
  proof (cases "h = length ls")
    case True then show ?thesis using inv by (simp add: r)
  next
    case False
    then have "h < length ?ls" using first_selected_le [of ls] l by (simp add: h_def ls_def)
    then show ?thesis
      using p(1) False reflow_facts(2) [OF ok] reflow_facts(4)
      by (intro inv_zero) (simp_all add: r place_ok_def)
  qed
  assume "h < length ls"
  then show "offset (deleteSelect st) = length (content (take h ls))"
    "text_of (deleteSelect st) = content (take h ls) @ content (dropWhile (\<lambda>l. lsel l \<noteq> 0) (drop h ls))"
    using t c reflow_facts(1,3) [where ls = ?ls and k = h]
    by (simp_all add: r offset_def)
qed

section \<open>Searching and jumping\<close>

lemma inv_searchNextStr:
  assumes "edit_inv st"
  shows "edit_inv (searchNextStr s st)"
proof -
  note p = inv_parts [OF assms]
  let ?hits = "filter (\<lambda>i. find_in s st i \<noteq> None) [ecur st ..< length (elines st)]"
  show ?thesis
  proof (cases "s = [] \<or> ?hits = []")
    case True
    then have "searchNextStr s st = st" by (simp only: searchNextStr_def Let_def if_True)
    then show ?thesis using assms by simp
  next
    case False
    let ?i = "hd ?hits" let ?d = "int ?i - int (ecur st)"
    let ?st = "st\<lparr>ecur := ?i, eline := eline st + ?d, elinecur := elinecur st + ?d\<rparr>"
    have "?i \<in> set ?hits" using False hd_in_set by blast
    then have i: "ecur st \<le> ?i" "?i < length (elines st)" "find_in s st ?i \<noteq> None" by auto
    have r: "searchNextStr s st = (go_col (the (find_in s st ?i)) ?st)\<lparr>eposition := the (find_in s st ?i)\<rparr>"
      using False by (simp only: searchNextStr_def Let_def if_False)
    let ?c = "if ?i = ecur st then ecol st else 0"
    obtain q where q: "strstr (zstr (drop ?c (ltext (elines st ! ?i)))) s = Some q" "the (find_in s st ?i) = ?c + q + length s"
      using i(3) by (auto simp: find_in_def Let_def simp del: not_None_eq)
    have "length (zstr m) \<le> length m" for m by (simp add: zstr_def length_takeWhile_le)
    from order_trans [OF strstr_length [OF q(1)] this] have "?c + q + length s \<le> length (ltext (elines st ! ?i))"
      using p(3) strstr_length [OF q(1)] by (cases "?i = ecur st") (auto simp: curl_def)
    moreover have "place_ok ?st" using p(1) i by (simp add: place_ok_def)
    ultimately show ?thesis using inv_go_col [of ?st "the (find_in s st ?i)"] q(2) by (simp add: r curl_def)
  qed
qed

lemma inv_gotoline: "edit_inv st \<Longrightarrow> n \<noteq> int (length (elines st)) + 1 \<Longrightarrow> edit_inv (gotoline n st)"
  by (intro inv_zero) (auto simp: gotoline_def Let_def edit_inv_def place_ok_def)

section \<open>Editing\<close>

lemma inv_doEditKey:
  assumes "edit_inv st"
  shows "edit_inv (doEditKey db t_lines key st)"
proof -
  have "edit_inv (st\<lparr>eoverwrite := b\<rparr>)" for b using assms by (simp add: edit_inv_def place_ok_def curl_def)
  moreover have "edit_inv (st\<lparr>ecol := 0, ecolcur := 0\<rparr>)" by (rule inv_col0 [OF inv_parts(1) [OF assms]])
  ultimately show ?thesis
    using assms key_enter_facts inv_key_left inv_key_right inv_updown backspace_facts(1) key_del_facts inv_key_delline
      inv_key_kill inv_select by (cases key) (simp_all add: doEditKey_def)
qed

definition lost :: "editor \<Rightarrow> bool" where
  "lost st \<longleftrightarrow> (\<exists>s. edit_inv s \<and> st = gotoline (int (length (elines s)) + 1) s)"

lemma doEdit_inv:
  assumes "edit_inv st"
  shows "edit_inv (doEdit db t_lines ev st) \<or> lost (doEdit db t_lines ev st)"
proof (cases ev)
  case (Press ch)
  have "word_of_int ch \<noteq> (10 :: byte) \<and> word_of_int ch \<noteq> (13 :: byte)" if "isprint2 (word_of_int ch) \<or> ch = 9"
    using that types_no_line_end [of "word_of_int ch"] by (auto simp: types_def)
  then show ?thesis using Press insertChar_facts [OF assms] inv_doEditKey [OF assms] by (simp add: doEdit_def)
next
  case Esc
  then show ?thesis using insertChar_facts [OF assms, of 27] by (simp add: doEdit_def)
next
  case (Colour bg i)
  have "i \<in> {0, 1, 2, 3, 4, 5, 6, 7}" if "\<not> i > 7" using that by auto
  then show ?thesis using Colour assms insertStr_inv [OF assms, of "[27, 91, if bg then 52 else 51, 48 + of_nat i, 109]"]
    by (auto simp: doEdit_def)
next
  case Plain
  then show ?thesis using insertStr_inv [OF assms, of "[27, 91, 48, 109]"] by (simp add: doEdit_def)
next
  case (GotoLine n)
  then show ?thesis using inv_gotoline [OF assms, of n] assms by (auto simp: doEdit_def lost_def)
qed (use assms inv_select deleteSelect_facts(1) insertFromFile_facts inv_searchNextStr in \<open>simp_all add: doEdit_def\<close>)

lemma redraw_inv:
  assumes "edit_inv st"
  obtains st' where "redraw t_lines st = Some st'" "edit_inv st'"
proof -
  define l where "l = (if elinecur st \<ge> t_lines - 1 then t_lines - 2 else elinecur st)"
  define l' where "l' = (if l < 0 then 0 else l)"
  have "l' \<le> eline st" "ecur st < length (elines st)" "eline st = int (ecur st)"
    using assms by (auto simp: edit_inv_def place_ok_def l_def l'_def)
  then have "redraw t_lines st = Some (st\<lparr>elinecur := l'\<rparr>)" "edit_inv (st\<lparr>elinecur := l'\<rparr>)"
    using assms by (simp_all add: redraw_def Let_def l_def [symmetric] l'_def [symmetric] edit_inv_def place_ok_def curl_def)
  then show ?thesis by (rule that)
qed

lemma redraw_lost: "lost st \<Longrightarrow> 3 \<le> t_lines \<Longrightarrow> ecur st = length (elines st) \<and> redraw t_lines st = None"
proof -
  assume "lost st" "3 \<le> t_lines"
  then obtain s where s: "edit_inv s" "st = gotoline (int (length (elines s)) + 1) s" by (auto simp: lost_def)
  have n: "0 < length (elines s)" using s(1) inv_parts(2) by fastforce
  then have "nat (int (length (elines s)) + 1) - 1 = length (elines s)" by simp
  then have "ecur st = length (elines s)" "elines st = elines s" "elinecur st = int (length (elines s))"
    using n by (simp_all add: s(2) gotoline_def Let_def)
  then show ?thesis using n \<open>3 \<le> t_lines\<close> by (simp add: redraw_def Let_def)
qed

lemma parse_loop_eqs:
  "parse_loop origin [] pre ln saved = (pre @ [ln], saved)"
  "parse_loop origin (13 # q) pre ln saved = parse_loop origin q pre ln saved"
  "parse_loop origin (10 # q) pre ln saved =
     (if origin (ltext ln) then parse_loop origin q pre (ln\<lparr>ltext := [], lbr := False\<rparr>)
        (strsncpy (zstr (ltext ln)) (min (int (length (ltext ln)) + 1) 250))
      else parse_loop origin q (pre @ [ln\<lparr>lbr := True\<rparr>]) (new_line ln) saved)"
  by (simp_all add: parse_loop.simps [of origin "[]"] parse_loop.simps [of origin "13 # q"] parse_loop.simps [of origin "10 # q"])

lemma parse_loop_text:
  assumes "c \<noteq> 13" "c \<noteq> 10" "n = fst (measureLine 0 (c # q) MAXLINELEN 0)"
  shows "ltext ln = [] \<Longrightarrow>
     parse_loop origin (c # q) pre ln saved = parse_loop origin (drop n (c # q)) pre (ln\<lparr>ltext := take n (c # q)\<rparr>) saved"
    "ltext ln \<noteq> [] \<Longrightarrow>
     parse_loop origin (c # q) pre ln saved
       = parse_loop origin (drop n (c # q)) (pre @ [ln]) ((new_line ln)\<lparr>ltext := take n (c # q)\<rparr>) saved"
  using parse_loop.simps [of origin "c # q" pre ln saved] assms(1,2)
  by (simp_all only: list.case if_False if_True Let_def prod.case not_True_eq_False not_False_eq_True simp_thms flip: assms(3))

text \<open>Going through a file: at its end, at each kind of byte.\<close>

lemma parse_induct [case_names stop cr orig nl fresh more]:
  assumes "\<And>pre ln saved. P [] pre ln saved"
    "\<And>q pre ln saved. P q pre ln saved \<Longrightarrow> P (13 # q) pre ln saved"
    "\<And>q pre ln saved. origin (ltext ln) \<Longrightarrow> P q pre (ln\<lparr>ltext := [], lbr := False\<rparr>)
       (strsncpy (zstr (ltext ln)) (min (int (length (ltext ln)) + 1) 250)) \<Longrightarrow> P (10 # q) pre ln saved"
    "\<And>q pre ln saved. \<not> origin (ltext ln) \<Longrightarrow> P q (pre @ [ln\<lparr>lbr := True\<rparr>]) (new_line ln) saved \<Longrightarrow> P (10 # q) pre ln saved"
    "\<And>c q pre ln saved n. c \<noteq> 13 \<Longrightarrow> c \<noteq> 10 \<Longrightarrow> ltext ln = [] \<Longrightarrow> n = fst (measureLine 0 (c # q) MAXLINELEN 0) \<Longrightarrow>
       P (drop n (c # q)) pre (ln\<lparr>ltext := take n (c # q)\<rparr>) saved \<Longrightarrow> P (c # q) pre ln saved"
    "\<And>c q pre ln saved n. c \<noteq> 13 \<Longrightarrow> c \<noteq> 10 \<Longrightarrow> ltext ln \<noteq> [] \<Longrightarrow> n = fst (measureLine 0 (c # q) MAXLINELEN 0) \<Longrightarrow>
       P (drop n (c # q)) (pre @ [ln]) ((new_line ln)\<lparr>ltext := take n (c # q)\<rparr>) saved \<Longrightarrow> P (c # q) pre ln saved"
  shows "P p pre ln saved"
proof (induction p arbitrary: pre ln saved rule: length_induct)
  case (1 p)
  show ?case
  proof (cases p)
    case Nil then show ?thesis using assms(1) by simp
  next
    case (Cons c q)
    note ih = 1 [rule_format, of q, unfolded Cons]
    let ?n = "fst (measureLine 0 (c # q) MAXLINELEN 0)"
    consider (cr) "c = 13" | (nl) "c = 10" | (ch) "c \<noteq> 13" "c \<noteq> 10" by blast
    then show ?thesis
    proof cases
      case cr then show ?thesis using assms(2) ih Cons by simp
    next
      case nl then show ?thesis using assms(3,4) [of ln q] ih Cons by (cases "origin (ltext ln)") simp_all
    next
      case ch
      then have "length (drop ?n (c # q)) < length p" using parse_progress [OF ch, of q] Cons by simp
      note ih = 1 [rule_format, OF this]
      show ?thesis using assms(5,6) [OF ch _ refl, of ln q] ih Cons by (cases "ltext ln = []") simp_all
    qed
  qed
qed

lemma fit_measured:
  assumes "n = fst (measureLine 0 p MAXLINELEN 0)"
  shows "fit (take n p, b)"
  using measureLine_prefix(2,3) [of 0 p MAXLINELEN 0 n] measureLine_le [of 0 p MAXLINELEN 0] assms
  by (simp add: fit_def prod_eq_iff)

lemma fit_empty: "fit ([], b)" "fit (strip (new_line l))"
  by (simp_all add: fit_def new_line_def)

lemma parse_loop_ok:
  assumes "lines_fit pre" "fit (strip ln)"
  shows "lines_fit (fst (parse_loop origin p pre ln saved)) \<and> fst (parse_loop origin p pre ln saved) \<noteq> []"
  using assms
proof (induction p pre ln saved rule: parse_induct [where origin = origin])
  case (nl q pre ln saved)
  then show ?case using fit_mono [of "ltext ln" "lbr ln" True] by (simp add: parse_loop_eqs strip_def fit_empty new_line_def)
next
  case (fresh c q pre ln saved n)
  then show ?case using fit_measured [OF fresh(4)] by (simp add: parse_loop_text(1) strip_def)
next
  case (more c q pre ln saved n)
  then show ?case using fit_measured [OF more(4)] by (simp add: parse_loop_text(2) strip_def new_line_def)
qed (simp_all add: parse_loop_eqs strip_def fit_empty)

lemma parse_loop_content:
  assumes "\<And>t. \<not> origin t" "\<not> lbr ln"
  shows "content (fst (parse_loop origin p pre ln saved)) = content pre @ ltext ln @ filter (\<lambda>c. c \<noteq> 13) p
    \<and> snd (parse_loop origin p pre ln saved) = saved"
  using assms(2)
proof (induction p pre ln saved rule: parse_induct [where origin = origin])
  case (fresh c q pre ln saved n)
  have "13 \<notin> set (take n (c # q))" using fit_measured [OF fresh(4)] by (simp add: fit_def)
  then have f: "filter (\<lambda>c. c \<noteq> 13) (take n (c # q)) = take n (c # q)" by (auto simp: filter_id_conv)
  have "filter (\<lambda>c. c \<noteq> 13) (c # q) = take n (c # q) @ filter (\<lambda>c. c \<noteq> 13) (drop n (c # q))"
    using f by (metis append_take_drop_id filter_append)
  then show ?case using fresh(3,5,6) parse_loop_text(1) [OF fresh(1,2,4,3)] by simp
next
  case (more c q pre ln saved n)
  have "13 \<notin> set (take n (c # q))" using fit_measured [OF more(4)] by (simp add: fit_def)
  then have f: "filter (\<lambda>c. c \<noteq> 13) (take n (c # q)) = take n (c # q)" by (auto simp: filter_id_conv)
  have "filter (\<lambda>c. c \<noteq> 13) (c # q) = take n (c # q) @ filter (\<lambda>c. c \<noteq> 13) (drop n (c # q))"
    using f by (metis append_take_drop_id filter_append)
  then show ?case using more(5,6) parse_loop_text(2) [OF more(1,2,4,3)] by (simp add: new_line_def line_bytes_def)
qed (use assms(1) in \<open>simp_all add: parse_loop_eqs line_bytes_def new_line_def\<close>)

lemma inv_parseEdit: "edit_inv (fst (parseEdit origin f initEdit))"
proof -
  let ?p = "parse_loop origin f [] \<lparr>ltext = [], lbr = False, lsel = 0\<rparr> []"
  have "lines_fit (fst ?p) \<and> fst ?p \<noteq> []" by (rule parse_loop_ok) (simp_all add: fit_empty strip_def)
  then show ?thesis
    by (intro inv_zero) (auto simp: parseEdit_def initEdit_def place_ok_def split: prod.split)
qed

section \<open>Properties\<close>

text \<open>
  C12: Reading a file and saving it again writes the bytes of the file without its carriage returns, however long its
  lines are and whatever it holds, when it is not an article being changed.
\<close>

theorem parse_save:
  "(case parseEdit (editOrigin False name domain) f initEdit of (st, saved) \<Rightarrow> saveEdit st saved)
    = filter (\<lambda>c. c \<noteq> 13) f"
proof -
  let ?o = "editOrigin False name domain" and ?l = "\<lparr>ltext = [], lbr = False, lsel = 0\<rparr>"
  have o: "\<And>t. \<not> ?o t" by (simp add: editOrigin_def)
  note p = parse_loop_content [where origin = ?o, OF o, where ln = ?l and p = f and pre = "[]" and saved = "[]"]
  obtain ls saved where r: "parse_loop ?o f [] ?l [] = (ls, saved)" by (cases "parse_loop ?o f [] ?l []")
  show ?thesis using p r by (simp add: parseEdit_def initEdit_def saveEdit_def)
qed


text \<open>
  C9: A byte typed at any place of the text, in the middle of a line, at its end, into a full line that is broken and whose
  rest flows on through the paragraph, is in the text where the cursor stood, in front of what was there or in place of
  the byte under the cursor, nothing else of the text changes, and the cursor is behind the byte.
\<close>

theorem typing_inserts:
  assumes "edit_inv st" "types ch"
  shows "edit_inv (insertChar ch st) \<and> offset (insertChar ch st) = offset st + 1
    \<and> text_of (insertChar ch st) = take (offset st) (text_of st)
      @ ch # drop (offset st + (if eoverwrite st \<and> ecol st < length (ltext (curl st)) then 1 else 0)) (text_of st)"
  using insertChar_facts [OF assms(1)] insertChar_text [OF assms(1)] types_no_line_end [OF assms(2)] by blast


text \<open>
  C11: Writing a marked block to the clip file, deleting it and reading the clip file again, where the cursor was left,
  gives back the text byte for byte, although all lines in between may have been broken differently.  The text
  must consist of what can be typed.
\<close>

theorem cut_and_paste:
  assumes "edit_inv st" "\<not> eoverwrite st" "first_selected (elines st) < length (elines st)" "list_all typable (text_of st)"
  shows "text_of (insertFromFile (insertToFile st) (deleteSelect st)) = text_of st"
proof -
  let ?h = "first_selected (elines st)" let ?r = "drop ?h (elines st)" let ?sel = "\<lambda>l. lsel l \<noteq> 0"
  note d = deleteSelect_facts [OF assms(1)]
  have c: "insertToFile st = content (takeWhile ?sel ?r)" using assms(3) by (simp add: insertToFile_def Let_def)
  have "elines st = take ?h (elines st) @ takeWhile ?sel ?r @ dropWhile ?sel ?r" by simp
  then have t: "text_of st = content (take ?h (elines st)) @ insertToFile st @ content (dropWhile ?sel ?r)"
    by (metis c content_append)
  then have "list_all typable (insertToFile st)" using assms(4) by (metis list_all_append)
  then have "filter typable (insertToFile st) = insertToFile st" by (simp add: list_all_iff filter_id_conv)
  then show ?thesis
    using insertFromFile_facts [OF d(1), of "insertToFile st"] d(2-4) assms(2,3) t by simp
qed

section \<open>Witnesses\<close>

lemma inv_initEdit: "edit_inv initEdit"
  by (rule inv_zero) (simp_all add: initEdit_def place_ok_def fit_empty strip_def)


lemma typing_inserts_witness: "text_of (insertChar 65 initEdit) = [65] \<and> edit_inv (insertChar 65 initEdit)"
  using typing_inserts [OF inv_initEdit, of 65]
  by (simp add: types_def isprint2_def initEdit_def offset_def line_bytes_def curl_def)


lemma cut_and_paste_witness:
  "text_of (insertFromFile [65] (deleteSelect (editSelect (insertChar 65 initEdit)))) = [65]"
proof -
  let ?st = "editSelect (insertChar 65 initEdit)"
  have i: "edit_inv ?st" using insertChar_facts [OF inv_initEdit, of 65] inv_select(1) by simp
  have "\<not> eoverwrite ?st" "first_selected (elines ?st) < length (elines ?st)" "list_all typable (text_of ?st)"
    "insertToFile ?st = [65]" "text_of ?st = [65]" by code_simp+
  with cut_and_paste [OF i] show ?thesis by simp
qed

section \<open>What goes wrong\<close>

text \<open>Jumping to the line one behind the last.\<close>

lemma goto_behind_last:
  "edit_inv st \<Longrightarrow> 3 \<le> t_lines \<Longrightarrow> redraw t_lines (gotoline (int (length (elines st)) + 1) st) = None"
  using redraw_lost by (auto simp: lost_def)

text \<open>Changing an article adds an empty line in front of the line of origin each time.\<close>

lemma origin_adds_line:
  "(case parseEdit (\<lambda>t. t = [42]) [120, 10, 42, 10] initEdit of (st, saved) \<Rightarrow> saveEdit st saved) = [120, 10, 10, 42, 10]"
  "(case parseEdit (\<lambda>t. t = [42]) [120, 10, 10, 42, 10] initEdit of (st, saved) \<Rightarrow> saveEdit st saved) = [120, 10, 10, 10, 42, 10]"
  by code_simp+

text \<open>The width of a line that ends in a character of two bytes.\<close>

lemma width_forgotten: "measureLine 0 (replicate 80 129) MAXLINELEN 0 = (80, 0)"
  by code_simp

text \<open>Behind a line that went, its paragraph is not filled up.\<close>

lemma reflow_stops_filling:
  "map ltext (reflow (map (\<lambda>t. \<lparr>ltext = t, lbr = False, lsel = 0\<rparr>) [[97], [98], [99], [100]]) 0) = [[97, 98], [99, 100]]"
  by code_simp

text \<open>Behind an empty line at the beginning of the text, backspace deletes what follows the cursor.\<close>

lemma backspace_forward:
  "text_of (key_backspace True \<lparr>elines = [\<lparr>ltext = [], lbr = False, lsel = 0\<rparr>, \<lparr>ltext = [120, 121], lbr = False, lsel = 0\<rparr>],
     ecur = 1, eline = 1, ecol = 0, ecolcur = 0, elinecur = 1, eposition = 0, eoverwrite = False\<rparr>) = [121]"
  by code_simp

end
