(* ===== verification/TermIO.thy ===== *)
theory TermIO
  imports YthtPrelude
begin

text \<open>
  The terminal, \<open>src/src/io.c\<close>: the buffer for output, the telnet commands in the input, characters, keys and the input
  of a line.  What is read comes as a list of reads; the conversion of the code, which may be switched on, and what happens
  when the line is lost or idle are left out.
\<close>

section \<open>Output\<close>

definition OBUFSIZE :: nat where "OBUFSIZE = 4096"
definition IAC :: byte where "IAC = 255"

record term_out =
  sent :: "byte list"
  outbuf :: "byte list"

definition oflush :: "term_out \<Rightarrow> term_out" where
  "oflush st = st\<lparr>sent := sent st @ outbuf st, outbuf := []\<rparr>"

definition out_put :: "byte list \<Rightarrow> term_out \<Rightarrow> term_out" where
  "out_put s st = st\<lparr>outbuf := outbuf st @ s\<rparr>"

definition full_flush :: "term_out \<Rightarrow> term_out" where
  "full_flush st = (if length (outbuf st) > OBUFSIZE - 1 then oflush st else st)"

definition ochar :: "byte \<Rightarrow> term_out \<Rightarrow> term_out" where
  "ochar c st =
     (let st = out_put [c] (full_flush st) in
      if c = IAC then out_put [c] (full_flush st) else st)"

text \<open>\<open>None\<close> when more is copied than the buffer holds.\<close>

definition out_copy :: "byte list \<Rightarrow> term_out \<Rightarrow> term_out option" where
  "out_copy s st = (if length (outbuf st) + length s \<le> OBUFSIZE then Some (out_put s st) else None)"

function output_bytes :: "byte list \<Rightarrow> term_out \<Rightarrow> term_out option" where
  "output_bytes s st =
     (let n = length (takeWhile (\<lambda>c. c \<noteq> IAC) s) + 1 in
      if n \<le> length s then
        let st = (if length (outbuf st) + n + 1 > OBUFSIZE then oflush st else st) in
        Option.bind (out_copy (take n s @ [IAC]) st) (output_bytes (drop n s))
      else
        let st = (if length (outbuf st) + length s > OBUFSIZE then oflush st else st) in
        out_copy s st)"
  by pat_completeness auto

termination output_bytes
  by (relation "measure (\<lambda>(s, st). length s)") auto

declare output_bytes.simps [simp del]

text \<open>\<open>raw_write\<close>, used for file transfers without ssh, does not count the bytes it copies unchanged.\<close>

definition raw_write :: "byte list \<Rightarrow> byte list" where
  "raw_write s = concat (map (\<lambda>c. if c = 255 then [255, 255] else if c = 13 then [29, 0] else []) s)"

section \<open>Telnet commands\<close>

text \<open>\<open>telnet_machine\<close>: its state, the size of the window as far as it has come, and the calls of \<open>do_naws\<close>.\<close>

record telnet =
  telnet_state :: nat
  naw_col :: byte
  naw_ln :: byte
  naw_changed :: bool
  naws :: "(byte \<times> byte) list"

definition SB :: byte where "SB = 250"
definition SE :: byte where "SE = 240"

definition telnet_machine :: "byte \<Rightarrow> telnet \<Rightarrow> byte \<times> telnet" where
  "telnet_machine ch t =
     (if telnet_state t = 255 then
        (if ch \<in> {251, 252, 253, 254} then (0, t\<lparr>telnet_state := 1\<rparr>)
         else if ch = SB then (0, t\<lparr>telnet_state := 2\<rparr>)
         else if ch = IAC then (IAC, t)
         else (0, t\<lparr>telnet_state := 0\<rparr>))
      else if telnet_state t = 1 then (0, t\<lparr>telnet_state := 0\<rparr>)
      else if telnet_state t = 2 then
        (0, if ch = IAC then t\<lparr>telnet_state := 3\<rparr> else if ch = 31 then t\<lparr>telnet_state := 4\<rparr> else t)
      else if telnet_state t = 3 then
        (let t = (if naw_changed t then t\<lparr>naw_changed := False, naws := naws t @ [(naw_ln t, naw_col t)]\<rparr> else t) in
         (0, t\<lparr>telnet_state := (if ch = SE then 0 else 2)\<rparr>))
      else if telnet_state t = 4 then (0, t\<lparr>telnet_state := (if ch \<noteq> 0 then 3 else 5)\<rparr>)
      else if telnet_state t = 5 then (0, t\<lparr>naw_col := ch, telnet_state := 6\<rparr>)
      else if telnet_state t = 6 then
        (0, if ch \<noteq> 0 then t\<lparr>telnet_state := 3\<rparr> else t\<lparr>naw_changed := True, telnet_state := 7\<rparr>)
      else if telnet_state t = 7 then (0, t\<lparr>naw_ln := ch, telnet_state := 2\<rparr>)
      else (0, t))"

primrec filter_telnet :: "byte list \<Rightarrow> telnet \<Rightarrow> byte list \<times> telnet" where
  "filter_telnet [] t = ([], t)"
| "filter_telnet (c # s) t =
     (if telnet_state t \<noteq> 0 then
        (let (ch, t) = telnet_machine c t; (r, t) = filter_telnet s t in (if ch = IAC then IAC # r else r, t))
      else if c = IAC then filter_telnet s (t\<lparr>telnet_state := 255\<rparr>)
      else (let (r, t) = filter_telnet s t in (c # r, t)))"

section \<open>Characters and keys\<close>

text \<open>
  What is left of the last read, the reads to come, each filtered as it is got, and the last character.  \<open>None\<close> when
  nothing comes any more.
\<close>

record term_in =
  inbuf :: "byte list"
  reads :: "byte list list"
  tel :: telnet
  lastch :: byte

definition paired :: "byte \<Rightarrow> byte \<Rightarrow> bool" where
  "paired c l \<longleftrightarrow> c = 10 \<and> l = 13 \<or> c = 13 \<and> l = 10"

fun igetch_loop :: "byte list \<Rightarrow> byte list list \<Rightarrow> telnet \<Rightarrow> byte \<Rightarrow> (byte \<times> term_in) option" and
  igetch_char :: "byte \<Rightarrow> byte list \<Rightarrow> byte list list \<Rightarrow> telnet \<Rightarrow> byte \<Rightarrow> (byte \<times> term_in) option" where
  "igetch_loop [] [] t l = None"
| "igetch_loop [] (s # rs) t l =
     (case filter_telnet s t of
        ([], t) \<Rightarrow> igetch_loop [] rs t l
      | (c # b, t) \<Rightarrow> igetch_char c b rs t l)"
| "igetch_loop (c # b) rs t l = (if c = 0 then igetch_loop b rs t l else igetch_char c b rs t l)"
| "igetch_char c b rs t l =
     (if paired c l then igetch_loop b rs t 0
      else if c = 12 then igetch_loop b rs t c
      else Some (c, \<lparr>inbuf = b, reads = rs, tel = t, lastch = c\<rparr>))"


definition igetch :: "term_in \<Rightarrow> (byte \<times> term_in) option" where
  "igetch i = igetch_loop (inbuf i) (reads i) (tel i) (lastch i)"

text \<open>
  \<open>igetkey\<close>: the key, with the character behind an escape (\<open>KEY_ESC_arg\<close>).  A character comes as a signed number.
  \<open>ctrl_z\<close> says that Ctrl-Z shows messages, and then counts as key 0.
\<close>

definition char_int :: "byte \<Rightarrow> int" where
  "char_int c = sint c"

fun igetkey_loop :: "bool \<Rightarrow> nat \<Rightarrow> int \<Rightarrow> nat \<Rightarrow> term_in \<Rightarrow> (int \<times> int option \<times> term_in) option" where
  "igetkey_loop ctrl_z 0 prev mode i = None"
| "igetkey_loop ctrl_z (Suc fuel) prev mode i =
     (case igetch i of
        None \<Rightarrow> None
      | Some (c, i) \<Rightarrow>
          let ch = char_int c in
          if ch = 26 \<and> ctrl_z then Some (0, None, i)
          else if mode = 0 then
            (if ch = 27 then igetkey_loop ctrl_z fuel ch 1 i else Some (ch, None, i))
          else if mode = 1 then
            (if ch = 91 \<or> ch = 79 then igetkey_loop ctrl_z fuel ch 2 i
             else if ch = 49 \<or> ch = 52 then igetkey_loop ctrl_z fuel ch 3 i
             else Some (27, Some ch, i))
          else if mode = 2 then
            (if 65 \<le> ch \<and> ch \<le> 68 then Some (0x101 + (ch - 65), None, i)
             else if 49 \<le> ch \<and> ch \<le> 54 then igetkey_loop ctrl_z fuel ch 3 i
             else Some (ch, None, i))
          else (if ch = 126 then Some (0x201 + (prev - 49), None, i) else Some (ch, None, i)))"

text \<open>At most four characters make up a key.\<close>

definition igetkey :: "bool \<Rightarrow> term_in \<Rightarrow> (int \<times> int option \<times> term_in) option" where
  "igetkey ctrl_z i = igetkey_loop ctrl_z 4 0 0 i"

section \<open>The input of a line\<close>

text \<open>
  \<open>getdata\<close> with echo: the line as a C string, the cursor and \<open>enabledbchar\<close>.  \<open>Undefined\<close> is reading behind the end of the line or
  copying more than \<open>tmp\<close> holds, and a line that is too long from the start, which is cut although its length is kept.
\<close>

definition TMPLEN :: nat where "TMPLEN = 80"

record line_in =
  lbuf :: "byte list"
  lcurr :: nat
  ldb :: bool

datatype line_step = Continue line_in | Finished line_in | Undefined

definition half :: "byte list \<Rightarrow> bool" where
  "half p = foldl (\<lambda>db c. \<not> db \<and> c \<ge> 128) False p"

definition printable :: "int \<Rightarrow> bool" where
  "printable ch \<longleftrightarrow> ch < 256 \<and> ((word_of_int ch :: byte) \<ge> 128 \<or> (32 \<le> ch \<and> ch < 127))"

definition line_backspace :: "line_in \<Rightarrow> line_step" where
  "line_backspace l =
     (let b = lbuf l; c = lcurr l; c' = (if ldb l \<and> half (take (c - 1) b) then c - 2 else c - 1) in
      if c = 0 then Continue l
      else if c > length b \<or> length b - c \<ge> TMPLEN then Undefined
      else Continue (l\<lparr>lbuf := take c' b @ drop c b, lcurr := c'\<rparr>))"

definition line_del :: "line_in \<Rightarrow> line_step" where
  "line_del l =
     (let b = lbuf l; c = lcurr l; pos = (if ldb l \<and> half (rev (drop (c + 1) b)) then c + 2 else c + 1) in
      if c \<ge> length b then Continue (l\<lparr>lcurr := length b\<rparr>)
      else if length b - pos \<ge> TMPLEN then Undefined
      else Continue (l\<lparr>lbuf := take c b @ drop pos b\<rparr>))"

definition line_insert :: "nat \<Rightarrow> byte \<Rightarrow> line_in \<Rightarrow> line_step" where
  "line_insert len ch l =
     (let b = lbuf l; c = lcurr l in
      if c > length b then Undefined
      else if c < length b \<and> len > TMPLEN then Undefined
      else Continue (l\<lparr>lbuf := take c b @ ch # drop c b, lcurr := c + 1\<rparr>))"

definition line_key :: "bool \<Rightarrow> bool \<Rightarrow> nat \<Rightarrow> nat \<Rightarrow> int \<Rightarrow> line_in \<Rightarrow> line_step" where
  "line_key rmsg killer len cols ch l =
     (let b = lbuf l; c = lcurr l in
      if rmsg \<and> (ch = 26 \<or> ch = 0x101) then Finished (l\<lparr>lbuf := [26]\<rparr>)
      else if rmsg \<and> (ch = 1 \<or> ch = 0x102) then Finished (l\<lparr>lbuf := [1]\<rparr>)
      else if killer \<and> ch \<in> {0x101, 0x102, 0x205, 0x206, 19, 20} then Finished l
      else if ch = 10 \<or> ch = 13 then Finished l
      else if ch = 18 then Continue (l\<lparr>ldb := \<not> ldb l\<rparr>)
      else if ch = 127 \<or> ch = 8 then line_backspace l
      else if ch = 0x203 then line_del l
      else if ch = 0x104 then
        Continue (if c = 0 then l else l\<lparr>lcurr := (if ldb l \<and> half (take (c - 1) b) then c - 2 else c - 1)\<rparr>)
      else if ch = 5 \<or> ch = 0x204 then Continue (l\<lparr>lcurr := length b\<rparr>)
      else if ch = 1 \<or> ch = 0x201 then Continue (l\<lparr>lcurr := 0\<rparr>)
      else if ch = 0x103 then
        Continue (if c \<ge> length b then l\<lparr>lcurr := length b\<rparr>
                  else l\<lparr>lcurr := (if ldb l \<and> half (take (c + 1) b) then c + 2 else c + 1)\<rparr>)
      else if \<not> printable ch then Continue l
      else if length b \<ge> cols \<or> length b + 1 \<ge> len then Continue l
      else line_insert len (word_of_int ch) l)"

text \<open>The keys come one after the other; \<open>None\<close> in the end when they ran out.\<close>

fun line_keys :: "bool \<Rightarrow> bool \<Rightarrow> nat \<Rightarrow> nat \<Rightarrow> int list \<Rightarrow> line_in \<Rightarrow> line_step" where
  "line_keys rmsg killer len cols [] l = Continue l"
| "line_keys rmsg killer len cols (k # ks) l =
     (case line_key rmsg killer len cols k l of
        Continue l \<Rightarrow> line_keys rmsg killer len cols ks l
      | r \<Rightarrow> r)"

text \<open>\<open>x\<close> is where the line begins on the screen.\<close>

definition getdata :: "bool \<Rightarrow> bool \<Rightarrow> bool \<Rightarrow> nat \<Rightarrow> nat \<Rightarrow> nat \<Rightarrow> bool \<Rightarrow> int list \<Rightarrow> byte list \<Rightarrow> line_step" where
  "getdata rmsg killer clearlabel len scr_cols x db ks buf =
     (let buf = (if clearlabel then [] else buf) in
      if length buf \<ge> len then Undefined
      else line_keys rmsg killer len (scr_cols - x) ks \<lparr>lbuf = buf, lcurr = length buf, ldb = db\<rparr>)"

section \<open>The stream that is sent\<close>

definition doubled :: "byte list \<Rightarrow> byte list" where
  "doubled s = concat (map (\<lambda>c. if c = IAC then [c, c] else [c]) s)"

definition out_ok :: "term_out \<Rightarrow> bool" where
  "out_ok st \<longleftrightarrow> length (outbuf st) \<le> OBUFSIZE"

definition stream :: "term_out \<Rightarrow> byte list" where
  "stream st = sent st @ outbuf st"

lemma out_simps [simp]: "stream (oflush st) = stream st" "outbuf (oflush st) = []" "stream (out_put s st) = stream st @ s"
  by (simp_all add: stream_def oflush_def out_put_def)

lemma full_flush_facts: "stream (full_flush st) = stream st" "length (outbuf (full_flush st)) < OBUFSIZE"
  by (auto simp: full_flush_def OBUFSIZE_def)

lemma ochar_facts: "stream (ochar c st) = stream st @ doubled [c]" "out_ok (ochar c st)"
  using full_flush_facts [of st] full_flush_facts [of "out_put [c] (full_flush st)"]
  by (auto simp: ochar_def Let_def doubled_def out_ok_def) (auto simp: out_put_def)

lemma doubled_append: "doubled (a @ b) = doubled a @ doubled b"
  by (simp add: doubled_def)

lemma doubled_plain: "IAC \<notin> set s \<Longrightarrow> doubled s = s"
  by (induction s) (auto simp: doubled_def)

lemma out_copy_fits:
  "length (outbuf st) + length s \<le> OBUFSIZE \<Longrightarrow> \<exists>st'. out_copy s st = Some st' \<and> stream st' = stream st @ s \<and> out_ok st'"
  by (simp add: out_copy_def out_ok_def) (simp add: out_put_def)

lemma output_bytes_facts:
  "out_ok st \<Longrightarrow> length s < OBUFSIZE \<Longrightarrow>
    \<exists>st'. output_bytes s st = Some st' \<and> stream st' = stream st @ doubled s \<and> out_ok st'"
proof (induction s st rule: output_bytes.induct)
  case (1 s st)
  let ?n = "length (takeWhile (\<lambda>c. c \<noteq> IAC) s) + 1"
  show ?case
  proof (cases "?n \<le> length s")
    case True
    let ?st = "if length (outbuf st) + ?n + 1 > OBUFSIZE then oflush st else st"
    have n: "length (take ?n s @ [IAC]) = ?n + 1" using True by simp
    have "length (outbuf ?st) + length (take ?n s @ [IAC]) \<le> OBUFSIZE"
      using True 1(3) unfolding n by simp
    from out_copy_fits [OF this] obtain st1 where st1: "out_copy (take ?n s @ [IAC]) ?st = Some st1"
      "stream st1 = stream st @ take ?n s @ [IAC]" "out_ok st1" by auto
    have "s ! length (takeWhile (\<lambda>c. c \<noteq> IAC) s) = IAC" using True nth_length_takeWhile [of "\<lambda>c. c \<noteq> IAC" s] by simp
    then have t: "take ?n s = takeWhile (\<lambda>c. c \<noteq> IAC) s @ [IAC]"
      using True by (simp add: take_Suc_conv_app_nth takeWhile_eq_take [symmetric])
    have "doubled (takeWhile (\<lambda>c. c \<noteq> IAC) s) = takeWhile (\<lambda>c. c \<noteq> IAC) s"
      by (rule doubled_plain) (auto dest: set_takeWhileD)
    then have "doubled (take ?n s) = take ?n s @ [IAC]" unfolding t by (simp add: doubled_def)
    moreover have "doubled s = doubled (take ?n s) @ doubled (drop ?n s)"
      by (simp only: append_take_drop_id flip: doubled_append)
    moreover have "output_bytes s st = output_bytes (drop ?n s) st1"
      using True st1(1) by (subst output_bytes.simps) (simp add: Let_def)
    ultimately show ?thesis using 1(1) [OF refl True refl, of st1] st1 1(3) by auto
  next
    case False
    then have "takeWhile (\<lambda>c. c \<noteq> IAC) s = s" by (subst takeWhile_eq_take) simp
    then have none: "IAC \<notin> set s" by (auto simp: takeWhile_eq_all_conv)
    let ?st = "if length (outbuf st) + length s > OBUFSIZE then oflush st else st"
    have "length (outbuf ?st) + length s \<le> OBUFSIZE" using 1(3) by simp
    from out_copy_fits [OF this] obtain st1 where "out_copy s ?st = Some st1" "stream st1 = stream st @ s" "out_ok st1" by auto
    moreover have "output_bytes s st = out_copy s ?st" using False by (subst output_bytes.simps) (simp add: Let_def)
    ultimately show ?thesis using doubled_plain [OF none] by simp
  qed
qed

text \<open>A sequence of calls.\<close>

datatype out_call = Char byte | Bytes "byte list"

fun out_run :: "out_call list \<Rightarrow> term_out \<Rightarrow> term_out option" where
  "out_run [] st = Some st"
| "out_run (Char c # cs) st = out_run cs (ochar c st)"
| "out_run (Bytes s # cs) st = Option.bind (output_bytes s st) (out_run cs)"

fun call_bytes :: "out_call \<Rightarrow> byte list" where
  "call_bytes (Char c) = [c]"
| "call_bytes (Bytes s) = s"

lemma out_run_facts:
  "out_ok st \<Longrightarrow> \<forall>c \<in> set cs. length (call_bytes c) < OBUFSIZE \<Longrightarrow>
    \<exists>st'. out_run cs st = Some st' \<and> stream st' = stream st @ doubled (concat (map call_bytes cs)) \<and> out_ok st'"
proof (induction cs arbitrary: st)
  case (Cons c cs)
  show ?case
  proof (cases c)
    case (Char x)
    then show ?thesis using Cons.IH [of "ochar x st"] Cons.prems(2) ochar_facts [of x st] doubled_append [of "[x]" "concat (map call_bytes cs)"] by simp
  next
    case (Bytes s)
    obtain st1 where "output_bytes s st = Some st1" "stream st1 = stream st @ doubled s" "out_ok st1"
      using output_bytes_facts [OF Cons.prems(1), of s] Cons.prems(2) Bytes by auto
    then show ?thesis using Cons.IH [of st1] Cons.prems(2) Bytes doubled_append by simp
  qed
qed (simp add: doubled_def)

section \<open>Telnet commands taken out\<close>

text \<open>What a client sends: bytes of text, options, the size of the window, other commands.\<close>

datatype telnet_item = Text byte | Opt byte byte | Window byte byte | Command byte

fun item_ok :: "telnet_item \<Rightarrow> bool" where
  "item_ok (Text c) \<longleftrightarrow> c \<noteq> IAC"
| "item_ok (Opt cmd c) \<longleftrightarrow> cmd \<in> {251, 252, 253, 254}"
| "item_ok (Window c l) \<longleftrightarrow> True"
| "item_ok (Command c) \<longleftrightarrow> c \<notin> {250, 251, 252, 253, 254, 255}"

fun item_bytes :: "telnet_item \<Rightarrow> byte list" where
  "item_bytes (Text c) = [c]"
| "item_bytes (Opt cmd c) = [IAC, cmd, c]"
| "item_bytes (Window c l) = [IAC, SB, 31, 0, c, 0, l, IAC, SE]"
| "item_bytes (Command c) = [IAC, c]"

fun item_text :: "telnet_item \<Rightarrow> byte list" where
  "item_text (Text c) = [c]"
| "item_text i = []"

fun item_size :: "telnet_item \<Rightarrow> (byte \<times> byte) list" where
  "item_size (Window c l) = [(l, c)]"
| "item_size i = []"

text \<open>The input as it comes in several reads.\<close>

primrec read_all :: "byte list list \<Rightarrow> telnet \<Rightarrow> byte list \<times> telnet" where
  "read_all [] t = ([], t)"
| "read_all (s # rs) t = (let (x, t) = filter_telnet s t; (y, t) = read_all rs t in (x @ y, t))"

lemma filter_telnet_append:
  "filter_telnet (a @ b) t = (let (x, t) = filter_telnet a t; (y, t) = filter_telnet b t in (x @ y, t))"
  by (induction a arbitrary: t) (auto simp: Let_def split: prod.splits)

lemma read_all_concat: "read_all rs t = filter_telnet (concat rs) t"
  by (induction rs arbitrary: t) (simp_all add: filter_telnet_append)

definition at_rest :: "telnet \<Rightarrow> bool" where
  "at_rest t \<longleftrightarrow> telnet_state t = 0 \<and> \<not> naw_changed t"

lemma filter_item:
  assumes "item_ok i" "at_rest t"
  shows "fst (filter_telnet (item_bytes i) t) = item_text i \<and> at_rest (snd (filter_telnet (item_bytes i) t))
    \<and> naws (snd (filter_telnet (item_bytes i) t)) = naws t @ item_size i"
  using assms
  by (cases i) (auto simp: at_rest_def telnet_machine_def IAC_def SB_def SE_def Let_def)

lemma filter_items:
  assumes "list_all item_ok is" "at_rest t"
  shows "fst (filter_telnet (concat (map item_bytes is)) t) = concat (map item_text is)
    \<and> at_rest (snd (filter_telnet (concat (map item_bytes is)) t))
    \<and> naws (snd (filter_telnet (concat (map item_bytes is)) t)) = naws t @ concat (map item_size is)"
  using assms
proof (induction "is" arbitrary: t)
  case (Cons i items)
  obtain x u where a: "filter_telnet (item_bytes i) t = (x, u)" by (cases "filter_telnet (item_bytes i) t")
  obtain y v where b: "filter_telnet (concat (map item_bytes items)) u = (y, v)"
    by (cases "filter_telnet (concat (map item_bytes items)) u")
  show ?case using filter_item [of i t] Cons.IH [of u] Cons.prems a b by (simp add: filter_telnet_append)
qed simp

section \<open>Characters from any reads\<close>

text \<open>What is still to come once the telnet commands are taken out; there are to be no zero bytes in it.\<close>

definition to_come :: "byte list \<Rightarrow> byte list list \<Rightarrow> telnet \<Rightarrow> byte list" where
  "to_come b rs t = b @ fst (filter_telnet (concat rs) t)"

definition pending :: "term_in \<Rightarrow> byte list" where
  "pending i = to_come (inbuf i) (reads i) (tel i)"

definition no_zeros :: "term_in \<Rightarrow> bool" where
  "no_zeros i \<longleftrightarrow> 0 \<notin> set (pending i)"

fun next_char :: "byte \<Rightarrow> byte list \<Rightarrow> (byte \<times> byte list) option" where
  "next_char l [] = None"
| "next_char l (c # s) = (if paired c l then next_char 0 s else if c = 12 then next_char 12 s else Some (c, s))"

lemma to_come_read:
  "filter_telnet s t = (x, u) \<Longrightarrow> to_come [] (s # rs) t = to_come x rs u"
  by (simp add: to_come_def filter_telnet_append split: prod.split)

lemma to_come_simps [simp]: "to_come (c # b) rs t = c # to_come b rs t" "to_come [] [] t = []"
  by (simp_all add: to_come_def)

text \<open>A result of the loop over the reads is that of the characters in one piece.\<close>

definition agrees :: "(byte \<times> term_in) option \<Rightarrow> (byte \<times> byte list) option \<Rightarrow> bool" where
  "agrees r q \<longleftrightarrow> (case r of None \<Rightarrow> q = None | Some (c, i) \<Rightarrow> q = Some (c, pending i) \<and> lastch i = c)"

lemma igetch_agrees:
  "0 \<notin> set (to_come b rs t) \<Longrightarrow> agrees (igetch_loop b rs t l) (next_char l (to_come b rs t))"
  "0 \<notin> set (to_come (c # b) rs t) \<Longrightarrow> agrees (igetch_char c b rs t l) (next_char l (to_come (c # b) rs t))"
proof (induction b rs t l and c b rs t l rule: igetch_loop_igetch_char.induct)
  case (2 s rs t l)
  obtain x u where f: "filter_telnet s t = (x, u)" by (cases "filter_telnet s t")
  note come = to_come_read [OF f, of rs]
  show ?case
  proof (cases x)
    case Nil
    then have "igetch_loop [] (s # rs) t l = igetch_loop [] rs u l" using f by simp
    then show ?thesis using 2(1) [OF f [symmetric] Nil] 2(3) Nil come by simp
  next
    case (Cons c b)
    then have "igetch_loop [] (s # rs) t l = igetch_char c b rs u l" using f by simp
    then show ?thesis using 2(2) [OF f [symmetric] Cons] 2(3) Cons come
      by (simp del: igetch_char.simps next_char.simps)
  qed
qed (auto simp: agrees_def pending_def)

lemma next_char_set: "next_char l s = Some (c, s') \<Longrightarrow> set s' \<subseteq> set s"
  by (induction l s rule: next_char.induct) (auto split: if_splits)

lemma igetch_next:
  assumes "no_zeros i" "next_char (lastch i) (pending i) = Some (c, s)"
  shows "\<exists>i'. igetch i = Some (c, i') \<and> no_zeros i' \<and> pending i' = s \<and> lastch i' = c"
proof -
  have "agrees (igetch i) (Some (c, s))"
    using igetch_agrees(1) [of "inbuf i" "reads i" "tel i" "lastch i"] assms by (simp add: no_zeros_def pending_def igetch_def)
  then show ?thesis using assms(1) next_char_set [OF assms(2)]
    by (auto simp: agrees_def no_zeros_def split: option.splits)
qed

section \<open>Keys as they are typed\<close>

text \<open>Characters, cursor keys, the six keys above them, escape with a character, and return, sent with or without a line feed.\<close>

datatype keystroke = TChar byte | TArrow nat | TNav nat | TEsc byte | TEnter bool

fun keystroke_ok :: "keystroke \<Rightarrow> bool" where
  "keystroke_ok (TChar c) \<longleftrightarrow> c \<notin> {0, 10, 12, 13, 26, 27}"
| "keystroke_ok (TArrow n) \<longleftrightarrow> n < 4"
| "keystroke_ok (TNav n) \<longleftrightarrow> n < 6"
| "keystroke_ok (TEsc c) \<longleftrightarrow> c \<notin> {0, 10, 12, 13, 26, 91, 79, 49, 52}"
| "keystroke_ok (TEnter lf) \<longleftrightarrow> True"

fun keystroke_bytes :: "keystroke \<Rightarrow> byte list" where
  "keystroke_bytes (TChar c) = [c]"
| "keystroke_bytes (TArrow n) = [27, 91, 65 + of_nat n]"
| "keystroke_bytes (TNav n) = [27, 91, 49 + of_nat n, 126]"
| "keystroke_bytes (TEsc c) = [27, c]"
| "keystroke_bytes (TEnter lf) = 13 # (if lf then [10] else [])"

fun keystroke_key :: "keystroke \<Rightarrow> int \<times> int option" where
  "keystroke_key (TChar c) = (char_int c, None)"
| "keystroke_key (TArrow n) = (0x101 + int n, None)"
| "keystroke_key (TNav n) = (0x201 + int n, None)"
| "keystroke_key (TEsc c) = (27, Some (char_int c))"
| "keystroke_key (TEnter lf) = (13, None)"

fun read_keys :: "bool \<Rightarrow> nat \<Rightarrow> term_in \<Rightarrow> (int \<times> int option) list option" where
  "read_keys ctrl_z 0 i = Some []"
| "read_keys ctrl_z (Suc n) i =
     (case igetkey ctrl_z i of
        None \<Rightarrow> None
      | Some (k, a, i) \<Rightarrow> map_option ((#) (k, a)) (read_keys ctrl_z n i))"

text \<open>The line feed of a return may still be there.\<close>

definition ready :: "term_in \<Rightarrow> byte list \<Rightarrow> bool" where
  "ready i s \<longleftrightarrow> no_zeros i \<and> (pending i = s \<and> lastch i \<noteq> 10 \<or> pending i = 10 # s \<and> lastch i = 13)"

lemma ready_char:
  assumes "ready i (c # s)" "c \<noteq> 10" "c \<noteq> 12"
  obtains i' where "igetch i = Some (c, i')" "no_zeros i'" "pending i' = s" "lastch i' = c"
proof -
  have "next_char (lastch i) (pending i) = Some (c, s)" using assms by (auto simp: ready_def paired_def)
  then show ?thesis using igetch_next assms(1) that unfolding ready_def by blast
qed

lemma ready_next: "no_zeros i \<Longrightarrow> pending i = s \<Longrightarrow> lastch i = c \<Longrightarrow> c \<noteq> 10 \<Longrightarrow> ready i s"
  by (simp add: ready_def)

lemma char_int_eq: "char_int c = char_int d \<longleftrightarrow> c = d"
proof
  assume "char_int c = char_int d"
  then have "(word_of_int (sint c) :: byte) = word_of_int (sint d)" by (simp add: char_int_def)
  then show "c = d" by simp
qed simp

lemma char_int_is:
  "char_int c = 26 \<longleftrightarrow> c = 26" "char_int c = 27 \<longleftrightarrow> c = 27" "char_int c = 91 \<longleftrightarrow> c = 91" "char_int c = 79 \<longleftrightarrow> c = 79"
  "char_int c = 49 \<longleftrightarrow> c = 49" "char_int c = 52 \<longleftrightarrow> c = 52" "char_int c = 126 \<longleftrightarrow> c = 126"
  using char_int_eq [of c 26] char_int_eq [of c 27] char_int_eq [of c 91] char_int_eq [of c 79] char_int_eq [of c 49]
    char_int_eq [of c 52] char_int_eq [of c 126] by (simp_all add: char_int_def)

lemma char_int_of_nat: "n < 128 \<Longrightarrow> char_int (of_nat n) = int n"
  by (simp add: char_int_def signed_of_nat signed_take_bit_int_eq_self)

lemma key_read:
  assumes "keystroke_ok k" "ready i (keystroke_bytes k @ s)"
  shows "\<exists>i'. igetkey z i = Some (fst (keystroke_key k), snd (keystroke_key k), i') \<and> ready i' s"
proof (cases k)
  case (TChar c)
  then have r: "ready i (c # s)" "c \<noteq> 10" "c \<noteq> 12" "c \<noteq> 26" "c \<noteq> 27" using assms by auto
  obtain i1 where 1: "igetch i = Some (c, i1)" "no_zeros i1" "pending i1 = s" "lastch i1 = c" using ready_char [OF r(1-3)] .
  then show ?thesis using TChar r ready_next [OF 1(2-4)]
    by (simp add: igetkey_def eval_nat_numeral Let_def char_int_is)
next
  case (TEnter lf)
  then have r: "ready i (13 # (if lf then [10] else []) @ s)" using assms(2) by simp
  obtain i1 where 1: "igetch i = Some (13, i1)" "no_zeros i1" "pending i1 = (if lf then [10] else []) @ s" "lastch i1 = 13"
    using ready_char [OF r] by auto
  then have "ready i1 s" by (simp add: ready_def)
  then show ?thesis using TEnter 1 by (simp add: igetkey_def eval_nat_numeral Let_def) (simp add: char_int_def)
next
  case (TEsc c)
  then have r: "ready i (27 # c # s)" "c \<noteq> 10" "c \<noteq> 12" "c \<notin> {26, 91, 79, 49, 52}" using assms by auto
  obtain i1 where 1: "igetch i = Some (27, i1)" "no_zeros i1" "pending i1 = c # s" "lastch i1 = 27"
    using ready_char [OF r(1)] by auto
  obtain i2 where 2: "igetch i1 = Some (c, i2)" "no_zeros i2" "pending i2 = s" "lastch i2 = c"
    using ready_char [OF ready_next [OF 1(2-4)] r(2,3)] by auto
  then show ?thesis using TEsc 1 r ready_next [OF 2(2-4)]
    by (simp add: igetkey_def eval_nat_numeral Let_def char_int_is)
next
  case (TArrow n)
  then have r: "ready i (27 # 91 # (65 + of_nat n) # s)" and n: "n < 4" using assms by auto
  have c: "(65 + of_nat n :: byte) = of_nat (65 + n)" by simp
  have ci: "char_int (65 + of_nat n) = 65 + int n" unfolding c using n by (subst char_int_of_nat) auto
  have ne: "(65 + of_nat n :: byte) \<notin> {10, 12, 26}" using n by (auto simp: char_int_eq [symmetric] ci) (simp_all add: char_int_def)
  obtain i1 where 1: "igetch i = Some (27, i1)" "no_zeros i1" "pending i1 = 91 # (65 + of_nat n) # s" "lastch i1 = 27"
    using ready_char [OF r] by auto
  obtain i2 where 2: "igetch i1 = Some (91, i2)" "no_zeros i2" "pending i2 = (65 + of_nat n) # s" "lastch i2 = 91"
    using ready_char [OF ready_next [OF 1(2-4)]] by auto
  obtain i3 where 3: "igetch i2 = Some (65 + of_nat n, i3)" "no_zeros i3" "pending i3 = s" "lastch i3 = 65 + of_nat n"
    using ready_char [OF ready_next [OF 2(2-4)]] ne by auto
  have "ready i3 s" using ready_next [OF 3(2-4)] ne by auto
  then show ?thesis using TArrow 1 2 3 n by (simp add: igetkey_def eval_nat_numeral Let_def ci) (simp add: char_int_def)
next
  case (TNav n)
  then have r: "ready i (27 # 91 # (49 + of_nat n) # 126 # s)" and n: "n < 6" using assms by auto
  have c: "(49 + of_nat n :: byte) = of_nat (49 + n)" by simp
  have ci: "char_int (49 + of_nat n) = 49 + int n" unfolding c using n by (subst char_int_of_nat) auto
  have ne: "(49 + of_nat n :: byte) \<notin> {10, 12, 26}" using n by (auto simp: char_int_eq [symmetric] ci) (simp_all add: char_int_def)
  obtain i1 where 1: "igetch i = Some (27, i1)" "no_zeros i1" "pending i1 = 91 # (49 + of_nat n) # 126 # s" "lastch i1 = 27"
    using ready_char [OF r] by auto
  obtain i2 where 2: "igetch i1 = Some (91, i2)" "no_zeros i2" "pending i2 = (49 + of_nat n) # 126 # s" "lastch i2 = 91"
    using ready_char [OF ready_next [OF 1(2-4)]] by auto
  obtain i3 where 3: "igetch i2 = Some (49 + of_nat n, i3)" "no_zeros i3" "pending i3 = 126 # s" "lastch i3 = 49 + of_nat n"
    using ready_char [OF ready_next [OF 2(2-4)]] ne by auto
  have "ready i3 (126 # s)" using ready_next [OF 3(2-4)] ne by auto
  then obtain i4 where 4: "igetch i3 = Some (126, i4)" "no_zeros i4" "pending i4 = s" "lastch i4 = 126"
    by (rule ready_char) auto
  have "ready i4 s" using ready_next [OF 4(2-4)] by simp
  then show ?thesis using TNav 1 2 3 4 n
    by (simp add: igetkey_def eval_nat_numeral Let_def ci) (simp add: char_int_def)
qed

lemma keys_read:
  "list_all keystroke_ok ks \<Longrightarrow> ready i (concat (map keystroke_bytes ks)) \<Longrightarrow> read_keys z (length ks) i = Some (map keystroke_key ks)"
proof (induction ks arbitrary: i)
  case (Cons k ks)
  then obtain i' where "igetkey z i = Some (fst (keystroke_key k), snd (keystroke_key k), i')" "ready i' (concat (map keystroke_bytes ks))"
    using key_read [of k i "concat (map keystroke_bytes ks)" z] by auto
  then show ?case using Cons.IH [of i'] Cons.prems(1) by simp
qed simp

section \<open>Properties\<close>


text \<open>
  C40: Typed keys arrive as they were typed, each once, characters, cursor keys, the keys above them, escape with a
  character, and return with or without a line feed, however what the terminal sends is cut into reads and
  wherever telnet commands stand in it, even between the bytes of one key.
\<close>

theorem keys_typed:
  assumes "concat rs = concat (map item_bytes items)" "list_all item_ok items" "at_rest t"
    "concat (map item_text items) = concat (map keystroke_bytes ks)" "list_all keystroke_ok ks"
  shows "read_keys z (length ks) \<lparr>inbuf = [], reads = rs, tel = t, lastch = 0\<rparr> = Some (map keystroke_key ks)"
proof (rule keys_read [OF assms(5)])
  have "0 \<notin> set (keystroke_bytes k)" if "keystroke_ok k" for k
  proof (cases k)
    case (TArrow n)
    then have "n \<in> {0, 1, 2, 3}" using that by auto
    then show ?thesis using TArrow by auto
  next
    case (TNav n)
    then have "n \<in> {0, 1, 2, 3, 4, 5}" using that by auto
    then show ?thesis using TNav by auto
  qed (use that in auto)
  then have "0 \<notin> set (concat (map keystroke_bytes ks))" using assms(5) by (auto simp: list_all_iff)
  then show "ready \<lparr>inbuf = [], reads = rs, tel = t, lastch = 0\<rparr> (concat (map keystroke_bytes ks))"
    using filter_items [OF assms(2,3)] assms(1,4) by (simp add: ready_def no_zeros_def pending_def to_come_def)
qed

text \<open>
  In the input of a line without characters of two bytes, whatever keys come, nothing is read or copied outside the line
  and the line never gets as long as its array, for arrays of up to 80 bytes.
\<close>

theorem getdata_bounds:
  assumes "2 \<le> len" "len \<le> TMPLEN" "clearlabel \<or> length buf < len" "18 \<notin> set ks"
  shows "case getdata rmsg killer clearlabel len scr_cols x False ks buf of
      Continue l \<Rightarrow> length (lbuf l) < len \<and> lcurr l \<le> length (lbuf l)
    | Finished l \<Rightarrow> length (lbuf l) < len
    | Undefined \<Rightarrow> False"
proof -
  define ok where "ok = (\<lambda>l :: line_in. length (lbuf l) < len \<and> lcurr l \<le> length (lbuf l) \<and> \<not> ldb l)"
  define good where "good = (\<lambda>r. case r of Continue l \<Rightarrow> ok l | Finished l \<Rightarrow> length (lbuf l) < len | Undefined \<Rightarrow> False)"
  have g: "good (Continue l) = ok l" "good (Finished l) = (length (lbuf l) < len)" for l by (simp_all add: good_def)
  have good_if: "(c \<Longrightarrow> good a) \<Longrightarrow> (\<not> c \<Longrightarrow> good b) \<Longrightarrow> good (if c then a else b)" for c a b by simp
  have step: "good (line_key rmsg killer len cols k l)" if o: "ok l" and k: "k \<noteq> 18" for cols k l
  proof -
    have l: "length (lbuf l) < len" "lcurr l \<le> length (lbuf l)" "\<not> ldb l" using o by (simp_all add: ok_def)
    have b: "good (line_backspace l)" "good (line_del l)" using l assms(2)
      by (auto simp: line_backspace_def line_del_def Let_def g ok_def)
    have i: "good (line_insert len c l)" if "\<not> (length (lbuf l) \<ge> cols \<or> length (lbuf l) + 1 \<ge> len)" for c
      using l that assms(2) by (simp add: line_insert_def Let_def g ok_def)
    show ?thesis unfolding line_key_def Let_def
      by (intro good_if b i) (use l k assms(1) in \<open>auto simp: g ok_def\<close>)
  qed
  have run: "good (line_keys rmsg killer len cols ks l)" if "ok l" "18 \<notin> set ks" for cols ks l
    using that
  proof (induction ks arbitrary: l)
    case (Cons k ks)
    then show ?case using step [of l k cols] by (cases "line_key rmsg killer len cols k l") (auto simp: good_def)
  qed (simp add: good_def)
  have "good (getdata rmsg killer clearlabel len scr_cols x False ks buf)"
    using run [of _ ks] assms(1,3,4) by (auto simp: getdata_def Let_def ok_def)
  then show ?thesis unfolding good_def ok_def by (auto split: line_step.splits)
qed

section \<open>Witnesses\<close>


lemma keys_typed_witness:
  "read_keys False 2 \<lparr>inbuf = [], reads = [[27, 255], [251, 1, 91], [65, 13], [10]],
     tel = \<lparr>telnet_state = 0, naw_col = 0, naw_ln = 0, naw_changed = False, naws = []\<rparr>, lastch = 0\<rparr>
   = Some [(0x101, None), (13, None)]"
proof -
  let ?t = "\<lparr>telnet_state = 0, naw_col = 0, naw_ln = 0, naw_changed = False, naws = []\<rparr>"
  have "read_keys False (length [TArrow 0, TEnter True])
      \<lparr>inbuf = [], reads = [[27, 255], [251, 1, 91], [65, 13], [10]], tel = ?t, lastch = 0\<rparr> = Some (map keystroke_key [TArrow 0, TEnter True])"
    by (rule keys_typed [where items = "[Text 27, Opt 251 1, Text 91, Text 65, Text 13, Text 10]"])
      (simp_all add: IAC_def at_rest_def)
  moreover have "length [TArrow 0, TEnter True] = 2" by simp
  ultimately show ?thesis by (simp only: keystroke_key.simps list.map) simp
qed

lemma getdata_bounds_witness:
  "case getdata False False True 10 80 0 False [65, 0x104, 66, 13] [] of Finished l \<Rightarrow> length (lbuf l) < 10 | _ \<Rightarrow> False"
proof -
  have "\<exists>l. getdata False False True 10 80 0 False [65, 0x104, 66, 13] [] = Finished l"
    by (simp add: getdata_def line_key_def line_insert_def printable_def TMPLEN_def Let_def)
  then show ?thesis using getdata_bounds [unfolded TMPLEN_def, of 10 True "[]" "[65, 0x104, 66, 13]" False False 80 0]
    by auto
qed

section \<open>What goes wrong\<close>

definition fresh_telnet :: telnet where
  "fresh_telnet = \<lparr>telnet_state = 0, naw_col = 0, naw_ln = 0, naw_changed = False, naws = []\<rparr>"

text \<open>A doubled escape stays in the state behind the first, so the next byte is lost.\<close>

lemma escape_eats_next: "fst (filter_telnet [255, 255, 65, 66] fresh_telnet) = [255, 66]"
  by code_simp

text \<open>A piece longer than the buffer is copied into it all the same.\<close>

lemma output_overflows:
  assumes "IAC \<notin> set s" "length s > OBUFSIZE"
  shows "output_bytes s st = None"
proof -
  have "takeWhile (\<lambda>c. c \<noteq> IAC) s = s" using assms(1) by (auto simp: takeWhile_eq_all_conv)
  from arg_cong [OF this, of length] have "length (takeWhile (\<lambda>c. c \<noteq> IAC) s) = length s" .
  then show ?thesis using assms(2) by (subst output_bytes.simps) (simp add: Let_def out_copy_def)
qed

text \<open>A zero byte is skipped, but not as the first one of a read.\<close>

lemma zero_in_front:
  "read_keys False 2 \<lparr>inbuf = [], reads = [[13, 0, 65]], tel = fresh_telnet, lastch = 0\<rparr> = Some [(13, None), (65, None)]"
  "read_keys False 2 \<lparr>inbuf = [], reads = [[13], [0, 65]], tel = fresh_telnet, lastch = 0\<rparr> = Some [(13, None), (0, None)]"
  by code_simp+

text \<open>With characters of two bytes the cursor can get behind the end of the line; and a line longer than \<open>tmp\<close>.\<close>

lemma half_right: "line_keys False False 10 80 [-127, 0x104, 0x103, 65] \<lparr>lbuf = [], lcurr = 0, ldb = True\<rparr> = Undefined"
  by code_simp

lemma insert_long: "line_keys False False 100 80 [65, 0x104, 66] \<lparr>lbuf = [], lcurr = 0, ldb = False\<rparr> = Undefined"
  by code_simp

lemma raw_write_loses: "13 \<notin> set s \<Longrightarrow> 255 \<notin> set s \<Longrightarrow> raw_write s = []"
  by (induction s) (auto simp: raw_write_def)

end
